(* ===== verification/Prelude.thy ===== *)
theory Prelude
  imports Main "HOL-Library.Word"
begin

unbundle bit_operations_syntax

text \<open>
  Shared vocabulary of the development: names for the C integer types, the collections of
  simplification rules that the component theories extend, and the generic facts on words,
  bytes and lists that more than one component needs. Nothing here models source code.
\<close>

section \<open>Names for C types\<close>

type_synonym byte = "8 word"
type_synonym u16 = "16 word"
type_synonym u32 = "32 word"
type_synonym u64 = "64 word"
type_synonym size_t = "64 word"
type_synonym ptr = "64 word"

named_theorems byte_simps \<open>masks and shifts of bytes as arithmetic on their values\<close>
named_theorems stream_simps \<open>field updates of the nanopb streams\<close>
named_theorems cbs_simps \<open>evaluation of the CBS readers\<close>

section \<open>Words as bit strings\<close>

text \<open>Shifted masks stay as the source writes them.\<close>

declare push_bit_and [simp del]

lemma unat_less_8: "unat (w :: byte) < 256"
  using unsigned_less [of w, where ?'a = nat] by simp

lemma unat_less_16: "unat (w :: u16) < 2 ^ 16"
  using unsigned_less [of w, where ?'a = nat] by simp

lemma unat_less_32: "unat (w :: u32) < 2 ^ 32"
  using unsigned_less [of w, where ?'a = nat] by simp

lemma unat_less_64: "unat (w :: u64) < 2 ^ 64"
  using unsigned_less [of w, where ?'a = nat] by simp

lemmas unat_less = unat_less_8 unat_less_16 unat_less_32 unat_less_64

lemma or_push_eq_add:
  fixes a b :: "'a::len word"
  assumes "unat b < 2 ^ n"
  shows "push_bit n a OR b = push_bit n a + b"
proof -
  have "take_bit n b = b"
    using assms by (simp add: word_unat_eq_iff unsigned_take_bit_eq take_bit_nat_eq_self)
  then have high: "bit b m \<Longrightarrow> m < n" for m
    by (metis bit_take_bit_iff)
  have "push_bit n a AND b = 0"
    by (rule bit_eqI) (auto simp: bit_simps dest: high)
  then show ?thesis by (simp add: disjunctive_add_eq_or)
qed

lemma split_low_high:
  fixes v :: "'a::len word"
  shows "push_bit n (v AND mask k) OR push_bit (n + k) (drop_bit k v) = push_bit n v"
proof (rule bit_word_eqI)
  fix i
  assume "i < LENGTH('a)"
  have "(\<not> i < n \<and> i - n < k) \<or> (\<not> i < n + k) \<or> i < n" by linarith
  then show "bit (push_bit n (v AND mask k) OR push_bit (n + k) (drop_bit k v)) i
      = bit (push_bit n v) i"
    by (auto simp: bit_simps not_less le_add_diff_inverse2 add.commute)
qed

lemma mask7: "(0x7F :: 'a::len word) = mask 7"
  by (simp add: mask_eq_exp_minus_1)

lemma bit_7F [byte_simps]: "bit (0x7F :: int) n \<longleftrightarrow> n < 7"
  using bit_mask_iff [of 7 n, where ?'a = int] by (simp add: mask_eq_exp_minus_1)

lemma bit_80 [byte_simps]: "bit (0x80 :: int) n \<longleftrightarrow> n = 7"
  using bit_push_bit_iff [of 7 "1 :: int" n] by (auto simp: bit_1_iff)

lemma unat_drop_bit: "unat (drop_bit n (v :: 'a::len word)) = unat v div 2 ^ n"
  by (simp only: unsigned_drop_bit_eq drop_bit_nat_def take_bit_nat_eq_self unsigned_less)

lemma unat_push_bit: "unat v * 2 ^ n < 2 ^ LENGTH('a) \<Longrightarrow> unat (push_bit n (v :: 'a::len word)) = unat v * 2 ^ n"
  by (simp only: unsigned_push_bit_eq push_bit_nat_def take_bit_nat_eq_self)

lemma bit_FF [byte_simps]: "bit (0xFF :: int) n \<longleftrightarrow> n < 8"
  using bit_mask_iff [of 8 n, where ?'a = int] by (simp add: mask_eq_exp_minus_1)

lemma bit_byte_le: "bit (b :: byte) n \<Longrightarrow> n < 8"
  using bit_imp_le_length [of b n] by simp

lemma unat_ucast_byte: "unat (ucast (b :: byte) :: u64) = unat b"
  by (simp add: unsigned_ucast_eq take_bit_nat_eq_self unat_less_8 order_less_trans [OF unat_less_8])

lemma bit_byte_field:
  fixes v :: "'a::len word"
  shows "bit (push_bit k (ucast (ucast (drop_bit k v AND 0xFF) :: byte)) :: 'a word) n \<longleftrightarrow>
     k \<le> n \<and> n < k + 8 \<and> n < LENGTH('a) \<and> bit v n"
    and "bit (ucast (ucast (v AND 0xFF) :: byte) :: 'a word) n \<longleftrightarrow>
     n < 8 \<and> n < LENGTH('a) \<and> bit v n"
  by (auto simp: bit_simps byte_simps)

lemma bit_70 [byte_simps]: "bit (0x70 :: int) n \<longleftrightarrow> 4 \<le> n \<and> n < 7"
proof -
  have "(0x70 :: int) = push_bit 4 (mask 3)" by (simp add: mask_eq_exp_minus_1)
  then show ?thesis by (simp only: bit_push_bit_iff bit_mask_iff) auto
qed

lemma high_bits_clear: "unat (v :: 'a::len word) < 2 ^ k \<Longrightarrow> bit v n \<Longrightarrow> n < k"
proof -
  assume "unat v < 2 ^ k" and b: "bit v n"
  then have "take_bit k v = v"
    by (simp add: word_unat_eq_iff unsigned_take_bit_eq take_bit_nat_eq_self)
  with b show ?thesis by (metis bit_take_bit_iff)
qed

lemma split_low_high_ucast:
  fixes v :: u64
  shows "push_bit n (ucast (v AND 0x7F)) OR push_bit (n + 7) (ucast (drop_bit 7 v)) =
    (push_bit n (ucast v) :: u32)"
proof (rule bit_word_eqI)
  fix i
  assume i: "i < LENGTH(32)"
  have "i < n \<or> (n \<le> i \<and> i - n < 7) \<or> n + 7 \<le> i" by linarith
  then show "bit (push_bit n (ucast (v AND 0x7F)) OR push_bit (n + 7) (ucast (drop_bit 7 v)) :: u32) i
      = bit (push_bit n (ucast v) :: u32) i"
    using i by (auto simp: bit_simps byte_simps)
qed

lemma ucast_u32_u64: "ucast (ucast (v :: u32) :: u64) = v"
  by (rule bit_word_eqI) (simp add: bit_simps)

lemma bit_7 [byte_simps]: "bit (0x7 :: int) n \<longleftrightarrow> n < 3"
  using bit_mask_iff [of 3 n, where ?'a = int] by (simp add: mask_eq_exp_minus_1)

section \<open>Bytes with a continuation bit\<close>

text \<open>Masking and continuation bits of the bytes a varint is made of.\<close>

lemma cont_byte [byte_simps]:
  fixes v :: u64
  shows "(ucast (v AND 0x7F) OR 0x80 :: byte) AND 0x80 \<noteq> 0"
    and "((ucast (v AND 0x7F) OR 0x80 :: byte)) AND 0x7F = ucast (v AND 0x7F)"
    and "ucast ((ucast (v AND 0x7F) OR 0x80 :: byte) AND 0x7F) = v AND 0x7F"
  subgoal
  proof -
    have "bit ((ucast (v AND 0x7F) OR 0x80 :: byte) AND 0x80) 7" by (simp add: bit_simps)
    then show ?thesis by auto
  qed
  subgoal by (rule bit_word_eqI) (auto simp: byte_simps bit_simps)
  subgoal by (rule bit_word_eqI) (auto simp: byte_simps bit_simps)
  done

lemma low_byte [byte_simps]:
  fixes v :: u64
  assumes "v \<le> 0x7F"
  shows "(ucast v :: byte) AND 0x80 = 0" and "ucast ((ucast v :: byte) AND 0x7F) = v"
    and "(ucast (v AND 0x7F) :: byte) = ucast v" and "v AND 0x7F = v"
proof -
  have "unat v < 2 ^ 7" using assms by (simp add: word_le_nat_alt)
  then have t: "take_bit 7 v = v"
    by (simp add: word_unat_eq_iff unsigned_take_bit_eq take_bit_nat_eq_self)
  then have hi: "bit v n \<Longrightarrow> n < 7" for n by (metis bit_take_bit_iff)
  show "(ucast v :: byte) AND 0x80 = 0"
    by (rule bit_word_eqI) (auto simp: byte_simps bit_simps dest: hi)
  show "ucast ((ucast v :: byte) AND 0x7F) = v"
    by (rule bit_word_eqI) (auto simp: byte_simps bit_simps dest: hi)
  show m: "v AND 0x7F = v" using t by (simp add: mask7 take_bit_eq_mask)
  show "(ucast (v AND 0x7F) :: byte) = ucast v" by (simp add: m)
qed

lemma byte_bit_80: "(b :: byte) AND 0x80 = 0 \<longleftrightarrow> \<not> bit b 7"
proof
  assume "b AND 0x80 = 0"
  then have "\<not> bit (b AND 0x80) 7" by simp
  then show "\<not> bit b 7" by (simp add: bit_simps byte_simps)
next
  assume "\<not> bit b 7"
  then show "b AND 0x80 = 0" by (intro bit_word_eqI) (auto simp: bit_simps byte_simps)
qed

lemma byte_high_bit: "(b :: byte) AND 0x80 \<noteq> 0 \<Longrightarrow> (b AND 0x7F) OR 0x80 = b"
  and byte_low_bits: "(b :: byte) AND 0x80 = 0 \<Longrightarrow> b AND 0x7F = b"
proof -
  have bits: "bit ((b AND 0x7F) OR 0x80) n = (bit b n \<and> n \<noteq> 7 \<or> n = 7)"
      "bit (b AND 0x7F) n = (bit b n \<and> n \<noteq> 7)" if "n < 8" for n
    using that by (auto simp: bit_simps byte_simps)
  show "b AND 0x80 \<noteq> 0 \<Longrightarrow> (b AND 0x7F) OR 0x80 = b"
    by (rule bit_word_eqI) (simp add: bits byte_bit_80, blast)
  show "b AND 0x80 = 0 \<Longrightarrow> b AND 0x7F = b"
    by (rule bit_word_eqI) (simp add: bits byte_bit_80, blast)
qed

end
