(* ===== verification/Pb_Stream.thy ===== *)
theory Pb_Stream
  imports Prelude
begin

text \<open>
  nanopb's input and output streams (\<^verbatim>\<open>pb_decode.c\<close> lines 83-181, \<^verbatim>\<open>pb_encode.c\<close>
  lines 70-124 and the stream structures of \<^verbatim>\<open>pb_decode.h\<close> and \<^verbatim>\<open>pb_encode.h\<close>).

  A C stream is a callback, a state pointer for the callback, a byte budget and an error
  message. The callback and its state are one value here: a \<open>source\<close> is either the memory
  reader \<^verbatim>\<open>buf_read\<close> with the bytes from its pointer on, or a user callback with its
  state; a \<open>sink\<close> is the NULL callback (a sizing stream), the memory writer
  \<^verbatim>\<open>buf_write\<close> with the bytes stored so far, or a user callback with its state. A user
  callback is a function on its own state, as the rules in \<^verbatim>\<open>pb_decode.h\<close> and
  \<^verbatim>\<open>pb_encode.h\<close> say: it returns false on an input or output error, and the stream's
  counters are not its concern.

  Every operation returns its result with the new stream: \<open>None\<close> where the C function
  returns false, and the stream as the C function leaves it in both cases.
\<close>

section \<open>Definitions\<close>

datatype 's source = Buf "byte list" | User "'s \<Rightarrow> nat \<Rightarrow> byte list option \<times> 's" 's

record 's pb_istream_t =
  source :: "'s source"
  bytes_left :: nat
  ierrmsg :: "string option"

datatype 's sink = Sizing | OBuf "byte list" | OUser "'s \<Rightarrow> byte list \<Rightarrow> bool \<times> 's" 's

record 's pb_ostream_t =
  sink :: "'s sink"
  max_size :: size_t
  bytes_written :: size_t
  oerrmsg :: "string option"

text \<open>\<^verbatim>\<open>PB_SET_ERROR\<close> keeps the first message.\<close>

definition iset_error :: "string \<Rightarrow> 's pb_istream_t \<Rightarrow> 's pb_istream_t" where
  "iset_error msg s =
     s\<lparr>ierrmsg := (case ierrmsg s of None \<Rightarrow> Some msg | Some m \<Rightarrow> Some m)\<rparr>"

definition oset_error :: "string \<Rightarrow> 's pb_ostream_t \<Rightarrow> 's pb_ostream_t" where
  "oset_error msg s =
     s\<lparr>oerrmsg := (case oerrmsg s of None \<Rightarrow> Some msg | Some m \<Rightarrow> Some m)\<rparr>"

fun is_buf :: "'s source \<Rightarrow> bool" where
  "is_buf (Buf _) = True"
| "is_buf (User _ _) = False"

fun buf_read :: "byte list \<Rightarrow> nat \<Rightarrow> byte list \<times> byte list" where
  "buf_read mem count = (take count mem, drop count mem)"

fun read_callback :: "'s source \<Rightarrow> nat \<Rightarrow> byte list option \<times> 's source" where
  "read_callback (Buf mem) count =
     (let (data, mem') = buf_read mem count in (Some data, Buf mem'))"
| "read_callback (User f st) count = (let (r, st') = f st count in (r, User f st'))"

text \<open>The part of \<^verbatim>\<open>pb_read\<close> after the skip loop: budget, callback, budget update.\<close>

definition pb_read_checked :: "nat \<Rightarrow> 's pb_istream_t \<Rightarrow> byte list option \<times> 's pb_istream_t" where
  "pb_read_checked count s =
     (if bytes_left s < count then (None, iset_error ''end-of-stream'' s)
      else case read_callback (source s) count of
        (None, src) \<Rightarrow> (None, iset_error ''io error'' (s\<lparr>source := src\<rparr>))
      | (Some data, src) \<Rightarrow>
          (Some data, s\<lparr>source := src, bytes_left := bytes_left s - count\<rparr>))"

text \<open>
  Skipping through a user callback reads chunks of 16 bytes into a scratch buffer. The
  recursive \<^verbatim>\<open>pb_read\<close> calls there have a buffer and a positive count.
\<close>

fun pb_skip_chunks :: "nat \<Rightarrow> 's pb_istream_t \<Rightarrow> byte list option \<times> 's pb_istream_t" where
  "pb_skip_chunks count s =
     (if count > 16 then
        (case pb_read_checked 16 s of
           (None, s1) \<Rightarrow> (None, s1)
         | (Some _, s1) \<Rightarrow> pb_skip_chunks (count - 16) s1)
      else pb_read_checked count s)"

declare pb_skip_chunks.simps [simp del]

definition pb_read ::
  "bool \<Rightarrow> nat \<Rightarrow> 's pb_istream_t \<Rightarrow> byte list option \<times> 's pb_istream_t" where
  "pb_read buf_is_null count s =
     (if count = 0 then (Some [], s)
      else if buf_is_null \<and> \<not> is_buf (source s) then pb_skip_chunks count s
      else pb_read_checked count s)"

definition pb_readbyte :: "'s pb_istream_t \<Rightarrow> byte option \<times> 's pb_istream_t" where
  "pb_readbyte s =
     (if bytes_left s = 0 then (None, iset_error ''end-of-stream'' s)
      else case read_callback (source s) 1 of
        (None, src) \<Rightarrow> (None, iset_error ''io error'' (s\<lparr>source := src\<rparr>))
      | (Some data, src) \<Rightarrow>
          (Some (hd data), s\<lparr>source := src, bytes_left := bytes_left s - 1\<rparr>))"

definition pb_istream_from_buffer :: "byte list \<Rightarrow> nat \<Rightarrow> 's pb_istream_t" where
  "pb_istream_from_buffer buf bufsize =
     \<lparr>source = Buf buf, bytes_left = bufsize, ierrmsg = None\<rparr>"

fun buf_write :: "byte list \<Rightarrow> byte list \<Rightarrow> byte list" where
  "buf_write stored data = stored @ data"

fun write_callback :: "'s sink \<Rightarrow> byte list \<Rightarrow> bool \<times> 's sink" where
  "write_callback Sizing data = (True, Sizing)"
| "write_callback (OBuf stored) data = (True, OBuf (buf_write stored data))"
| "write_callback (OUser f st) data = (let (ok, st') = f st data in (ok, OUser f st'))"

fun has_callback :: "'s sink \<Rightarrow> bool" where
  "has_callback Sizing = False"
| "has_callback (OBuf _) = True"
| "has_callback (OUser _ _) = True"

definition pb_ostream_from_buffer :: "size_t \<Rightarrow> 's pb_ostream_t" where
  "pb_ostream_from_buffer bufsize =
     \<lparr>sink = OBuf [], max_size = bufsize, bytes_written = 0, oerrmsg = None\<rparr>"

text \<open>\<^verbatim>\<open>PB_OSTREAM_SIZING\<close>: no callback, nothing stored.\<close>

definition pb_ostream_sizing :: "'s pb_ostream_t" where
  "pb_ostream_sizing = \<lparr>sink = Sizing, max_size = 0, bytes_written = 0, oerrmsg = None\<rparr>"

text \<open>
  \<^verbatim>\<open>pb_write(stream, buf, count)\<close>: the first \<open>count\<close> bytes at \<open>buf\<close>. A sizing stream is
  called with a null buffer (the empty list) and any count.
\<close>

definition pb_write ::
  "byte list \<Rightarrow> size_t \<Rightarrow> 's pb_ostream_t \<Rightarrow> bool \<times> 's pb_ostream_t" where
  "pb_write buf count s =
     (if 0 < count \<and> has_callback (sink s) then
        (if bytes_written s + count < bytes_written s \<or>
            max_size s < bytes_written s + count
         then (False, oset_error ''stream full'' s)
         else case write_callback (sink s) (take (unat count) buf) of
           (False, sk) \<Rightarrow> (False, oset_error ''io error'' (s\<lparr>sink := sk\<rparr>))
         | (True, sk) \<Rightarrow>
             (True, s\<lparr>sink := sk, bytes_written := bytes_written s + count\<rparr>))
      else (True, s\<lparr>bytes_written := bytes_written s + count\<rparr>))"

text \<open>\<^verbatim>\<open>if (!e1(stream)) return false; return e2(stream);\<close>\<close>

definition seq ::
  "('s pb_ostream_t \<Rightarrow> bool \<times> 's pb_ostream_t) \<Rightarrow>
   ('s pb_ostream_t \<Rightarrow> bool \<times> 's pb_ostream_t) \<Rightarrow>
   's pb_ostream_t \<Rightarrow> bool \<times> 's pb_ostream_t" where
  "seq e1 e2 s = (case e1 s of (False, s1) \<Rightarrow> (False, s1) | (True, s1) \<Rightarrow> e2 s1)"

section \<open>Input contract\<close>

lemma pb_read_nonnull: "0 < n \<Longrightarrow> pb_read False n = pb_read_checked n"
  by (auto simp: pb_read_def)

text \<open>
  What a decoder relies on: a source that still holds at least \<open>n\<close> bytes delivers the next
  \<open>n\<close> and keeps the rest. Everything about decoding is proved under this contract, so it
  holds for memory streams and for every user callback that keeps it.
\<close>

locale istream_contract =
  fixes ok :: "'s source \<Rightarrow> bool"
    and content :: "'s source \<Rightarrow> byte list"
  assumes read_ok: "ok src \<Longrightarrow> 0 < n \<Longrightarrow> n \<le> length (content src) \<Longrightarrow>
    \<exists>src'. read_callback src n = (Some (take n (content src)), src') \<and>
      ok src' \<and> content src' = drop n (content src)"
begin

definition holds :: "'s pb_istream_t \<Rightarrow> byte list \<Rightarrow> nat \<Rightarrow> bool" where
  "holds s c b \<longleftrightarrow> ok (source s) \<and> content (source s) = c \<and> bytes_left s = b"

definition reads ::
  "('s pb_istream_t \<Rightarrow> 'v option \<times> 's pb_istream_t) \<Rightarrow> byte list \<Rightarrow> 'v \<Rightarrow> bool" where
  "reads d bs v \<longleftrightarrow> (\<forall>s c b. holds s (bs @ c) (length bs + b) \<longrightarrow>
     (\<exists>s'. d s = (Some v, s') \<and> holds s' c b \<and> ierrmsg s' = ierrmsg s))"

lemma readsI:
  assumes "\<And>s c b. holds s (bs @ c) (length bs + b) \<Longrightarrow>
     \<exists>s'. d s = (Some v, s') \<and> holds s' c b \<and> ierrmsg s' = ierrmsg s"
  shows "reads d bs v"
  using assms by (simp add: reads_def)

lemma readsE:
  assumes "reads d bs v" and "holds s (bs @ c) (length bs + b)"
  obtains s' where "d s = (Some v, s')" and "holds s' c b" and "ierrmsg s' = ierrmsg s"
  using assms unfolding reads_def by blast

lemma reads_return: "reads (\<lambda>s. (Some v, s)) [] v"
  by (simp add: reads_def)

lemma reads_bind:
  assumes "reads d1 xs a" and "reads (f a) ys v"
    and "\<And>s. d s = (case d1 s of (None, s1) \<Rightarrow> (None, s1) | (Some x, s1) \<Rightarrow> f x s1)"
  shows "reads d (xs @ ys) v"
proof (rule readsI)
  fix s c b
  assume "holds s ((xs @ ys) @ c) (length (xs @ ys) + b)"
  then have "holds s (xs @ (ys @ c)) (length xs + (length ys + b))" by (simp add: add.assoc)
  with assms(1) obtain s1 where s1: "d1 s = (Some a, s1)" "holds s1 (ys @ c) (length ys + b)"
      "ierrmsg s1 = ierrmsg s" by (rule readsE)
  from assms(2) s1(2) obtain s2 where "f a s1 = (Some v, s2)" "holds s2 c b"
      "ierrmsg s2 = ierrmsg s1" by (rule readsE)
  with s1 show "\<exists>s'. d s = (Some v, s') \<and> holds s' c b \<and> ierrmsg s' = ierrmsg s"
    by (simp add: assms(3))
qed

lemma reads_read_checked:
  assumes "bs \<noteq> []"
  shows "reads (pb_read_checked (length bs)) bs bs"
proof (rule readsI)
  fix s c b
  assume h: "holds s (bs @ c) (length bs + b)"
  then obtain src where "read_callback (source s) (length bs) = (Some bs, src)"
      and "ok src" and "content src = c"
    using read_ok [of "source s" "length bs"] assms by (auto simp: holds_def)
  with h show "\<exists>s'. pb_read_checked (length bs) s = (Some bs, s') \<and> holds s' c b \<and>
      ierrmsg s' = ierrmsg s"
    by (auto simp: pb_read_checked_def holds_def)
qed

lemma reads_readbyte: "reads pb_readbyte [x] x"
proof (rule readsI)
  fix s c b
  assume h: "holds s ([x] @ c) (length [x] + b)"
  then obtain src where "read_callback (source s) 1 = (Some [x], src)"
      and "ok src" and "content src = c"
    using read_ok [of "source s" 1] by (auto simp: holds_def)
  with h show "\<exists>s'. pb_readbyte s = (Some x, s') \<and> holds s' c b \<and> ierrmsg s' = ierrmsg s"
    by (auto simp: pb_readbyte_def holds_def)
qed

lemma reads_read: "reads (pb_read False (length bs)) bs bs"
proof (cases "bs = []")
  case True
  then show ?thesis by (auto intro!: readsI simp: pb_read_def)
next
  case False
  with reads_read_checked [OF False] show ?thesis by (simp add: pb_read_nonnull)
qed

text \<open>
  A null-buffer read skips: through the 16-byte scratch buffer or directly, the stream moves
  past exactly the requested bytes.
\<close>

lemma skip_chunks_moves:
  assumes "holds s (bs @ c) (length bs + b)" and "bs \<noteq> []"
  shows "\<exists>d s'. pb_skip_chunks (length bs) s = (Some d, s') \<and> holds s' c b \<and>
    ierrmsg s' = ierrmsg s"
  using assms
proof (induction "length bs" s arbitrary: bs rule: pb_skip_chunks.induct)
  case (1 s bs)
  show ?case
  proof (cases "length bs > 16")
    case True
    define hd16 tl16 where "hd16 = take 16 bs" and "tl16 = drop 16 bs"
    have split: "bs = hd16 @ tl16" and len: "length hd16 = 16" "length tl16 = length bs - 16"
      using True by (simp_all add: hd16_def tl16_def)
    have "holds s (hd16 @ (tl16 @ c)) (length hd16 + (length tl16 + b))"
      using "1.prems"(1) True len by (metis append.assoc add.assoc length_append split)
    moreover have "hd16 \<noteq> []" using len by auto
    ultimately obtain s1
      where s1: "pb_read_checked 16 s = (Some hd16, s1)" "holds s1 (tl16 @ c) (length tl16 + b)"
        "ierrmsg s1 = ierrmsg s"
      using reads_read_checked [of hd16] len by (auto elim!: readsE)
    have "tl16 \<noteq> []" using True len by auto
    with "1.hyps" [OF True s1(1) [symmetric] refl len(2) [symmetric]] s1(2) obtain d s'
      where "pb_skip_chunks (length bs - 16) s1 = (Some d, s')" "holds s' c b"
        "ierrmsg s' = ierrmsg s1"
      by (auto simp: len)
    with s1 True show ?thesis by (auto simp: pb_skip_chunks.simps [of "length bs"])
  next
    case False
    with "1.prems" reads_read_checked [of bs] show ?thesis
      by (auto simp: pb_skip_chunks.simps [of "length bs"] elim: readsE)
  qed
qed

lemma null_read_moves:
  assumes "holds s (bs @ c) (length bs + b)"
  shows "\<exists>d s'. pb_read True (length bs) s = (Some d, s') \<and> holds s' c b \<and>
    ierrmsg s' = ierrmsg s"
proof (cases "bs = []")
  case True
  with assms show ?thesis by (simp add: pb_read_def)
next
  case False
  then show ?thesis
    using assms skip_chunks_moves [OF assms False] reads_read_checked [OF False]
    by (auto simp: pb_read_def elim: readsE)
qed

end

text \<open>Memory streams keep the contract: the content is the memory from the pointer on.\<close>

fun buf_content :: "'s source \<Rightarrow> byte list" where
  "buf_content (Buf mem) = mem"
| "buf_content (User _ _) = []"

interpretation mem_in: istream_contract is_buf buf_content
proof unfold_locales
  fix src :: "'s source" and n
  assume "is_buf src" "0 < n" "n \<le> length (buf_content src)"
  then show "\<exists>src'. read_callback src n = (Some (take n (buf_content src)), src') \<and>
      is_buf src' \<and> buf_content src' = drop n (buf_content src)"
    by (cases src) auto
qed

text \<open>
  A user callback that delivers what its state holds keeps it as well; \<^verbatim>\<open>buf_read\<close>
  registered as an ordinary callback is one.
\<close>

locale user_reader =
  fixes rd :: "'s \<Rightarrow> nat \<Rightarrow> byte list option \<times> 's"
    and remaining :: "'s \<Rightarrow> byte list"
  assumes rd_ok: "0 < n \<Longrightarrow> n \<le> length (remaining st) \<Longrightarrow>
    \<exists>st'. rd st n = (Some (take n (remaining st)), st') \<and> remaining st' = drop n (remaining st)"
begin

definition user_ok :: "'s source \<Rightarrow> bool" where
  "user_ok src \<longleftrightarrow> (\<exists>st. src = User rd st)"

definition user_content :: "'s source \<Rightarrow> byte list" where
  "user_content src = (case src of User f st \<Rightarrow> remaining st | Buf m \<Rightarrow> m)"

lemma user_source [simp]: "user_ok (User rd st)" "user_content (User rd st) = remaining st"
  by (simp_all add: user_ok_def user_content_def)

end

sublocale user_reader \<subseteq> usr: istream_contract user_ok user_content
proof unfold_locales
  fix src n
  assume "user_ok src" and n: "0 < n" "n \<le> length (user_content src)"
  then obtain st where src: "src = User rd st" by (auto simp: user_ok_def)
  with rd_ok [of n st] n obtain st' where "rd st n = (Some (take n (remaining st)), st')"
      "remaining st' = drop n (remaining st)" by auto
  with src show "\<exists>src'. read_callback src n = (Some (take n (user_content src)), src') \<and>
      user_ok src' \<and> user_content src' = drop n (user_content src)"
    by auto
qed

definition buf_read_callback :: "byte list \<Rightarrow> nat \<Rightarrow> byte list option \<times> byte list" where
  "buf_read_callback mem count = (let (data, mem') = buf_read mem count in (Some data, mem'))"

interpretation buf_user: user_reader buf_read_callback "\<lambda>mem. mem"
  by unfold_locales (simp add: buf_read_callback_def)

lemma mem_holds_buffer: "mem_in.holds (pb_istream_from_buffer bs n) bs n"
  by (simp add: mem_in.holds_def pb_istream_from_buffer_def)

lemma from_buffer_no_error [simp]: "ierrmsg (pb_istream_from_buffer bs n) = None"
  by (simp add: pb_istream_from_buffer_def)

lemma mem_stream_eq:
  assumes "mem_in.holds s c b" and "ierrmsg s = None"
  shows "s = pb_istream_from_buffer c b"
  using assms by (cases "source s"; cases s)
    (auto simp: mem_in.holds_def pb_istream_from_buffer_def)

text \<open>On a memory stream the state after a read is determined: the tail of the memory.\<close>

lemma mem_reads_exact:
  assumes "mem_in.reads d bs v"
  shows "d (pb_istream_from_buffer (bs @ c) (length bs + b)) = (Some v, pb_istream_from_buffer c b)"
proof -
  obtain s' :: "'a pb_istream_t" where
    s': "d (pb_istream_from_buffer (bs @ c) (length bs + b)) = (Some v, s')"
      "mem_in.holds s' c b" "ierrmsg s' = None"
    using mem_in.readsE [OF assms mem_holds_buffer]
    by (metis pb_istream_from_buffer_def pb_istream_t.select_convs(3))
  with mem_stream_eq [OF s'(2,3)] show ?thesis by simp
qed

section \<open>Output contract\<close>

text \<open>What an encoder relies on: the callback appends what it is given.\<close>

definition room :: "'s pb_ostream_t \<Rightarrow> nat \<Rightarrow> bool" where
  "room s n \<longleftrightarrow> unat (bytes_written s) + n \<le> unat (max_size s)"

definition sizes :: "('s pb_ostream_t \<Rightarrow> bool \<times> 's pb_ostream_t) \<Rightarrow> nat \<Rightarrow> bool" where
  "sizes e n \<longleftrightarrow> (\<forall>s. \<not> has_callback (sink s) \<longrightarrow>
     e s = (True, s\<lparr>bytes_written := bytes_written s + of_nat n\<rparr>))"

lemma sizes_seq: "sizes e1 m \<Longrightarrow> sizes e2 n \<Longrightarrow> sizes (seq e1 e2) (m + n)"
  by (auto simp: sizes_def seq_def add.assoc)

lemma sizes_write: "n < 2 ^ 64 \<Longrightarrow> sizes (pb_write bs (of_nat n)) n"
  by (auto simp: sizes_def pb_write_def)

locale ostream_contract =
  fixes ok :: "'s sink \<Rightarrow> bool"
    and written :: "'s sink \<Rightarrow> byte list"
  assumes write_ok: "ok sk \<Longrightarrow> \<exists>sk'. write_callback sk data = (True, sk') \<and>
      ok sk' \<and> written sk' = written sk @ data"
    and ok_callback: "ok sk \<Longrightarrow> has_callback sk"
begin

definition writes :: "('s pb_ostream_t \<Rightarrow> bool \<times> 's pb_ostream_t) \<Rightarrow> byte list \<Rightarrow> bool" where
  "writes e bs \<longleftrightarrow> (\<forall>s. ok (sink s) \<longrightarrow> room s (length bs) \<longrightarrow>
     (\<exists>sk. e s = (True, s\<lparr>sink := sk, bytes_written := bytes_written s + of_nat (length bs)\<rparr>) \<and>
       ok sk \<and> written sk = written (sink s) @ bs))"

lemma writesI:
  assumes "\<And>s. ok (sink s) \<Longrightarrow> room s (length bs) \<Longrightarrow>
     \<exists>sk. e s = (True, s\<lparr>sink := sk, bytes_written := bytes_written s + of_nat (length bs)\<rparr>) \<and>
       ok sk \<and> written sk = written (sink s) @ bs"
  shows "writes e bs"
  using assms by (simp add: writes_def)

lemma writesE:
  assumes "writes e bs" and "ok (sink s)" and "room s (length bs)"
  obtains sk where
    "e s = (True, s\<lparr>sink := sk, bytes_written := bytes_written s + of_nat (length bs)\<rparr>)"
    and "ok sk" and "written sk = written (sink s) @ bs"
  using assms unfolding writes_def by blast

lemma room_after:
  assumes "room s (m + n)"
  shows "room (s\<lparr>sink := sk, bytes_written := bytes_written s + of_nat m\<rparr>) n"
proof -
  have "unat (bytes_written s) + m < 2 ^ 64"
    using assms unat_less_64 [of "max_size s"] by (simp add: room_def)
  then have "unat (bytes_written s + of_nat m) = unat (bytes_written s) + m"
    by (simp add: unat_word_ariths unat_of_nat)
  with assms show ?thesis by (simp add: room_def)
qed

lemma writes_seq:
  assumes "writes e1 xs" and "writes e2 ys"
  shows "writes (seq e1 e2) (xs @ ys)"
proof (rule writesI)
  fix s :: "'s pb_ostream_t"
  assume ok: "ok (sink s)" and r: "room s (length (xs @ ys))"
  from r have "room s (length xs)" by (simp add: room_def)
  with assms(1) ok obtain sk where
    e1: "e1 s = (True, s\<lparr>sink := sk, bytes_written := bytes_written s + of_nat (length xs)\<rparr>)"
      "ok sk" "written sk = written (sink s) @ xs"
    by (rule writesE)
  with assms(2) room_after [of s "length xs" "length ys" sk] r obtain sk' where
    "e2 (s\<lparr>sink := sk, bytes_written := bytes_written s + of_nat (length xs)\<rparr>) =
       (True, s\<lparr>sink := sk', bytes_written := bytes_written s + of_nat (length xs) +
          of_nat (length ys)\<rparr>)" "ok sk'" "written sk' = written sk @ ys"
    by (auto elim!: writesE)
  with e1 show "\<exists>sk. seq e1 e2 s = (True, s\<lparr>sink := sk,
      bytes_written := bytes_written s + of_nat (length (xs @ ys))\<rparr>) \<and>
      ok sk \<and> written sk = written (sink s) @ xs @ ys"
    by (auto simp: seq_def add.assoc)
qed

lemma writes_write:
  assumes "length bs < 2 ^ 64"
  shows "writes (pb_write bs (of_nat (length bs))) bs"
proof (rule writesI)
  fix s :: "'s pb_ostream_t"
  assume ok: "ok (sink s)" and r: "room s (length bs)"
  obtain sk where sk: "write_callback (sink s) bs = (True, sk)" "ok sk"
      "written sk = written (sink s) @ bs"
    using write_ok [OF ok] by blast
  have "unat (bytes_written s) + length bs < 2 ^ 64"
    using r unat_less_64 [of "max_size s"] by (simp add: room_def)
  then have sum: "unat (bytes_written s + of_nat (length bs)) = unat (bytes_written s) + length bs"
    by (simp add: unat_word_ariths unat_of_nat)
  have len: "unat (of_nat (length bs) :: size_t) = length bs"
    using assms by (simp add: unat_of_nat)
  have fits: "\<not> bytes_written s + of_nat (length bs) < bytes_written s"
      "\<not> max_size s < bytes_written s + of_nat (length bs)"
    using r sum by (simp_all add: word_less_nat_alt room_def)
  show "\<exists>sk. pb_write bs (of_nat (length bs)) s = (True, s\<lparr>sink := sk,
      bytes_written := bytes_written s + of_nat (length bs)\<rparr>) \<and> ok sk \<and>
      written sk = written (sink s) @ bs"
  proof (cases "bs = []")
    case True
    with ok show ?thesis by (auto simp: pb_write_def intro: exI [of _ "sink s"])
  next
    case False
    then have "0 < (of_nat (length bs) :: size_t)"
      by (simp add: word_less_nat_alt len)
    with sk fits len ok_callback [OF ok] show ?thesis by (auto simp: pb_write_def)
  qed
qed

end

text \<open>Memory output: what \<^verbatim>\<open>buf_write\<close> has stored since the start of the buffer.\<close>

fun is_obuf :: "'s sink \<Rightarrow> bool" where
  "is_obuf (OBuf _) = True"
| "is_obuf _ = False"

fun obuf_stored :: "'s sink \<Rightarrow> byte list" where
  "obuf_stored (OBuf w) = w"
| "obuf_stored _ = []"

interpretation mem_out: ostream_contract is_obuf obuf_stored
proof unfold_locales
  fix sk :: "'s sink" and data
  assume "is_obuf sk"
  then show "\<exists>sk'. write_callback sk data = (True, sk') \<and> is_obuf sk' \<and>
      obuf_stored sk' = obuf_stored sk @ data"
    and "has_callback sk"
    by (cases sk; simp)+
qed

lemma mem_writes_exact:
  fixes e :: "'s pb_ostream_t \<Rightarrow> bool \<times> 's pb_ostream_t"
  assumes "mem_out.writes e bs" and "length bs \<le> unat cap"
  shows "e (pb_ostream_from_buffer cap) =
    (True, \<lparr>sink = OBuf bs, max_size = cap, bytes_written = of_nat (length bs), oerrmsg = None\<rparr>)"
proof -
  have "room (pb_ostream_from_buffer cap :: 's pb_ostream_t) (length bs)"
    using assms(2) by (simp add: room_def pb_ostream_from_buffer_def)
  with assms(1) obtain sk :: "'s sink" where
    "e (pb_ostream_from_buffer cap) = (True, (pb_ostream_from_buffer cap)\<lparr>sink := sk,
        bytes_written := bytes_written (pb_ostream_from_buffer cap :: 's pb_ostream_t) +
          of_nat (length bs)\<rparr>)"
    "is_obuf sk" "obuf_stored sk = obuf_stored (sink (pb_ostream_from_buffer cap :: 's pb_ostream_t)) @ bs"
    by (auto elim!: mem_out.writesE simp: pb_ostream_from_buffer_def)
  then show ?thesis by (cases sk) (auto simp: pb_ostream_from_buffer_def)
qed

end
