(* ===== verification/Pb_Wire.thy ===== *)
theory Pb_Wire
  imports Pb_Stream
begin

unbundle bit_operations_syntax

text \<open>
  The protobuf wire format of nanopb: varints, zigzag varints, fixed-width integers, tags,
  length-delimited strings, substreams and skipping (\<^verbatim>\<open>pb_encode.c\<close> lines 608-715,
  \<^verbatim>\<open>pb_decode.c\<close> lines 187-400 and 1280-1332). The bit counter \<^verbatim>\<open>bitpos\<close> of the decoders
  is a \<^verbatim>\<open>uint_fast8_t\<close>, eight bits wide on the platforms the pods are built for, and is
  kept at that width.
\<close>

section \<open>Encoding\<close>

datatype pb_wire_type_t = PB_WT_VARINT | PB_WT_64BIT | PB_WT_STRING | PB_WT_32BIT

fun wire_type_code :: "pb_wire_type_t \<Rightarrow> u64" where
  "wire_type_code PB_WT_VARINT = 0"
| "wire_type_code PB_WT_64BIT = 1"
| "wire_type_code PB_WT_STRING = 2"
| "wire_type_code PB_WT_32BIT = 5"

text \<open>The loop that fills \<^verbatim>\<open>buffer\<close>, seven bits at a time, continuation bit set.\<close>

function varint_loop :: "u64 \<Rightarrow> byte list" where
  "varint_loop value =
     (if value = 0 then []
      else (ucast (value AND 0x7F) OR 0x80) # varint_loop (drop_bit 7 value))"
  by pat_completeness auto
termination
proof (relation "measure unat")
  fix v :: u64
  assume "v \<noteq> 0"
  then show "(drop_bit 7 v, v) \<in> measure unat"
    by (simp add: drop_bit_eq_div unat_div unat_gt_0)
qed simp

declare varint_loop.simps [simp del]

definition varint_bytes :: "u64 \<Rightarrow> byte list" where
  "varint_bytes value =
     (if value \<le> 0x7F then [ucast value]
      else let buffer = varint_loop value; i = length buffer
           in buffer[i - 1 := (buffer ! (i - 1)) AND 0x7F])"

definition pb_encode_varint :: "u64 \<Rightarrow> 's pb_ostream_t \<Rightarrow> bool \<times> 's pb_ostream_t" where
  "pb_encode_varint value s =
     (let buffer = varint_bytes value in pb_write buffer (of_nat (length buffer)) s)"

text \<open>A 64-bit signed argument is its two's complement word; \<^verbatim>\<open>value < 0\<close> is its sign bit.\<close>

definition zigzag :: "u64 \<Rightarrow> u64" where
  "zigzag value = (if sint value < 0 then NOT (push_bit 1 value) else push_bit 1 value)"

definition pb_encode_svarint :: "u64 \<Rightarrow> 's pb_ostream_t \<Rightarrow> bool \<times> 's pb_ostream_t" where
  "pb_encode_svarint value = pb_encode_varint (zigzag value)"

definition fixed32_bytes :: "u32 \<Rightarrow> byte list" where
  "fixed32_bytes val =
     [ucast (val AND 0xFF), ucast (drop_bit 8 val AND 0xFF),
      ucast (drop_bit 16 val AND 0xFF), ucast (drop_bit 24 val AND 0xFF)]"

definition pb_encode_fixed32 :: "u32 \<Rightarrow> 's pb_ostream_t \<Rightarrow> bool \<times> 's pb_ostream_t" where
  "pb_encode_fixed32 val = pb_write (fixed32_bytes val) 4"

definition fixed64_bytes :: "u64 \<Rightarrow> byte list" where
  "fixed64_bytes val =
     [ucast (val AND 0xFF), ucast (drop_bit 8 val AND 0xFF),
      ucast (drop_bit 16 val AND 0xFF), ucast (drop_bit 24 val AND 0xFF),
      ucast (drop_bit 32 val AND 0xFF), ucast (drop_bit 40 val AND 0xFF),
      ucast (drop_bit 48 val AND 0xFF), ucast (drop_bit 56 val AND 0xFF)]"

definition pb_encode_fixed64 :: "u64 \<Rightarrow> 's pb_ostream_t \<Rightarrow> bool \<times> 's pb_ostream_t" where
  "pb_encode_fixed64 val = pb_write (fixed64_bytes val) 8"

definition tag_word :: "pb_wire_type_t \<Rightarrow> u32 \<Rightarrow> u64" where
  "tag_word wiretype field_number =
     push_bit 3 (ucast field_number) OR wire_type_code wiretype"

definition pb_encode_tag ::
  "pb_wire_type_t \<Rightarrow> u32 \<Rightarrow> 's pb_ostream_t \<Rightarrow> bool \<times> 's pb_ostream_t" where
  "pb_encode_tag wiretype field_number = pb_encode_varint (tag_word wiretype field_number)"

definition pb_encode_string ::
  "byte list \<Rightarrow> size_t \<Rightarrow> 's pb_ostream_t \<Rightarrow> bool \<times> 's pb_ostream_t" where
  "pb_encode_string buffer sz = seq (pb_encode_varint sz) (pb_write buffer sz)"

section \<open>Decoding\<close>

lemma pb_readbyte_less:
  "pb_readbyte s = (Some b, s') \<Longrightarrow> bytes_left s' < bytes_left s"
  by (auto simp: pb_readbyte_def split: if_splits prod.splits option.splits)

lemma pb_read_checked_left:
  "pb_read_checked n s = (Some d, s') \<Longrightarrow> n \<le> bytes_left s \<and> bytes_left s' = bytes_left s - n"
  by (auto simp: pb_read_checked_def split: if_splits prod.splits option.splits)

lemma pb_read_one_less: "pb_read False (Suc 0) s = (Some d, s') \<Longrightarrow> bytes_left s' < bytes_left s"
  by (auto simp: pb_read_nonnull dest!: pb_read_checked_left)

text \<open>
  The multi-byte loop of \<^verbatim>\<open>pb_decode_varint32_eof\<close>; it returns the assembled word with the
  last byte and the final bit position.
\<close>

function varint32_loop ::
  "byte \<Rightarrow> u32 \<Rightarrow> 's pb_istream_t \<Rightarrow> (u32 \<times> byte \<times> byte) option \<times> 's pb_istream_t" where
  "varint32_loop bitpos result s =
     (case pb_readbyte s of
        (None, s1) \<Rightarrow> (None, s1)
      | (Some b, s1) \<Rightarrow>
          (let sign_extension = (if bitpos < 63 then 0xFF else 0x01 :: byte) in
           if bitpos \<ge> 32 \<and> b AND 0x7F \<noteq> 0 \<and>
              (drop_bit 31 result = 0 \<or> b \<noteq> sign_extension)
           then (None, iset_error ''varint overflow'' s1)
           else
             let result' = (if bitpos \<ge> 32 then result
                            else result OR push_bit (unat bitpos) (ucast (b AND 0x7F)))
             in if b AND 0x80 \<noteq> 0 then varint32_loop (bitpos + 7) result' s1
                else (Some (result', b, bitpos + 7), s1)))"
  by pat_completeness auto
termination
  by (relation "measure (\<lambda>(_, _, s). bytes_left s)") (auto dest!: pb_readbyte_less [OF sym])

declare varint32_loop.simps [simp del]

text \<open>The third component is what the function stores through \<^verbatim>\<open>eof\<close>, when it stores.\<close>

definition pb_decode_varint32_eof ::
  "'s pb_istream_t \<Rightarrow> u32 option \<times> bool \<times> 's pb_istream_t" where
  "pb_decode_varint32_eof s =
     (case pb_readbyte s of
        (None, s1) \<Rightarrow> (None, bytes_left s1 = 0, s1)
      | (Some b, s1) \<Rightarrow>
          if b AND 0x80 = 0 then (Some (ucast b), False, s1)
          else case varint32_loop 7 (ucast (b AND 0x7F)) s1 of
            (None, s2) \<Rightarrow> (None, False, s2)
          | (Some (result, b', bitpos), s2) \<Rightarrow>
              if bitpos = 35 \<and> b' AND 0x70 \<noteq> 0
              then (None, False, iset_error ''varint overflow'' s2)
              else (Some result, False, s2))"

definition pb_decode_varint32 :: "'s pb_istream_t \<Rightarrow> u32 option \<times> 's pb_istream_t" where
  "pb_decode_varint32 s = (case pb_decode_varint32_eof s of (r, eof, s1) \<Rightarrow> (r, s1))"

function varint_dec_loop ::
  "byte \<Rightarrow> u64 \<Rightarrow> 's pb_istream_t \<Rightarrow> u64 option \<times> 's pb_istream_t" where
  "varint_dec_loop bitpos result s =
     (if bitpos \<ge> 64 then (None, iset_error ''varint overflow'' s)
      else case pb_readbyte s of
        (None, s1) \<Rightarrow> (None, s1)
      | (Some b, s1) \<Rightarrow>
          (let result' = result OR push_bit (unat bitpos) (ucast (b AND 0x7F)) in
           if b AND 0x80 \<noteq> 0 then varint_dec_loop (bitpos + 7) result' s1
           else (Some result', s1)))"
  by pat_completeness auto
termination
  by (relation "measure (\<lambda>(_, _, s). bytes_left s)") (auto dest!: pb_readbyte_less [OF sym])

declare varint_dec_loop.simps [simp del]

definition pb_decode_varint :: "'s pb_istream_t \<Rightarrow> u64 option \<times> 's pb_istream_t" where
  "pb_decode_varint = varint_dec_loop 0 0"

function pb_skip_varint :: "'s pb_istream_t \<Rightarrow> unit option \<times> 's pb_istream_t" where
  "pb_skip_varint s =
     (case pb_read False 1 s of
        (None, s1) \<Rightarrow> (None, s1)
      | (Some d, s1) \<Rightarrow> if hd d AND 0x80 \<noteq> 0 then pb_skip_varint s1 else (Some (), s1))"
  by pat_completeness auto
termination
  by (relation "measure bytes_left") (auto dest!: pb_read_one_less [OF sym])

declare pb_skip_varint.simps [simp del]

definition discard :: "'v option \<times> 't \<Rightarrow> unit option \<times> 't" where
  "discard r = (map_option (\<lambda>_. ()) (fst r), snd r)"

definition pb_skip_string :: "'s pb_istream_t \<Rightarrow> unit option \<times> 's pb_istream_t" where
  "pb_skip_string s =
     (case pb_decode_varint32 s of
        (None, s1) \<Rightarrow> (None, s1)
      | (Some len, s1) \<Rightarrow> discard (pb_read True (unat len) s1))"

text \<open>
  \<^verbatim>\<open>pb_decode_tag\<close>: the wire type is the raw value of the low three bits (the C enum
  variable may hold any of them) and \<^verbatim>\<open>eof\<close> tells a clean end from an error.
\<close>

definition pb_decode_tag ::
  "'s pb_istream_t \<Rightarrow> (u32 \<times> u32) option \<times> bool \<times> 's pb_istream_t" where
  "pb_decode_tag s =
     (case pb_decode_varint32_eof s of
        (None, eof, s1) \<Rightarrow> (None, eof, s1)
      | (Some temp, eof, s1) \<Rightarrow>
          if temp = 0 then (None, True, s1)
          else (Some (temp AND 7, drop_bit 3 temp), eof, s1))"

definition pb_skip_field :: "u32 \<Rightarrow> 's pb_istream_t \<Rightarrow> unit option \<times> 's pb_istream_t" where
  "pb_skip_field wire_type s =
     (if wire_type = 0 then pb_skip_varint s
      else if wire_type = 1 then discard (pb_read True 8 s)
      else if wire_type = 2 then pb_skip_string s
      else if wire_type = 5 then discard (pb_read True 4 s)
      else (None, iset_error ''invalid wire_type'' s))"

text \<open>
  \<^verbatim>\<open>read_raw_value\<close>: the bytes stored in \<open>buf\<close>, at most \<open>max_size\<close> of them for a varint.
\<close>

fun raw_varint ::
  "nat \<Rightarrow> byte list \<Rightarrow> 's pb_istream_t \<Rightarrow> byte list option \<times> 's pb_istream_t" where
  "raw_varint 0 acc s = (None, s)"
| "raw_varint (Suc budget) acc s =
     (case pb_read False 1 s of
        (None, s1) \<Rightarrow> (None, s1)
      | (Some d, s1) \<Rightarrow>
          if hd d AND 0x80 \<noteq> 0 then raw_varint budget (acc @ [hd d]) s1
          else (Some (acc @ [hd d]), s1))"

definition read_raw_value ::
  "u32 \<Rightarrow> nat \<Rightarrow> 's pb_istream_t \<Rightarrow> byte list option \<times> 's pb_istream_t" where
  "read_raw_value wire_type maxsize s =
     (if wire_type = 0 then raw_varint maxsize [] s
      else if wire_type = 1 then pb_read False 8 s
      else if wire_type = 5 then pb_read False 4 s
      else (None, iset_error ''invalid wire_type'' s))"

text \<open>The first result is the substream, the second the parent stream.\<close>

definition pb_make_string_substream ::
  "'s pb_istream_t \<Rightarrow> 's pb_istream_t option \<times> 's pb_istream_t" where
  "pb_make_string_substream s =
     (case pb_decode_varint32 s of
        (None, s1) \<Rightarrow> (None, s1)
      | (Some sz, s1) \<Rightarrow>
          if bytes_left s1 < unat sz
          then (None, iset_error ''parent stream too short'' s1)
          else (Some (s1\<lparr>bytes_left := unat sz\<rparr>),
                s1\<lparr>bytes_left := bytes_left s1 - unat sz\<rparr>))"

definition pb_close_string_substream ::
  "'s pb_istream_t \<Rightarrow> 's pb_istream_t \<Rightarrow> unit option \<times> 's pb_istream_t \<times> 's pb_istream_t" where
  "pb_close_string_substream s sub =
     (let (r, sub1) = (if bytes_left sub \<noteq> 0 then pb_read True (bytes_left sub) sub
                       else (Some [], sub))
      in case r of
           None \<Rightarrow> (None, s, sub1)
         | Some _ \<Rightarrow> (Some (), s\<lparr>source := source sub1, ierrmsg := ierrmsg sub1\<rparr>, sub1))"

definition unzigzag :: "u64 \<Rightarrow> u64" where
  "unzigzag value = (if value AND 1 \<noteq> 0 then NOT (drop_bit 1 value) else drop_bit 1 value)"

definition pb_decode_svarint :: "'s pb_istream_t \<Rightarrow> u64 option \<times> 's pb_istream_t" where
  "pb_decode_svarint s =
     (case pb_decode_varint s of
        (None, s1) \<Rightarrow> (None, s1)
      | (Some value, s1) \<Rightarrow> (Some (unzigzag value), s1))"

definition fixed32_word :: "byte list \<Rightarrow> u32" where
  "fixed32_word bs =
     push_bit 0 (ucast (bs ! 0)) OR push_bit 8 (ucast (bs ! 1)) OR
     push_bit 16 (ucast (bs ! 2)) OR push_bit 24 (ucast (bs ! 3))"

definition pb_decode_fixed32 :: "'s pb_istream_t \<Rightarrow> u32 option \<times> 's pb_istream_t" where
  "pb_decode_fixed32 s =
     (case pb_read False 4 s of
        (None, s1) \<Rightarrow> (None, s1) | (Some bs, s1) \<Rightarrow> (Some (fixed32_word bs), s1))"

definition fixed64_word :: "byte list \<Rightarrow> u64" where
  "fixed64_word bs =
     push_bit 0 (ucast (bs ! 0)) OR push_bit 8 (ucast (bs ! 1)) OR
     push_bit 16 (ucast (bs ! 2)) OR push_bit 24 (ucast (bs ! 3)) OR
     push_bit 32 (ucast (bs ! 4)) OR push_bit 40 (ucast (bs ! 5)) OR
     push_bit 48 (ucast (bs ! 6)) OR push_bit 56 (ucast (bs ! 7))"

definition pb_decode_fixed64 :: "'s pb_istream_t \<Rightarrow> u64 option \<times> 's pb_istream_t" where
  "pb_decode_fixed64 s =
     (case pb_read False 8 s of
        (None, s1) \<Rightarrow> (None, s1) | (Some bs, s1) \<Rightarrow> (Some (fixed64_word bs), s1))"

section \<open>Varint bytes\<close>

lemma drop7_nonzero: "\<not> v \<le> (0x7F :: u64) \<Longrightarrow> drop_bit 7 v \<noteq> 0"
proof
  assume "\<not> v \<le> 0x7F" "drop_bit 7 v = 0"
  then have "unat v div 2 ^ 7 = 0" using unat_drop_bit [of 7 v] by simp
  with \<open>\<not> v \<le> 0x7F\<close> show False by (simp add: word_le_nat_alt)
qed

lemma varint_loop_nonempty: "v \<noteq> 0 \<Longrightarrow> varint_loop v \<noteq> []"
  by (subst varint_loop.simps) simp

lemma varint_loop_small:
  assumes "v \<noteq> 0" "v \<le> 0x7F"
  shows "varint_loop v = [ucast v OR 0x80]"
proof -
  have "unat v div 2 ^ 7 = 0" using assms by (simp add: word_le_nat_alt)
  then have "drop_bit 7 v = 0" by (simp add: word_unat_eq_iff unat_drop_bit)
  with assms show ?thesis
    by (simp add: varint_loop.simps [of v] varint_loop.simps [of 0] low_byte)
qed

lemma varint_bytes_rec:
  "varint_bytes v =
     (if v \<le> 0x7F then [ucast v]
      else (ucast (v AND 0x7F) OR 0x80) # varint_bytes (drop_bit 7 v))"
proof (cases "v \<le> 0x7F")
  case True
  then show ?thesis by (simp add: varint_bytes_def)
next
  case False
  let ?w = "drop_bit 7 v"
  have w: "?w \<noteq> 0" using False by (rule drop7_nonzero)
  have "v \<noteq> 0" using False by auto
  then have loop: "varint_loop v = (ucast (v AND 0x7F) OR 0x80) # varint_loop ?w"
    by (subst varint_loop.simps) simp
  obtain n where n: "length (varint_loop ?w) = Suc n"
    using varint_loop_nonempty [OF w] by (cases "varint_loop ?w") auto
  have "varint_bytes ?w = (varint_loop ?w)[n := (varint_loop ?w) ! n AND 0x7F]"
  proof (cases "?w \<le> 0x7F")
    case True
    have "(ucast ?w OR 0x80 :: byte) AND 0x7F = ucast ?w"
      using cont_byte(2) [of ?w] by (simp add: low_byte True)
    with True w n show ?thesis by (simp add: varint_bytes_def varint_loop_small)
  next
    case False
    then show ?thesis using n by (simp add: varint_bytes_def Let_def)
  qed
  with False n loop show ?thesis by (simp add: varint_bytes_def Let_def)
qed

lemma varint_bytes_induct [case_names small large]:
  assumes "\<And>v. v \<le> 0x7F \<Longrightarrow> P v"
    and "\<And>v. \<not> v \<le> 0x7F \<Longrightarrow> P (drop_bit 7 v) \<Longrightarrow> P v"
  shows "P (v :: u64)"
proof (induction v rule: measure_induct_rule [where f = unat])
  case (less v)
  show ?case
  proof (cases "v \<le> 0x7F")
    case False
    then have "unat (drop_bit 7 v) < unat v"
      by (auto simp: unat_drop_bit word_le_nat_alt)
    with less False assms(2) show ?thesis by blast
  qed (rule assms(1))
qed

lemma varint_bytes_length:
  assumes "unat v < 2 ^ (7 * k)" "0 < k"
  shows "length (varint_bytes v) \<le> k"
  using assms
proof (induction v arbitrary: k rule: varint_bytes_induct)
  case (small v)
  then show ?case by (simp add: varint_bytes_rec [of v])
next
  case (large v)
  then have "127 < unat v" by (simp add: word_le_nat_alt not_le)
  moreover obtain k' where k: "k = Suc k'" using large.prems by (cases k) auto
  ultimately have "0 < k'" using large.prems by (cases k') auto
  have "unat (drop_bit 7 v) < 2 ^ (7 * k')"
    using large.prems k by (simp add: unat_drop_bit power_add less_mult_imp_div_less)
  with large.IH [OF _ \<open>0 < k'\<close>] large.hyps show ?case
    by (simp add: varint_bytes_rec [of v] k)
qed

lemma varint_bytes_length_10: "length (varint_bytes v) \<le> 10"
  using varint_bytes_length [of v 10] unat_less_64 [of v] by simp

lemma varint_bytes_nonempty: "varint_bytes v \<noteq> []"
  by (subst varint_bytes_rec) simp

section \<open>Decoders under the input contract\<close>

lemma length_fixed: "length (fixed32_bytes a) = 4" "length (fixed64_bytes b) = 8"
  by (simp_all add: fixed32_bytes_def fixed64_bytes_def)

lemma fixed32_roundtrip: "fixed32_word (fixed32_bytes v) = v"
proof (rule bit_word_eqI)
  fix n
  assume "n < LENGTH(32)"
  then show "bit (fixed32_word (fixed32_bytes v)) n = bit v n"
    by (auto simp: fixed32_word_def fixed32_bytes_def bit_or_iff bit_byte_field simp del: push_bit_and)
qed

lemma fixed64_roundtrip: "fixed64_word (fixed64_bytes v) = v"
proof (rule bit_word_eqI)
  fix n
  assume "n < LENGTH(64)"
  then show "bit (fixed64_word (fixed64_bytes v)) n = bit v n"
    by (auto simp: fixed64_word_def fixed64_bytes_def bit_or_iff bit_byte_field simp del: push_bit_and)
qed

lemma zigzag_roundtrip: "unzigzag (zigzag v) = v"
proof -
  have neg: "sint v < 0 \<longleftrightarrow> bit v 63"
    using bit_last_iff [of v] by simp
  show ?thesis
  proof (cases "bit v 63")
    case True
    have "bit (NOT (push_bit 1 v) AND 1) 0"
      by (simp only: bit_and_iff bit_not_iff bit_push_bit_iff bit_1_iff possible_bit_word) simp
    then have "NOT (push_bit 1 v) AND 1 \<noteq> 0" by auto
    moreover have "NOT (drop_bit 1 (NOT (push_bit 1 v))) = v"
    proof (rule bit_word_eqI)
      fix n
      assume "n < LENGTH(64)"
      then have "n = 63 \<or> Suc n < 64" by auto
      then show "bit (NOT (drop_bit 1 (NOT (push_bit 1 v)))) n = bit v n"
        using True by (simp only: bit_not_iff bit_drop_bit_eq bit_push_bit_iff possible_bit_word comp_apply) auto
    qed
    ultimately show ?thesis using True neg by (simp add: zigzag_def unzigzag_def)
  next
    case False
    have "push_bit 1 v AND 1 = 0"
      by (rule bit_word_eqI) (simp only: bit_and_iff bit_push_bit_iff bit_1_iff possible_bit_word, simp)
    moreover have "drop_bit 1 (push_bit 1 v) = v"
    proof (rule bit_word_eqI)
      fix n
      assume "n < LENGTH(64)"
      then have "n = 63 \<or> Suc n < 64" by auto
      then show "bit (drop_bit 1 (push_bit 1 v)) n = bit v n"
        using False by (simp only: bit_not_iff bit_drop_bit_eq bit_push_bit_iff possible_bit_word comp_apply) auto
    qed
    ultimately show ?thesis using False neg by (simp add: zigzag_def unzigzag_def)
  qed
qed

context istream_contract
begin

lemma reads_varint_loop:
  assumes "unat v * 2 ^ unat bp < 2 ^ 64" and "unat bp < 64"
  shows "reads (varint_dec_loop bp r) (varint_bytes v) (r OR push_bit (unat bp) v)"
  using assms
proof (induction v arbitrary: bp r rule: varint_bytes_induct)
  case (small v)
  define f where "f b s1 = (let result' = r OR push_bit (unat bp) (ucast (b AND 0x7F)) in
           if b AND 0x80 \<noteq> 0 then varint_dec_loop (bp + 7) result' s1
           else (Some result', s1))" for b :: byte and s1 :: "'s pb_istream_t"
  have "reads (f (ucast v)) [] (r OR push_bit (unat bp) v)"
    using small.hyps by (simp add: f_def [abs_def] Let_def low_byte reads_return)
  then have "reads (varint_dec_loop bp r) ([ucast v] @ []) (r OR push_bit (unat bp) v)"
    by (rule reads_bind [OF reads_readbyte])
      (use small.prems in \<open>simp add: varint_dec_loop.simps [of bp] f_def [abs_def] word_le_nat_alt
        split: prod.splits option.splits\<close>)
  with small.hyps show ?case by (simp add: varint_bytes_rec [of v])
next
  case (large v)
  let ?b = "ucast (v AND 0x7F) OR 0x80 :: byte"
  let ?r = "r OR push_bit (unat bp) (v AND 0x7F)"
  define f where "f b s1 = (let result' = r OR push_bit (unat bp) (ucast (b AND 0x7F)) in
           if b AND 0x80 \<noteq> 0 then varint_dec_loop (bp + 7) result' s1
           else (Some result', s1))" for b :: byte and s1 :: "'s pb_istream_t"
  have "128 \<le> unat v" using large.hyps by (simp add: word_le_nat_alt not_le)
  then have "2 ^ (7 + unat bp) \<le> unat v * 2 ^ unat bp" by (simp add: power_add)
  with large.prems have "(2::nat) ^ (7 + unat bp) < 2 ^ 64" by linarith
  then have "7 + unat bp < 64" by (rule power_less_imp_less_exp [rotated]) simp
  then have bp: "unat bp + 7 < 64" by simp
  then have bp7: "unat (bp + 7) = unat bp + 7"
    by (simp add: unat_word_ariths)
  have "unat (drop_bit 7 v) * 2 ^ unat (bp + 7) = (unat v div 128 * 128) * 2 ^ unat bp"
    by (simp add: unat_drop_bit bp7 power_add)
  also have "\<dots> \<le> unat v * 2 ^ unat bp" by (rule mult_le_mono1) simp
  finally have "unat (drop_bit 7 v) * 2 ^ unat (bp + 7) \<le> unat v * 2 ^ unat bp" .
  with large.prems have "unat (drop_bit 7 v) * 2 ^ unat (bp + 7) < 2 ^ 64" by linarith
  from large.IH [OF this, of ?r] bp bp7
  have "reads (varint_dec_loop (bp + 7) ?r) (varint_bytes (drop_bit 7 v))
      (?r OR push_bit (unat bp + 7) (drop_bit 7 v))" by simp
  moreover have "?r OR push_bit (unat bp + 7) (drop_bit 7 v) = r OR push_bit (unat bp) v"
    by (simp only: or.assoc mask7 split_low_high)
  moreover have "f ?b = varint_dec_loop (bp + 7) ?r"
    by (simp add: f_def [abs_def] Let_def cont_byte(1,3))
  ultimately have "reads (f ?b) (varint_bytes (drop_bit 7 v)) (r OR push_bit (unat bp) v)"
    by (simp only:)
  then have "reads (varint_dec_loop bp r) ([?b] @ varint_bytes (drop_bit 7 v))
      (r OR push_bit (unat bp) v)"
    by (rule reads_bind [OF reads_readbyte])
      (use large.prems in \<open>simp add: varint_dec_loop.simps [of bp] f_def [abs_def] word_le_nat_alt
        split: prod.splits option.splits\<close>)
  with large.hyps show ?case by (simp add: varint_bytes_rec [of v])
qed

lemma reads_varint: "reads pb_decode_varint (varint_bytes v) v"
  using reads_varint_loop [of v 0 0] unat_less_64 [of v] by (simp add: pb_decode_varint_def)


lemma reads_varint32_loop:
  assumes "unat v * 2 ^ unat bp < 2 ^ 32" and "unat bp < 32"
  shows "\<exists>b bp'. \<not> (bp' = 35 \<and> b AND 0x70 \<noteq> 0) \<and>
    reads (varint32_loop bp r) (varint_bytes v) (r OR push_bit (unat bp) (ucast v), b, bp')"
  using assms
proof (induction v arbitrary: bp r rule: varint_bytes_induct)
  case (small v)
  define f where "f b s1 = (let result' = r OR push_bit (unat bp) (ucast (b AND 0x7F)) in
           if b AND 0x80 \<noteq> 0 then varint32_loop (bp + 7) result' s1
           else (Some (result', b, bp + 7), s1))" for b :: byte and s1 :: "'s pb_istream_t"
  have low: "ucast (ucast v AND (0x7F :: byte)) = (ucast v :: u32)"
  proof (rule bit_word_eqI)
    fix n
    have "bit v n \<Longrightarrow> n < 7" using small.hyps high_bits_clear [of v 7 n] by (simp add: word_le_nat_alt)
    then show "bit (ucast (ucast v AND (0x7F :: byte)) :: u32) n = bit (ucast v :: u32) n"
      by (auto simp: bit_simps byte_simps)
  qed
  have "reads (f (ucast v)) [] (r OR push_bit (unat bp) (ucast v), ucast v, bp + 7)"
    using small.hyps low by (simp add: f_def [abs_def] Let_def low_byte(1) reads_return)
  then have "reads (varint32_loop bp r) ([ucast v] @ [])
      (r OR push_bit (unat bp) (ucast v), ucast v, bp + 7)"
    by (rule reads_bind [OF reads_readbyte])
      (use small.prems in \<open>simp add: varint32_loop.simps [of bp] f_def [abs_def] word_le_nat_alt
        split: prod.splits option.splits\<close>)
  moreover have "(ucast v :: byte) AND 0x70 = 0" if "bp + 7 = 35"
  proof -
    from that have "bp = 35 - 7" by (simp add: eq_diff_eq)
    then have "unat v < 2 ^ 4" using small.prems by simp
    then have "bit v n \<Longrightarrow> n < 4" for n by (rule high_bits_clear)
    then show ?thesis
      by (intro bit_word_eqI) (force simp: bit_simps byte_simps)
  qed
  ultimately show ?case
    using small.hyps by (intro exI [of _ "ucast v"] exI [of _ "bp + 7"]) (simp add: varint_bytes_rec [of v])
next
  case (large v)
  let ?b = "ucast (v AND 0x7F) OR 0x80 :: byte"
  let ?r = "r OR push_bit (unat bp) (ucast (v AND 0x7F))"
  define f where "f b s1 = (let result' = r OR push_bit (unat bp) (ucast (b AND 0x7F)) in
           if b AND 0x80 \<noteq> 0 then varint32_loop (bp + 7) result' s1
           else (Some (result', b, bp + 7), s1))" for b :: byte and s1 :: "'s pb_istream_t"
  have "128 \<le> unat v" using large.hyps by (simp add: word_le_nat_alt not_le)
  then have "2 ^ (7 + unat bp) \<le> unat v * 2 ^ unat bp" by (simp add: power_add)
  with large.prems have "(2::nat) ^ (7 + unat bp) < 2 ^ 32" by linarith
  then have "7 + unat bp < 32" by (rule power_less_imp_less_exp [rotated]) simp
  then have bp: "unat bp + 7 < 32" by simp
  then have bp7: "unat (bp + 7) = unat bp + 7"
    by (simp add: unat_word_ariths)
  have "unat (drop_bit 7 v) * 2 ^ unat (bp + 7) = (unat v div 128 * 128) * 2 ^ unat bp"
    by (simp add: unat_drop_bit bp7 power_add)
  also have "\<dots> \<le> unat v * 2 ^ unat bp" by (rule mult_le_mono1) simp
  finally have "unat (drop_bit 7 v) * 2 ^ unat (bp + 7) < 2 ^ 32"
    using large.prems by linarith
  from large.IH [OF this, of ?r] bp bp7 obtain b bp' where
    last: "\<not> (bp' = 35 \<and> b AND 0x70 \<noteq> 0)" and
    rest: "reads (varint32_loop (bp + 7) ?r) (varint_bytes (drop_bit 7 v))
      (?r OR push_bit (unat bp + 7) (ucast (drop_bit 7 v)), b, bp')" by auto
  have "?r OR push_bit (unat bp + 7) (ucast (drop_bit 7 v)) = r OR push_bit (unat bp) (ucast v)"
    by (simp only: or.assoc split_low_high_ucast)
  moreover have "ucast (?b AND 0x7F) = (ucast (v AND 0x7F) :: u32)"
    by (intro bit_word_eqI) (auto simp: bit_simps byte_simps)
  then have "f ?b = varint32_loop (bp + 7) ?r"
    by (simp add: f_def [abs_def] Let_def cont_byte(1))
  ultimately have "reads (f ?b) (varint_bytes (drop_bit 7 v))
      (r OR push_bit (unat bp) (ucast v), b, bp')"
    using rest by (simp only:)
  then have "reads (varint32_loop bp r) ([?b] @ varint_bytes (drop_bit 7 v))
      (r OR push_bit (unat bp) (ucast v), b, bp')"
    by (rule reads_bind [OF reads_readbyte])
      (use large.prems in \<open>simp add: varint32_loop.simps [of bp] f_def [abs_def] word_le_nat_alt
        split: prod.splits option.splits\<close>)
  with large.hyps last show ?case by (auto simp: varint_bytes_rec [of v])
qed


lemma reads_varint32: "reads pb_decode_varint32 (varint_bytes (ucast v)) v"
proof -
  let ?v = "ucast v :: u64"
  let ?b = "ucast (?v AND 0x7F) OR 0x80 :: byte"
  define f where "f b s1 = (if b AND 0x80 = 0 then (Some (ucast b), s1)
          else case varint32_loop 7 (ucast (b AND 0x7F)) s1 of
            (None, s2) \<Rightarrow> (None, s2)
          | (Some (result, b', bitpos), s2) \<Rightarrow>
              if bitpos = 35 \<and> b' AND 0x70 \<noteq> 0
              then (None, iset_error ''varint overflow'' s2)
              else (Some result, s2))" for b :: byte and s1 :: "'s pb_istream_t"
  have bind: "pb_decode_varint32 s =
      (case pb_readbyte s of (None, s1) \<Rightarrow> (None, s1) | (Some b, s1) \<Rightarrow> f b s1)" for s
    by (simp add: pb_decode_varint32_def pb_decode_varint32_eof_def f_def
        split: prod.splits option.splits)
  show ?thesis
  proof (cases "?v \<le> 0x7F")
    case True
    have "(ucast (ucast ?v :: byte) :: u32) = v"
    proof (rule bit_word_eqI)
      fix n
      assume "n < LENGTH(32)"
      moreover have "bit ?v n \<Longrightarrow> n < 7"
        using True high_bits_clear [of ?v 7 n] by (simp add: word_le_nat_alt)
      ultimately show "bit (ucast (ucast ?v :: byte) :: u32) n = bit v n"
        by (auto simp: bit_simps)
    qed
    then have "reads (f (ucast ?v)) [] v"
      using True by (simp add: f_def [abs_def] low_byte(1) reads_return)
    then have "reads pb_decode_varint32 ([ucast ?v] @ []) v"
      by (rule reads_bind [OF reads_readbyte _ bind])
    with True show ?thesis by (simp add: varint_bytes_rec [of ?v])
  next
    case False
    let ?w = "drop_bit 7 ?v"
    have "unat ?v < 2 ^ 32" using unat_less_32 [of v] by (simp add: unsigned_ucast_eq take_bit_nat_eq_self)
    then have "unat ?w * 2 ^ unat (7 :: byte) < 2 ^ 32"
      using div_times_less_eq_dividend [of "unat ?v" 128] by (simp add: unat_drop_bit)
    from reads_varint32_loop [OF this, of "ucast (?v AND 0x7F)"] obtain b bp' where
      last: "\<not> (bp' = 35 \<and> b AND 0x70 \<noteq> 0)" and
      loop: "reads (varint32_loop 7 (ucast (?v AND 0x7F))) (varint_bytes ?w)
        (ucast (?v AND 0x7F) OR push_bit 7 (ucast ?w), b, bp')" by auto
    have val: "ucast (?v AND 0x7F) OR push_bit 7 (ucast ?w) = v"
      using split_low_high_ucast [of 0 ?v] by (simp add: ucast_u32_u64)
    have "ucast (?b AND 0x7F) = (ucast (?v AND 0x7F) :: u32)"
      by (intro bit_word_eqI) (auto simp: bit_simps byte_simps)
    then have fb: "f ?b s1 = (case varint32_loop 7 (ucast (?v AND 0x7F)) s1 of
            (None, s2) \<Rightarrow> (None, s2)
          | (Some x, s2) \<Rightarrow> (case x of (result, b', bitpos) \<Rightarrow>
              if bitpos = 35 \<and> b' AND 0x70 \<noteq> 0
              then (None, iset_error ''varint overflow'' s2)
              else (Some result, s2)))" for s1
      by (simp add: f_def cont_byte(1))
    have "reads (f ?b) (varint_bytes ?w @ []) v"
      by (rule reads_bind [OF loop _ fb]) (use last val in \<open>auto simp: reads_return\<close>)
    then have "reads pb_decode_varint32 ([?b] @ varint_bytes ?w @ []) v"
      by (rule reads_bind [OF reads_readbyte _ bind])
    with False show ?thesis by (simp add: varint_bytes_rec [of ?v])
  qed
qed


lemma reads_fixed32: "reads pb_decode_fixed32 (fixed32_bytes v) v"
proof -
  have "reads (\<lambda>s. (Some (fixed32_word (fixed32_bytes v)), s)) [] v"
    by (simp add: fixed32_roundtrip reads_return)
  then have "reads pb_decode_fixed32 (fixed32_bytes v @ []) v"
    by (rule reads_bind [OF reads_read]) (simp add: pb_decode_fixed32_def length_fixed)
  then show ?thesis by simp
qed

lemma reads_fixed64: "reads pb_decode_fixed64 (fixed64_bytes v) v"
proof -
  have "reads (\<lambda>s. (Some (fixed64_word (fixed64_bytes v)), s)) [] v"
    by (simp add: fixed64_roundtrip reads_return)
  then have "reads pb_decode_fixed64 (fixed64_bytes v @ []) v"
    by (rule reads_bind [OF reads_read]) (simp add: pb_decode_fixed64_def length_fixed)
  then show ?thesis by simp
qed

lemma reads_svarint: "reads pb_decode_svarint (varint_bytes (zigzag v)) v"
proof -
  have "reads (\<lambda>s. (Some (unzigzag (zigzag v)), s)) [] v"
    by (simp add: zigzag_roundtrip reads_return)
  then have "reads pb_decode_svarint (varint_bytes (zigzag v) @ []) v"
    by (rule reads_bind [OF reads_varint]) (simp add: pb_decode_svarint_def)
  then show ?thesis by simp
qed

lemma skip_varint_moves:
  "reads pb_skip_varint (varint_bytes v) ()"
proof (induction v rule: varint_bytes_induct)
  case (small v)
  define f where "f d s1 = (if hd d AND 0x80 \<noteq> 0 then pb_skip_varint s1 else (Some (), s1))"
    for d :: "byte list" and s1 :: "'s pb_istream_t"
  have "reads (f [ucast v]) [] ()"
    using small by (simp add: f_def [abs_def] low_byte(1) reads_return)
  then have "reads pb_skip_varint ([ucast v] @ []) ()"
    by (rule reads_bind [OF reads_read [of "[ucast v]"]])
      (simp add: pb_skip_varint.simps f_def split: prod.splits option.splits)
  with small show ?case by (simp add: varint_bytes_rec [of v])
next
  case (large v)
  let ?b = "ucast (v AND 0x7F) OR 0x80 :: byte"
  define f where "f d s1 = (if hd d AND 0x80 \<noteq> 0 then pb_skip_varint s1 else (Some (), s1))"
    for d :: "byte list" and s1 :: "'s pb_istream_t"
  have "reads (f [?b]) (varint_bytes (drop_bit 7 v)) ()"
    using large.IH by (simp add: f_def [abs_def] cont_byte(1))
  then have "reads pb_skip_varint ([?b] @ varint_bytes (drop_bit 7 v)) ()"
    by (rule reads_bind [OF reads_read [of "[?b]"]])
      (simp add: pb_skip_varint.simps [of s for s] f_def split: prod.splits option.splits)
  with large.hyps show ?case by (simp add: varint_bytes_rec [of v])
qed

lemma reads_null_read:
  "reads (\<lambda>s. discard (pb_read True (length bs) s)) bs ()"
proof (rule readsI)
  fix s c b
  assume "holds s (bs @ c) (length bs + b)"
  from null_read_moves [OF this] show "\<exists>s'. discard (pb_read True (length bs) s) = (Some (), s') \<and>
      holds s' c b \<and> ierrmsg s' = ierrmsg s"
    by (auto simp: discard_def)
qed

lemma skip_string_moves:
  assumes "length bs < 2 ^ 32"
  shows "reads pb_skip_string (varint_bytes (of_nat (length bs)) @ bs) ()"
proof -
  have len: "unat (of_nat (length bs) :: u32) = length bs"
    using assms by (simp add: unat_of_nat)
  then have up: "ucast (of_nat (length bs) :: u32) = (of_nat (length bs) :: u64)"
    using assms by (simp add: word_unat_eq_iff unsigned_ucast_eq unat_of_nat take_bit_nat_eq_self)
  show ?thesis
    by (rule reads_bind [OF reads_varint32 [of "of_nat (length bs)", unfolded up]])
      (use reads_null_read [of bs] in \<open>simp_all add: len pb_skip_string_def\<close>)
qed

lemma skip_field_moves:
  "reads (pb_skip_field 0) (varint_bytes v) ()"
  "length bs = 8 \<Longrightarrow> reads (pb_skip_field 1) bs ()"
  "length bs < 2 ^ 32 \<Longrightarrow> reads (pb_skip_field 2) (varint_bytes (of_nat (length bs)) @ bs) ()"
  "length bs = 4 \<Longrightarrow> reads (pb_skip_field 5) bs ()"
  using skip_varint_moves reads_null_read [of bs] skip_string_moves
  by (simp_all add: pb_skip_field_def [abs_def])

end

lemma wire_type_code_small: "unat (wire_type_code wt) < 2 ^ 3"
  by (cases wt) simp_all

lemma tag_word_parts:
  fixes n :: u32 and wt :: pb_wire_type_t
  assumes "unat n < 2 ^ 29"
  defines "t \<equiv> push_bit 3 n OR ucast (wire_type_code wt) :: u32"
  shows "ucast t = tag_word wt n" and "t AND 7 = ucast (wire_type_code wt)"
    and "drop_bit 3 t = n"
proof -
  have n: "bit n i \<Longrightarrow> i < 29" for i using assms(1) by (rule high_bits_clear)
  have w: "bit (wire_type_code wt) i \<Longrightarrow> i < 3" for i
    using wire_type_code_small by (rule high_bits_clear)
  show "ucast t = tag_word wt n"
    by (rule bit_word_eqI) (auto simp: t_def tag_word_def bit_simps dest: n w)
  show "t AND 7 = ucast (wire_type_code wt)"
    by (rule bit_word_eqI) (auto simp: t_def bit_simps byte_simps dest: w)
  show "drop_bit 3 t = n"
    by (rule bit_word_eqI) (auto simp: t_def bit_simps dest: n w)
qed

lemma varint32_eof_of_success:
  "pb_decode_varint32 s = (Some v, s') \<Longrightarrow> pb_decode_varint32_eof s = (Some v, False, s')"
  by (auto simp: pb_decode_varint32_def pb_decode_varint32_eof_def
      split: prod.splits option.splits if_splits)

lemma tag_word_nonzero: "n \<noteq> 0 \<Longrightarrow> unat n < 2 ^ 29 \<Longrightarrow>
    push_bit 3 n OR ucast (wire_type_code wt) \<noteq> (0 :: u32)"
  using tag_word_parts(3) [of n wt] by force

context istream_contract
begin

lemma tag_moves:
  assumes "n \<noteq> 0" and "unat n < 2 ^ 29"
    and "holds s (varint_bytes (tag_word wt n) @ c) (length (varint_bytes (tag_word wt n)) + b)"
  shows "\<exists>s'. pb_decode_tag s = (Some (ucast (wire_type_code wt), n), False, s') \<and>
    holds s' c b \<and> ierrmsg s' = ierrmsg s"
proof -
  let ?t = "push_bit 3 n OR ucast (wire_type_code wt) :: u32"
  from reads_varint32 [of ?t] assms(3) obtain s' where
    "pb_decode_varint32 s = (Some ?t, s')" and s': "holds s' c b" "ierrmsg s' = ierrmsg s"
    unfolding tag_word_parts(1) [OF assms(2)] by (rule readsE)
  then have "pb_decode_varint32_eof s = (Some ?t, False, s')"
    by (simp add: varint32_eof_of_success)
  then have "pb_decode_tag s = (Some (?t AND 7, drop_bit 3 ?t), False, s')"
    using tag_word_nonzero [OF assms(1,2)] by (simp add: pb_decode_tag_def)
  with s' show ?thesis by (simp only: tag_word_parts(2,3) [OF assms(2)]) blast
qed

text \<open>
  A length-delimited value opens a substream of exactly its bytes, and closing it, wherever
  the substream was left, puts the parent right behind them.
\<close>

lemma substream_opens:
  assumes "length d < 2 ^ 32"
    and "holds s (varint_bytes (of_nat (length d)) @ d @ c)
          (length (varint_bytes (of_nat (length d))) + (length d + b))"
  shows "\<exists>sub s'. pb_make_string_substream s = (Some sub, s') \<and> holds sub (d @ c) (length d) \<and>
    holds s' (d @ c) b \<and> ierrmsg sub = ierrmsg s \<and> ierrmsg s' = ierrmsg s"
proof -
  let ?n = "of_nat (length d) :: u32"
  have len: "unat ?n = length d"
    using assms by (simp add: unat_of_nat)
  then have "ucast ?n = (of_nat (length d) :: u64)"
    using assms by (simp add: word_unat_eq_iff unsigned_ucast_eq unat_of_nat take_bit_nat_eq_self)
  with assms(2) reads_varint32 [of ?n] obtain s1 where
    "pb_decode_varint32 s = (Some ?n, s1)" "holds s1 (d @ c) (length d + b)" "ierrmsg s1 = ierrmsg s"
    by (auto elim!: readsE)
  then show ?thesis by (auto simp: pb_make_string_substream_def holds_def len)
qed

lemma substream_closes:
  assumes "holds sub (d @ c) (length d)" and "bytes_left s = b"
  shows "\<exists>s' sub'. pb_close_string_substream s sub = (Some (), s', sub') \<and> holds s' c b \<and>
    ierrmsg s' = ierrmsg sub"
proof -
  from assms(1) have "holds sub (d @ c) (length d + 0)" by simp
  from null_read_moves [OF this] obtain x sub' where
    "pb_read True (length d) sub = (Some x, sub')" "holds sub' c 0" "ierrmsg sub' = ierrmsg sub"
    by blast
  moreover have "bytes_left sub = length d" using assms(1) by (simp add: holds_def)
  ultimately show ?thesis
    using assms by (cases "d = []") (auto simp: pb_close_string_substream_def holds_def)
qed

end

section \<open>Encoders under the output contract\<close>

context ostream_contract
begin

lemma writes_varint: "writes (pb_encode_varint v) (varint_bytes v)"
proof -
  have "length (varint_bytes v) < 2 ^ 64" using varint_bytes_length_10 [of v] by simp
  from writes_write [OF this] show ?thesis by (simp add: pb_encode_varint_def [abs_def] Let_def)
qed

lemma writes_svarint: "writes (pb_encode_svarint v) (varint_bytes (zigzag v))"
  unfolding pb_encode_svarint_def by (rule writes_varint)

lemma writes_tag: "writes (pb_encode_tag wt n) (varint_bytes (tag_word wt n))"
  unfolding pb_encode_tag_def by (rule writes_varint)

lemma writes_fixed32: "writes (pb_encode_fixed32 v) (fixed32_bytes v)"
  using writes_write [of "fixed32_bytes v"] by (simp add: pb_encode_fixed32_def length_fixed)

lemma writes_fixed64: "writes (pb_encode_fixed64 v) (fixed64_bytes v)"
  using writes_write [of "fixed64_bytes v"] by (simp add: pb_encode_fixed64_def length_fixed)

lemma writes_string:
  assumes "length bs < 2 ^ 64"
  shows "writes (pb_encode_string bs (of_nat (length bs))) (varint_bytes (of_nat (length bs)) @ bs)"
  unfolding pb_encode_string_def using assms by (intro writes_seq writes_varint writes_write)

end

lemma sizes_varint: "sizes (pb_encode_varint v) (length (varint_bytes v))"
proof -
  have "length (varint_bytes v) < 2 ^ 64" using varint_bytes_length_10 [of v] by simp
  from sizes_write [OF this] show ?thesis by (simp add: pb_encode_varint_def [abs_def] Let_def)
qed

section \<open>Round trips and bounds on memory streams\<close>

text \<open>
  C1 (round trip). Encoding any 64-bit value as a varint into an empty 10-byte buffer succeeds
  and stores between one and ten bytes (the size of the local array \<^verbatim>\<open>buffer\<close>), and decoding
  them with any bytes behind them gives the value back and leaves the stream at those bytes.
\<close>

theorem pb_varint_roundtrip:
  "pb_encode_varint v (pb_ostream_from_buffer 10 :: 's pb_ostream_t) =
     (True, \<lparr>sink = OBuf (varint_bytes v), max_size = 10,
             bytes_written = of_nat (length (varint_bytes v)), oerrmsg = None\<rparr>) \<and>
   1 \<le> length (varint_bytes v) \<and> length (varint_bytes v) \<le> 10 \<and>
   pb_decode_varint (pb_istream_from_buffer (varint_bytes v @ rest)
       (length (varint_bytes v) + left) :: 's pb_istream_t) =
     (Some v, pb_istream_from_buffer rest left)"
  using mem_writes_exact [OF mem_out.writes_varint, of v 10] varint_bytes_length_10 [of v]
    varint_bytes_nonempty [of v] mem_reads_exact [OF mem_in.reads_varint, of v rest left]
  by (auto simp: Suc_le_eq)

text \<open>
  A field key: for every wire type and every field number from 1 up to
  2^29 - 1, the bytes that \<^verbatim>\<open>pb_encode_tag\<close> stores are read back by \<^verbatim>\<open>pb_decode_tag\<close> as the
  same wire type and number, without the end-of-message flag.
\<close>

theorem pb_tag_roundtrip:
  assumes "n \<noteq> 0" and "unat n < 2 ^ 29"
  shows "\<exists>bs. pb_encode_tag wt n (pb_ostream_from_buffer 10 :: 's pb_ostream_t) =
       (True, \<lparr>sink = OBuf bs, max_size = 10, bytes_written = of_nat (length bs),
               oerrmsg = None\<rparr>) \<and>
     pb_decode_tag (pb_istream_from_buffer (bs @ rest) (length bs + left) :: 's pb_istream_t) =
       (Some (ucast (wire_type_code wt), n), False, pb_istream_from_buffer rest left)"
proof -
  let ?bs = "varint_bytes (tag_word wt n)"
  have "pb_encode_tag wt n (pb_ostream_from_buffer 10 :: 's pb_ostream_t) =
      (True, \<lparr>sink = OBuf ?bs, max_size = 10, bytes_written = of_nat (length ?bs), oerrmsg = None\<rparr>)"
    using mem_writes_exact [OF mem_out.writes_tag, of wt n 10] varint_bytes_length_10 by simp
  moreover have "mem_in.holds (pb_istream_from_buffer (?bs @ rest) (length ?bs + left) ::
      's pb_istream_t) (?bs @ rest) (length ?bs + left)" by (rule mem_holds_buffer)
  from mem_in.tag_moves [OF assms this]
  have "pb_decode_tag (pb_istream_from_buffer (?bs @ rest) (length ?bs + left) :: 's pb_istream_t) =
      (Some (ucast (wire_type_code wt), n), False, pb_istream_from_buffer rest left)"
    by (auto dest: mem_stream_eq)
  ultimately show ?thesis by blast
qed

theorem pb_tag_roundtrip_witness:
  "(5 :: u32) \<noteq> 0 \<and> unat (5 :: u32) < 2 ^ 29 \<and>
   (\<exists>bs. pb_encode_tag PB_WT_STRING 5 (pb_ostream_from_buffer 10 :: unit pb_ostream_t) =
       (True, \<lparr>sink = OBuf bs, max_size = 10, bytes_written = of_nat (length bs),
               oerrmsg = None\<rparr>) \<and>
     pb_decode_tag (pb_istream_from_buffer (bs @ [7]) (length bs + 1) :: unit pb_istream_t) =
       (Some (ucast (wire_type_code PB_WT_STRING), 5), False, pb_istream_from_buffer [7] 1))"
  using pb_tag_roundtrip [of 5 PB_WT_STRING "[7]" 1] by simp

text \<open>
  A length-delimited value of less than 2^32 bytes: \<^verbatim>\<open>pb_encode_string\<close> stores
  its length and its bytes; \<^verbatim>\<open>pb_make_string_substream\<close> then opens a substream limited to
  exactly those bytes; and closing it after any part of it has been read leaves the parent
  stream right behind the value.
\<close>

theorem pb_string_substream:
  assumes "length data < 2 ^ 32"
    and "length (varint_bytes (of_nat (length data)) @ data) \<le> unat cap"
    and "k \<le> length data"
  shows "\<exists>bs parent. pb_encode_string data (of_nat (length data))
         (pb_ostream_from_buffer cap :: 's pb_ostream_t) =
       (True, \<lparr>sink = OBuf bs, max_size = cap, bytes_written = of_nat (length bs),
               oerrmsg = None\<rparr>) \<and>
     pb_make_string_substream
         (pb_istream_from_buffer (bs @ rest) (length bs + left) :: 's pb_istream_t) =
       (Some (pb_istream_from_buffer (data @ rest) (length data)), parent) \<and>
     (\<exists>sub. pb_close_string_substream parent
         (pb_istream_from_buffer (drop k data @ rest) (length data - k)) =
       (Some (), pb_istream_from_buffer rest left, sub))"
proof -
  let ?bs = "varint_bytes (of_nat (length data)) @ data"
  have "length data < 2 ^ 64" using assms(1) by simp
  note enc = mem_writes_exact [OF mem_out.writes_string [OF this] assms(2), where ?'s = 's]
  have "mem_in.holds (pb_istream_from_buffer (?bs @ rest) (length ?bs + left) :: 's pb_istream_t)
      (varint_bytes (of_nat (length data)) @ data @ rest)
      (length (varint_bytes (of_nat (length data))) + (length data + left))"
    using mem_holds_buffer [of "?bs @ rest" "length ?bs + left"] by (simp add: add.assoc)
  from mem_in.substream_opens [OF assms(1) this] obtain sub parent :: "'s pb_istream_t" where
    open_sub: "pb_make_string_substream (pb_istream_from_buffer (?bs @ rest) (length ?bs + left)) =
        (Some sub, parent)" "mem_in.holds sub (data @ rest) (length data)" "ierrmsg sub = None"
    and parent: "mem_in.holds parent (data @ rest) left" "ierrmsg parent = None"
    by auto
  from open_sub(2,3) have sub: "sub = pb_istream_from_buffer (data @ rest) (length data)"
    by (rule mem_stream_eq)
  have "mem_in.holds (pb_istream_from_buffer (drop k data @ rest) (length data - k) ::
      's pb_istream_t) (drop k data @ rest) (length (drop k data))"
    using mem_holds_buffer by simp
  moreover from parent have "bytes_left parent = left" by (simp add: mem_in.holds_def)
  ultimately obtain s' sub' :: "'s pb_istream_t" where
    "pb_close_string_substream parent
       (pb_istream_from_buffer (drop k data @ rest) (length data - k)) = (Some (), s', sub')"
    "mem_in.holds s' rest left" "ierrmsg s' = None"
    using mem_in.substream_closes by fastforce
  with sub enc open_sub(1) show ?thesis by (blast dest: mem_stream_eq)
qed

theorem pb_string_substream_witness:
  "length [1, 2, 3 :: byte] < 2 ^ 32 \<and>
   length (varint_bytes (of_nat (length [1, 2, 3 :: byte])) @ [1, 2, 3]) \<le> unat (8 :: size_t) \<and>
   (\<exists>bs parent. pb_encode_string [1, 2, 3] (of_nat (length [1, 2, 3 :: byte]))
         (pb_ostream_from_buffer 8 :: unit pb_ostream_t) =
       (True, \<lparr>sink = OBuf bs, max_size = 8, bytes_written = of_nat (length bs),
               oerrmsg = None\<rparr>) \<and>
     pb_make_string_substream
         (pb_istream_from_buffer (bs @ [9]) (length bs + 1) :: unit pb_istream_t) =
       (Some (pb_istream_from_buffer ([1, 2, 3] @ [9]) (length [1, 2, 3 :: byte])), parent) \<and>
     (\<exists>sub. pb_close_string_substream parent
         (pb_istream_from_buffer (drop 2 [1, 2, 3] @ [9]) (length [1, 2, 3 :: byte] - 2)) =
       (Some (), pb_istream_from_buffer [9] 1, sub)))"
proof -
  have a: "length [1, 2, 3 :: byte] < 2 ^ 32" and c: "2 \<le> length [1, 2, 3 :: byte]" by simp_all
  have b: "length (varint_bytes (of_nat (length [1, 2, 3 :: byte])) @ [1, 2, 3]) \<le> unat (8 :: size_t)"
    by (simp add: varint_bytes_def)
  show ?thesis using a b pb_string_substream [OF a b c, of "[9]" 1] by blast
qed

text \<open>
  C2 (functional). \<^verbatim>\<open>pb_skip_field\<close> passes over exactly one encoded value of each wire type: a
  varint, eight bytes, a length-delimited string, four bytes; it does so through a memory
  stream and through a user callback that serves \<^verbatim>\<open>buf_read\<close>, where the skip goes through
  16-byte chunks.
\<close>

theorem pb_skip_field_exact:
  assumes "length eight = 8" and "length data < 2 ^ 32" and "length four = 4"
    and "(wt, bs) \<in> {(0, varint_bytes v), (1, eight),
            (2, varint_bytes (of_nat (length data)) @ data), (5, four)}"
  shows "pb_skip_field wt (pb_istream_from_buffer (bs @ rest) (length bs + left) :: 's pb_istream_t) =
      (Some (), pb_istream_from_buffer rest left) \<and>
    pb_skip_field wt \<lparr>source = User buf_read_callback (bs @ rest),
        bytes_left = length bs + left, ierrmsg = None\<rparr> =
      (Some (), \<lparr>source = User buf_read_callback rest, bytes_left = left, ierrmsg = None\<rparr>)"
proof
  have "mem_in.reads (pb_skip_field wt) bs ()"
    using assms mem_in.skip_field_moves by auto
  then show "pb_skip_field wt (pb_istream_from_buffer (bs @ rest) (length bs + left) :: 's pb_istream_t) =
      (Some (), pb_istream_from_buffer rest left)"
    by (rule mem_reads_exact)
  have "buf_user.usr.reads (pb_skip_field wt) bs ()"
    using assms buf_user.usr.skip_field_moves by auto
  moreover have "buf_user.usr.holds \<lparr>source = User buf_read_callback (bs @ rest),
      bytes_left = length bs + left, ierrmsg = None\<rparr> (bs @ rest) (length bs + left)"
    by (simp add: buf_user.usr.holds_def)
  ultimately obtain s' where "pb_skip_field wt \<lparr>source = User buf_read_callback (bs @ rest),
        bytes_left = length bs + left, ierrmsg = None\<rparr> = (Some (), s')"
      "buf_user.usr.holds s' rest left" "ierrmsg s' = None"
    by (auto elim!: buf_user.usr.readsE)
  then show "pb_skip_field wt \<lparr>source = User buf_read_callback (bs @ rest),
           bytes_left = length bs + left, ierrmsg = None\<rparr> =
      (Some (), \<lparr>source = User buf_read_callback rest, bytes_left = left, ierrmsg = None\<rparr>)"
    by (cases s') (auto simp: buf_user.usr.holds_def buf_user.user_ok_def)
qed

theorem pb_skip_field_exact_witness:
  "pb_skip_field 1 (pb_istream_from_buffer (replicate 8 3 @ [9]) (length (replicate 8 (3::byte)) + 1)
       :: unit pb_istream_t) = (Some (), pb_istream_from_buffer [9] 1) \<and>
   pb_skip_field 1 \<lparr>source = User buf_read_callback (replicate 8 3 @ [9]),
        bytes_left = length (replicate 8 (3::byte)) + 1, ierrmsg = None\<rparr> =
      (Some (), \<lparr>source = User buf_read_callback [9], bytes_left = 1, ierrmsg = None\<rparr>)"
  by (rule pb_skip_field_exact [where eight = "replicate 8 3" and data = "[]" and four = "[1, 2, 3, 4]"
        and v = 0]) simp_all

text \<open>
  C3 (safety). The stream budget protects the output buffer: as long as a memory stream's
  stored bytes and its remaining budget fit in the buffer together, no call of
  \<^verbatim>\<open>pb_write\<close>, whatever its count, stores a byte past the end of the buffer, and the stream
  it leaves keeps that invariant. A call that does not fit fails with the first error
  message kept and stores nothing.
\<close>

definition obuf_fits :: "nat \<Rightarrow> 's pb_ostream_t \<Rightarrow> bool" where
  "obuf_fits cap s \<longleftrightarrow> is_obuf (sink s) \<and> bytes_written s \<le> max_size s \<and>
     length (obuf_stored (sink s)) + (unat (max_size s) - unat (bytes_written s)) \<le> cap"

theorem pb_write_in_bounds:
  assumes "obuf_fits cap s" and "pb_write buf count s = (r, s')"
  shows "obuf_fits cap s' \<and> length (obuf_stored (sink s')) \<le> cap \<and>
    (r \<longleftrightarrow> unat (bytes_written s) + unat count \<le> unat (max_size s)) \<and>
    (\<not> r \<longrightarrow> s' = oset_error ''stream full'' s)"
proof -
  obtain w where w: "sink s = OBuf w" using assms(1) by (cases "sink s") (auto simp: obuf_fits_def)
  have le: "unat (bytes_written s) \<le> unat (max_size s)"
    and fit: "length w + (unat (max_size s) - unat (bytes_written s)) \<le> cap"
    using assms(1) unfolding obuf_fits_def w obuf_stored.simps word_le_nat_alt by blast+
  let ?sum = "unat (bytes_written s) + unat count"
  show ?thesis
  proof (cases "?sum < 2 ^ 64 \<and> ?sum \<le> unat (max_size s)")
    case True
    then have sum: "unat (bytes_written s + count) = ?sum" by (simp add: unat_word_ariths)
    have "s' = s\<lparr>sink := OBuf (w @ take (unat count) buf), bytes_written := bytes_written s + count\<rparr>"
      and r: "r"
      using assms(2) True sum w
      by (auto simp: pb_write_def word_less_nat_alt unat_eq_zero split: if_splits)
    with True sum fit show ?thesis by (auto simp: obuf_fits_def word_le_nat_alt)
  next
    case False
    have "bytes_written s + count < bytes_written s \<or> max_size s < bytes_written s + count"
      using False unat_less_64 [of "max_size s"] unat_less_64 [of "bytes_written s"]
        unat_less_64 [of count]
      by (auto simp: word_less_nat_alt unat_word_ariths mod_if)
    moreover have "count \<noteq> 0" using False le unat_less_64 [of "max_size s"] by auto
    ultimately have "s' = oset_error ''stream full'' s" "\<not> r"
      using assms(2) w by (auto simp: pb_write_def word_neq_0_conv split: if_splits)
    with False assms(1) w fit show ?thesis
      using unat_less_64 [of "max_size s"] by (auto simp: obuf_fits_def oset_error_def)
  qed
qed

theorem pb_write_in_bounds_witness:
  "obuf_fits 2 (pb_ostream_from_buffer 2 :: unit pb_ostream_t) \<and>
   obuf_fits 2 (snd (pb_write [1, 2, 3] 3 (pb_ostream_from_buffer 2 :: unit pb_ostream_t)))"
proof -
  have h: "obuf_fits 2 (pb_ostream_from_buffer 2 :: unit pb_ostream_t)"
    by (simp add: obuf_fits_def pb_ostream_from_buffer_def)
  from pb_write_in_bounds [OF h, of "[1, 2, 3]" 3] h show ?thesis by (metis prod.collapse)
qed

text \<open>
  Two padded inputs that \<^verbatim>\<open>pb_encode_varint\<close> never writes: a six-byte form of 2^32, which
  \<^verbatim>\<open>pb_decode_varint32\<close> reads as 0 and the 64-bit decoder as 2^32, and a 38-byte run of
  continuation bytes, read as 8 after the byte-wide bit counter has wrapped, where the 64-bit
  decoder reports an overflow. \<open>Pb_Varint32\<close> says what is accepted of the unpadded forms.
\<close>

lemma varint32_padded:
  "fst (pb_decode_varint32 (pb_istream_from_buffer [0x80, 0x80, 0x80, 0x80, 0x90, 0] 6
      :: unit pb_istream_t)) = Some 0 \<and>
   fst (pb_decode_varint (pb_istream_from_buffer [0x80, 0x80, 0x80, 0x80, 0x90, 0] 6
      :: unit pb_istream_t)) = Some (2 ^ 32) \<and>
   fst (pb_decode_varint32 (pb_istream_from_buffer (replicate 37 0x80 @ [1]) 38
      :: unit pb_istream_t)) = Some 8 \<and>
   fst (pb_decode_varint (pb_istream_from_buffer (replicate 37 0x80 @ [1]) 38
      :: unit pb_istream_t)) = None"
  by code_simp

end
