(* ===== verification/Pb_Varint32.thy ===== *)
theory Pb_Varint32
  imports Pb_Wire
begin

text \<open>
  What \<^verbatim>\<open>pb_decode_varint32\<close> (\<^verbatim>\<open>nanopb/pb_decode.c\<close>) accepts. The decoder keeps its bit position in a byte
  and checks the bytes from bit 32 on one at a time. \<open>sign_groups\<close> is the condition these checks
  amount to; the loop is followed backwards from its last byte, first over the bytes that only
  the checks see (\<open>varint32_high\<close>), then over those that contribute to the value (\<open>varint32_low\<close>).
\<close>

unbundle bit_operations_syntax

text \<open>The top bit of a value of \<open>7 * k + 1\<close> bits is set and its \<open>k\<close> lower groups are all zeros or all ones.\<close>

definition sign_groups :: "nat \<Rightarrow> u64 \<Rightarrow> bool" where
  "sign_groups k w \<longleftrightarrow> bit w (7 * k) \<and> list_all (\<lambda>i. take_bit 7 (drop_bit (7 * i) w) \<in> {0, 127}) [0..<k]"

text \<open>The test of the last byte behind the loop.\<close>

definition varint32_result :: "(u32 \<times> byte \<times> byte) option \<Rightarrow> u32 option" where
  "varint32_result r = (case r of None \<Rightarrow> None | Some (w, b, bp) \<Rightarrow> if bp = 35 \<and> b AND 0x70 \<noteq> 0 then None else Some w)"

lemma sign_groups_Suc: "sign_groups (Suc k) w \<longleftrightarrow> w AND 0x7F \<in> {0, 127} \<and> sign_groups k (drop_bit 7 w)"
proof -
  have "[0..<Suc k] = 0 # map Suc [0..<k]" by (simp add: map_Suc_upt upt_conv_Cons del: upt_Suc)
  then have l: "list_all P [0..<Suc k] \<longleftrightarrow> P 0 \<and> list_all (\<lambda>i. P (Suc i)) [0..<k]" for P
    by (simp only: list.pred_map list.pred_inject comp_def)
  have "w AND 0x7F = take_bit 7 w" by (simp add: take_bit_eq_mask mask7)
  then show ?thesis unfolding sign_groups_def l
    by (simp add: bit_drop_bit_eq drop_bit_drop_bit add.commute) blast
qed

lemma low_group: "w \<le> 0x7F \<Longrightarrow> (ucast (w :: u64) :: byte) AND 0x7F = 0 \<longleftrightarrow> w = 0"
  using low_byte(2) [of w] by (cases "w = 0") auto

lemma group_byte:
  fixes w :: u64
  shows "(ucast (w AND 0x7F) OR 0x80 :: byte) AND 0x7F = 0 \<longleftrightarrow> w AND 0x7F = 0"
    and "(ucast (w AND 0x7F) OR 0x80 :: byte) = 0xFF \<longleftrightarrow> w AND 0x7F = 127"
proof -
  have "(ucast (w AND 0x7F) :: byte) = 0 \<longleftrightarrow> w AND 0x7F = 0"
    using cont_byte(2,3) [of w] by (metis ucast_0)
  then show "(ucast (w AND 0x7F) OR 0x80 :: byte) AND 0x7F = 0 \<longleftrightarrow> w AND 0x7F = 0" by (simp only: cont_byte(2))
  show "(ucast (w AND 0x7F) OR 0x80 :: byte) = 0xFF \<longleftrightarrow> w AND 0x7F = 127" (is "?l \<longleftrightarrow> ?r")
  proof
    assume ?l
    then have "ucast ((0xFF :: byte) AND 0x7F) = w AND 0x7F" using cont_byte(3) [of w] by (simp only:)
    then show ?r by simp
  next
    assume ?r
    then show ?l by simp
  qed
qed

context istream_contract
begin

lemma varint32_step:
  assumes "holds s (b # c) (Suc n)"
  shows "\<exists>s1. holds s1 c n \<and> fst (varint32_loop bp r s) =
    (if bp \<ge> 32 \<and> b AND 0x7F \<noteq> 0 \<and> (drop_bit 31 r = 0 \<or> b \<noteq> (if bp < 63 then 0xFF else 0x01)) then None
     else if b AND 0x80 \<noteq> 0
     then fst (varint32_loop (bp + 7) (if bp \<ge> 32 then r else r OR push_bit (unat bp) (ucast (b AND 0x7F))) s1)
     else Some (if bp \<ge> 32 then r else r OR push_bit (unat bp) (ucast (b AND 0x7F)), b, bp + 7))"
proof -
  obtain s1 where "pb_readbyte s = (Some b, s1)" "holds s1 c n"
    using readsE [OF reads_readbyte, of s b c n] assms by auto
  then show ?thesis
    by (intro exI [of _ s1] conjI, simp)
      (subst varint32_loop.simps, cases "b AND 0x80 = 0", simp_all only: Let_def prod.case option.case simp_thms if_True if_False fst_conv split: if_split, simp_all)
qed

text \<open>The bytes from the bit position 35 on.\<close>

lemma varint32_high:
  assumes "k \<le> 4" and "unat w < 2 ^ (7 * k + 1)" and "w \<noteq> 0"
    and "holds s (varint_bytes w @ c) (length (varint_bytes w) + n)"
  shows "varint32_result (fst (varint32_loop (of_nat (63 - 7 * k)) r s)) =
    (if drop_bit 31 r \<noteq> 0 \<and> sign_groups k w then Some r else None)"
  using assms
proof (induction k arbitrary: w s)
  case 0
  then have "unat w = 1" using unat_gt_0 [of w] by simp
  then have w: "w = 1" by (metis unat_1 word_unat_eq_iff)
  then have "holds s (1 # c) (Suc n)" using 0 by (simp add: varint_bytes_def)
  from varint32_step [OF this, of 63 r] w show ?case by (auto simp: varint32_result_def sign_groups_def)
next
  case (Suc k)
  define bp where "bp = (of_nat (63 - 7 * Suc k) :: byte)"
  have u: "unat bp = 63 - 7 * Suc k" by (simp add: bp_def unat_of_nat)
  have bp: "32 \<le> bp" "bp < 63" using Suc.prems(1) by (simp_all only: word_le_nat_alt word_less_nat_alt u) simp_all
  have next_bp: "bp + 7 = of_nat (63 - 7 * k)" using Suc.prems(1) by (simp add: bp_def of_nat_diff)
  have not35: "bp + 7 \<noteq> 35"
  proof -
    have "unat (of_nat (63 - 7 * k) :: byte) = 63 - 7 * k" by (simp add: unat_of_nat)
    then have "unat (bp + 7) \<noteq> unat (35 :: byte)" unfolding next_bp using Suc.prems(1) by simp
    then show ?thesis by metis
  qed
  show ?case
  proof (cases "w \<le> 0x7F")
    case True
    then have "holds s (ucast w # c) (Suc n)" using Suc.prems(4) by (simp add: varint_bytes_rec [of w])
    from varint32_step [OF this, of bp r] have
      e: "fst (varint32_loop bp r s) = (if drop_bit 31 r = 0 \<or> (ucast w :: byte) \<noteq> 0xFF then None else Some (r, ucast w, bp + 7))"
      using bp low_group [OF True] low_byte(1) [OF True] Suc.prems(3) by auto
    have "(ucast w :: byte) \<noteq> 0xFF" using low_byte(1) [OF True] by auto
    moreover have "\<not> bit w (7 * Suc k)" using high_bits_clear [of w 7 "7 * Suc k"] True by (auto simp: word_le_nat_alt)
    ultimately show ?thesis unfolding bp_def [symmetric] e by (simp add: varint32_result_def sign_groups_def)
  next
    case False
    let ?b = "ucast (w AND 0x7F) OR 0x80 :: byte" let ?w = "drop_bit 7 w"
    have "holds s (?b # varint_bytes ?w @ c) (Suc (length (varint_bytes ?w) + n))"
      using Suc.prems(4) False by (simp add: varint_bytes_rec [of w])
    from varint32_step [OF this, of bp r] obtain s1 where
      s1: "holds s1 (varint_bytes ?w @ c) (length (varint_bytes ?w) + n)" and
      e: "fst (varint32_loop bp r s) =
        (if w AND 0x7F \<noteq> 0 \<and> (drop_bit 31 r = 0 \<or> w AND 0x7F \<noteq> 127) then None else fst (varint32_loop (of_nat (63 - 7 * k)) r s1))"
      unfolding group_byte next_bp using bp cont_byte(1) [of w] group_byte(2) [of w] by (auto simp only: if_True if_False simp_thms)
    have "unat ?w < 2 ^ (7 * k + 1)" using Suc.prems(2) by (simp add: unat_drop_bit less_mult_imp_div_less power_add mult.commute)
    moreover have "?w \<noteq> 0"
    proof
      assume "?w = 0"
      then have "unat ?w = 0" by simp
      then show False using False by (simp add: word_le_nat_alt unat_drop_bit)
    qed
    ultimately have "varint32_result (fst (varint32_loop (of_nat (63 - 7 * k)) r s1)) =
        (if drop_bit 31 r \<noteq> 0 \<and> sign_groups k ?w then Some r else None)"
      using Suc.IH [OF _ _ _ s1] Suc.prems(1) by simp
    then show ?thesis unfolding bp_def [symmetric] e sign_groups_Suc by (auto simp: varint32_result_def)
  qed
qed

text \<open>The bytes up to the bit position 28.\<close>

lemma varint32_low:
  assumes "m \<le> 3" and "unat w < 2 ^ (36 + 7 * m)" and "w \<noteq> 0"
    and "holds s (varint_bytes w @ c) (length (varint_bytes w) + n)"
  shows "varint32_result (fst (varint32_loop (of_nat (28 - 7 * m)) r s)) =
    (let r' = r OR push_bit (28 - 7 * m) (ucast w) in
     if unat w < 2 ^ (4 + 7 * m) \<or> drop_bit 31 r' \<noteq> 0 \<and> sign_groups 4 (drop_bit (7 + 7 * m) w) then Some r' else None)"
  using assms
proof (induction m arbitrary: w s r)
  case 0
  show ?case
  proof (cases "w \<le> 0x7F")
    case True
    then have "holds s (ucast w # c) (Suc n)" using 0 by (simp add: varint_bytes_rec [of w])
    from varint32_step [OF this, of 28 r] have
      e: "fst (varint32_loop 28 r s) = Some (r OR push_bit 28 (ucast (ucast w AND (0x7F :: byte))), ucast w, 35)"
      using low_byte(1) [OF True] by auto
    have high: "bit w i \<Longrightarrow> i < 7" for i using high_bits_clear [of w 7 i] True by (auto simp: word_le_nat_alt)
    have v: "ucast (ucast w AND (0x7F :: byte)) = (ucast w :: u32)"
      by (rule bit_word_eqI) (auto simp: bit_simps byte_simps dest: high)
    have "(ucast w :: byte) AND 0x70 = 0 \<longleftrightarrow> unat w < 2 ^ 4"
    proof
      assume z: "(ucast w :: byte) AND 0x70 = 0"
      have "\<not> bit w i" if "4 \<le> i" for i
      proof
        assume b: "bit w i"
        then have "bit ((ucast w :: byte) AND 0x70) i" using high [OF b] that by (simp add: bit_simps byte_simps)
        then show False using z by simp
      qed
      then have "take_bit 4 w = w" by (intro bit_eqI) (metis bit_take_bit_iff not_le)
      then show "unat w < 2 ^ 4" by (metis unsigned_take_bit_eq take_bit_nat_less_exp)
    next
      assume "unat w < 2 ^ 4"
      then have "bit w i \<Longrightarrow> i < 4" for i by (rule high_bits_clear)
      then show "(ucast w :: byte) AND 0x70 = 0" by (intro bit_word_eqI) (force simp: bit_simps byte_simps)
    qed
    moreover have "\<not> sign_groups 4 (drop_bit 7 w)" using high [of 35] by (auto simp: sign_groups_def bit_drop_bit_eq)
    ultimately show ?thesis using e v by (simp add: varint32_result_def)
  next
    case False
    let ?b = "ucast (w AND 0x7F) OR 0x80 :: byte" let ?w = "drop_bit 7 w"
    let ?r = "r OR push_bit 28 (ucast w)"
    have "holds s (?b # varint_bytes ?w @ c) (Suc (length (varint_bytes ?w) + n))"
      using 0 False by (simp add: varint_bytes_rec [of w])
    from varint32_step [OF this, of 28 r] obtain s1 where
      s1: "holds s1 (varint_bytes ?w @ c) (length (varint_bytes ?w) + n)" and
      e: "fst (varint32_loop 28 r s) = fst (varint32_loop 35 (r OR push_bit 28 (ucast (?b AND 0x7F))) s1)"
      using cont_byte(1) [of w] by auto
    have "push_bit 28 (ucast (?b AND 0x7F)) = (push_bit 28 (ucast w) :: u32)"
      by (rule bit_word_eqI) (auto simp: bit_simps byte_simps)
    then have e: "fst (varint32_loop 28 r s) = fst (varint32_loop 35 ?r s1)" using e by (simp only:)
    have "\<not> unat w < 2 ^ 4" using False by (simp add: word_le_nat_alt)
    moreover have "unat ?w < 2 ^ (7 * 4 + 1)" using 0 by (simp add: unat_drop_bit less_mult_imp_div_less)
    moreover have "?w \<noteq> 0"
    proof
      assume "?w = 0"
      then have "unat ?w = 0" by simp
      then show False using False by (simp add: word_le_nat_alt unat_drop_bit)
    qed
    ultimately show ?thesis using varint32_high [of 4, OF _ _ _ s1, of ?r] unfolding e by (simp add: e Let_def)
  qed
next
  case (Suc m)
  define bp where "bp = (of_nat (28 - 7 * Suc m) :: byte)"
  have u: "unat bp = 28 - 7 * Suc m" by (simp add: bp_def unat_of_nat)
  have bp: "\<not> 32 \<le> bp" by (simp only: word_le_nat_alt u) simp
  have next_bp: "bp + 7 = of_nat (28 - 7 * m)" using Suc.prems(1) by (simp add: bp_def of_nat_diff)
  have pos: "28 - 7 * m = 28 - 7 * Suc m + 7" using Suc.prems(1) by simp
  show ?case
  proof (cases "w \<le> 0x7F")
    case True
    then have "holds s (ucast w # c) (Suc n)" using Suc.prems(4) by (simp add: varint_bytes_rec [of w])
    from varint32_step [OF this, of bp r] have
      e: "fst (varint32_loop bp r s) = Some (r OR push_bit (unat bp) (ucast (ucast w AND (0x7F :: byte))), ucast w, bp + 7)"
      using bp low_byte(1) [OF True] by auto
    have high: "bit w i \<Longrightarrow> i < 7" for i using high_bits_clear [of w 7 i] True by (auto simp: word_le_nat_alt)
    have v: "ucast (ucast w AND (0x7F :: byte)) = (ucast w :: u32)"
      by (rule bit_word_eqI) (auto simp: bit_simps byte_simps dest: high)
    have "unat w < 2 ^ 7" using True by (simp add: word_le_nat_alt)
    also have "(2 :: nat) ^ 7 \<le> 2 ^ (4 + 7 * Suc m)" by (rule power_increasing) simp_all
    finally have w: "unat w < 2 ^ (4 + 7 * Suc m)" .
    have "unat (of_nat (28 - 7 * m) :: byte) = 28 - 7 * m" by (simp add: unat_of_nat)
    then have "unat (bp + 7) \<noteq> unat (35 :: byte)" unfolding next_bp by simp
    then have "bp + 7 \<noteq> 35" by metis
    then show ?thesis using w unfolding bp_def [symmetric] e u v by (simp add: varint32_result_def Let_def)
  next
    case False
    let ?b = "ucast (w AND 0x7F) OR 0x80 :: byte" let ?w = "drop_bit 7 w"
    let ?r = "r OR push_bit (28 - 7 * Suc m) (ucast (w AND 0x7F))"
    have "holds s (?b # varint_bytes ?w @ c) (Suc (length (varint_bytes ?w) + n))"
      using Suc.prems(4) False by (simp add: varint_bytes_rec [of w])
    from varint32_step [OF this, of bp r] obtain s1 where
      s1: "holds s1 (varint_bytes ?w @ c) (length (varint_bytes ?w) + n)" and
      e: "fst (varint32_loop bp r s) = fst (varint32_loop (of_nat (28 - 7 * m)) (r OR push_bit (unat bp) (ucast (?b AND 0x7F))) s1)"
      using cont_byte(1) [of w] bp unfolding next_bp by auto
    have "(ucast (?b AND 0x7F) :: u32) = ucast (w AND 0x7F)" by (rule bit_word_eqI) (auto simp: bit_simps byte_simps)
    then have e: "fst (varint32_loop bp r s) = fst (varint32_loop (of_nat (28 - 7 * m)) ?r s1)" using e unfolding u by (simp only:)
    have r: "?r OR push_bit (28 - 7 * m) (ucast ?w) = r OR push_bit (28 - 7 * Suc m) (ucast w)"
      unfolding pos by (simp only: or.assoc split_low_high_ucast)
    have "unat ?w < 2 ^ (36 + 7 * m)" using Suc.prems(2) by (simp add: unat_drop_bit less_mult_imp_div_less power_add mult.commute)
    moreover have "?w \<noteq> 0"
    proof
      assume "?w = 0"
      then have "unat ?w = 0" by simp
      then show False using False by (simp add: word_le_nat_alt unat_drop_bit)
    qed
    moreover have "unat ?w < 2 ^ (4 + 7 * m) \<longleftrightarrow> unat w < 2 ^ (4 + 7 * Suc m)"
      by (simp add: unat_drop_bit div_less_iff_less_mult power_add mult.commute)
    moreover have "drop_bit (7 + 7 * m) ?w = drop_bit (7 + 7 * Suc m) w" by (simp add: add.commute)
    ultimately show ?thesis using Suc.IH [OF _ _ _ s1, of ?r] Suc.prems(1) unfolding bp_def [symmetric] e by (simp only: r) simp
  qed
qed

lemma varint32_first:
  assumes "holds s (b # c) (Suc n)"
  shows "\<exists>s1. holds s1 c n \<and> fst (pb_decode_varint32 s) =
    (if b AND 0x80 = 0 then Some (ucast b) else varint32_result (fst (varint32_loop 7 (ucast (b AND 0x7F)) s1)))"
proof -
  obtain s1 where "pb_readbyte s = (Some b, s1)" "holds s1 c n"
    using readsE [OF reads_readbyte, of s b c n] assms by auto
  then show ?thesis
    by (intro exI [of _ s1])
      (auto simp: pb_decode_varint32_def pb_decode_varint32_eof_def varint32_result_def split: prod.splits option.splits)
qed

lemma varint32_decides:
  assumes "holds s (varint_bytes v @ c) (length (varint_bytes v) + n)"
  shows "fst (pb_decode_varint32 s) =
    (if v < 2 ^ 32 \<or> bit v 31 \<and> sign_groups 4 (drop_bit 35 v) then Some (ucast v) else None)"
proof (cases "v \<le> 0x7F")
  case True
  then have "holds s (ucast v # c) (Suc n)" using assms by (simp add: varint_bytes_rec [of v])
  from varint32_first [OF this] have e: "fst (pb_decode_varint32 s) = Some (ucast (ucast v :: byte))"
    using low_byte(1) [OF True] by auto
  have "unat v < 2 ^ 7" using True by (simp add: word_le_nat_alt)
  then have high: "bit v i \<Longrightarrow> i < 7" for i by (rule high_bits_clear)
  have "ucast (ucast v :: byte) = (ucast v :: u32)" by (rule bit_word_eqI) (auto simp: bit_simps dest: high)
  moreover have "v < 2 ^ 32" using \<open>unat v < 2 ^ 7\<close> by (simp add: word_less_nat_alt)
  ultimately show ?thesis using e by simp
next
  case False
  let ?b = "ucast (v AND 0x7F) OR 0x80 :: byte" let ?w = "drop_bit 7 v"
  have "holds s (?b # varint_bytes ?w @ c) (Suc (length (varint_bytes ?w) + n))"
    using assms False by (simp add: varint_bytes_rec [of v])
  from varint32_first [OF this] obtain s1 where
    s1: "holds s1 (varint_bytes ?w @ c) (length (varint_bytes ?w) + n)" and
    e: "fst (pb_decode_varint32 s) = varint32_result (fst (varint32_loop 7 (ucast (?b AND 0x7F)) s1))"
    using cont_byte(1) [of v] by auto
  have b: "(ucast (?b AND 0x7F) :: u32) = ucast (v AND 0x7F)" by (rule bit_word_eqI) (auto simp: bit_simps byte_simps)
  have r: "ucast (v AND 0x7F) OR push_bit 7 (ucast ?w) = (ucast v :: u32)" using split_low_high_ucast [of 0 v] by simp
  have w: "unat ?w < 2 ^ (36 + 7 * 3)" using unat_less_64 [of v] by (simp add: unat_drop_bit less_mult_imp_div_less)
  have nz: "?w \<noteq> 0"
  proof
    assume "?w = 0"
    then have "unat ?w = 0" by simp
    then show False using False by (simp add: word_le_nat_alt unat_drop_bit)
  qed
  have "unat ?w < 2 ^ (4 + 7 * 3) \<longleftrightarrow> v < 2 ^ 32" by (simp add: unat_drop_bit div_less_iff_less_mult word_less_nat_alt)
  moreover have "drop_bit 31 (ucast v :: u32) \<noteq> 0 \<longleftrightarrow> bit v 31"
  proof -
    have "drop_bit 31 (ucast v :: u32) = 0 \<longleftrightarrow> \<not> bit v 31"
    proof
      assume "drop_bit 31 (ucast v :: u32) = 0"
      then have "\<not> bit (drop_bit 31 (ucast v :: u32)) 0" by simp
      then show "\<not> bit v 31" by (simp only: bit_drop_bit_eq bit_unsigned_iff comp_apply) simp
    next
      assume "\<not> bit v 31"
      then have "\<not> bit (ucast v :: u32) (31 + i)" for i by (cases i) (auto simp: bit_unsigned_iff)
      then show "drop_bit 31 (ucast v :: u32) = 0" by (intro bit_eqI) (simp add: bit_drop_bit_eq)
    qed
    then show ?thesis by blast
  qed
  moreover have "drop_bit (7 + 7 * 3) ?w = drop_bit 35 v" by simp
  ultimately show ?thesis using varint32_low [of 3, OF _ w nz s1, of "ucast (v AND 0x7F)"] unfolding e b
    by (simp add: r Let_def)
qed

end

text \<open>
  C4 (error). \<^verbatim>\<open>pb_decode_varint32\<close> is meant to read a 32-bit value or the 64-bit sign extension
  of a negative one, and to report an overflow on anything else. Given the varint of any 64-bit
  value \<open>v\<close>, followed by anything, it accepts exactly the 32-bit values and those whose bits 31
  and 63 are set and whose 7-bit groups from bits 35, 42, 49 and 56 on are each all zeros or all
  ones, and returns the low 32 bits. Beside the sign extensions these are values of other
  bits 32 to 34, which no test looks at, and of groups that differ from each other.
\<close>

theorem varint32_exact:
  "fst (pb_decode_varint32 (pb_istream_from_buffer (varint_bytes v @ rest) (length (varint_bytes v) + left) :: 's pb_istream_t)) =
    (if v < 2 ^ 32 \<or> bit v 31 \<and> sign_groups 4 (drop_bit 35 v) then Some (ucast v) else None)"
  by (rule mem_in.varint32_decides) (rule mem_holds_buffer)

end
