(* ===== verification/Pb_Fields.thy ===== *)
theory Pb_Fields
  imports Pb_Wire
begin

unbundle bit_operations_syntax

text \<open>
  Message descriptors of nanopb (\<^verbatim>\<open>pb.h\<close>) and the field iterator (\<^verbatim>\<open>pb_common.c\<close>).
  A descriptor array is the list of its entries before the terminator \<^verbatim>\<open>PB_LAST_FIELD\<close>; a
  pointer to an entry is its index, and reading at or behind the end gives the terminator. A
  message is a C structure: the bytes at addresses of the memory, a function of 64-bit
  addresses, and pointer arithmetic is arithmetic on addresses. \<^verbatim>\<open>pb_size_t\<close> has 32 bits
  (\<^verbatim>\<open>PB_FIELD_32BIT\<close>), pointers have 64.
\<close>

section \<open>Descriptors\<close>

type_synonym pb_size_t = u32
type_synonym addr = u64

definition PB_LTYPE_BOOL :: byte where "PB_LTYPE_BOOL = 0x00"
definition PB_LTYPE_VARINT :: byte where "PB_LTYPE_VARINT = 0x01"
definition PB_LTYPE_UVARINT :: byte where "PB_LTYPE_UVARINT = 0x02"
definition PB_LTYPE_SVARINT :: byte where "PB_LTYPE_SVARINT = 0x03"
definition PB_LTYPE_FIXED32 :: byte where "PB_LTYPE_FIXED32 = 0x04"
definition PB_LTYPE_FIXED64 :: byte where "PB_LTYPE_FIXED64 = 0x05"
definition PB_LTYPE_LAST_PACKABLE :: byte where "PB_LTYPE_LAST_PACKABLE = 0x05"
definition PB_LTYPE_BYTES :: byte where "PB_LTYPE_BYTES = 0x06"
definition PB_LTYPE_STRING :: byte where "PB_LTYPE_STRING = 0x07"
definition PB_LTYPE_SUBMESSAGE :: byte where "PB_LTYPE_SUBMESSAGE = 0x08"
definition PB_LTYPE_EXTENSION :: byte where "PB_LTYPE_EXTENSION = 0x09"
definition PB_LTYPE_FIXED_LENGTH_BYTES :: byte where "PB_LTYPE_FIXED_LENGTH_BYTES = 0x0A"

definition PB_HTYPE_REQUIRED :: byte where "PB_HTYPE_REQUIRED = 0x00"
definition PB_HTYPE_OPTIONAL :: byte where "PB_HTYPE_OPTIONAL = 0x10"
definition PB_HTYPE_REPEATED :: byte where "PB_HTYPE_REPEATED = 0x20"
definition PB_HTYPE_ONEOF :: byte where "PB_HTYPE_ONEOF = 0x30"

definition PB_ATYPE_STATIC :: byte where "PB_ATYPE_STATIC = 0x00"
definition PB_ATYPE_POINTER :: byte where "PB_ATYPE_POINTER = 0x80"
definition PB_ATYPE_CALLBACK :: byte where "PB_ATYPE_CALLBACK = 0x40"

definition PB_ATYPE :: "byte \<Rightarrow> byte" where "PB_ATYPE x = x AND 0xC0"
definition PB_HTYPE :: "byte \<Rightarrow> byte" where "PB_HTYPE x = x AND 0x30"
definition PB_LTYPE :: "byte \<Rightarrow> byte" where "PB_LTYPE x = x AND 0x0F"

lemmas pb_types = PB_LTYPE_BOOL_def PB_LTYPE_VARINT_def PB_LTYPE_UVARINT_def PB_LTYPE_SVARINT_def
  PB_LTYPE_FIXED32_def PB_LTYPE_FIXED64_def PB_LTYPE_LAST_PACKABLE_def PB_LTYPE_BYTES_def
  PB_LTYPE_STRING_def PB_LTYPE_SUBMESSAGE_def PB_LTYPE_EXTENSION_def PB_LTYPE_FIXED_LENGTH_BYTES_def
  PB_HTYPE_REQUIRED_def PB_HTYPE_OPTIONAL_def PB_HTYPE_REPEATED_def PB_HTYPE_ONEOF_def
  PB_ATYPE_STATIC_def PB_ATYPE_POINTER_def PB_ATYPE_CALLBACK_def

record pb_field_t =
  tag :: pb_size_t
  ftype :: byte
  data_offset :: pb_size_t
  size_offset :: u32
  data_size :: pb_size_t
  array_size :: pb_size_t
  ptr :: addr

definition PB_LAST_FIELD :: pb_field_t where
  "PB_LAST_FIELD =
     \<lparr>tag = 0, ftype = 0, data_offset = 0, size_offset = 0, data_size = 0, array_size = 0, ptr = 0\<rparr>"

definition PB_SIZE_MAX :: pb_size_t where "PB_SIZE_MAX = - 1"

definition field_at :: "pb_field_t list \<Rightarrow> nat \<Rightarrow> pb_field_t" where
  "field_at fs i = (if i < length fs then fs ! i else PB_LAST_FIELD)"

section \<open>The iterator\<close>

record pb_field_iter_t =
  start :: "pb_field_t list"
  pos :: nat
  required_field_index :: u32
  dest_struct :: addr
  pData :: addr
  pSize :: addr

abbreviation cur :: "pb_field_iter_t \<Rightarrow> pb_field_t" where
  "cur iter \<equiv> field_at (start iter) (pos iter)"

text \<open>Adding the signed \<^verbatim>\<open>size_offset\<close> to a pointer.\<close>

definition size_addr :: "addr \<Rightarrow> pb_field_t \<Rightarrow> addr" where
  "size_addr p field = p + scast (size_offset field)"

definition pb_field_iter_begin ::
  "pb_field_t list \<Rightarrow> addr \<Rightarrow> bool \<times> pb_field_iter_t" where
  "pb_field_iter_begin fs dest =
     (let p = (if dest = 0 then 0 else dest + ucast (data_offset (field_at fs 0)));
          q = (if dest = 0 then 0 else size_addr p (field_at fs 0))
      in (tag (field_at fs 0) \<noteq> 0,
          \<lparr>start = fs, pos = 0, required_field_index = 0, dest_struct = dest,
           pData = p, pSize = q\<rparr>))"

text \<open>How far the data pointer moves from a field to the next one.\<close>

definition field_stride :: "pb_field_t \<Rightarrow> u64" where
  "field_stride prev =
     (if PB_ATYPE (ftype prev) = PB_ATYPE_STATIC \<and> PB_HTYPE (ftype prev) = PB_HTYPE_REPEATED
      then ucast (data_size prev) * ucast (array_size prev)
      else if PB_ATYPE (ftype prev) = PB_ATYPE_POINTER then 8
      else ucast (data_size prev))"

definition in_union :: "pb_field_t \<Rightarrow> pb_field_t \<Rightarrow> bool" where
  "in_union prev field \<longleftrightarrow> PB_HTYPE (ftype prev) = PB_HTYPE_ONEOF \<and>
     PB_HTYPE (ftype field) = PB_HTYPE_ONEOF \<and> data_offset field = PB_SIZE_MAX"

definition pb_field_iter_next :: "pb_field_iter_t \<Rightarrow> bool \<times> pb_field_iter_t" where
  "pb_field_iter_next iter =
     (let prev = cur iter in
      if tag prev = 0 then (False, iter)
      else let it1 = iter\<lparr>pos := pos iter + 1\<rparr>; field = cur it1 in
        if tag field = 0 then (False, snd (pb_field_iter_begin (start iter) (dest_struct iter)))
        else if in_union prev field then (True, it1)
        else
          let idx = (if PB_HTYPE (ftype prev) = PB_HTYPE_REQUIRED then required_field_index iter + 1
                     else required_field_index iter);
              p = pData iter + field_stride prev + ucast (data_offset field)
          in (True, it1\<lparr>required_field_index := idx, pData := p, pSize := size_addr p field\<rparr>))"

definition wanted :: "u32 \<Rightarrow> pb_field_t \<Rightarrow> bool" where
  "wanted t field \<longleftrightarrow> tag field = t \<and> PB_LTYPE (ftype field) \<noteq> PB_LTYPE_EXTENSION"

text \<open>
  The search loop; \<open>None\<close> would mean that it runs forever. It stops at the first field that
  matches, or when it is back where it started.
\<close>

partial_function (option) find_loop ::
  "(pb_field_t \<Rightarrow> bool) \<Rightarrow> nat \<Rightarrow> pb_field_iter_t \<Rightarrow> (bool \<times> pb_field_iter_t) option" where
  "find_loop match p0 iter =
     (if match (cur iter) then Some (True, iter)
      else let iter1 = snd (pb_field_iter_next iter)
           in if pos iter1 \<noteq> p0 then find_loop match p0 iter1 else Some (False, iter1))"

definition pb_field_iter_find :: "pb_field_iter_t \<Rightarrow> u32 \<Rightarrow> (bool \<times> pb_field_iter_t) option" where
  "pb_field_iter_find iter t = find_loop (wanted t) (pos iter) iter"

text \<open>The number of fields: those before the first entry with tag 0.\<close>

definition num_fields :: "pb_field_t list \<Rightarrow> nat" where
  "num_fields fs = length (takeWhile (\<lambda>f. tag f \<noteq> 0) fs)"

text \<open>The iterator at a position, reached by stepping from the beginning.\<close>

fun iter_at :: "pb_field_t list \<Rightarrow> addr \<Rightarrow> nat \<Rightarrow> pb_field_iter_t" where
  "iter_at fs dest 0 = snd (pb_field_iter_begin fs dest)"
| "iter_at fs dest (Suc i) = snd (pb_field_iter_next (iter_at fs dest i))"

lemma field_at_tag: "i < num_fields fs \<Longrightarrow> tag (field_at fs i) \<noteq> 0"
  using nth_mem [of i "takeWhile (\<lambda>f. tag f \<noteq> 0) fs"] length_takeWhile_le [of "\<lambda>f. tag f \<noteq> 0" fs]
  by (auto simp: num_fields_def field_at_def takeWhile_nth dest!: set_takeWhileD)

lemma field_at_end: "tag (field_at fs (num_fields fs)) = 0"
  using nth_length_takeWhile [of "\<lambda>f. tag f \<noteq> 0" fs]
  by (auto simp: num_fields_def field_at_def PB_LAST_FIELD_def)

lemma begin_result: "pb_field_iter_begin fs dest = (0 < num_fields fs, iter_at fs dest 0)"
proof -
  have "tag (field_at fs 0) \<noteq> 0 \<longleftrightarrow> 0 < num_fields fs"
    using field_at_tag [of 0 fs] field_at_end [of fs] by (cases "num_fields fs") auto
  then show ?thesis by (simp add: pb_field_iter_begin_def Let_def)
qed

lemma next_static [simp]:
  "start (snd (pb_field_iter_next iter)) = start iter"
  "dest_struct (snd (pb_field_iter_next iter)) = dest_struct iter"
  by (simp_all add: pb_field_iter_next_def Let_def pb_field_iter_begin_def)

lemma iter_at_static [simp]:
  "start (iter_at fs dest i) = fs" "dest_struct (iter_at fs dest i) = dest"
  by (induction i) (simp_all add: pb_field_iter_begin_def Let_def)

lemma iter_at_pos: "i < num_fields fs \<or> i = 0 \<Longrightarrow> pos (iter_at fs dest i) = i"
proof (induction i)
  case 0
  then show ?case by (simp add: pb_field_iter_begin_def Let_def)
next
  case (Suc i)
  then have "pos (iter_at fs dest i) = i" "i < num_fields fs" "Suc i < num_fields fs" by simp_all
  then show ?case using field_at_tag [of i fs] field_at_tag [of "Suc i" fs]
    by (simp add: pb_field_iter_next_def Let_def)
qed

lemma next_at:
  assumes "i < num_fields fs"
  shows "pb_field_iter_next (iter_at fs dest i) =
    (if Suc i < num_fields fs then (True, iter_at fs dest (Suc i)) else (False, iter_at fs dest 0))"
proof -
  have t: "tag (field_at fs i) \<noteq> 0" "pos (iter_at fs dest i) = i"
    using assms by (simp_all add: field_at_tag iter_at_pos)
  show ?thesis
  proof (cases "Suc i < num_fields fs")
    case True
    then have "fst (pb_field_iter_next (iter_at fs dest i))"
      using t field_at_tag [of "Suc i" fs] by (simp add: pb_field_iter_next_def Let_def)
    with True show ?thesis by (simp add: prod_eq_iff)
  next
    case False
    then have "Suc i = num_fields fs" using assms by simp
    then have "tag (field_at fs (Suc i)) = 0" using field_at_end [of fs] by simp
    with False t show ?thesis by (simp add: pb_field_iter_next_def Let_def)
  qed
qed

lemma next_advances:
  "pb_field_iter_next iter = (True, iter1) \<Longrightarrow>
   pos iter1 = Suc (pos iter) \<and> start iter1 = start iter \<and> Suc (pos iter) < length (start iter)"
  by (auto simp: pb_field_iter_next_def Let_def field_at_def PB_LAST_FIELD_def split: if_splits)

text \<open>The positions a search visits: from the current field to the end, then from the first on.\<close>

definition cyclic :: "nat \<Rightarrow> nat \<Rightarrow> nat list" where
  "cyclic n i = [i..<n] @ [0..<i]"

fun visits :: "nat \<Rightarrow> nat \<Rightarrow> nat list \<Rightarrow> nat \<Rightarrow> bool" where
  "visits n j [] p0 \<longleftrightarrow> (if Suc j < n then Suc j else 0) = p0"
| "visits n j (k # ks) p0 \<longleftrightarrow> (if Suc j < n then Suc j else 0) = k \<and> k < n \<and> k \<noteq> p0 \<and> visits n k ks p0"

lemma visits_up: "j \<le> p0 \<Longrightarrow> j < p0 \<Longrightarrow> p0 < n \<Longrightarrow> visits n j [Suc j..<p0] p0"
proof (induction "p0 - j" arbitrary: j)
  case (Suc d)
  show ?case
  proof (cases "Suc j = p0")
    case False
    then have "Suc j < p0" "visits n (Suc j) [Suc (Suc j)..<p0] p0" using Suc by simp_all
    with Suc.prems show ?thesis by (simp add: upt_conv_Cons [of "Suc j"])
  qed (use Suc.prems in simp)
qed simp

lemma visits_cyclic: "i < n \<Longrightarrow> j < n \<Longrightarrow> i \<le> j \<Longrightarrow> visits n j ([Suc j..<n] @ [0..<i]) i"
proof (induction "n - Suc j" arbitrary: j)
  case 0
  then have j: "Suc j = n" by simp
  show ?case
  proof (cases i)
    case (Suc k)
    have "visits n 0 [Suc 0..<i] i" using Suc "0.prems" by (intro visits_up) simp_all
    then show ?thesis using j Suc "0.prems" by (simp add: upt_conv_Cons [of 0] del: upt_Suc)
  qed (use j in simp)
next
  case (Suc d)
  then have "visits n (Suc j) ([Suc (Suc j)..<n] @ [0..<i]) i" by simp
  with Suc.hyps(2) Suc.prems show ?case by (simp add: upt_conv_Cons [of "Suc j"] del: upt_Suc)
qed

lemma find_loop_visits:
  assumes "visits (num_fields fs) j ks p0" and "j < num_fields fs" and "p0 < num_fields fs"
  shows "find_loop match p0 (iter_at fs dest j) =
    Some (case find (\<lambda>k. match (field_at fs k)) (j # ks) of
            Some k \<Rightarrow> (True, iter_at fs dest k) | None \<Rightarrow> (False, iter_at fs dest p0))"
  using assms
proof (induction ks arbitrary: j)
  case Nil
  then show ?case
    by (subst find_loop.simps) (auto simp: Let_def next_at iter_at_pos simp del: iter_at.simps)
next
  case (Cons k ks)
  then have k: "visits (num_fields fs) k ks p0" "k < num_fields fs" "k \<noteq> p0"
      "snd (pb_field_iter_next (iter_at fs dest j)) = iter_at fs dest k"
    by (auto simp: next_at simp del: iter_at.simps)
  from Cons.IH [OF k(1,2) Cons.prems(3)] k Cons.prems show ?case
    by (subst find_loop.simps) (simp add: Let_def iter_at_pos del: iter_at.simps)
qed

lemma find_loop_cyclic:
  assumes "i < num_fields fs"
  shows "find_loop match i (iter_at fs dest i) =
    Some (case find (\<lambda>k. match (field_at fs k)) (cyclic (num_fields fs) i) of
            Some k \<Rightarrow> (True, iter_at fs dest k) | None \<Rightarrow> (False, iter_at fs dest i))"
proof -
  have "cyclic (num_fields fs) i = i # [Suc i..<num_fields fs] @ [0..<i]"
    using assms by (simp add: cyclic_def upt_conv_Cons)
  then show ?thesis
    using find_loop_visits [OF visits_cyclic [OF assms assms order.refl] assms assms] by simp
qed

text \<open>Where the iterator's pointers are, in terms of the descriptors only.\<close>

fun field_addr :: "pb_field_t list \<Rightarrow> addr \<Rightarrow> nat \<Rightarrow> addr" where
  "field_addr fs dest 0 = dest + ucast (data_offset (field_at fs 0))"
| "field_addr fs dest (Suc i) =
     (if in_union (field_at fs i) (field_at fs (Suc i)) then field_addr fs dest i
      else field_addr fs dest i + field_stride (field_at fs i) + ucast (data_offset (field_at fs (Suc i))))"

lemma iter_at_data:
  assumes "dest \<noteq> 0" and "i < num_fields fs"
  shows "pData (iter_at fs dest i) = field_addr fs dest i"
  using assms(2)
proof (induction i)
  case 0
  then show ?case using assms(1) by (simp add: pb_field_iter_begin_def Let_def)
next
  case (Suc i)
  then have "tag (field_at fs i) \<noteq> 0" "tag (field_at fs (Suc i)) \<noteq> 0" "pos (iter_at fs dest i) = i"
    by (simp_all add: field_at_tag iter_at_pos)
  with Suc show ?case by (simp add: pb_field_iter_next_def Let_def)
qed

lemma iter_at_required:
  assumes "i < num_fields fs"
  shows "required_field_index (iter_at fs dest i) =
    of_nat (length (filter (\<lambda>k. PB_HTYPE (ftype (field_at fs k)) = PB_HTYPE_REQUIRED) [0..<i]))"
  using assms
proof (induction i)
  case 0
  then show ?case by (simp add: pb_field_iter_begin_def Let_def)
next
  case (Suc i)
  then have "tag (field_at fs i) \<noteq> 0" "tag (field_at fs (Suc i)) \<noteq> 0" "pos (iter_at fs dest i) = i"
    by (simp_all add: field_at_tag iter_at_pos)
  moreover have "in_union (field_at fs i) (field_at fs (Suc i)) \<Longrightarrow>
      PB_HTYPE (ftype (field_at fs i)) \<noteq> PB_HTYPE_REQUIRED"
    by (simp add: in_union_def pb_types)
  ultimately show ?case using Suc by (auto simp: pb_field_iter_next_def Let_def)
qed

declare iter_at.simps [simp del]

section \<open>Reading memory\<close>

type_synonym memory = "addr \<Rightarrow> byte"

definition load_bytes :: "memory \<Rightarrow> addr \<Rightarrow> nat \<Rightarrow> byte list" where
  "load_bytes m a n = map (\<lambda>i. m (a + of_nat i)) [0..<n]"

definition load16 :: "memory \<Rightarrow> addr \<Rightarrow> u16" where
  "load16 m a = ucast (m a) OR push_bit 8 (ucast (m (a + 1)))"

definition load32 :: "memory \<Rightarrow> addr \<Rightarrow> u32" where
  "load32 m a = fixed32_word (load_bytes m a 4)"

definition load64 :: "memory \<Rightarrow> addr \<Rightarrow> u64" where
  "load64 m a = fixed64_word (load_bytes m a 8)"

lemma length_load_bytes [simp]: "length (load_bytes m a n) = n"
  by (simp add: load_bytes_def)

section \<open>Properties of the iterator\<close>

text \<open>
  C8 (termination). A search by tag, begun at any position of a non-empty message, ends: it
  visits the fields once in cyclic order, stops at the first one with the tag that is not an
  extension placeholder, and otherwise is back at the position it started from. In both cases
  the iterator is the one that stepping from the first field gives, so its data pointer
  and its count of required fields depend on its position only.
\<close>

theorem iter_find_exact:
  assumes "i < num_fields fs"
  shows "pb_field_iter_find (iter_at fs dest i) t =
    Some (case find (\<lambda>k. wanted t (field_at fs k)) (cyclic (num_fields fs) i) of
            Some k \<Rightarrow> (True, iter_at fs dest k) | None \<Rightarrow> (False, iter_at fs dest i))"
  using assms by (simp add: pb_field_iter_find_def iter_at_pos find_loop_cyclic)

theorem iter_find_exact_witness:
  "\<exists>it. pb_field_iter_find (iter_at [PB_LAST_FIELD\<lparr>tag := 3, data_size := 4\<rparr>, PB_LAST_FIELD\<lparr>tag := 5\<rparr>] 0x1000 1) 3 =
     Some (True, it) \<and> pData it = 0x1000"
proof -
  let ?fs = "[PB_LAST_FIELD\<lparr>tag := 3, data_size := 4\<rparr>, PB_LAST_FIELD\<lparr>tag := 5\<rparr>]"
  have n: "num_fields ?fs = 2" by (simp add: num_fields_def)
  have "cyclic 2 1 = [1, 0]" by code_simp
  moreover have "\<not> wanted 3 (field_at ?fs 1)" by (simp add: wanted_def field_at_def)
  moreover have "wanted 3 (field_at ?fs 0)" by code_simp
  ultimately have "find (\<lambda>k. wanted 3 (field_at ?fs k)) (cyclic (num_fields ?fs) 1) = Some 0"
    by (simp add: n)
  moreover have "pData (iter_at ?fs 0x1000 0) = 0x1000"
    by (simp add: iter_at.simps pb_field_iter_begin_def field_at_def PB_LAST_FIELD_def)
  ultimately show ?thesis using iter_find_exact [of 1 ?fs "0x1000" 3] n by simp
qed

end
