(* ===== verification/Pb_Encode.thy ===== *)
theory Pb_Encode
  imports Pb_Fields
begin

unbundle bit_operations_syntax

text \<open>
  The message encoder of nanopb (\<^verbatim>\<open>pb_encode.c\<close> lines 126-585 and 680-911), walking a message in
  memory under its descriptors. Function pointers and descriptor pointers are addresses; the
  environment says what is behind them. The functions that a client registers (callbacks of
  fields and extensions) are parameters of the environment.

  An encoder returns the flag of the C function with the stream, or \<open>None\<close> where the C program
  has no defined behaviour: a call through a null pointer, a read outside the one-byte local
  \<^verbatim>\<open>implicit_has\<close>, or recursion deeper than the bound \<open>k\<close> that \<open>pb_encode\<close> is given.
\<close>

section \<open>Environment and sequencing\<close>

type_synonym 's enc = "'s pb_ostream_t \<Rightarrow> (bool \<times> 's pb_ostream_t) option"

record 's pb_env =
  memory :: memory
  desc :: "addr \<Rightarrow> pb_field_t list"
  field_callback :: "addr \<Rightarrow> pb_field_t \<Rightarrow> addr \<Rightarrow> 's pb_ostream_t \<Rightarrow> bool \<times> 's pb_ostream_t"
  extension_callback :: "addr \<Rightarrow> addr \<Rightarrow> 's pb_ostream_t \<Rightarrow> bool \<times> 's pb_ostream_t"

definition run :: "('s pb_ostream_t \<Rightarrow> bool \<times> 's pb_ostream_t) \<Rightarrow> 's enc" where
  "run e s = Some (e s)"

definition undefined_behaviour :: "'s enc" where
  "undefined_behaviour s = None"

definition return_error :: "string \<Rightarrow> 's enc" where
  "return_error msg s = Some (False, oset_error msg s)"

definition succeed :: "'s enc" where
  "succeed s = Some (True, s)"

text \<open>\<^verbatim>\<open>if (!e1) return false;\<close> and on to \<open>e2\<close>.\<close>

definition and_also :: "'s enc \<Rightarrow> 's enc \<Rightarrow> 's enc" where
  "and_also e1 e2 s =
     (case e1 s of
        None \<Rightarrow> None
      | Some (ok, s1) \<Rightarrow> if ok then e2 s1 else Some (False, s1))"

section \<open>Values\<close>

definition safe_read_bool :: "'s pb_env \<Rightarrow> addr \<Rightarrow> bool" where
  "safe_read_bool env p = (memory env p \<noteq> 0)"

definition wire_type_for :: "byte \<Rightarrow> pb_wire_type_t option" where
  "wire_type_for lt =
     (if lt = PB_LTYPE_BOOL \<or> lt = PB_LTYPE_VARINT \<or> lt = PB_LTYPE_UVARINT \<or> lt = PB_LTYPE_SVARINT
      then Some PB_WT_VARINT
      else if lt = PB_LTYPE_FIXED32 then Some PB_WT_32BIT
      else if lt = PB_LTYPE_FIXED64 then Some PB_WT_64BIT
      else if lt = PB_LTYPE_BYTES \<or> lt = PB_LTYPE_STRING \<or> lt = PB_LTYPE_SUBMESSAGE \<or>
              lt = PB_LTYPE_FIXED_LENGTH_BYTES
      then Some PB_WT_STRING
      else None)"

definition pb_encode_tag_for_field :: "pb_field_t \<Rightarrow> 's enc" where
  "pb_encode_tag_for_field field =
     (case wire_type_for (PB_LTYPE (ftype field)) of
        None \<Rightarrow> return_error ''invalid field type''
      | Some wiretype \<Rightarrow> run (pb_encode_tag wiretype (tag field)))"

definition pb_enc_bool :: "'s pb_env \<Rightarrow> pb_field_t \<Rightarrow> addr \<Rightarrow> 's enc" where
  "pb_enc_bool env field src = run (pb_encode_varint (if safe_read_bool env src then 1 else 0))"

text \<open>Signed and unsigned integers of 1, 2, 4 or 8 bytes, extended to 64 bits.\<close>

definition load_signed :: "memory \<Rightarrow> addr \<Rightarrow> u32 \<Rightarrow> u64 option" where
  "load_signed m src sz =
     (if sz = 1 then Some (scast (m src))
      else if sz = 2 then Some (scast (load16 m src))
      else if sz = 4 then Some (scast (load32 m src))
      else if sz = 8 then Some (load64 m src)
      else None)"

definition load_unsigned :: "memory \<Rightarrow> addr \<Rightarrow> u32 \<Rightarrow> u64 option" where
  "load_unsigned m src sz =
     (if sz = 1 then Some (ucast (m src))
      else if sz = 2 then Some (ucast (load16 m src))
      else if sz = 4 then Some (ucast (load32 m src))
      else if sz = 8 then Some (load64 m src)
      else None)"

definition pb_enc_varint :: "'s pb_env \<Rightarrow> pb_field_t \<Rightarrow> addr \<Rightarrow> 's enc" where
  "pb_enc_varint env field src =
     (case load_signed (memory env) src (data_size field) of
        None \<Rightarrow> return_error ''invalid data_size'' | Some value \<Rightarrow> run (pb_encode_varint value))"

definition pb_enc_uvarint :: "'s pb_env \<Rightarrow> pb_field_t \<Rightarrow> addr \<Rightarrow> 's enc" where
  "pb_enc_uvarint env field src =
     (case load_unsigned (memory env) src (data_size field) of
        None \<Rightarrow> return_error ''invalid data_size'' | Some value \<Rightarrow> run (pb_encode_varint value))"

definition pb_enc_svarint :: "'s pb_env \<Rightarrow> pb_field_t \<Rightarrow> addr \<Rightarrow> 's enc" where
  "pb_enc_svarint env field src =
     (case load_signed (memory env) src (data_size field) of
        None \<Rightarrow> return_error ''invalid data_size'' | Some value \<Rightarrow> run (pb_encode_svarint value))"

definition pb_enc_fixed32 :: "'s pb_env \<Rightarrow> pb_field_t \<Rightarrow> addr \<Rightarrow> 's enc" where
  "pb_enc_fixed32 env field src = run (pb_encode_fixed32 (load32 (memory env) src))"

definition pb_enc_fixed64 :: "'s pb_env \<Rightarrow> pb_field_t \<Rightarrow> addr \<Rightarrow> 's enc" where
  "pb_enc_fixed64 env field src = run (pb_encode_fixed64 (load64 (memory env) src))"

text \<open>A \<^verbatim>\<open>pb_bytes_array_t\<close>: a 32-bit size and the bytes behind it.\<close>

definition pb_enc_bytes :: "'s pb_env \<Rightarrow> pb_field_t \<Rightarrow> addr \<Rightarrow> 's enc" where
  "pb_enc_bytes env field src =
     (if src = 0 then run (pb_encode_string [] 0)
      else let sz = load32 (memory env) src in
        if PB_ATYPE (ftype field) = PB_ATYPE_STATIC \<and> (ucast sz :: u64) > ucast (data_size field) - 4
        then return_error ''bytes size exceeded''
        else run (pb_encode_string (load_bytes (memory env) (src + 4) (unat sz)) (ucast sz)))"

function string_size :: "memory \<Rightarrow> addr \<Rightarrow> u64 \<Rightarrow> u64 \<Rightarrow> u64" where
  "string_size m p sz limit =
     (if sz < limit \<and> m p \<noteq> 0 then string_size m (p + 1) (sz + 1) limit else sz)"
  by pat_completeness auto
termination
proof (relation "measure (\<lambda>(m, p, sz, limit). unat (limit - sz))")
  fix m :: memory and p sz limit :: u64
  assume "sz < limit \<and> m p \<noteq> 0"
  then have lt: "sz < limit" by simp
  then have "sz + 1 \<le> limit" by (rule inc_le)
  then have "unat (limit - (sz + 1)) = unat limit - unat (sz + 1)" by (rule unat_sub)
  moreover have "unat (limit - sz) = unat limit - unat sz" using lt by (intro unat_sub) simp
  moreover have "unat (sz + 1) = unat sz + 1"
    using lt unat_less_64 [of limit] by (simp add: unat_word_ariths word_less_nat_alt)
  ultimately show "((m, p + 1, sz + 1, limit), m, p, sz, limit)
      \<in> measure (\<lambda>(m, p, sz, limit). unat (limit - sz))"
    using lt by (simp add: word_less_nat_alt)
qed simp

declare string_size.simps [simp del]

definition pb_enc_string :: "'s pb_env \<Rightarrow> pb_field_t \<Rightarrow> addr \<Rightarrow> 's enc" where
  "pb_enc_string env field src =
     (let limit = (if PB_ATYPE (ftype field) = PB_ATYPE_POINTER then - 1 else ucast (data_size field));
          sz = (if src = 0 then 0 else string_size (memory env) src 0 limit)
      in run (pb_encode_string (load_bytes (memory env) src (unat sz)) sz))"

definition pb_enc_fixed_length_bytes :: "'s pb_env \<Rightarrow> pb_field_t \<Rightarrow> addr \<Rightarrow> 's enc" where
  "pb_enc_fixed_length_bytes env field src =
     run (pb_encode_string (load_bytes (memory env) src (unat (data_size field))) (ucast (data_size field)))"

section \<open>Submessages\<close>

text \<open>
  \<open>sub\<close> is the encoder for the message behind a descriptor array and an address: \<open>pb_encode\<close>
  itself with the next smaller bound.
\<close>

type_synonym 's message_encoder = "pb_field_t list \<Rightarrow> addr \<Rightarrow> 's enc"

definition pb_encode_submessage :: "'s message_encoder \<Rightarrow> pb_field_t list \<Rightarrow> addr \<Rightarrow> 's enc" where
  "pb_encode_submessage sub fs src s =
     (case sub fs src pb_ostream_sizing of
        None \<Rightarrow> None
      | Some (False, substream) \<Rightarrow> Some (False, s\<lparr>oerrmsg := oerrmsg substream\<rparr>)
      | Some (True, substream) \<Rightarrow>
          let sz = bytes_written substream in
          (case pb_encode_varint sz s of
             (False, s1) \<Rightarrow> Some (False, s1)
           | (True, s1) \<Rightarrow>
               if \<not> has_callback (sink s1) then Some (pb_write [] sz s1)
               else if bytes_written s1 + sz > max_size s1
               then return_error ''stream full'' s1
               else
                 (case sub fs src
                     \<lparr>sink = sink s1, max_size = sz, bytes_written = 0, oerrmsg = None\<rparr> of
                    None \<Rightarrow> None
                  | Some (status, substream2) \<Rightarrow>
                      let s2 = s1\<lparr>bytes_written := bytes_written s1 + bytes_written substream2,
                                  sink := sink substream2, oerrmsg := oerrmsg substream2\<rparr>
                      in if bytes_written substream2 \<noteq> sz
                         then return_error ''submsg size changed'' s2
                         else Some (status, s2))))"

definition pb_enc_submessage ::
  "'s pb_env \<Rightarrow> 's message_encoder \<Rightarrow> pb_field_t \<Rightarrow> addr \<Rightarrow> 's enc" where
  "pb_enc_submessage env sub field src =
     (if ptr field = 0 then return_error ''invalid field descriptor''
      else pb_encode_submessage sub (desc env (ptr field)) src)"

text \<open>The table of encoders; its entry for extensions is a null pointer.\<close>

definition PB_ENCODERS ::
  "'s pb_env \<Rightarrow> 's message_encoder \<Rightarrow> byte \<Rightarrow> pb_field_t \<Rightarrow> addr \<Rightarrow> 's enc" where
  "PB_ENCODERS env sub lt =
     (if lt = PB_LTYPE_BOOL then pb_enc_bool env
      else if lt = PB_LTYPE_VARINT then pb_enc_varint env
      else if lt = PB_LTYPE_UVARINT then pb_enc_uvarint env
      else if lt = PB_LTYPE_SVARINT then pb_enc_svarint env
      else if lt = PB_LTYPE_FIXED32 then pb_enc_fixed32 env
      else if lt = PB_LTYPE_FIXED64 then pb_enc_fixed64 env
      else if lt = PB_LTYPE_BYTES then pb_enc_bytes env
      else if lt = PB_LTYPE_STRING then pb_enc_string env
      else if lt = PB_LTYPE_SUBMESSAGE then pb_enc_submessage env sub
      else if lt = PB_LTYPE_FIXED_LENGTH_BYTES then pb_enc_fixed_length_bytes env
      else (\<lambda>field src. undefined_behaviour))"

section \<open>Arrays\<close>

text \<open>\<open>n\<close> items from \<open>p\<close> on, \<open>step\<close> bytes apart.\<close>

fun encode_items :: "(addr \<Rightarrow> 's enc) \<Rightarrow> u64 \<Rightarrow> nat \<Rightarrow> addr \<Rightarrow> 's enc" where
  "encode_items item step 0 p = succeed"
| "encode_items item step (Suc n) p = and_also (item p) (encode_items item step n (p + step))"

text \<open>The number of bytes of a packed array, found by encoding into a sizing stream.\<close>

definition packed_size ::
  "(addr \<Rightarrow> 's enc) \<Rightarrow> pb_field_t \<Rightarrow> u32 \<Rightarrow> addr \<Rightarrow> (bool \<times> u64) option" where
  "packed_size item field count p =
     (if PB_LTYPE (ftype field) = PB_LTYPE_FIXED32 then Some (True, 4 * ucast count)
      else if PB_LTYPE (ftype field) = PB_LTYPE_FIXED64 then Some (True, 8 * ucast count)
      else (case encode_items item (ucast (data_size field)) (unat count) p pb_ostream_sizing of
              None \<Rightarrow> None | Some (ok, s) \<Rightarrow> Some (ok, bytes_written s)))"

definition encode_array ::
  "'s pb_env \<Rightarrow> pb_field_t \<Rightarrow> addr \<Rightarrow> u32 \<Rightarrow> (pb_field_t \<Rightarrow> addr \<Rightarrow> 's enc) \<Rightarrow> 's enc" where
  "encode_array env field p count func =
     (if count = 0 then succeed
      else if PB_ATYPE (ftype field) \<noteq> PB_ATYPE_POINTER \<and> count > array_size field
      then return_error ''array max size exceeded''
      else if PB_LTYPE (ftype field) \<le> PB_LTYPE_LAST_PACKABLE then
        and_also (run (pb_encode_tag PB_WT_STRING (tag field)))
          (\<lambda>s. case packed_size (func field) field count p of
             None \<Rightarrow> None
           | Some (False, _) \<Rightarrow> Some (False, s)
           | Some (True, sz) \<Rightarrow>
               and_also (run (pb_encode_varint sz))
                 (\<lambda>s1. if \<not> has_callback (sink s1) then Some (pb_write [] sz s1)
                   else encode_items (func field) (ucast (data_size field)) (unat count) p s1) s)
      else
        encode_items
          (\<lambda>p. and_also (pb_encode_tag_for_field field)
             (if PB_ATYPE (ftype field) = PB_ATYPE_POINTER \<and>
                 (PB_LTYPE (ftype field) = PB_LTYPE_STRING \<or> PB_LTYPE (ftype field) = PB_LTYPE_BYTES)
              then func field (load64 (memory env) p)
              else func field p))
          (ucast (data_size field)) (unat count) p)"

section \<open>Fields\<close>

text \<open>The loop over the fields of a static submessage, until one is not at its default.\<close>

function all_fields :: "(pb_field_t \<Rightarrow> addr \<Rightarrow> bool option) \<Rightarrow> pb_field_iter_t \<Rightarrow> bool option" where
  "all_fields chk iter =
     (case chk (cur iter) (pData iter) of
        None \<Rightarrow> None
      | Some False \<Rightarrow> Some False
      | Some True \<Rightarrow> (case pb_field_iter_next iter of
            (True, iter1) \<Rightarrow> all_fields chk iter1 | (False, iter1) \<Rightarrow> Some True))"
  by pat_completeness auto
termination
  by (relation "measure (\<lambda>(chk, iter). length (start iter) - pos iter)")
    (auto dest!: next_advances [OF sym])

declare all_fields.simps [simp del]

text \<open>
  Whether a field of a proto3 message has its default value. The first branches give the answer
  for fields with a presence or count of their own; \<open>None\<close> from \<open>stored_presence\<close> leaves it to
  the value. \<open>k\<close> bounds the nesting of submessages.
\<close>

definition stored_presence :: "'s pb_env \<Rightarrow> pb_field_t \<Rightarrow> addr \<Rightarrow> bool option" where
  "stored_presence env field p =
     (let ht = PB_HTYPE (ftype field); q = size_addr p field in
      if ht = PB_HTYPE_REQUIRED then Some False
      else if ht = PB_HTYPE_REPEATED then
        (if size_offset field \<noteq> 0 then Some (load32 (memory env) q = 0)
         else if PB_ATYPE (ftype field) = PB_ATYPE_STATIC then Some False
         else None)
      else if ht = PB_HTYPE_ONEOF then Some (load32 (memory env) q = 0)
      else if ht = PB_HTYPE_OPTIONAL \<and> size_offset field \<noteq> 0 then Some (safe_read_bool env q = False)
      else None)"

definition zero_bytes :: "'s pb_env \<Rightarrow> pb_field_t \<Rightarrow> addr \<Rightarrow> bool" where
  "zero_bytes env field p = list_all (\<lambda>b. b = 0) (load_bytes (memory env) p (unat (data_size field)))"

fun pb_check_proto3_default_value :: "nat \<Rightarrow> 's pb_env \<Rightarrow> pb_field_t \<Rightarrow> addr \<Rightarrow> bool option" where
  "pb_check_proto3_default_value 0 env field p = None"
| "pb_check_proto3_default_value (Suc k) env field p =
     (case stored_presence env field p of
        Some answer \<Rightarrow> Some answer
      | None \<Rightarrow>
          let at = PB_ATYPE (ftype field); lt = PB_LTYPE (ftype field) in
          if at = PB_ATYPE_STATIC \<and> lt = PB_LTYPE_BYTES then Some (load32 (memory env) p = 0)
          else if at = PB_ATYPE_STATIC \<and> lt = PB_LTYPE_STRING then Some (memory env p = 0)
          else if at = PB_ATYPE_STATIC \<and> lt = PB_LTYPE_FIXED_LENGTH_BYTES
          then Some (data_size field = 0)
          else if at = PB_ATYPE_STATIC \<and> lt = PB_LTYPE_SUBMESSAGE then
            (case pb_field_iter_begin (desc env (ptr field)) p of
               (False, iter) \<Rightarrow> Some True
             | (True, iter) \<Rightarrow> all_fields (pb_check_proto3_default_value k env) iter)
          else if at = PB_ATYPE_POINTER \<and> lt > PB_LTYPE_LAST_PACKABLE
          then Some (load64 (memory env) p = 0)
          else Some (zero_bytes env field p))"

text \<open>
  \<^verbatim>\<open>encode_basic_field\<close>. \<open>presence\<close> is what \<^verbatim>\<open>pSize\<close> points at: the counter or flag in the
  message, or the local variable \<^verbatim>\<open>implicit_has\<close>, of which only one byte exists.
\<close>

datatype presence = In_Message addr | Implicit_Has bool

definition read_has :: "'s pb_env \<Rightarrow> presence \<Rightarrow> bool" where
  "read_has env pr = (case pr of In_Message q \<Rightarrow> safe_read_bool env q | Implicit_Has b \<Rightarrow> b)"

definition encode_present ::
  "'s pb_env \<Rightarrow> 's message_encoder \<Rightarrow> pb_field_t \<Rightarrow> addr \<Rightarrow> presence \<Rightarrow> 's enc" where
  "encode_present env sub field p pr =
     (let func = PB_ENCODERS env sub (PB_LTYPE (ftype field));
          ht = PB_HTYPE (ftype field);
          tag_and_value = and_also (pb_encode_tag_for_field field) (func field p)
      in if ht = PB_HTYPE_REQUIRED then
           (if p = 0 then return_error ''missing required field'' else tag_and_value)
         else if ht = PB_HTYPE_OPTIONAL then
           (if read_has env pr then tag_and_value else succeed)
         else if ht = PB_HTYPE_REPEATED then
           encode_array env field p
             (case pr of In_Message q \<Rightarrow> load32 (memory env) q | Implicit_Has b \<Rightarrow> array_size field) func
         else if ht = PB_HTYPE_ONEOF then
           (case pr of
              In_Message q \<Rightarrow> if load32 (memory env) q = tag field then tag_and_value else succeed
            | Implicit_Has b \<Rightarrow> undefined_behaviour)
         else return_error ''invalid field type'')"

definition encode_basic_field ::
  "nat \<Rightarrow> 's pb_env \<Rightarrow> 's message_encoder \<Rightarrow> pb_field_t \<Rightarrow> addr \<Rightarrow> 's enc" where
  "encode_basic_field k env sub field p =
     (case (if size_offset field \<noteq> 0 then Some (In_Message (size_addr p field))
            else if PB_HTYPE (ftype field) = PB_HTYPE_OPTIONAL
            then map_option (\<lambda>d. Implicit_Has (\<not> d)) (pb_check_proto3_default_value k env field p)
            else Some (Implicit_Has True)) of
        None \<Rightarrow> undefined_behaviour
      | Some pr \<Rightarrow>
          if PB_ATYPE (ftype field) = PB_ATYPE_POINTER then
            let p1 = load64 (memory env) p in
            encode_present env sub field p1
              (case pr of In_Message q \<Rightarrow> In_Message q | Implicit_Has b \<Rightarrow> Implicit_Has (p1 \<noteq> 0))
          else encode_present env sub field p pr)"

definition encode_callback_field :: "'s pb_env \<Rightarrow> pb_field_t \<Rightarrow> addr \<Rightarrow> 's enc" where
  "encode_callback_field env field p =
     (let funcs_encode = load64 (memory env) p in
      if funcs_encode \<noteq> 0 then
        (\<lambda>s. case field_callback env funcs_encode field (p + 8) s of
               (False, s1) \<Rightarrow> return_error ''callback error'' s1
             | (True, s1) \<Rightarrow> Some (True, s1))
      else succeed)"

definition encode_field ::
  "nat \<Rightarrow> 's pb_env \<Rightarrow> 's message_encoder \<Rightarrow> pb_field_t \<Rightarrow> addr \<Rightarrow> 's enc" where
  "encode_field k env sub field p =
     (if PB_ATYPE (ftype field) = PB_ATYPE_STATIC \<or> PB_ATYPE (ftype field) = PB_ATYPE_POINTER
      then encode_basic_field k env sub field p
      else if PB_ATYPE (ftype field) = PB_ATYPE_CALLBACK then encode_callback_field env field p
      else return_error ''invalid field type'')"

section \<open>Extensions\<close>

text \<open>
  A \<^verbatim>\<open>pb_extension_t\<close> has \<^verbatim>\<open>type\<close> at 0, \<^verbatim>\<open>dest\<close> at 8, \<^verbatim>\<open>next\<close> at 16; its
  \<^verbatim>\<open>pb_extension_type_t\<close> has \<^verbatim>\<open>decode\<close> at 0, \<^verbatim>\<open>encode\<close> at 8, \<^verbatim>\<open>arg\<close> at 16.
\<close>

definition default_extension_encoder ::
  "nat \<Rightarrow> 's pb_env \<Rightarrow> 's message_encoder \<Rightarrow> addr \<Rightarrow> 's enc" where
  "default_extension_encoder k env sub ext =
     (let field = field_at (desc env (load64 (memory env) (load64 (memory env) ext + 16))) 0 in
      if PB_ATYPE (ftype field) = PB_ATYPE_POINTER then encode_field k env sub field (ext + 8)
      else encode_field k env sub field (load64 (memory env) (ext + 8)))"

text \<open>The walk along the list of extensions, at most \<open>n\<close> of them.\<close>

fun extension_list ::
  "nat \<Rightarrow> nat \<Rightarrow> 's pb_env \<Rightarrow> 's message_encoder \<Rightarrow> addr \<Rightarrow> 's enc" where
  "extension_list n k env sub ext =
     (if ext = 0 then succeed
      else case n of
        0 \<Rightarrow> undefined_behaviour
      | Suc n' \<Rightarrow>
          let encode = load64 (memory env) (load64 (memory env) ext + 8) in
          and_also
            (if encode \<noteq> 0 then run (extension_callback env encode ext)
             else default_extension_encoder k env sub ext)
            (extension_list n' k env sub (load64 (memory env) (ext + 16))))"

declare extension_list.simps [simp del]

definition encode_extension_field ::
  "nat \<Rightarrow> 's pb_env \<Rightarrow> 's message_encoder \<Rightarrow> addr \<Rightarrow> 's enc" where
  "encode_extension_field k env sub p = extension_list k k env sub (load64 (memory env) p)"

section \<open>Messages\<close>

function encode_fields ::
  "(pb_field_t \<Rightarrow> addr \<Rightarrow> 's enc) \<Rightarrow> pb_field_iter_t \<Rightarrow> 's enc" where
  "encode_fields enc iter =
     and_also (enc (cur iter) (pData iter))
       (case pb_field_iter_next iter of
          (True, iter1) \<Rightarrow> encode_fields enc iter1 | (False, iter1) \<Rightarrow> succeed)"
  by pat_completeness auto
termination
  by (relation "measure (\<lambda>(enc, iter). length (start iter) - pos iter)")
    (auto dest!: next_advances [OF sym])

declare encode_fields.simps [simp del]

definition encode_any_field ::
  "nat \<Rightarrow> 's pb_env \<Rightarrow> 's message_encoder \<Rightarrow> pb_field_t \<Rightarrow> addr \<Rightarrow> 's enc" where
  "encode_any_field k env sub field p =
     (if PB_LTYPE (ftype field) = PB_LTYPE_EXTENSION then encode_extension_field k env sub p
      else encode_field k env sub field p)"

text \<open>
  \<open>k\<close> bounds the depth of nested messages, of nested default checks, and the number of
  extensions; the C program has no such bound and would exhaust its stack or run on.
\<close>

fun pb_encode :: "nat \<Rightarrow> 's pb_env \<Rightarrow> 's message_encoder" where
  "pb_encode 0 env fs src = undefined_behaviour"
| "pb_encode (Suc k) env fs src =
     (case pb_field_iter_begin fs src of
        (False, iter) \<Rightarrow> succeed
      | (True, iter) \<Rightarrow> encode_fields (encode_any_field k env (pb_encode k env)) iter)"

definition pb_encode_delimited :: "nat \<Rightarrow> 's pb_env \<Rightarrow> 's message_encoder" where
  "pb_encode_delimited k env = pb_encode_submessage (pb_encode k env)"

definition pb_encode_nullterminated :: "nat \<Rightarrow> 's pb_env \<Rightarrow> 's message_encoder" where
  "pb_encode_nullterminated k env fs src = and_also (pb_encode k env fs src) (run (pb_write [0] 1))"

definition pb_get_encoded_size :: "nat \<Rightarrow> 's pb_env \<Rightarrow> pb_field_t list \<Rightarrow> addr \<Rightarrow> u64 option option" where
  "pb_get_encoded_size k env fs src =
     (case pb_encode k env fs src pb_ostream_sizing of
        None \<Rightarrow> None
      | Some (ok, s) \<Rightarrow> Some (if ok then Some (bytes_written s) else None))"

end
