(* ===== verification/Pb_Encode_Spec.thy ===== *)
theory Pb_Encode_Spec
  imports Pb_Encode
begin

unbundle bit_operations_syntax

text \<open>
  What the message encoder writes, as a function from a message in memory to bytes without
  streams, sizing passes or substreams, and the proof that \<open>pb_encode\<close> refines it on every
  sizing stream and every output stream that keeps the contract of \<open>Pb_Stream\<close>.

  The specification has three outcomes: the bytes, a refusal (the encoder returns false on
  every stream), and no claim, for messages outside the bound \<open>k\<close>, without defined behaviour,
  or with a submessage or string of 2^63 bytes and more.
\<close>

section \<open>Outcomes\<close>

datatype outcome = Encodes "byte list" | Refused | Unspecified

fun join :: "outcome \<Rightarrow> outcome \<Rightarrow> outcome" where
  "join (Encodes a) r = (case r of Encodes b \<Rightarrow> Encodes (a @ b) | Refused \<Rightarrow> Refused | Unspecified \<Rightarrow> Unspecified)"
| "join Refused r = Refused"
| "join Unspecified r = Unspecified"

definition joined :: "outcome list \<Rightarrow> outcome" where
  "joined rs = foldr join rs (Encodes [])"

lemma joined_simps [simp]: "joined [] = Encodes []" "joined (r # rs) = join r (joined rs)"
  by (simp_all add: joined_def)

fun delimited :: "outcome \<Rightarrow> outcome" where
  "delimited (Encodes bs) =
     (if int (length bs) < 2 ^ 63 then Encodes (varint_bytes (of_nat (length bs)) @ bs) else Unspecified)"
| "delimited Refused = Refused"
| "delimited Unspecified = Unspecified"

section \<open>The specification\<close>

definition tag_spec :: "pb_field_t \<Rightarrow> outcome" where
  "tag_spec field =
     (case wire_type_for (PB_LTYPE (ftype field)) of
        None \<Rightarrow> Refused | Some wt \<Rightarrow> Encodes (varint_bytes (tag_word wt (tag field))))"

definition value_spec ::
  "'s pb_env \<Rightarrow> (pb_field_t list \<Rightarrow> addr \<Rightarrow> outcome) \<Rightarrow> pb_field_t \<Rightarrow> addr \<Rightarrow> outcome" where
  "value_spec env sub field p =
     (let lt = PB_LTYPE (ftype field); m = memory env;
          number = (\<lambda>enc v. case v of None \<Rightarrow> Refused | Some w \<Rightarrow> Encodes (varint_bytes (enc w)))
      in if lt = PB_LTYPE_BOOL then Encodes (varint_bytes (if m p \<noteq> 0 then 1 else 0))
         else if lt = PB_LTYPE_VARINT then number id (load_signed m p (data_size field))
         else if lt = PB_LTYPE_UVARINT then number id (load_unsigned m p (data_size field))
         else if lt = PB_LTYPE_SVARINT then number zigzag (load_signed m p (data_size field))
         else if lt = PB_LTYPE_FIXED32 then Encodes (fixed32_bytes (load32 m p))
         else if lt = PB_LTYPE_FIXED64 then Encodes (fixed64_bytes (load64 m p))
         else if lt = PB_LTYPE_BYTES then
           (if p = 0 then delimited (Encodes [])
            else if PB_ATYPE (ftype field) = PB_ATYPE_STATIC \<and>
                    (ucast (load32 m p) :: u64) > ucast (data_size field) - 4
            then Refused
            else delimited (Encodes (load_bytes m (p + 4) (unat (load32 m p)))))
         else if lt = PB_LTYPE_STRING then
           (let limit = (if PB_ATYPE (ftype field) = PB_ATYPE_POINTER then - 1 else ucast (data_size field))
            in delimited (Encodes (load_bytes m p (if p = 0 then 0 else unat (string_size m p 0 limit)))))
         else if lt = PB_LTYPE_SUBMESSAGE then
           (if ptr field = 0 then Refused else delimited (sub (desc env (ptr field)) p))
         else if lt = PB_LTYPE_FIXED_LENGTH_BYTES then
           delimited (Encodes (load_bytes m p (unat (data_size field))))
         else Unspecified)"

definition array_spec ::
  "'s pb_env \<Rightarrow> (pb_field_t list \<Rightarrow> addr \<Rightarrow> outcome) \<Rightarrow> pb_field_t \<Rightarrow> addr \<Rightarrow> nat \<Rightarrow> outcome" where
  "array_spec env sub field p count =
     (let item = (\<lambda>i. p + of_nat i * ucast (data_size field)) in
      if count = 0 then Encodes []
      else if PB_ATYPE (ftype field) \<noteq> PB_ATYPE_POINTER \<and> count > unat (array_size field) then Refused
      else if PB_LTYPE (ftype field) \<le> PB_LTYPE_LAST_PACKABLE then
        join (Encodes (varint_bytes (tag_word PB_WT_STRING (tag field))))
          (delimited (joined (map (\<lambda>i. value_spec env sub field (item i)) [0..<count])))
      else joined (map (\<lambda>i. join (tag_spec field) (value_spec env sub field
          (if PB_ATYPE (ftype field) = PB_ATYPE_POINTER \<and>
              (PB_LTYPE (ftype field) = PB_LTYPE_STRING \<or> PB_LTYPE (ftype field) = PB_LTYPE_BYTES)
           then load64 (memory env) (item i) else item i))) [0..<count]))"

definition present_spec ::
  "'s pb_env \<Rightarrow> (pb_field_t list \<Rightarrow> addr \<Rightarrow> outcome) \<Rightarrow> pb_field_t \<Rightarrow> addr \<Rightarrow> presence \<Rightarrow> outcome" where
  "present_spec env sub field p pr =
     (let ht = PB_HTYPE (ftype field);
          tag_and_value = join (tag_spec field) (value_spec env sub field p)
      in if ht = PB_HTYPE_REQUIRED then (if p = 0 then Refused else tag_and_value)
         else if ht = PB_HTYPE_OPTIONAL then (if read_has env pr then tag_and_value else Encodes [])
         else if ht = PB_HTYPE_REPEATED then
           array_spec env sub field p
             (unat (case pr of In_Message q \<Rightarrow> load32 (memory env) q | Implicit_Has b \<Rightarrow> array_size field))
         else (case pr of
                 In_Message q \<Rightarrow> if load32 (memory env) q = tag field then tag_and_value else Encodes []
               | Implicit_Has b \<Rightarrow> Unspecified))"

definition basic_spec ::
  "nat \<Rightarrow> 's pb_env \<Rightarrow> (pb_field_t list \<Rightarrow> addr \<Rightarrow> outcome) \<Rightarrow> pb_field_t \<Rightarrow> addr \<Rightarrow> outcome" where
  "basic_spec k env sub field p =
     (let p1 = load64 (memory env) p; pointer = (PB_ATYPE (ftype field) = PB_ATYPE_POINTER);
          present = present_spec env sub field (if pointer then p1 else p)
      in if size_offset field \<noteq> 0 then present (In_Message (size_addr p field))
         else if PB_HTYPE (ftype field) = PB_HTYPE_OPTIONAL then
           (case pb_check_proto3_default_value k env field p of
              None \<Rightarrow> Unspecified
            | Some d \<Rightarrow> present (Implicit_Has (if pointer then p1 \<noteq> 0 else \<not> d)))
         else present (Implicit_Has (if pointer then p1 \<noteq> 0 else True)))"

definition field_spec ::
  "nat \<Rightarrow> 's pb_env \<Rightarrow> (addr \<Rightarrow> pb_field_t \<Rightarrow> addr \<Rightarrow> outcome) \<Rightarrow>
     (pb_field_t list \<Rightarrow> addr \<Rightarrow> outcome) \<Rightarrow> pb_field_t \<Rightarrow> addr \<Rightarrow> outcome" where
  "field_spec k env cb sub field p =
     (if PB_ATYPE (ftype field) = PB_ATYPE_STATIC \<or> PB_ATYPE (ftype field) = PB_ATYPE_POINTER
      then basic_spec k env sub field p
      else if PB_ATYPE (ftype field) = PB_ATYPE_CALLBACK then
        (let f = load64 (memory env) p in if f \<noteq> 0 then cb f field (p + 8) else Encodes [])
      else Refused)"

fun extensions_spec ::
  "nat \<Rightarrow> nat \<Rightarrow> 's pb_env \<Rightarrow> (addr \<Rightarrow> pb_field_t \<Rightarrow> addr \<Rightarrow> outcome) \<Rightarrow> (addr \<Rightarrow> addr \<Rightarrow> outcome) \<Rightarrow>
     (pb_field_t list \<Rightarrow> addr \<Rightarrow> outcome) \<Rightarrow> addr \<Rightarrow> outcome" where
  "extensions_spec 0 k env cb ext_cb sub ext = (if ext = 0 then Encodes [] else Unspecified)"
| "extensions_spec (Suc n) k env cb ext_cb sub ext =
     (let m = memory env; encode = load64 m (load64 m ext + 8);
          field = field_at (desc env (load64 m (load64 m ext + 16))) 0
      in if ext = 0 then Encodes []
         else join
           (if encode \<noteq> 0 then ext_cb encode ext
            else field_spec k env cb sub field
              (if PB_ATYPE (ftype field) = PB_ATYPE_POINTER then ext + 8 else load64 m (ext + 8)))
           (extensions_spec n k env cb ext_cb sub (load64 m (ext + 16))))"

fun message_spec ::
  "nat \<Rightarrow> 's pb_env \<Rightarrow> (addr \<Rightarrow> pb_field_t \<Rightarrow> addr \<Rightarrow> outcome) \<Rightarrow> (addr \<Rightarrow> addr \<Rightarrow> outcome) \<Rightarrow>
     pb_field_t list \<Rightarrow> addr \<Rightarrow> outcome" where
  "message_spec 0 env cb ext_cb fs src = Unspecified"
| "message_spec (Suc k) env cb ext_cb fs src =
     joined (map (\<lambda>i.
       let field = field_at fs i; p = pData (iter_at fs src i); sub = message_spec k env cb ext_cb
       in if PB_LTYPE (ftype field) = PB_LTYPE_EXTENSION
          then extensions_spec k k env cb ext_cb sub (load64 (memory env) p)
          else field_spec k env cb sub field p) [0..<num_fields fs])"

section \<open>Refinement\<close>

context ostream_contract
begin

definition writable :: "'s pb_ostream_t \<Rightarrow> bool" where
  "writable s \<longleftrightarrow> ok (sink s) \<and> bytes_written s \<le> max_size s \<and> unat (max_size s) < 2 ^ 63"

definition delivers :: "'s pb_ostream_t \<Rightarrow> 's pb_ostream_t \<Rightarrow> byte list \<Rightarrow> bool" where
  "delivers s s' bs \<longleftrightarrow> ok (sink s') \<and> written (sink s') = written (sink s) @ bs \<and>
     max_size s' = max_size s \<and> bytes_written s' = bytes_written s + of_nat (length bs) \<and>
     (oerrmsg s = None \<longrightarrow> oerrmsg s' = None)"

definition implements :: "'s enc \<Rightarrow> outcome \<Rightarrow> bool" where
  "implements e r \<longleftrightarrow> (case r of
     Encodes bs \<Rightarrow>
       (\<forall>s. \<not> has_callback (sink s) \<longrightarrow>
          e s = Some (True, s\<lparr>bytes_written := bytes_written s + of_nat (length bs)\<rparr>)) \<and>
       (\<forall>s. writable s \<longrightarrow> room s (length bs) \<longrightarrow> (\<exists>s'. e s = Some (True, s') \<and> delivers s s' bs)) \<and>
       (\<forall>s. writable s \<longrightarrow> \<not> room s (length bs) \<longrightarrow> (\<exists>s'. e s = Some (False, s')))
   | Refused \<Rightarrow> \<forall>s. \<not> has_callback (sink s) \<or> writable s \<longrightarrow> (\<exists>s'. e s = Some (False, s'))
   | Unspecified \<Rightarrow> True)"

lemma implements_encodesD:
  assumes "implements e (Encodes bs)"
  shows "\<not> has_callback (sink s) \<Longrightarrow>
      e s = Some (True, s\<lparr>bytes_written := bytes_written s + of_nat (length bs)\<rparr>)"
    and "writable s \<Longrightarrow> room s (length bs) \<Longrightarrow> \<exists>s'. e s = Some (True, s') \<and> delivers s s' bs"
    and "writable s \<Longrightarrow> \<not> room s (length bs) \<Longrightarrow> \<exists>s'. e s = Some (False, s')"
  using assms by (auto simp: implements_def)

lemma implements_unspecified [simp]: "implements e Unspecified"
  by (simp add: implements_def)

lemma implements_succeed: "implements succeed (Encodes [])"
  by (auto simp: implements_def succeed_def delivers_def writable_def room_def word_le_nat_alt)

lemma implements_error: "implements (return_error msg) Refused"
  by (simp add: implements_def return_error_def)

lemma after_delivery:
  assumes "delivers s s' a" and "writable s" and "room s (length a)"
  shows "writable s'" and "room s' n \<longleftrightarrow> room s (length a + n)"
proof -
  have "unat (bytes_written s) + length a \<le> unat (max_size s)" using assms(3) by (simp add: room_def)
  moreover have "unat (max_size s) < 2 ^ 64" by (rule unat_less_64)
  ultimately have "unat (bytes_written s + of_nat (length a)) = unat (bytes_written s) + length a"
    by (simp add: unat_word_ariths unat_of_nat)
  with assms show "writable s'" and "room s' n \<longleftrightarrow> room s (length a + n)"
    by (auto simp: delivers_def writable_def room_def word_le_nat_alt)
qed

lemma delivers_trans:
  "delivers s s1 a \<Longrightarrow> delivers s1 s2 b \<Longrightarrow> delivers s s2 (a @ b)"
  by (auto simp: delivers_def add.assoc)

lemma implements_then:
  assumes "implements e1 r1" and "implements e2 r2"
  shows "implements (and_also e1 e2) (join r1 r2)"
proof (cases r1)
  case (Encodes a)
  note e1 = implements_encodesD [OF assms(1) [unfolded Encodes]]
  have fails: "\<exists>s'. and_also e1 e2 s = Some (False, s')" if "writable s" "\<not> room s (length a)" for s
    using e1(3) [OF that] by (auto simp: and_also_def)
  show ?thesis
  proof (cases r2)
    case b: (Encodes b)
    note e2 = implements_encodesD [OF assms(2) [unfolded b]]
    show ?thesis unfolding Encodes b implements_def join.simps outcome.case
    proof (intro conjI allI impI)
      fix s :: "'s pb_ostream_t" assume "\<not> has_callback (sink s)"
      then show "and_also e1 e2 s = Some (True, s\<lparr>bytes_written := bytes_written s + of_nat (length (a @ b))\<rparr>)"
        using e1(1) [of s] e2(1) by (simp add: and_also_def add.assoc)
    next
      fix s :: "'s pb_ostream_t" assume w: "writable s" and r: "room s (length (a @ b))"
      then have ra: "room s (length a)" by (simp add: room_def)
      obtain s1 where s1: "e1 s = Some (True, s1)" "delivers s s1 a" using e1(2) [OF w ra] by blast
      then obtain s2 where "e2 s1 = Some (True, s2)" "delivers s1 s2 b"
        using e2(2) after_delivery [OF s1(2) w ra] r by auto
      with s1 show "\<exists>s'. and_also e1 e2 s = Some (True, s') \<and> delivers s s' (a @ b)"
        using delivers_trans by (auto simp: and_also_def)
    next
      fix s :: "'s pb_ostream_t" assume w: "writable s" and r: "\<not> room s (length (a @ b))"
      show "\<exists>s'. and_also e1 e2 s = Some (False, s')"
      proof (cases "room s (length a)")
        case True
        obtain s1 where s1: "e1 s = Some (True, s1)" "delivers s s1 a" using e1(2) [OF w True] by blast
        then show ?thesis
          using e2(3) [of s1] after_delivery [OF s1(2) w True] r by (auto simp: and_also_def)
      qed (use fails w in blast)
    qed
  next
    case b: Refused
    have e2: "writable s \<or> \<not> has_callback (sink s) \<Longrightarrow> \<exists>s'. e2 s = Some (False, s')" for s
      using assms(2) by (auto simp: b implements_def)
    show ?thesis unfolding Encodes b implements_def join.simps outcome.case
    proof (intro allI impI)
      fix s :: "'s pb_ostream_t" assume "\<not> has_callback (sink s) \<or> writable s"
      then consider "\<not> has_callback (sink s)" | "writable s" "room s (length a)"
        | "writable s" "\<not> room s (length a)" by blast
      then show "\<exists>s'. and_also e1 e2 s = Some (False, s')"
      proof cases
        case 1
        then show ?thesis
          using e1(1) [of s] e2 [of "s\<lparr>bytes_written := bytes_written s + of_nat (length a)\<rparr>"]
          by (auto simp: and_also_def)
      next
        case 2
        then obtain s1 where s1: "e1 s = Some (True, s1)" "delivers s s1 a" using e1(2) by blast
        then show ?thesis using e2 [of s1] after_delivery [OF s1(2) 2] by (auto simp: and_also_def)
      qed (use fails in blast)
    qed
  qed (simp add: Encodes)
next
  case Refused
  then show ?thesis using assms(1) by (fastforce simp: implements_def and_also_def)
qed simp

lemma implements_write:
  assumes "length bs < 2 ^ 63"
  shows "implements (run (pb_write bs (of_nat (length bs)))) (Encodes bs)"
  unfolding implements_def outcome.case
proof (intro conjI allI impI)
  have l: "length bs < 2 ^ 64" and u: "unat (of_nat (length bs) :: size_t) = length bs"
    using assms by (simp_all add: unat_of_nat)
  have sz: "sizes (pb_write bs (of_nat (length bs)) :: 's pb_ostream_t \<Rightarrow> _) (length bs)"
    by (rule sizes_write [OF l])
  fix s :: "'s pb_ostream_t"
  show "\<not> has_callback (sink s) \<Longrightarrow> run (pb_write bs (of_nat (length bs))) s =
      Some (True, s\<lparr>bytes_written := bytes_written s + of_nat (length bs)\<rparr>)"
    using sz by (simp add: sizes_def run_def)
  assume w: "writable s"
  show "room s (length bs) \<Longrightarrow>
      \<exists>s'. run (pb_write bs (of_nat (length bs))) s = Some (True, s') \<and> delivers s s' bs"
    using writesE [OF writes_write [OF l], of s] w
    by (force simp: run_def writable_def delivers_def)
  assume r: "\<not> room s (length bs)"
  have "unat (bytes_written s) \<le> unat (max_size s)" "unat (max_size s) < 2 ^ 63" "ok (sink s)"
    using w by (simp_all add: writable_def word_le_nat_alt)
  moreover have "unat (bytes_written s + of_nat (length bs)) = unat (bytes_written s) + length bs"
    using calculation assms by (simp add: unat_word_ariths u)
  ultimately show "\<exists>s'. run (pb_write bs (of_nat (length bs))) s = Some (False, s')"
    using r ok_callback [of "sink s"] u
    by (auto simp: run_def pb_write_def room_def word_less_nat_alt unat_eq_zero)
qed

lemma implements_varint: "implements (run (pb_encode_varint v)) (Encodes (varint_bytes v))"
  using implements_write [of "varint_bytes v"] varint_bytes_length_10 [of v]
  by (simp add: pb_encode_varint_def [abs_def] Let_def)

lemma implements_tag: "implements (run (pb_encode_tag wt n)) (Encodes (varint_bytes (tag_word wt n)))"
  by (simp add: pb_encode_tag_def implements_varint)

lemma implements_fixed: "implements (run (pb_encode_fixed32 v)) (Encodes (fixed32_bytes v))"
  "implements (run (pb_encode_fixed64 w)) (Encodes (fixed64_bytes w))"
  using implements_write [of "fixed32_bytes v"] implements_write [of "fixed64_bytes w"]
  by (simp_all add: pb_encode_fixed32_def pb_encode_fixed64_def length_fixed)

lemma run_string:
  "run (pb_encode_string bs n) = and_also (run (pb_encode_varint n)) (run (pb_write bs n))"
  by (rule ext) (auto simp: run_def pb_encode_string_def seq_def and_also_def split: prod.splits bool.splits)

lemma implements_string:
  "implements (run (pb_encode_string bs (of_nat (length bs)))) (delimited (Encodes bs))"
proof (cases "length bs < 2 ^ 63")
  case True
  then show ?thesis
    using implements_then [OF implements_varint [of "of_nat (length bs)"] implements_write [of bs]]
    by (simp add: run_string)
qed simp

lemma implements_submessage:
  assumes "implements (sub fs src) r"
  shows "implements (pb_encode_submessage sub fs src) (delimited r)"
proof (cases r)
  case (Encodes bs)
  note sub = implements_encodesD [OF assms [unfolded Encodes]]
  define sz :: size_t where "sz = of_nat (length bs)"
  note varint = implements_encodesD [OF implements_varint [of sz]]
  have first: "sub fs src pb_ostream_sizing = Some (True, pb_ostream_sizing\<lparr>bytes_written := sz\<rparr>)"
    using sub(1) [of pb_ostream_sizing] by (simp add: pb_ostream_sizing_def sz_def)
  show ?thesis
  proof (cases "length bs < 2 ^ 63")
    case True
    then have u: "unat sz = length bs" by (simp add: sz_def unat_of_nat)
    have spec: "delimited r = Encodes (varint_bytes sz @ bs)" using True by (simp add: Encodes sz_def)
    show ?thesis unfolding spec implements_def outcome.case
    proof (intro conjI allI impI)
      fix s :: "'s pb_ostream_t" assume "\<not> has_callback (sink s)"
      then show "pb_encode_submessage sub fs src s =
          Some (True, s\<lparr>bytes_written := bytes_written s + of_nat (length (varint_bytes sz @ bs))\<rparr>)"
        using varint(1) [of s] True
        by (simp add: pb_encode_submessage_def first Let_def run_def pb_write_def add.assoc flip: sz_def)
    next
      fix s :: "'s pb_ostream_t" assume w: "writable s" and r: "room s (length (varint_bytes sz @ bs))"
      then have rv: "room s (length (varint_bytes sz))" by (simp add: room_def)
      obtain s1 where s1: "pb_encode_varint sz s = (True, s1)" "delivers s s1 (varint_bytes sz)"
        using varint(2) [OF w rv] by (auto simp: run_def)
      have w1: "writable s1" "room s1 (length bs)" using after_delivery [OF s1(2) w rv] r by simp_all
      let ?in = "\<lparr>sink = sink s1, max_size = sz, bytes_written = 0, oerrmsg = None\<rparr>"
      have "writable ?in" "room ?in (length bs)"
        using w1 True u by (simp_all add: writable_def room_def)
      then obtain s2 where s2: "sub fs src ?in = Some (True, s2)" "delivers ?in s2 bs" using sub(2) by blast
      have "\<not> bytes_written s1 + sz > max_size s1"
        using w1 u by (auto simp: writable_def room_def word_less_nat_alt unat_word_ariths)
      then show "\<exists>s'. pb_encode_submessage sub fs src s = Some (True, s') \<and>
          delivers s s' (varint_bytes sz @ bs)"
        using s1 s2 w1 ok_callback
        by (auto simp: pb_encode_submessage_def first Let_def writable_def delivers_def sz_def add.assoc)
    next
      fix s :: "'s pb_ostream_t" assume w: "writable s" and r: "\<not> room s (length (varint_bytes sz @ bs))"
      show "\<exists>s'. pb_encode_submessage sub fs src s = Some (False, s')"
      proof (cases "room s (length (varint_bytes sz))")
        case rv: True
        obtain s1 where s1: "pb_encode_varint sz s = (True, s1)" "delivers s s1 (varint_bytes sz)"
          using varint(2) [OF w rv] by (auto simp: run_def)
        have w1: "writable s1" "\<not> room s1 (length bs)" using after_delivery [OF s1(2) w rv] r by simp_all
        have "unat (bytes_written s1 + sz) = unat (bytes_written s1) + unat sz"
          using w1(1) u True by (simp add: writable_def word_le_nat_alt unat_word_ariths)
        then have "bytes_written s1 + sz > max_size s1"
          using w1(2) u by (simp add: room_def word_less_nat_alt)
        then show ?thesis using s1 w1(1) ok_callback
          by (auto simp: pb_encode_submessage_def first Let_def writable_def return_error_def)
      next
        case False
        then show ?thesis using varint(3) [OF w]
          by (auto simp: pb_encode_submessage_def first Let_def run_def)
      qed
    qed
  qed (simp add: Encodes)
next
  case Refused
  then obtain s' where "sub fs src pb_ostream_sizing = Some (False, s')"
    using assms [unfolded Refused implements_def outcome.case, rule_format, of pb_ostream_sizing]
    by (auto simp: pb_ostream_sizing_def)
  then show ?thesis by (simp add: Refused implements_def pb_encode_submessage_def)
qed simp

lemma implements_if:
  "(c \<Longrightarrow> implements (f x y) r) \<Longrightarrow> (\<not> c \<Longrightarrow> implements (g x y) q) \<Longrightarrow>
   implements ((if c then f else g) x y) (if c then r else q)"
  by simp

lemma implements_cond:
  "(c \<Longrightarrow> implements a r) \<Longrightarrow> (\<not> c \<Longrightarrow> implements b q) \<Longrightarrow>
   implements (if c then a else b) (if c then r else q)"
  by simp

lemma implements_number:
  "implements (case v of None \<Rightarrow> return_error msg | Some w \<Rightarrow> run (pb_encode_varint (enc w)))
     (case v of None \<Rightarrow> Refused | Some w \<Rightarrow> Encodes (varint_bytes (enc w)))"
  by (cases v) (simp_all add: implements_error implements_varint)

lemma implements_load:
  "implements (run (pb_encode_string (load_bytes m q (unat n)) n)) (delimited (Encodes (load_bytes m q (unat n))))"
  "implements (run (pb_encode_string (load_bytes m q (unat k)) (ucast k)))
     (delimited (Encodes (load_bytes m q (unat k))))"
  "implements (run (pb_encode_string [] 0)) (delimited (Encodes []))"
  for n :: u64 and k :: u32
  using implements_string [of "load_bytes m q (unat n)"] implements_string [of "load_bytes m q (unat k)"]
    implements_string [of "[]"] by simp_all

lemma implements_enc_bytes:
  "implements (pb_enc_bytes env field p)
     (if p = 0 then delimited (Encodes [])
      else if PB_ATYPE (ftype field) = PB_ATYPE_STATIC \<and>
              (ucast (load32 (memory env) p) :: u64) > ucast (data_size field) - 4
      then Refused
      else delimited (Encodes (load_bytes (memory env) (p + 4) (unat (load32 (memory env) p)))))"
  unfolding pb_enc_bytes_def Let_def
  by (simp add: implements_load implements_error del: delimited.simps)

lemma implements_enc_string:
  "implements (pb_enc_string env field p)
     (let limit = (if PB_ATYPE (ftype field) = PB_ATYPE_POINTER then - 1 else ucast (data_size field))
      in delimited (Encodes (load_bytes (memory env) p (if p = 0 then 0 else unat (string_size (memory env) p 0 limit)))))"
  unfolding pb_enc_string_def Let_def
  using implements_load(1) [of "memory env" p 0] implements_load(1) [of "memory env" p]
  by (cases "p = 0") (simp_all del: delimited.simps)

lemma implements_enc_submessage:
  assumes "\<And>fs src. implements (sub fs src) (subs fs src)"
  shows "implements (pb_enc_submessage env sub field p)
     (if ptr field = 0 then Refused else delimited (subs (desc env (ptr field)) p))"
  using assms by (simp add: pb_enc_submessage_def implements_error implements_submessage)

lemma implements_value:
  assumes "\<And>fs src. implements (sub fs src) (subs fs src)"
  shows "implements (PB_ENCODERS env sub (PB_LTYPE (ftype field)) field p) (value_spec env subs field p)"
  unfolding PB_ENCODERS_def value_spec_def Let_def [of "PB_LTYPE (ftype field)"] Let_def [of "memory env"]
    Let_def [of "\<lambda>enc v. case v of None \<Rightarrow> Refused | Some w \<Rightarrow> Encodes (varint_bytes (enc w))"]
proof (intro implements_if)
  show "implements (pb_enc_bool env field p) (Encodes (varint_bytes (if memory env p \<noteq> 0 then 1 else 0)))"
    unfolding pb_enc_bool_def safe_read_bool_def by (rule implements_varint)
  show "implements (pb_enc_varint env field p)
      (case load_signed (memory env) p (data_size field) of None \<Rightarrow> Refused | Some w \<Rightarrow> Encodes (varint_bytes (id w)))"
    unfolding pb_enc_varint_def id_apply by (rule implements_number)
  show "implements (pb_enc_uvarint env field p)
      (case load_unsigned (memory env) p (data_size field) of None \<Rightarrow> Refused | Some w \<Rightarrow> Encodes (varint_bytes (id w)))"
    unfolding pb_enc_uvarint_def id_apply by (rule implements_number)
  show "implements (pb_enc_svarint env field p)
      (case load_signed (memory env) p (data_size field) of None \<Rightarrow> Refused | Some w \<Rightarrow> Encodes (varint_bytes (zigzag w)))"
    unfolding pb_enc_svarint_def pb_encode_svarint_def by (rule implements_number)
  show "implements (pb_enc_fixed_length_bytes env field p)
      (delimited (Encodes (load_bytes (memory env) p (unat (data_size field)))))"
    unfolding pb_enc_fixed_length_bytes_def by (rule implements_load)
  show "implements (pb_enc_submessage env sub field p)
      (if ptr field = 0 then Refused else delimited (subs (desc env (ptr field)) p))"
    by (rule implements_enc_submessage [OF assms])
qed (simp_all only: pb_enc_fixed32_def pb_enc_fixed64_def implements_fixed implements_enc_bytes implements_enc_string
  implements_unspecified)

lemma implements_tag_for_field: "implements (pb_encode_tag_for_field field) (tag_spec field)"
  by (auto simp: pb_encode_tag_for_field_def tag_spec_def implements_error implements_tag split: option.splits)

lemma implements_items:
  assumes "\<And>q. implements (item q) (r q)"
  shows "implements (encode_items item step n p) (joined (map (\<lambda>i. r (p + of_nat i * step)) [0..<n]))"
proof (induction n arbitrary: p)
  case 0
  then show ?case by (simp add: implements_succeed)
next
  case (Suc n)
  have "map (\<lambda>i. r (p + of_nat i * step)) [0..<Suc n] =
      r p # map (\<lambda>i. r ((p + step) + of_nat i * step)) [0..<n]"
    by (simp only: upt_conv_Cons zero_less_Suc map_Suc_upt [symmetric] map_map list.map)
      (simp add: comp_def algebra_simps)
  then show ?case using implements_then [OF assms [of p] Suc.IH [of "p + step"]] by (simp del: upt_Suc)
qed

lemma implements_counted:
  assumes "implements e (Encodes bs)"
  shows "implements (\<lambda>s. if \<not> has_callback (sink s) then Some (pb_write [] (of_nat (length bs)) s) else e s)
    (Encodes bs)"
  using implements_encodesD [OF assms] ok_callback
  by (auto simp: implements_def pb_write_def writable_def)

lemma fixed_length_items:
  "(\<And>q. \<exists>bs. r q = Encodes bs \<and> length bs = k) \<Longrightarrow>
    \<exists>bs. joined (map (\<lambda>i. r (f i)) [0..<n]) = Encodes bs \<and> length bs = k * n"
proof (induction n)
  case (Suc n)
  have app: "joined (xs @ ys) = join (joined xs) (joined ys)" for xs ys
  proof (induction xs)
    case (Cons x xs)
    have "join (join a b) c = join a (join b c)" for a b c
      by (cases a; cases b; cases c) simp_all
    with Cons show ?case by simp
  qed (cases "joined ys"; simp)
  from Suc obtain bs b where "joined (map (\<lambda>i. r (f i)) [0..<n]) = Encodes bs" "length bs = k * n"
    "r (f n) = Encodes b" "length b = k" by blast
  then show ?case by (simp add: app)
qed simp

lemma value_fixed:
  "PB_LTYPE (ftype field) = PB_LTYPE_FIXED32 \<Longrightarrow>
    value_spec env subs field q = Encodes (fixed32_bytes (load32 (memory env) q))"
  "PB_LTYPE (ftype field) = PB_LTYPE_FIXED64 \<Longrightarrow>
    value_spec env subs field q = Encodes (fixed64_bytes (load64 (memory env) q))"
proof -
  have d: "PB_LTYPE_FIXED32 \<noteq> PB_LTYPE_BOOL" "PB_LTYPE_FIXED32 \<noteq> PB_LTYPE_VARINT"
    "PB_LTYPE_FIXED32 \<noteq> PB_LTYPE_UVARINT" "PB_LTYPE_FIXED32 \<noteq> PB_LTYPE_SVARINT"
    "PB_LTYPE_FIXED64 \<noteq> PB_LTYPE_BOOL" "PB_LTYPE_FIXED64 \<noteq> PB_LTYPE_VARINT"
    "PB_LTYPE_FIXED64 \<noteq> PB_LTYPE_UVARINT" "PB_LTYPE_FIXED64 \<noteq> PB_LTYPE_SVARINT"
    "PB_LTYPE_FIXED64 \<noteq> PB_LTYPE_FIXED32"
    by (simp_all add: pb_types)
  show "PB_LTYPE (ftype field) = PB_LTYPE_FIXED32 \<Longrightarrow>
      value_spec env subs field q = Encodes (fixed32_bytes (load32 (memory env) q))"
    and "PB_LTYPE (ftype field) = PB_LTYPE_FIXED64 \<Longrightarrow>
      value_spec env subs field q = Encodes (fixed64_bytes (load64 (memory env) q))"
    unfolding value_spec_def Let_def by (simp_all only: d if_False if_True simp_thms)
qed

lemma packed_size_spec:
  assumes "\<And>q. implements (PB_ENCODERS env sub (PB_LTYPE (ftype field)) field q) (value_spec env subs field q)"
    and "joined (map (\<lambda>i. value_spec env subs field (p + of_nat i * ucast (data_size field))) [0..<unat count]) = r"
  shows "case r of
      Encodes bs \<Rightarrow> packed_size (PB_ENCODERS env sub (PB_LTYPE (ftype field)) field) field count p =
        Some (True, of_nat (length bs))
    | Refused \<Rightarrow> \<exists>sz. packed_size (PB_ENCODERS env sub (PB_LTYPE (ftype field)) field) field count p = Some (False, sz)
    | Unspecified \<Rightarrow> True"
proof -
  have items: "implements (encode_items (PB_ENCODERS env sub (PB_LTYPE (ftype field)) field)
      (ucast (data_size field)) (unat count) p) r"
    unfolding assms(2) [symmetric] by (rule implements_items) (rule assms(1))
  consider (f32) "PB_LTYPE (ftype field) = PB_LTYPE_FIXED32" | (f64) "PB_LTYPE (ftype field) = PB_LTYPE_FIXED64"
    | (other) "PB_LTYPE (ftype field) \<noteq> PB_LTYPE_FIXED32" "PB_LTYPE (ftype field) \<noteq> PB_LTYPE_FIXED64" by blast
  then show ?thesis
  proof cases
    case f32
    then have "\<exists>bs. value_spec env subs field q = Encodes bs \<and> length bs = 4" for q
      by (simp add: value_fixed length_fixed)
    from fixed_length_items [where r = "value_spec env subs field" and k = 4, OF this,
        where f = "\<lambda>i. p + of_nat i * ucast (data_size field)" and n = "unat count"] assms(2)
    obtain bs where "r = Encodes bs" "length bs = 4 * unat count" by blast
    then show ?thesis using f32 by (simp add: packed_size_def)
  next
    case f64
    then have "\<exists>bs. value_spec env subs field q = Encodes bs \<and> length bs = 8" for q
      by (simp add: value_fixed length_fixed)
    from fixed_length_items [where r = "value_spec env subs field" and k = 8, OF this,
        where f = "\<lambda>i. p + of_nat i * ucast (data_size field)" and n = "unat count"] assms(2)
    obtain bs where "r = Encodes bs" "length bs = 8 * unat count" by blast
    then show ?thesis using f64 by (simp add: packed_size_def pb_types)
  next
    case other
    have s: "\<not> has_callback (sink pb_ostream_sizing)" by (simp add: pb_ostream_sizing_def)
    show ?thesis
    proof (cases r)
      case (Encodes bs)
      from implements_encodesD(1) [OF items [unfolded Encodes] s] other show ?thesis
        by (simp add: packed_size_def Encodes) (simp add: pb_ostream_sizing_def)
    next
      case Refused
      from items [unfolded Refused implements_def outcome.case, rule_format, OF disjI1 [OF s]] other
      show ?thesis by (auto simp: packed_size_def Refused)
    qed simp
  qed
qed

lemma implements_array:
  assumes "\<And>q. implements (PB_ENCODERS env sub (PB_LTYPE (ftype field)) field q) (value_spec env subs field q)"
  shows "implements (encode_array env field p count (PB_ENCODERS env sub (PB_LTYPE (ftype field))))
    (array_spec env subs field p (unat count))"
proof -
  let ?func = "PB_ENCODERS env sub (PB_LTYPE (ftype field)) field"
  let ?items = "encode_items ?func (ucast (data_size field)) (unat count) p"
  let ?r = "joined (map (\<lambda>i. value_spec env subs field (p + of_nat i * ucast (data_size field))) [0..<unat count])"
  let ?packed = "\<lambda>s. case packed_size ?func field count p of None \<Rightarrow> None
      | Some (False, _) \<Rightarrow> Some (False, s)
      | Some (True, sz) \<Rightarrow> and_also (run (pb_encode_varint sz))
          (\<lambda>s1. if \<not> has_callback (sink s1) then Some (pb_write [] sz s1) else ?items s1) s"
  note sz = packed_size_spec [OF assms refl, where p = p and count = count]
  have packed: "implements ?packed (delimited ?r)"
  proof (cases ?r)
    case (Encodes bs)
    have "implements ?items ?r" by (rule implements_items [where r = "value_spec env subs field"]) (rule assms)
    then have "implements ?items (Encodes bs)" by (simp only: Encodes)
    from implements_then [OF implements_varint implements_counted [OF this]]
    have "implements ?packed (Encodes (varint_bytes (of_nat (length bs)) @ bs))"
      using sz unfolding Encodes outcome.case by simp
    then show ?thesis by (simp add: Encodes)
  next
    case Refused
    then show ?thesis using sz by (auto simp: implements_def)
  qed simp
  have zero: "count = 0 \<longleftrightarrow> unat count = 0" by (simp add: unat_eq_zero)
  have less: "count > array_size field \<longleftrightarrow> unat count > unat (array_size field)" by (simp add: word_less_nat_alt)
  have one: "implements (and_also (pb_encode_tag_for_field field) (?func (if c then f q else q)))
      (join (tag_spec field) (value_spec env subs field (if c then f q else q)))" for c f q
    by (intro implements_then implements_tag_for_field assms)
  have each: "(if c then ?func (f q) else ?func q) = ?func (if c then f q else q)" for c f q by simp
  show ?thesis
    unfolding encode_array_def array_spec_def Let_def zero less each
    by (intro implements_cond implements_succeed implements_error implements_then implements_tag packed
        implements_items [where r = "\<lambda>q. join (tag_spec field) (value_spec env subs field
          (if PB_ATYPE (ftype field) = PB_ATYPE_POINTER \<and> (PB_LTYPE (ftype field) = PB_LTYPE_STRING \<or>
             PB_LTYPE (ftype field) = PB_LTYPE_BYTES) then load64 (memory env) q else q))"] one)
qed

lemma pb_htype_cases:
  "PB_HTYPE t = PB_HTYPE_REQUIRED \<or> PB_HTYPE t = PB_HTYPE_OPTIONAL \<or> PB_HTYPE t = PB_HTYPE_REPEATED \<or>
   PB_HTYPE t = PB_HTYPE_ONEOF"
proof -
  have "(0x30 :: int) = push_bit 4 (mask 2)" "(0x10 :: int) = push_bit 4 1" "(0x20 :: int) = push_bit 5 1"
    by (simp_all add: mask_eq_exp_minus_1)
  then have b: "bit (0x30 :: int) n \<longleftrightarrow> n = 4 \<or> n = 5" "bit (0x10 :: int) n \<longleftrightarrow> n = 4"
    "bit (0x20 :: int) n \<longleftrightarrow> n = 5" for n
    by (simp_all only: bit_push_bit_iff bit_mask_iff bit_1_iff) auto
  have "t AND 0x30 = (if bit t 4 then 0x10 else 0) OR (if bit t 5 then 0x20 else 0)"
    by (rule bit_word_eqI) (auto simp: bit_simps b)
  then show ?thesis by (cases "bit t 4"; cases "bit t 5") (simp_all add: PB_HTYPE_def pb_types)
qed

lemma implements_present:
  assumes "\<And>fs src. implements (sub fs src) (subs fs src)"
  shows "implements (encode_present env sub field p pr) (present_spec env subs field p pr)"
proof -
  note vals = implements_value [of sub subs, OF assms]
  have tv: "implements (and_also (pb_encode_tag_for_field field) (PB_ENCODERS env sub (PB_LTYPE (ftype field)) field q))
      (join (tag_spec field) (value_spec env subs field q))" for q
    by (intro implements_then implements_tag_for_field vals)
  have oneof: "implements (if PB_HTYPE (ftype field) = PB_HTYPE_ONEOF
        then (case pr of
              In_Message q \<Rightarrow> if load32 (memory env) q = tag field
                then and_also (pb_encode_tag_for_field field) (PB_ENCODERS env sub (PB_LTYPE (ftype field)) field p)
                else succeed
            | Implicit_Has b \<Rightarrow> undefined_behaviour)
        else return_error ''invalid field type'')
      (case pr of
         In_Message q \<Rightarrow> if load32 (memory env) q = tag field
           then join (tag_spec field) (value_spec env subs field p) else Encodes []
       | Implicit_Has b \<Rightarrow> Unspecified)"
    if "PB_HTYPE (ftype field) = PB_HTYPE_ONEOF"
    unfolding if_P [OF that] by (cases pr) (auto intro: tv implements_succeed)
  show ?thesis
    unfolding encode_present_def present_spec_def Let_def
    by (intro implements_cond implements_error tv implements_succeed implements_array vals oneof)
      (use pb_htype_cases [of "ftype field"] in blast)
qed

lemma implements_basic:
  assumes "\<And>fs src. implements (sub fs src) (subs fs src)"
  shows "implements (encode_basic_field k env sub field p) (basic_spec k env subs field p)"
proof -
  note present = implements_present [of sub subs, OF assms]
  consider "size_offset field \<noteq> 0"
    | "size_offset field = 0" "PB_HTYPE (ftype field) = PB_HTYPE_OPTIONAL" "pb_check_proto3_default_value k env field p = None"
    | d where "size_offset field = 0" "PB_HTYPE (ftype field) = PB_HTYPE_OPTIONAL" "pb_check_proto3_default_value k env field p = Some d"
    | "size_offset field = 0" "PB_HTYPE (ftype field) \<noteq> PB_HTYPE_OPTIONAL" by blast
  then show ?thesis
    by cases (simp_all add: encode_basic_field_def basic_spec_def present Let_def)
qed

text \<open>
  The clients' functions, as far as the encoder relies on them: a callback writes the same bytes
  to every stream, or refuses on every stream.
\<close>

definition callbacks_ok ::
  "'s pb_env \<Rightarrow> (addr \<Rightarrow> pb_field_t \<Rightarrow> addr \<Rightarrow> outcome) \<Rightarrow> (addr \<Rightarrow> addr \<Rightarrow> outcome) \<Rightarrow> bool" where
  "callbacks_ok env cb ext_cb \<longleftrightarrow>
     (\<forall>f field p. implements (run (field_callback env f field p)) (cb f field p)) \<and>
     (\<forall>f ext. implements (run (extension_callback env f ext)) (ext_cb f ext))"

lemma implements_callback:
  assumes "callbacks_ok env cb ext_cb"
  shows "implements (encode_callback_field env field p)
    (let f = load64 (memory env) p in if f \<noteq> 0 then cb f field (p + 8) else Encodes [])"
proof -
  let ?f = "load64 (memory env) p"
  have c: "implements (run (field_callback env ?f field (p + 8))) (cb ?f field (p + 8))"
    using assms by (simp add: callbacks_ok_def)
  have "implements (\<lambda>s. case field_callback env ?f field (p + 8) s of
      (False, s1) \<Rightarrow> return_error ''callback error'' s1 | (True, s1) \<Rightarrow> Some (True, s1)) (cb ?f field (p + 8))"
    using c by (fastforce simp: implements_def run_def return_error_def split: outcome.splits)
  then show ?thesis by (simp add: encode_callback_field_def Let_def implements_succeed)
qed

lemma implements_field:
  assumes "callbacks_ok env cb ext_cb" and "\<And>fs src. implements (sub fs src) (subs fs src)"
  shows "implements (encode_field k env sub field p) (field_spec k env cb subs field p)"
  unfolding encode_field_def field_spec_def
  by (intro implements_cond implements_error implements_basic implements_callback [OF assms(1)] assms(2))

lemma implements_extensions:
  assumes "callbacks_ok env cb ext_cb" and "\<And>fs src. implements (sub fs src) (subs fs src)"
  shows "implements (extension_list n k env sub ext) (extensions_spec n k env cb ext_cb subs ext)"
proof (induction n arbitrary: ext)
  case 0
  then show ?case by (simp add: extension_list.simps [of 0] implements_succeed)
next
  case (Suc n)
  have f: "implements (run (extension_callback env f ext)) (ext_cb f ext)" for f
    using assms(1) by (simp add: callbacks_ok_def)
  have d: "implements (default_extension_encoder k env sub ext)
      (let field = field_at (desc env (load64 (memory env) (load64 (memory env) ext + 16))) 0 in
       field_spec k env cb subs field
        (if PB_ATYPE (ftype field) = PB_ATYPE_POINTER then ext + 8 else load64 (memory env) (ext + 8)))"
    using implements_field [OF assms] by (simp add: default_extension_encoder_def Let_def)
  show ?case
    unfolding extension_list.simps [of "Suc n"] extensions_spec.simps Let_def nat.case
    by (intro implements_cond implements_succeed implements_then f Suc.IH d [unfolded Let_def])
qed

lemma implements_fields:
  assumes "\<And>field p. implements (enc field p) (spec field p)" and "i < num_fields fs"
  shows "implements (encode_fields enc (iter_at fs src i))
    (joined (map (\<lambda>i. spec (field_at fs i) (pData (iter_at fs src i))) [i..<num_fields fs]))"
  using assms(2)
proof (induction "num_fields fs - i" arbitrary: i)
  case (Suc d)
  have pos: "pos (iter_at fs src i) = i" using Suc.prems by (simp add: iter_at_pos)
  have "implements (case pb_field_iter_next (iter_at fs src i) of
        (True, iter1) \<Rightarrow> encode_fields enc iter1 | (False, iter1) \<Rightarrow> succeed)
      (joined (map (\<lambda>i. spec (field_at fs i) (pData (iter_at fs src i))) [Suc i..<num_fields fs]))"
    using Suc by (simp add: next_at implements_succeed)
  from implements_then [OF assms(1) this] Suc.prems show ?case
    by (subst encode_fields.simps) (simp add: upt_conv_Cons [of i] pos)
qed simp

lemma implements_message:
  assumes "callbacks_ok env cb ext_cb"
  shows "implements (pb_encode k env fs src) (message_spec k env cb ext_cb fs src)"
proof (induction k arbitrary: fs src)
  case 0
  then show ?case by simp
next
  case (Suc k)
  have any: "implements (encode_any_field k env (pb_encode k env) field p)
      (if PB_LTYPE (ftype field) = PB_LTYPE_EXTENSION
       then extensions_spec k k env cb ext_cb (message_spec k env cb ext_cb) (load64 (memory env) p)
       else field_spec k env cb (message_spec k env cb ext_cb) field p)" for field p
    unfolding encode_any_field_def encode_extension_field_def
    by (intro implements_cond implements_extensions [OF assms] implements_field [OF assms] Suc.IH)
  show ?case
  proof (cases "num_fields fs")
    case 0
    then show ?thesis by (simp add: begin_result implements_succeed)
  next
    case (Suc n)
    then show ?thesis
      using implements_fields [where enc = "encode_any_field k env (pb_encode k env)" and fs = fs and src = src
        and i = 0, OF any] by (simp add: begin_result Let_def)
  qed
qed

end

section \<open>Properties\<close>

text \<open>
  The memory writer keeps the contract (\<open>mem_out\<close>); so does a client's callback that appends to
  a log, with which the properties are applied below.
\<close>

definition log_write :: "byte list \<Rightarrow> byte list \<Rightarrow> bool \<times> byte list" where
  "log_write stored data = (True, stored @ data)"

definition log_ok :: "byte list sink \<Rightarrow> bool" where
  "log_ok sk \<longleftrightarrow> (\<exists>stored. sk = OUser log_write stored)"

fun log_written :: "byte list sink \<Rightarrow> byte list" where
  "log_written (OUser f stored) = stored"
| "log_written sk = []"

interpretation log_out: ostream_contract log_ok log_written
  by unfold_locales (auto simp: log_ok_def log_write_def)

text \<open>
  C5 (refinement). For a message that the specification encodes, \<^verbatim>\<open>pb_get_encoded_size\<close>
  returns the length of its encoding, and \<^verbatim>\<open>pb_encode\<close> into a stream whose sink keeps the output
  contract (the memory writer or a client's callback) and whose counters may have started
  delivers exactly the encoding and counts it when it fits the rest of the budget, and fails
  when it does not: the sizing passes, the length prefixes and the substreams of nested messages
  agree at every level. Budgets are below 2^63. Field callbacks and extensions are the client's;
  they are assumed to write the same bytes to every such stream.
\<close>

theorem pb_encode_exact:
  assumes "ostream_contract ok written" and "ostream_contract.callbacks_ok ok written env cb ext_cb"
    and "message_spec k env cb ext_cb fs src = Encodes bs"
    and "ok (sink s)" and "bytes_written s \<le> max_size s" and "unat (max_size s) < 2 ^ 63"
  shows "pb_get_encoded_size k env fs src = Some (Some (of_nat (length bs))) \<and>
    (if room s (length bs)
     then \<exists>s'. pb_encode k env fs src s = Some (True, s') \<and> ok (sink s') \<and>
       written (sink s') = written (sink s) @ bs \<and> max_size s' = max_size s \<and>
       bytes_written s' = bytes_written s + of_nat (length bs)
     else \<exists>s'. pb_encode k env fs src s = Some (False, s'))"
proof
  have "ostream_contract.implements ok written (pb_encode k env fs src) (Encodes bs)"
    using ostream_contract.implements_message [OF assms(1,2)] assms(3) by metis
  note enc = ostream_contract.implements_encodesD [OF assms(1) this]
  show "pb_get_encoded_size k env fs src = Some (Some (of_nat (length bs)))"
    using enc(1) [of pb_ostream_sizing] by (simp add: pb_get_encoded_size_def pb_ostream_sizing_def)
  have w: "ostream_contract.writable ok s"
    using assms(4-6) by (simp add: ostream_contract.writable_def [OF assms(1)])
  show "if room s (length bs)
     then \<exists>s'. pb_encode k env fs src s = Some (True, s') \<and> ok (sink s') \<and>
       written (sink s') = written (sink s) @ bs \<and> max_size s' = max_size s \<and>
       bytes_written s' = bytes_written s + of_nat (length bs)
     else \<exists>s'. pb_encode k env fs src s = Some (False, s')"
    using enc(2,3) [OF w] by (auto simp: ostream_contract.delivers_def [OF assms(1)])
qed

text \<open>A message with a number and a submessage that holds another number.\<close>

definition example_fields :: "pb_field_t list" where
  "example_fields =
     [\<lparr>tag = 1, ftype = 0x01, data_offset = 0, size_offset = 0, data_size = 4, array_size = 0, ptr = 0\<rparr>,
      \<lparr>tag = 2, ftype = 0x08, data_offset = 0, size_offset = 0, data_size = 4, array_size = 0, ptr = 0x500\<rparr>]"

definition example_env :: "u32 \<Rightarrow> byte list pb_env" where
  "example_env sz =
     \<lparr>memory = (\<lambda>a. if a = 0x1000 then 150 else if a = 0x1004 then 7 else 0),
      desc = (\<lambda>a. if a = 0x500
        then [\<lparr>tag = 1, ftype = 0x01, data_offset = 0, size_offset = 0, data_size = sz, array_size = 0, ptr = 0\<rparr>]
        else []),
      field_callback = (\<lambda>f field p s. (False, s)), extension_callback = (\<lambda>f ext s. (False, s))\<rparr>"

lemma example_callbacks: "log_out.callbacks_ok (example_env sz) (\<lambda>_ _ _. Refused) (\<lambda>_ _. Refused)"
  by (simp add: log_out.callbacks_ok_def log_out.implements_def example_env_def run_def)

text \<open>A stream that has logged one byte of a budget of \<open>n\<close>.\<close>

definition example_stream :: "size_t \<Rightarrow> byte list pb_ostream_t" where
  "example_stream n = \<lparr>sink = OUser log_write [9], max_size = n, bytes_written = 1, oerrmsg = None\<rparr>"

theorem pb_encode_exact_witness:
  "(\<exists>s. pb_encode 3 (example_env 4) example_fields 0x1000 (example_stream 8) = Some (True, s) \<and>
      log_written (sink s) = [9, 8, 150, 1, 18, 2, 8, 7] \<and> bytes_written s = 8) \<and>
   (\<exists>s. pb_encode 3 (example_env 4) example_fields 0x1000 (example_stream 7) = Some (False, s))"
proof -
  have "message_spec 3 (example_env 4) (\<lambda>_ _ _. Refused) (\<lambda>_ _. Refused) example_fields 0x1000 =
      Encodes [8, 150, 1, 18, 2, 8, 7]"
    by code_simp
  note exact = pb_encode_exact [OF log_out.ostream_contract_axioms example_callbacks this]
  have s: "log_ok (sink (example_stream n))" "bytes_written (example_stream n) = 1" "max_size (example_stream n) = n"
      "log_written (sink (example_stream n)) = [9]" for n
    by (simp_all add: example_stream_def log_ok_def)
  from exact [of "example_stream 8"] exact [of "example_stream 7"] show ?thesis by (auto simp: s room_def)
qed

text \<open>
  C6 (error). For a message that the specification refuses (an array count above its maximum, a
  byte array above its size, a missing required pointer, an invalid descriptor, at any depth),
  \<^verbatim>\<open>pb_get_encoded_size\<close> returns false, and so does \<^verbatim>\<open>pb_encode\<close> into every stream whose
  sink keeps the output contract, whatever the state of its counters within a budget below 2^63.
\<close>

theorem pb_encode_refuses:
  assumes "ostream_contract ok written" and "ostream_contract.callbacks_ok ok written env cb ext_cb"
    and "message_spec k env cb ext_cb fs src = Refused"
    and "ok (sink s)" and "bytes_written s \<le> max_size s" and "unat (max_size s) < 2 ^ 63"
  shows "pb_get_encoded_size k env fs src = Some None \<and> (\<exists>s'. pb_encode k env fs src s = Some (False, s'))"
proof -
  have "ostream_contract.implements ok written (pb_encode k env fs src) Refused"
    using ostream_contract.implements_message [OF assms(1,2)] assms(3) by metis
  then have f: "\<not> has_callback (sink s) \<or> ostream_contract.writable ok s \<Longrightarrow> \<exists>s'. pb_encode k env fs src s = Some (False, s')" for s
    by (simp add: ostream_contract.implements_def [OF assms(1)])
  have "\<not> has_callback (sink (pb_ostream_sizing))" by (simp add: pb_ostream_sizing_def)
  then obtain s1 where "pb_encode k env fs src pb_ostream_sizing = Some (False, s1)" using f by blast
  moreover have "ostream_contract.writable ok s"
    using assms(4-6) by (simp add: ostream_contract.writable_def [OF assms(1)])
  then obtain s2 where "pb_encode k env fs src s = Some (False, s2)" using f by blast
  ultimately show ?thesis by (simp add: pb_get_encoded_size_def)
qed

theorem pb_encode_refuses_witness:
  "pb_get_encoded_size 3 (example_env 3) example_fields 0x1000 = Some None \<and>
   (\<exists>s. pb_encode 3 (example_env 3) example_fields 0x1000 (example_stream 100) = Some (False, s))"
proof -
  have m: "message_spec 3 (example_env 3) (\<lambda>_ _ _. Refused) (\<lambda>_ _. Refused) example_fields 0x1000 = Refused"
    by code_simp
  have "log_ok (sink (example_stream 100))" "bytes_written (example_stream 100) \<le> max_size (example_stream 100)"
      "unat (max_size (example_stream 100)) < 2 ^ 63"
    by (simp_all add: example_stream_def log_ok_def)
  from pb_encode_refuses [OF log_out.ostream_contract_axioms example_callbacks m this] show ?thesis .
qed

end
