(* ===== verification/Pb_Encode_Bound.thy ===== *)
theory Pb_Encode_Bound
  imports Pb_Encode
begin

text \<open>
  The bound on nested messages and extensions that the model of the encoder carries decides
  nothing: a result reached under one bound is the result under every larger one.
\<close>

section \<open>The recursion bound\<close>

text \<open>A smaller bound gives the same result or none: the bound decides nothing.\<close>

definition extends :: "'s enc \<Rightarrow> 's enc \<Rightarrow> bool" where
  "extends e e' \<longleftrightarrow> (\<forall>s r. e s = Some r \<longrightarrow> e' s = Some r)"

named_theorems extend_intros \<open>monotonicity of the encoder's building blocks\<close>

lemma extends_refl [extend_intros]: "extends e e"
  by (simp add: extends_def)

lemma extends_undefined [extend_intros]: "extends undefined_behaviour e"
  by (simp add: extends_def undefined_behaviour_def)

lemma extends_then [extend_intros]:
  "extends e1 e1' \<Longrightarrow> extends e2 e2' \<Longrightarrow> extends (and_also e1 e2) (and_also e1' e2')"
  unfolding extends_def and_also_def by (fastforce split: option.splits if_splits prod.splits)

lemma extends_if [extend_intros]:
  "(c \<Longrightarrow> extends a a') \<Longrightarrow> (\<not> c \<Longrightarrow> extends b b') \<Longrightarrow> extends (if c then a else b) (if c then a' else b')"
  by simp

lemma extends_items [extend_intros]:
  "(\<And>q. extends (item q) (item' q)) \<Longrightarrow> extends (encode_items item step n p) (encode_items item' step n p)"
  by (induction n arbitrary: p) (simp_all add: extend_intros)

lemma extends_submessage:
  assumes "\<And>fs src. extends (sub fs src) (sub' fs src)"
  shows "extends (pb_encode_submessage sub fs src) (pb_encode_submessage sub' fs src)"
proof -
  have sub: "sub fs src s = Some r \<Longrightarrow> sub' fs src s = Some r" for s r
    using assms unfolding extends_def by blast
  show ?thesis
    unfolding extends_def pb_encode_submessage_def
    by (auto simp: Let_def sub split: option.splits prod.splits bool.splits if_splits dest!: sub)
qed

lemma extends_value:
  assumes "\<And>fs src. extends (sub fs src) (sub' fs src)"
  shows "extends (PB_ENCODERS env sub lt field p) (PB_ENCODERS env sub' lt field p)"
proof -
  have "extends (pb_enc_submessage env sub field p) (pb_enc_submessage env sub' field p)"
    unfolding pb_enc_submessage_def by (intro extend_intros extends_submessage assms)
  then show ?thesis by (simp add: PB_ENCODERS_def extends_refl)
qed

lemma extends_array:
  assumes "\<And>q. extends (func field q) (func' field q)"
  shows "extends (encode_array env field p count func) (encode_array env field p count func')"
proof -
  have items: "extends (encode_items (func field) step n q) (encode_items (func' field) step n q)" for step n q
    by (intro extend_intros assms)
  have sz: "packed_size (func' field) field count p = Some r"
    if "packed_size (func field) field count p = Some r" for r
    using that items [of "ucast (data_size field)" "unat count" p]
    by (auto simp: packed_size_def extends_def split: if_splits option.splits)
  have counted: "extends (\<lambda>s1. if \<not> has_callback (sink s1) then Some (pb_write [] w s1)
        else encode_items (func field) (ucast (data_size field)) (unat count) p s1)
      (\<lambda>s1. if \<not> has_callback (sink s1) then Some (pb_write [] w s1)
        else encode_items (func' field) (ucast (data_size field)) (unat count) p s1)" for w
    using items by (auto simp: extends_def)
  have "extends (\<lambda>s. case packed_size (func field) field count p of None \<Rightarrow> None
      | Some (False, _) \<Rightarrow> Some (False, s)
      | Some (True, sz) \<Rightarrow> and_also (run (pb_encode_varint sz))
          (\<lambda>s1. if \<not> has_callback (sink s1) then Some (pb_write [] sz s1)
            else encode_items (func field) (ucast (data_size field)) (unat count) p s1) s)
      (\<lambda>s. case packed_size (func' field) field count p of None \<Rightarrow> None
      | Some (False, _) \<Rightarrow> Some (False, s)
      | Some (True, sz) \<Rightarrow> and_also (run (pb_encode_varint sz))
          (\<lambda>s1. if \<not> has_callback (sink s1) then Some (pb_write [] sz s1)
            else encode_items (func' field) (ucast (data_size field)) (unat count) p s1) s)"
    (is "extends ?e ?e'")
  proof (cases "packed_size (func field) field count p")
    case None
    then show ?thesis by (simp add: extends_def)
  next
    case (Some r)
    obtain ok w where r: "r = (ok, w)" by (rule prod.exhaust)
    have "extends (and_also (run (pb_encode_varint w)) (\<lambda>s1. if \<not> has_callback (sink s1) then Some (pb_write [] w s1)
          else encode_items (func field) (ucast (data_size field)) (unat count) p s1))
        (and_also (run (pb_encode_varint w)) (\<lambda>s1. if \<not> has_callback (sink s1) then Some (pb_write [] w s1)
          else encode_items (func' field) (ucast (data_size field)) (unat count) p s1))"
      by (intro extends_then extends_refl counted)
    then show ?thesis using Some sz [OF Some] by (cases ok) (simp_all add: r extends_def)
  qed
  then show ?thesis
    unfolding encode_array_def by (intro extend_intros assms)
qed

lemma extends_present:
  assumes "\<And>fs src. extends (sub fs src) (sub' fs src)"
  shows "extends (encode_present env sub field p pr) (encode_present env sub' field p pr)"
proof -
  have "extends (case pr of In_Message q \<Rightarrow> if load32 (memory env) q = tag field
        then and_also (pb_encode_tag_for_field field) (PB_ENCODERS env sub (PB_LTYPE (ftype field)) field p) else succeed
        | Implicit_Has b \<Rightarrow> undefined_behaviour)
      (case pr of In_Message q \<Rightarrow> if load32 (memory env) q = tag field
        then and_also (pb_encode_tag_for_field field) (PB_ENCODERS env sub' (PB_LTYPE (ftype field)) field p) else succeed
        | Implicit_Has b \<Rightarrow> undefined_behaviour)"
    by (cases pr) (simp_all add: extend_intros extends_value [OF assms])
  then show ?thesis
    unfolding encode_present_def Let_def by (intro extend_intros extends_value extends_array assms)
qed

lemma all_fields_mono:
  assumes "\<And>field p d. chk field p = Some d \<Longrightarrow> chk' field p = Some d"
  shows "all_fields chk iter = Some d \<Longrightarrow> all_fields chk' iter = Some d"
  using assms
proof (induction chk iter rule: all_fields.induct)
  case (1 chk iter)
  obtain more iter1 where n: "pb_field_iter_next iter = (more, iter1)" by (rule prod.exhaust)
  from "1.prems"(1) obtain b where b: "chk (cur iter) (pData iter) = Some b"
    by (subst (asm) all_fields.simps) (auto split: option.splits)
  show ?case
  proof (cases "b \<and> more")
    case True
    then have "all_fields chk iter1 = Some d"
      using "1.prems"(1) b n by (subst (asm) all_fields.simps) simp
    then have "all_fields chk' iter1 = Some d"
      using "1.IH" [OF b] True n "1.prems"(2) by simp
    then show ?thesis using b n True "1.prems"(2) by (subst all_fields.simps) simp
  next
    case False
    then show ?thesis using "1.prems"(1) b n "1.prems"(2) [OF b]
      by (subst all_fields.simps, subst (asm) all_fields.simps) (auto split: bool.splits)
  qed
qed

lemma default_mono:
  "pb_check_proto3_default_value k env field p = Some d \<Longrightarrow> k \<le> k' \<Longrightarrow>
    pb_check_proto3_default_value k' env field p = Some d"
proof (induction k arbitrary: k' field p d)
  case (Suc k)
  then obtain j where j: "k' = Suc j" "k \<le> j" by (cases k') auto
  have "all_fields (pb_check_proto3_default_value k env) iter = Some e \<Longrightarrow>
      all_fields (pb_check_proto3_default_value j env) iter = Some e" for iter e
    by (rule all_fields_mono) (rule Suc.IH [OF _ j(2)])
  then show ?case using Suc.prems(1) unfolding j(1)
    by (auto simp: Let_def split: option.splits if_splits prod.splits bool.splits)
qed simp

lemma extends_field:
  assumes "\<And>fs src. extends (sub fs src) (sub' fs src)" and "k \<le> k'"
  shows "extends (encode_field k env sub field p) (encode_field k' env sub' field p)"
proof -
  have "extends (encode_basic_field k env sub field p) (encode_basic_field k' env sub' field p)"
    using default_mono [OF _ assms(2), of env field p] extends_present [of sub sub', OF assms(1)]
    by (cases "pb_check_proto3_default_value k env field p")
      (auto simp: encode_basic_field_def Let_def extends_refl extends_undefined)
  then show ?thesis unfolding encode_field_def by (intro extend_intros)
qed

lemma extends_extensions:
  assumes "\<And>fs src. extends (sub fs src) (sub' fs src)" and "k \<le> k'"
  shows "n \<le> n' \<Longrightarrow> extends (extension_list n k env sub ext) (extension_list n' k' env sub' ext)"
proof (induction n arbitrary: n' ext)
  case 0
  then show ?case
    by (subst (1 2) extension_list.simps) (simp add: extend_intros)
next
  case (Suc n)
  then obtain j where j: "n' = Suc j" "n \<le> j" by (cases n') auto
  have d: "extends (default_extension_encoder k env sub ext) (default_extension_encoder k' env sub' ext)"
    unfolding default_extension_encoder_def Let_def by (intro extend_intros extends_field assms)
  show ?case
    unfolding j(1) extension_list.simps [of "Suc n"] extension_list.simps [of "Suc j"] nat.case Let_def
    by (intro extend_intros d Suc.IH j(2))
qed

lemma extends_fields:
  assumes "\<And>field p. extends (enc field p) (enc' field p)"
  shows "extends (encode_fields enc iter) (encode_fields enc' iter)"
  using assms
proof (induction enc iter rule: encode_fields.induct)
  case (1 enc iter)
  then show ?case
    by (subst encode_fields.simps [of enc], subst encode_fields.simps [of enc'])
      (auto split: prod.splits bool.splits intro!: extend_intros)
qed

lemma pb_encode_mono: "k \<le> k' \<Longrightarrow> extends (pb_encode k env fs src) (pb_encode k' env fs src)"
proof (induction k arbitrary: k' fs src)
  case 0
  then show ?case by (simp add: extends_undefined)
next
  case (Suc k)
  then obtain j where j: "k' = Suc j" "k \<le> j" by (cases k') auto
  have "extends (encode_any_field k env (pb_encode k env) field p) (encode_any_field j env (pb_encode j env) field p)"
    for field p
    unfolding encode_any_field_def encode_extension_field_def
    by (intro extend_intros extends_field extends_extensions Suc.IH j(2))
  from extends_fields [OF this] show ?case
    by (auto simp: j(1) extends_refl split: prod.splits bool.splits)
qed

section \<open>Property\<close>

text \<open>
  Once \<open>pb_encode\<close> returns under some bound on the nesting of messages, it returns the same
  result and leaves the same stream under every larger bound: the bound of the model only says
  how deep the recursion of the C program may go.
\<close>

theorem pb_encode_bound:
  assumes "pb_encode k env fs src s = Some r" and "k \<le> k'"
  shows "pb_encode k' env fs src s = Some r"
  using pb_encode_mono [OF assms(2)] assms(1) unfolding extends_def by blast

end
