(* ===== verification/Pb_Decode.thy ===== *)
theory Pb_Decode
  imports Pb_Fields
begin

unbundle bit_operations_syntax

text \<open>
  The message decoder of nanopb (\<^verbatim>\<open>pb_decode.c\<close> lines 402-1570, with allocation enabled). Its
  state is the input stream and the heap: the bytes of the memory and the blocks that
  \<^verbatim>\<open>pb_realloc\<close> has handed out. Descriptors, the allocator and the client's callbacks are in the
  environment; the local variable \<^verbatim>\<open>fixed_count_size\<close> of the activation of
  \<^verbatim>\<open>pb_decode_noinit\<close> at depth \<open>k\<close> lives at the address \<open>counter_addr env k\<close>.

  A decoder returns the flag of the C function with the stream and the heap, or \<open>None\<close> where the
  C program has no defined behaviour (a null function pointer, freeing or reallocating what is
  not an allocated block), does not return, or nests deeper than the bound \<open>k\<close>. A failed read
  leaves its target unchanged.
\<close>

section \<open>Heap\<close>

record heap =
  bytes :: memory
  blocks :: "addr \<Rightarrow> u64 option"

definition store_bytes :: "memory \<Rightarrow> addr \<Rightarrow> byte list \<Rightarrow> memory" where
  "store_bytes m p bs = (\<lambda>a. if unat (a - p) < length bs then bs ! unat (a - p) else m a)"

definition heap_store :: "addr \<Rightarrow> byte list \<Rightarrow> heap \<Rightarrow> heap" where
  "heap_store p bs h = h\<lparr>bytes := store_bytes (bytes h) p bs\<rparr>"

definition store32 :: "addr \<Rightarrow> u32 \<Rightarrow> heap \<Rightarrow> heap" where
  "store32 p w = heap_store p (fixed32_bytes w)"

definition store64 :: "addr \<Rightarrow> u64 \<Rightarrow> heap \<Rightarrow> heap" where
  "store64 p w = heap_store p (fixed64_bytes w)"

definition store_bool :: "addr \<Rightarrow> bool \<Rightarrow> heap \<Rightarrow> heap" where
  "store_bool p b = heap_store p [if b then 1 else 0]"

definition memset_zero :: "addr \<Rightarrow> nat \<Rightarrow> heap \<Rightarrow> heap" where
  "memset_zero p n = heap_store p (replicate n 0)"

abbreviation get32 :: "heap \<Rightarrow> addr \<Rightarrow> u32" where "get32 h p \<equiv> load32 (bytes h) p"
abbreviation get64 :: "heap \<Rightarrow> addr \<Rightarrow> u64" where "get64 h p \<equiv> load64 (bytes h) p"

section \<open>Environment and sequencing\<close>

type_synonym 's dec = "'s pb_istream_t \<Rightarrow> heap \<Rightarrow> (bool \<times> 's pb_istream_t \<times> heap) option"

record 's dec_env =
  descs :: "addr \<Rightarrow> pb_field_t list"
  realloc_at :: "(addr \<Rightarrow> u64 option) \<Rightarrow> addr \<Rightarrow> u64 \<Rightarrow> addr option"
  counter_addr :: "nat \<Rightarrow> addr"
  decode_callback :: "addr \<Rightarrow> pb_field_t \<Rightarrow> addr \<Rightarrow> 's dec"
  extension_decode :: "addr \<Rightarrow> addr \<Rightarrow> u32 \<Rightarrow> u32 \<Rightarrow> 's dec"

definition done_with :: "bool \<Rightarrow> 's dec" where
  "done_with b s h = Some (b, s, h)"

definition dec_error :: "string \<Rightarrow> 's dec" where
  "dec_error msg s h = Some (False, iset_error msg s, h)"

definition stuck :: "'s dec" where
  "stuck s h = None"

text \<open>\<^verbatim>\<open>if (!d1) return false;\<close> and on to \<open>d2\<close>.\<close>

definition dec_then :: "'s dec \<Rightarrow> 's dec \<Rightarrow> 's dec" where
  "dec_then d1 d2 s h =
     (case d1 s h of
        None \<Rightarrow> None
      | Some (ok, s1, h1) \<Rightarrow> if ok then d2 s1 h1 else Some (False, s1, h1))"

text \<open>Reading a value from the stream; the heap is not touched.\<close>

definition read_then ::
  "('s pb_istream_t \<Rightarrow> 'v option \<times> 's pb_istream_t) \<Rightarrow> ('v \<Rightarrow> 's dec) \<Rightarrow> 's dec" where
  "read_then f d s h =
     (case f s of (None, s1) \<Rightarrow> Some (False, s1, h) | (Some v, s1) \<Rightarrow> d v s1 h)"

definition update_heap :: "(heap \<Rightarrow> heap) \<Rightarrow> 's dec \<Rightarrow> 's dec" where
  "update_heap f d s h = d s (f h)"

definition try_heap :: "(heap \<Rightarrow> heap option) \<Rightarrow> 's dec \<Rightarrow> 's dec" where
  "try_heap f d s h = (case f h of None \<Rightarrow> None | Some h1 \<Rightarrow> d s h1)"

section \<open>Allocation\<close>

definition pb_realloc :: "'s dec_env \<Rightarrow> addr \<Rightarrow> u64 \<Rightarrow> heap \<Rightarrow> (addr \<times> heap) option" where
  "pb_realloc env p n h =
     (if p \<noteq> 0 \<and> blocks h p = None then None
      else case realloc_at env (blocks h) p n of
        None \<Rightarrow> Some (0, h)
      | Some q \<Rightarrow>
          let old = (if p = 0 then 0 else case blocks h p of None \<Rightarrow> 0 | Some m \<Rightarrow> m);
              h1 = heap_store q (load_bytes (bytes h) p (unat (min old n))) h
          in Some (q, h1\<lparr>blocks := (blocks h)(p := None, q := Some n)\<rparr>))"

definition pb_free :: "addr \<Rightarrow> heap \<Rightarrow> heap option" where
  "pb_free p h =
     (if p = 0 then Some h
      else if blocks h p = None then None
      else Some (h\<lparr>blocks := (blocks h)(p := None)\<rparr>))"

definition allocate_field :: "'s dec_env \<Rightarrow> addr \<Rightarrow> u64 \<Rightarrow> u64 \<Rightarrow> 's dec" where
  "allocate_field env p datasize arraysize s h =
     (let check_limit = push_bit 32 1 :: u64; size_max = - 1 :: u64 in
      if datasize = 0 \<or> arraysize = 0 then dec_error ''invalid size'' s h
      else if (datasize \<ge> check_limit \<or> arraysize \<ge> check_limit) \<and> size_max div arraysize < datasize
      then dec_error ''size too large'' s h
      else case pb_realloc env (get64 h p) (arraysize * datasize) h of
        None \<Rightarrow> None
      | Some (q, h1) \<Rightarrow>
          if q = 0 then dec_error ''realloc failed'' s h1
          else Some (True, s, store64 p q h1))"

section \<open>Iterating over fields and extensions\<close>

text \<open>\<open>f\<close> on every field from the iterator's on.\<close>

function each_field ::
  "(pb_field_iter_t \<Rightarrow> heap \<Rightarrow> heap option) \<Rightarrow> pb_field_iter_t \<Rightarrow> heap \<Rightarrow> heap option" where
  "each_field f iter h =
     (case f iter h of
        None \<Rightarrow> None
      | Some h1 \<Rightarrow> (case pb_field_iter_next iter of
            (True, iter1) \<Rightarrow> each_field f iter1 h1 | (False, iter1) \<Rightarrow> Some h1))"
  by pat_completeness auto
termination
  by (relation "measure (\<lambda>(f, iter, h). length (start iter) - pos iter)")
    (auto dest!: next_advances [OF sym])

declare each_field.simps [simp del]

definition iter_from_extension :: "'s dec_env \<Rightarrow> heap \<Rightarrow> addr \<Rightarrow> pb_field_iter_t" where
  "iter_from_extension env h ext =
     (let fs = descs env (get64 h (get64 h ext + 16));
          dest = get64 h (ext + 8);
          iter = snd (pb_field_iter_begin fs dest)
      in iter\<lparr>pData := (if PB_ATYPE (ftype (field_at fs 0)) = PB_ATYPE_POINTER then ext + 8 else dest),
              pSize := ext + 24\<rparr>)"

text \<open>The walk along a list of extensions; \<open>None\<close> also when it does not end.\<close>

partial_function (option) each_extension ::
  "(addr \<Rightarrow> heap \<Rightarrow> heap option) \<Rightarrow> addr \<Rightarrow> heap \<Rightarrow> heap option" where
  "each_extension f ext h =
     (if ext = 0 then Some h
      else case f ext h of
        None \<Rightarrow> None | Some h1 \<Rightarrow> each_extension f (get64 h1 (ext + 16)) h1)"

section \<open>Defaults\<close>

text \<open>The contents of a field of static allocation: a submessage, a default value, or zeros.\<close>

definition set_static_default ::
  "(pb_field_t list \<Rightarrow> addr \<Rightarrow> heap \<Rightarrow> heap option) \<Rightarrow> 's dec_env \<Rightarrow> pb_field_iter_t \<Rightarrow> heap \<Rightarrow> heap option" where
  "set_static_default submsg env iter h =
     (let field = cur iter; ht = PB_HTYPE (ftype field); n = unat (data_size field);
          h1 = (if ht = PB_HTYPE_OPTIONAL \<and> pSize iter \<noteq> pData iter then store_bool (pSize iter) False h
                else if ht = PB_HTYPE_REPEATED \<or> ht = PB_HTYPE_ONEOF then store32 (pSize iter) 0 h
                else h)
      in if \<not> (ht = PB_HTYPE_OPTIONAL \<and> pSize iter \<noteq> pData iter) \<and>
            (ht = PB_HTYPE_REPEATED \<or> ht = PB_HTYPE_ONEOF) then Some h1
         else if PB_LTYPE (ftype field) = PB_LTYPE_SUBMESSAGE
         then submsg (descs env (ptr field)) (pData iter) h1
         else if ptr field \<noteq> 0
         then Some (heap_store (pData iter) (load_bytes (bytes h1) (ptr field) n) h1)
         else Some (memset_zero (pData iter) n h1))"

text \<open>\<open>k\<close> bounds the nesting of submessages and extensions.\<close>

fun pb_field_set_to_default :: "nat \<Rightarrow> 's dec_env \<Rightarrow> pb_field_iter_t \<Rightarrow> heap \<Rightarrow> heap option" where
  "pb_field_set_to_default 0 env iter h = None"
| "pb_field_set_to_default (Suc k) env iter h =
     (let t = ftype (cur iter) in
      if PB_LTYPE t = PB_LTYPE_EXTENSION then
        each_extension
          (\<lambda>ext h. let h1 = store_bool (ext + 24) False h
                   in pb_field_set_to_default k env (iter_from_extension env h1 ext) h1)
          (get64 h (pData iter)) h
      else if PB_ATYPE t = PB_ATYPE_STATIC then
        set_static_default
          (\<lambda>fs dest h. case pb_field_iter_begin fs dest of
             (False, it) \<Rightarrow> Some h
           | (True, it) \<Rightarrow> each_field (pb_field_set_to_default k env) it h) env iter h
      else if PB_ATYPE t = PB_ATYPE_POINTER then
        (let h1 = store64 (pData iter) 0 h
         in Some (if PB_HTYPE t = PB_HTYPE_REPEATED \<or> PB_HTYPE t = PB_HTYPE_ONEOF
                  then store32 (pSize iter) 0 h1 else h1))
      else Some h)"

definition pb_message_set_to_defaults ::
  "nat \<Rightarrow> 's dec_env \<Rightarrow> pb_field_t list \<Rightarrow> addr \<Rightarrow> heap \<Rightarrow> heap option" where
  "pb_message_set_to_defaults k env fs dest h =
     (case pb_field_iter_begin fs dest of
        (False, iter) \<Rightarrow> Some h
      | (True, iter) \<Rightarrow> each_field (pb_field_set_to_default k env) iter h)"

definition initialize_pointer_field ::
  "nat \<Rightarrow> 's dec_env \<Rightarrow> pb_field_t \<Rightarrow> addr \<Rightarrow> heap \<Rightarrow> heap option" where
  "initialize_pointer_field k env field item h =
     (if PB_LTYPE (ftype field) = PB_LTYPE_STRING \<or> PB_LTYPE (ftype field) = PB_LTYPE_BYTES
      then Some (store64 item 0 h)
      else if PB_LTYPE (ftype field) = PB_LTYPE_SUBMESSAGE
      then pb_message_set_to_defaults k env (descs env (ptr field)) item
             (memset_zero item (unat (data_size field)) h)
      else Some h)"

section \<open>Release\<close>

text \<open>\<open>n\<close> items from \<open>p\<close> on, \<open>step\<close> bytes apart.\<close>

fun each_item :: "(addr \<Rightarrow> heap \<Rightarrow> heap option) \<Rightarrow> u64 \<Rightarrow> nat \<Rightarrow> addr \<Rightarrow> heap \<Rightarrow> heap option" where
  "each_item f step 0 p h = Some h"
| "each_item f step (Suc n) p h =
     (case f p h of None \<Rightarrow> None | Some h1 \<Rightarrow> each_item f step n (p + step) h1)"

definition free_entry :: "addr \<Rightarrow> heap \<Rightarrow> heap option" where
  "free_entry p h = (case pb_free (get64 h p) h of None \<Rightarrow> None | Some h1 \<Rightarrow> Some (store64 p 0 h1))"

text \<open>How many submessages a field holds.\<close>

definition release_count :: "pb_field_iter_t \<Rightarrow> heap \<Rightarrow> u32" where
  "release_count iter h =
     (let field = cur iter; t = ftype field in
      if PB_HTYPE t = PB_HTYPE_REPEATED then
        (let count = (if PB_ATYPE t = PB_ATYPE_STATIC \<and> pSize iter = pData iter
                      then array_size field else get32 h (pSize iter))
         in if PB_ATYPE t = PB_ATYPE_STATIC \<and> count > array_size field then array_size field else count)
      else 1)"

text \<open>The last part of \<^verbatim>\<open>pb_release_single_field\<close>: a field of pointer type gives back its memory.\<close>

definition release_pointer :: "pb_field_iter_t \<Rightarrow> heap \<Rightarrow> heap option" where
  "release_pointer iter h =
     (let t = ftype (cur iter) in
      if PB_ATYPE t \<noteq> PB_ATYPE_POINTER then Some h
      else case (if PB_HTYPE t = PB_HTYPE_REPEATED \<and>
                    (PB_LTYPE t = PB_LTYPE_STRING \<or> PB_LTYPE t = PB_LTYPE_BYTES)
                 then each_item free_entry 8 (unat (get32 h (pSize iter))) (get64 h (pData iter)) h
                 else Some h) of
        None \<Rightarrow> None
      | Some h1 \<Rightarrow>
          let h2 = (if PB_HTYPE t = PB_HTYPE_REPEATED then store32 (pSize iter) 0 h1 else h1)
          in free_entry (pData iter) h2)"

fun pb_release_single_field :: "nat \<Rightarrow> 's dec_env \<Rightarrow> pb_field_iter_t \<Rightarrow> heap \<Rightarrow> heap option" where
  "pb_release_single_field 0 env iter h = None"
| "pb_release_single_field (Suc k) env iter h =
     (let field = cur iter; t = ftype field in
      if PB_HTYPE t = PB_HTYPE_ONEOF \<and> get32 h (pSize iter) \<noteq> tag field then Some h
      else case
        (if PB_LTYPE t = PB_LTYPE_EXTENSION then
           each_extension (\<lambda>ext h. pb_release_single_field k env (iter_from_extension env h ext) h)
             (get64 h (pData iter)) h
         else if PB_LTYPE t = PB_LTYPE_SUBMESSAGE \<and> PB_ATYPE t \<noteq> PB_ATYPE_CALLBACK then
           (let item = (if PB_ATYPE t = PB_ATYPE_POINTER then get64 h (pData iter) else pData iter)
            in if item = 0 then Some h
               else each_item
                 (\<lambda>p h. if p = 0 then Some h else case pb_field_iter_begin (descs env (ptr field)) p of
                    (False, it) \<Rightarrow> Some h
                  | (True, it) \<Rightarrow> each_field (pb_release_single_field k env) it h)
                 (ucast (data_size field)) (unat (release_count iter h)) item h)
         else Some h) of
        None \<Rightarrow> None | Some h1 \<Rightarrow> release_pointer iter h1)"

definition pb_release :: "nat \<Rightarrow> 's dec_env \<Rightarrow> pb_field_t list \<Rightarrow> addr \<Rightarrow> heap \<Rightarrow> heap option" where
  "pb_release k env fs dest h =
     (if dest = 0 then Some h
      else case pb_field_iter_begin fs dest of
        (False, iter) \<Rightarrow> Some h
      | (True, iter) \<Rightarrow> each_field (pb_release_single_field k env) iter h)"

text \<open>
  \<^verbatim>\<open>pb_release_union_field\<close>: the old contents of a union are released before another member is
  decoded. The iterator, which the C function moves, is a result.
\<close>

definition pb_release_union_field ::
  "nat \<Rightarrow> 's dec_env \<Rightarrow> pb_field_iter_t \<Rightarrow> 's pb_istream_t \<Rightarrow> heap \<Rightarrow>
   (bool \<times> pb_field_iter_t \<times> 's pb_istream_t \<times> heap) option" where
  "pb_release_union_field k env iter s h =
     (let old_tag = get32 h (pSize iter); new_tag = tag (cur iter) in
      if old_tag = 0 \<or> old_tag = new_tag then Some (True, iter, s, h)
      else case pb_field_iter_find iter old_tag of
        None \<Rightarrow> None
      | Some (False, it) \<Rightarrow> Some (False, it, iset_error ''invalid union tag'' s, h)
      | Some (True, it) \<Rightarrow>
          (case pb_release_single_field k env it h of
             None \<Rightarrow> None
           | Some h1 \<Rightarrow>
               (case pb_field_iter_find it new_tag of
                  None \<Rightarrow> None
                | Some (False, it2) \<Rightarrow> Some (False, it2, iset_error ''iterator error'' s, h1)
                | Some (True, it2) \<Rightarrow>
                    Some (True, it2, s, if PB_ATYPE (ftype (cur it2)) = PB_ATYPE_POINTER
                                        then store64 (pData it2) 0 h1 else h1))))"

section \<open>Substreams\<close>

text \<open>
  \<open>f\<close> gets the parent stream and the substream; \<open>close_substream\<close> ends the use of a substream
  and returns \<open>status\<close>.
\<close>

definition open_substream ::
  "('s pb_istream_t \<Rightarrow> 's pb_istream_t \<Rightarrow> heap \<Rightarrow> (bool \<times> 's pb_istream_t \<times> heap) option) \<Rightarrow> 's dec" where
  "open_substream f s h =
     (case pb_make_string_substream s of
        (None, s1) \<Rightarrow> Some (False, s1, h) | (Some sub, s1) \<Rightarrow> f s1 sub h)"

definition close_substream ::
  "bool \<Rightarrow> 's pb_istream_t \<Rightarrow> 's pb_istream_t \<Rightarrow> heap \<Rightarrow> (bool \<times> 's pb_istream_t \<times> heap) option" where
  "close_substream status s sub h =
     (case pb_close_string_substream s sub of
        (None, s1, _) \<Rightarrow> Some (False, s1, h) | (Some _, s1, _) \<Rightarrow> Some (status, s1, h))"

definition in_substream :: "'s dec \<Rightarrow> 's dec" where
  "in_substream d =
     open_substream (\<lambda>s sub h. case d sub h of
        None \<Rightarrow> None | Some (status, sub1, h1) \<Rightarrow> close_substream status s sub1 h1)"

section \<open>Value decoders\<close>

text \<open>The low \<open>sz\<close> bytes of a value, and what they mean as a signed or unsigned integer.\<close>

definition store_int :: "u32 \<Rightarrow> addr \<Rightarrow> u64 \<Rightarrow> heap \<Rightarrow> heap" where
  "store_int sz p v = heap_store p (take (unat sz) (fixed64_bytes v))"

definition narrow_signed :: "u32 \<Rightarrow> u64 \<Rightarrow> u64 option" where
  "narrow_signed sz v =
     (if sz = 8 then Some v
      else if sz = 4 then Some (scast (ucast v :: u32))
      else if sz = 2 then Some (scast (ucast v :: u16))
      else if sz = 1 then Some (scast (ucast v :: byte))
      else None)"

definition narrow_unsigned :: "u32 \<Rightarrow> u64 \<Rightarrow> u64 option" where
  "narrow_unsigned sz v =
     (if sz = 8 then Some v
      else if sz = 4 then Some (ucast (ucast v :: u32))
      else if sz = 2 then Some (ucast (ucast v :: u16))
      else if sz = 1 then Some (ucast (ucast v :: byte))
      else None)"

text \<open>The value is stored, truncated, before the check that it fits.\<close>

definition store_clamped :: "u64 option \<Rightarrow> pb_field_t \<Rightarrow> addr \<Rightarrow> u64 \<Rightarrow> 's dec" where
  "store_clamped clamped field dest v =
     (case clamped of
        None \<Rightarrow> dec_error ''invalid data_size''
      | Some c \<Rightarrow> update_heap (store_int (data_size field) dest v)
          (if c \<noteq> v then dec_error ''integer too large'' else done_with True))"

definition pb_dec_bool :: "pb_field_t \<Rightarrow> addr \<Rightarrow> 's dec" where
  "pb_dec_bool field dest =
     read_then pb_decode_varint32 (\<lambda>v. update_heap (store_bool dest (v \<noteq> 0)) (done_with True))"

definition pb_dec_varint :: "pb_field_t \<Rightarrow> addr \<Rightarrow> 's dec" where
  "pb_dec_varint field dest =
     read_then pb_decode_varint
       (\<lambda>v. let sv = (if data_size field = 8 then v else scast (ucast v :: u32))
            in store_clamped (narrow_signed (data_size field) sv) field dest sv)"

definition pb_dec_uvarint :: "pb_field_t \<Rightarrow> addr \<Rightarrow> 's dec" where
  "pb_dec_uvarint field dest =
     read_then pb_decode_varint
       (\<lambda>v. store_clamped (narrow_unsigned (data_size field) v) field dest v)"

definition pb_dec_svarint :: "pb_field_t \<Rightarrow> addr \<Rightarrow> 's dec" where
  "pb_dec_svarint field dest =
     read_then pb_decode_svarint
       (\<lambda>v. store_clamped (narrow_signed (data_size field) v) field dest v)"

definition pb_dec_fixed32 :: "pb_field_t \<Rightarrow> addr \<Rightarrow> 's dec" where
  "pb_dec_fixed32 field dest =
     read_then pb_decode_fixed32 (\<lambda>w. update_heap (store32 dest w) (done_with True))"

definition pb_dec_fixed64 :: "pb_field_t \<Rightarrow> addr \<Rightarrow> 's dec" where
  "pb_dec_fixed64 field dest =
     read_then pb_decode_fixed64 (\<lambda>w. update_heap (store64 dest w) (done_with True))"

definition read_into :: "addr \<Rightarrow> u32 \<Rightarrow> 's dec" where
  "read_into p n =
     read_then (pb_read False (unat n)) (\<lambda>bs. update_heap (heap_store p bs) (done_with True))"

text \<open>
  The target of a bytes or string field: a new block for a pointer field, else the field itself
  if \<open>alloc_size\<close> bytes fit.
\<close>

definition with_target ::
  "'s dec_env \<Rightarrow> string \<Rightarrow> pb_field_t \<Rightarrow> addr \<Rightarrow> u32 \<Rightarrow> u64 \<Rightarrow> (addr \<Rightarrow> 's dec) \<Rightarrow> 's dec" where
  "with_target env overflow field dest n alloc_size d =
     (if PB_ATYPE (ftype field) = PB_ATYPE_POINTER then
        (\<lambda>s h. if bytes_left s < unat n then dec_error ''end-of-stream'' s h
               else dec_then (allocate_field env dest alloc_size 1) (\<lambda>s1 h1. d (get64 h1 dest) s1 h1) s h)
      else if alloc_size > ucast (data_size field) then dec_error overflow
      else d dest)"

definition pb_dec_bytes :: "'s dec_env \<Rightarrow> pb_field_t \<Rightarrow> addr \<Rightarrow> 's dec" where
  "pb_dec_bytes env field dest =
     read_then pb_decode_varint32
       (\<lambda>n. if n > PB_SIZE_MAX then dec_error ''bytes overflow''
            else let alloc_size = ucast n + 4 in
              if ucast n > alloc_size then dec_error ''size too large''
              else with_target env ''bytes overflow'' field dest n alloc_size
                (\<lambda>bdest. update_heap (store32 bdest n) (read_into (bdest + 4) n)))"

definition pb_dec_string :: "'s dec_env \<Rightarrow> pb_field_t \<Rightarrow> addr \<Rightarrow> 's dec" where
  "pb_dec_string env field dest =
     read_then pb_decode_varint32
       (\<lambda>n. let alloc_size = ucast (n + 1) in
            if alloc_size < ucast n then dec_error ''size too large''
            else with_target env ''string overflow'' field dest n alloc_size
              (\<lambda>p s h. case read_into p n s h of
                 None \<Rightarrow> None
               | Some (status, s1, h1) \<Rightarrow> Some (status, s1, heap_store (p + ucast n) [0] h1)))"

definition pb_dec_fixed_length_bytes :: "pb_field_t \<Rightarrow> addr \<Rightarrow> 's dec" where
  "pb_dec_fixed_length_bytes field dest =
     read_then pb_decode_varint32
       (\<lambda>n. if n > PB_SIZE_MAX then dec_error ''bytes overflow''
            else if n = 0 then update_heap (memset_zero dest (unat (data_size field))) (done_with True)
            else if n \<noteq> data_size field then dec_error ''incorrect fixed length bytes size''
            else read_into dest (data_size field))"

text \<open>
  Nested messages. \<open>noinit\<close> is \<^verbatim>\<open>pb_decode_noinit\<close> with the next smaller bound; on failure
  \<^verbatim>\<open>pb_decode\<close> releases what the message owns.
\<close>

type_synonym 's message_decoder = "pb_field_t list \<Rightarrow> addr \<Rightarrow> 's dec"

definition decode_initialized ::
  "nat \<Rightarrow> 's dec_env \<Rightarrow> 's message_decoder \<Rightarrow> 's message_decoder" where
  "decode_initialized k env noinit fs dest =
     try_heap (pb_message_set_to_defaults k env fs dest)
       (\<lambda>s h. case noinit fs dest s h of
          None \<Rightarrow> None
        | Some (True, s1, h1) \<Rightarrow> Some (True, s1, h1)
        | Some (False, s1, h1) \<Rightarrow>
            (case pb_release k env fs dest h1 of None \<Rightarrow> None | Some h2 \<Rightarrow> Some (False, s1, h2)))"

definition pb_dec_submessage ::
  "nat \<Rightarrow> 's dec_env \<Rightarrow> 's message_decoder \<Rightarrow> pb_field_t \<Rightarrow> addr \<Rightarrow> 's dec" where
  "pb_dec_submessage k env noinit field dest =
     (if ptr field = 0 then open_substream (\<lambda>s sub h. dec_error ''invalid field descriptor'' s h)
      else in_substream
        ((if PB_HTYPE (ftype field) = PB_HTYPE_REPEATED then decode_initialized k env noinit else noinit)
           (descs env (ptr field)) dest))"

text \<open>The table of decoders; its entry for extensions is a null pointer.\<close>

definition PB_DECODERS ::
  "nat \<Rightarrow> 's dec_env \<Rightarrow> 's message_decoder \<Rightarrow> byte \<Rightarrow> pb_field_t \<Rightarrow> addr \<Rightarrow> 's dec" where
  "PB_DECODERS k env noinit lt =
     (if lt = PB_LTYPE_BOOL then pb_dec_bool
      else if lt = PB_LTYPE_VARINT then pb_dec_varint
      else if lt = PB_LTYPE_UVARINT then pb_dec_uvarint
      else if lt = PB_LTYPE_SVARINT then pb_dec_svarint
      else if lt = PB_LTYPE_FIXED32 then pb_dec_fixed32
      else if lt = PB_LTYPE_FIXED64 then pb_dec_fixed64
      else if lt = PB_LTYPE_BYTES then pb_dec_bytes env
      else if lt = PB_LTYPE_STRING then pb_dec_string env
      else if lt = PB_LTYPE_SUBMESSAGE then pb_dec_submessage k env noinit
      else if lt = PB_LTYPE_FIXED_LENGTH_BYTES then pb_dec_fixed_length_bytes
      else (\<lambda>field dest. stuck))"

section \<open>Fields of static allocation\<close>

text \<open>An item of an array; the offset is computed in 32 bits.\<close>

definition item_addr :: "addr \<Rightarrow> pb_field_t \<Rightarrow> u32 \<Rightarrow> addr" where
  "item_addr p field i = p + ucast (data_size field * i)"

text \<open>The loop over a packed array; \<open>q\<close> is the address of its counter.\<close>

partial_function (option) packed_loop ::
  "(addr \<Rightarrow> 's dec) \<Rightarrow> pb_field_t \<Rightarrow> addr \<Rightarrow> addr \<Rightarrow> 's pb_istream_t \<Rightarrow> heap \<Rightarrow>
   (bool \<times> 's pb_istream_t \<times> heap) option" where
  "packed_loop func field p q sub h =
     (if bytes_left sub > 0 \<and> get32 h q < array_size field then
        (case func (item_addr p field (get32 h q)) sub h of
           None \<Rightarrow> None
         | Some (ok, sub1, h1) \<Rightarrow>
             if ok then packed_loop func field p q sub1 (store32 q (get32 h1 q + 1) h1)
             else Some (False, sub1, h1))
      else Some (True, sub, h))"

definition decode_packed_static :: "(addr \<Rightarrow> 's dec) \<Rightarrow> pb_field_iter_t \<Rightarrow> 's dec" where
  "decode_packed_static func iter =
     open_substream (\<lambda>s sub h.
       case packed_loop func (cur iter) (pData iter) (pSize iter) sub h of
         None \<Rightarrow> None
       | Some (status, sub1, h1) \<Rightarrow>
           if bytes_left sub1 \<noteq> 0 then dec_error ''array overflow'' s h1
           else close_substream status s sub1 h1)"

text \<open>One element of an array; the counter is advanced before the check.\<close>

definition decode_element_static :: "(addr \<Rightarrow> 's dec) \<Rightarrow> pb_field_iter_t \<Rightarrow> 's dec" where
  "decode_element_static func iter s h =
     (let n = get32 h (pSize iter); h1 = store32 (pSize iter) (n + 1) h in
      if n \<ge> array_size (cur iter) then dec_error ''array overflow'' s h1
      else func (item_addr (pData iter) (cur iter) n) s h1)"

definition decode_member_static ::
  "nat \<Rightarrow> 's dec_env \<Rightarrow> (addr \<Rightarrow> 's dec) \<Rightarrow> pb_field_iter_t \<Rightarrow> 's dec" where
  "decode_member_static k env func iter s h =
     (let field = cur iter;
          chosen = update_heap (store32 (pSize iter) (tag field)) (func (pData iter))
      in if PB_LTYPE (ftype field) = PB_LTYPE_SUBMESSAGE \<and> get32 h (pSize iter) \<noteq> tag field
         then update_heap (memset_zero (pData iter) (unat (data_size field)))
                (try_heap (pb_message_set_to_defaults k env (descs env (ptr field)) (pData iter)) chosen) s h
         else chosen s h)"

definition decode_static_field ::
  "nat \<Rightarrow> 's dec_env \<Rightarrow> 's message_decoder \<Rightarrow> u32 \<Rightarrow> pb_field_iter_t \<Rightarrow> 's dec" where
  "decode_static_field k env noinit wire_type iter =
     (let field = cur iter; t = ftype field;
          func = PB_DECODERS k env noinit (PB_LTYPE t) field
      in if PB_HTYPE t = PB_HTYPE_REQUIRED then func (pData iter)
         else if PB_HTYPE t = PB_HTYPE_OPTIONAL then
           (if pSize iter \<noteq> pData iter then update_heap (store_bool (pSize iter) True) (func (pData iter))
            else func (pData iter))
         else if PB_HTYPE t = PB_HTYPE_REPEATED then
           (if wire_type = 2 \<and> PB_LTYPE t \<le> PB_LTYPE_LAST_PACKABLE
            then decode_packed_static func iter else decode_element_static func iter)
         else if PB_HTYPE t = PB_HTYPE_ONEOF then decode_member_static k env func iter
         else dec_error ''invalid field type'')"

section \<open>Fields of pointer type\<close>

definition decode_single_pointer ::
  "nat \<Rightarrow> 's dec_env \<Rightarrow> (addr \<Rightarrow> 's dec) \<Rightarrow> pb_field_iter_t \<Rightarrow> 's dec" where
  "decode_single_pointer k env func iter s h =
     (let field = cur iter; t = ftype field; p = pData iter in
      try_heap
        (if PB_LTYPE t = PB_LTYPE_SUBMESSAGE \<and> get64 h p \<noteq> 0
         then pb_release_single_field k env iter else Some)
        (update_heap (if PB_HTYPE t = PB_HTYPE_ONEOF then store32 (pSize iter) (tag field) else id)
           (if PB_LTYPE t = PB_LTYPE_STRING \<or> PB_LTYPE t = PB_LTYPE_BYTES then func p
            else dec_then (allocate_field env p (ucast (data_size field)) 1)
              (\<lambda>s1 h1. try_heap (initialize_pointer_field k env field (get64 h1 p))
                 (\<lambda>s2 h2. func (get64 h2 p) s2 h2) s1 h1))) s h)"

text \<open>
  The loop over a packed array on the heap: \<open>allocated\<close> entries exist, more are allocated when
  needed, as many as the remaining bytes could fill. The first flag of the result is the
  status, the second says that the counter has reached its maximum.
\<close>

definition grown_size :: "u64 \<Rightarrow> u32 \<Rightarrow> u64 \<Rightarrow> u64" where
  "grown_size left datasize allocated =
     (let remain = (left - 1) div ucast datasize + 1 in
      if remain < ucast PB_SIZE_MAX - allocated then allocated + remain else allocated + 1)"

definition ensure_entry ::
  "'s dec_env \<Rightarrow> pb_field_iter_t \<Rightarrow> u64 \<Rightarrow> 's pb_istream_t \<Rightarrow> heap \<Rightarrow>
   (bool \<times> u64 \<times> 's pb_istream_t \<times> heap) option" where
  "ensure_entry env iter allocated sub h =
     (if ucast (get32 h (pSize iter)) + 1 > allocated then
        (if data_size (cur iter) = 0 then None
         else let allocated1 = grown_size (of_nat (bytes_left sub)) (data_size (cur iter)) allocated in
           case allocate_field env (pData iter) (ucast (data_size (cur iter))) allocated1 sub h of
             None \<Rightarrow> None | Some (ok, sub1, h1) \<Rightarrow> Some (ok, allocated1, sub1, h1))
      else Some (True, allocated, sub, h))"

definition decode_entry ::
  "nat \<Rightarrow> 's dec_env \<Rightarrow> (addr \<Rightarrow> 's dec) \<Rightarrow> pb_field_iter_t \<Rightarrow> 's dec" where
  "decode_entry k env func iter sub h =
     (let item = item_addr (get64 h (pData iter)) (cur iter) (get32 h (pSize iter)) in
      if item = 0 then Some (False, sub, h)
      else try_heap (initialize_pointer_field k env (cur iter) item) (func item) sub h)"

partial_function (option) pointer_loop ::
  "nat \<Rightarrow> 's dec_env \<Rightarrow> (addr \<Rightarrow> 's dec) \<Rightarrow> pb_field_iter_t \<Rightarrow> u64 \<Rightarrow> 's pb_istream_t \<Rightarrow> heap \<Rightarrow>
   (bool \<times> bool \<times> 's pb_istream_t \<times> heap) option" where
  "pointer_loop k env func iter allocated sub h =
     (if bytes_left sub = 0 then Some (True, False, sub, h)
      else if get32 h (pSize iter) = PB_SIZE_MAX then Some (False, True, sub, h)
      else case ensure_entry env iter allocated sub h of
        None \<Rightarrow> None
      | Some (ok1, allocated1, sub1, h1) \<Rightarrow>
          if \<not> ok1 then Some (False, False, sub1, h1)
          else case decode_entry k env func iter sub1 h1 of
            None \<Rightarrow> None
          | Some (ok2, sub2, h2) \<Rightarrow>
              if \<not> ok2 then Some (False, False, sub2, h2)
              else pointer_loop k env func iter allocated1 sub2
                     (store32 (pSize iter) (get32 h2 (pSize iter) + 1) h2))"

definition decode_packed_pointer ::
  "nat \<Rightarrow> 's dec_env \<Rightarrow> (addr \<Rightarrow> 's dec) \<Rightarrow> pb_field_iter_t \<Rightarrow> 's dec" where
  "decode_packed_pointer k env func iter s h =
     (let allocated = ucast (get32 h (pSize iter)) in
      open_substream (\<lambda>s1 sub h.
        case pointer_loop k env func iter allocated sub h of
          None \<Rightarrow> None
        | Some (status, too_many, sub1, h1) \<Rightarrow>
            close_substream status
              (if too_many then s1\<lparr>ierrmsg := Some ''too many array entries''\<rparr> else s1) sub1 h1) s h)"

definition decode_element_pointer ::
  "nat \<Rightarrow> 's dec_env \<Rightarrow> (addr \<Rightarrow> 's dec) \<Rightarrow> pb_field_iter_t \<Rightarrow> 's dec" where
  "decode_element_pointer k env func iter s h =
     (let field = cur iter; n = get32 h (pSize iter) in
      if n = PB_SIZE_MAX then dec_error ''too many array entries'' s h
      else dec_then (allocate_field env (pData iter) (ucast (data_size field)) (ucast (n + 1)))
        (\<lambda>s1 h1.
           let n1 = get32 h1 (pSize iter);
               item = item_addr (get64 h1 (pData iter)) field n1
           in update_heap (store32 (pSize iter) (n1 + 1))
                (try_heap (initialize_pointer_field k env field item) (func item)) s1 h1) s h)"

definition decode_pointer_field ::
  "nat \<Rightarrow> 's dec_env \<Rightarrow> 's message_decoder \<Rightarrow> u32 \<Rightarrow> pb_field_iter_t \<Rightarrow> 's dec" where
  "decode_pointer_field k env noinit wire_type iter =
     (let field = cur iter; t = ftype field; ht = PB_HTYPE t;
          func = PB_DECODERS k env noinit (PB_LTYPE t) field
      in if ht = PB_HTYPE_REQUIRED \<or> ht = PB_HTYPE_OPTIONAL \<or> ht = PB_HTYPE_ONEOF
         then decode_single_pointer k env func iter
         else if ht = PB_HTYPE_REPEATED then
           (if wire_type = 2 \<and> PB_LTYPE t \<le> PB_LTYPE_LAST_PACKABLE
            then decode_packed_pointer k env func iter else decode_element_pointer k env func iter)
         else dec_error ''invalid field type'')"

section \<open>Fields with a callback\<close>

partial_function (option) callback_loop ::
  "'s dec \<Rightarrow> 's pb_istream_t \<Rightarrow> heap \<Rightarrow> (bool \<times> 's pb_istream_t \<times> heap) option" where
  "callback_loop f sub h =
     (case f sub h of
        None \<Rightarrow> None
      | Some (ok, sub1, h1) \<Rightarrow>
          if \<not> ok then Some (False, sub1, h1)
          else if bytes_left sub1 \<noteq> 0 then callback_loop f sub1 h1
          else Some (True, sub1, h1))"

definition decode_callback_field :: "'s dec_env \<Rightarrow> u32 \<Rightarrow> pb_field_iter_t \<Rightarrow> 's dec" where
  "decode_callback_field env wire_type iter s h =
     (let p = pData iter; decode = get64 h p; call = decode_callback env decode (cur iter) (p + 8) in
      if p = 0 \<or> decode = 0 then read_then (pb_skip_field wire_type) (\<lambda>_. done_with True) s h
      else if wire_type = 2 then
        open_substream (\<lambda>s1 sub h.
          case callback_loop call sub h of
            None \<Rightarrow> None
          | Some (False, sub1, h1) \<Rightarrow> dec_error ''callback failed'' s1 h1
          | Some (True, sub1, h1) \<Rightarrow> close_substream True s1 sub1 h1) s h
      else read_then (read_raw_value wire_type 10)
        (\<lambda>buffer s1 h. case call (pb_istream_from_buffer buffer (length buffer)) h of
           None \<Rightarrow> None | Some (status, _, h1) \<Rightarrow> Some (status, s1, h1)) s h)"

section \<open>Any field, and extensions\<close>

text \<open>\<^verbatim>\<open>decode_field\<close>; the iterator, which the release of a union moves, is a result.\<close>

definition decode_allocated ::
  "nat \<Rightarrow> 's dec_env \<Rightarrow> 's message_decoder \<Rightarrow> u32 \<Rightarrow> pb_field_iter_t \<Rightarrow> 's dec" where
  "decode_allocated k env noinit wire_type iter =
     (let at = PB_ATYPE (ftype (cur iter)) in
      if at = PB_ATYPE_STATIC then decode_static_field k env noinit wire_type iter
      else if at = PB_ATYPE_POINTER then decode_pointer_field k env noinit wire_type iter
      else if at = PB_ATYPE_CALLBACK then decode_callback_field env wire_type iter
      else dec_error ''invalid field type'')"

definition decode_field ::
  "nat \<Rightarrow> 's dec_env \<Rightarrow> 's message_decoder \<Rightarrow> u32 \<Rightarrow> pb_field_iter_t \<Rightarrow> 's pb_istream_t \<Rightarrow> heap \<Rightarrow>
   (bool \<times> pb_field_iter_t \<times> 's pb_istream_t \<times> heap) option" where
  "decode_field k env noinit wire_type iter s h =
     (case (if PB_HTYPE (ftype (cur iter)) = PB_HTYPE_ONEOF then pb_release_union_field k env iter s h
            else Some (True, iter, s, h)) of
        None \<Rightarrow> None
      | Some (False, it, s1, h1) \<Rightarrow> Some (False, it, s1, h1)
      | Some (True, it, s1, h1) \<Rightarrow>
          (case decode_allocated k env noinit wire_type it s1 h1 of
             None \<Rightarrow> None | Some (ok, s2, h2) \<Rightarrow> Some (ok, it, s2, h2)))"

text \<open>
  A \<^verbatim>\<open>pb_extension_t\<close> has \<^verbatim>\<open>type\<close> at 0, \<^verbatim>\<open>dest\<close> at 8, \<^verbatim>\<open>next\<close> at 16, \<^verbatim>\<open>found\<close> at 24; its
  \<^verbatim>\<open>pb_extension_type_t\<close> has \<^verbatim>\<open>decode\<close> at 0 and \<^verbatim>\<open>arg\<close> at 16.
\<close>

definition default_extension_decoder ::
  "nat \<Rightarrow> 's dec_env \<Rightarrow> 's message_decoder \<Rightarrow> addr \<Rightarrow> u32 \<Rightarrow> u32 \<Rightarrow> 's dec" where
  "default_extension_decoder k env noinit ext t wire_type s h =
     (if tag (field_at (descs env (get64 h (get64 h ext + 16))) 0) \<noteq> t then Some (True, s, h)
      else let iter = iter_from_extension env h ext in
        case decode_field k env noinit wire_type iter s (store_bool (ext + 24) True h) of
          None \<Rightarrow> None | Some (ok, _, s1, h1) \<Rightarrow> Some (ok, s1, h1))"

text \<open>The walk along the extensions until one has consumed bytes; \<open>left\<close> is what there was.\<close>

partial_function (option) extension_loop ::
  "(addr \<Rightarrow> 's dec) \<Rightarrow> nat \<Rightarrow> addr \<Rightarrow> 's pb_istream_t \<Rightarrow> heap \<Rightarrow>
   (bool \<times> 's pb_istream_t \<times> heap) option" where
  "extension_loop f left ext s h =
     (if ext = 0 \<or> bytes_left s \<noteq> left then Some (True, s, h)
      else case f ext s h of
        None \<Rightarrow> None
      | Some (ok, s1, h1) \<Rightarrow>
          if ok then extension_loop f left (get64 h1 (ext + 16)) s1 h1 else Some (False, s1, h1))"

definition decode_extension ::
  "nat \<Rightarrow> 's dec_env \<Rightarrow> 's message_decoder \<Rightarrow> u32 \<Rightarrow> u32 \<Rightarrow> pb_field_iter_t \<Rightarrow> 's dec" where
  "decode_extension k env noinit t wire_type iter s h =
     extension_loop
       (\<lambda>ext s h. let decode = get64 h (get64 h ext) in
          if decode \<noteq> 0 then extension_decode env decode ext t wire_type s h
          else default_extension_decoder k env noinit ext t wire_type s h)
       (bytes_left s) (get64 h (pData iter)) s h"

definition find_extension_field :: "pb_field_iter_t \<Rightarrow> (bool \<times> pb_field_iter_t) option" where
  "find_extension_field iter =
     find_loop (\<lambda>field. PB_LTYPE (ftype field) = PB_LTYPE_EXTENSION) (pos iter) iter"

section \<open>Messages\<close>

definition PB_MAX_REQUIRED_FIELDS :: u32 where "PB_MAX_REQUIRED_FIELDS = 64"

text \<open>The local variables of \<^verbatim>\<open>pb_decode_noinit\<close>; \<open>fields_seen\<close> has two words.\<close>

record decode_vars =
  d_iter :: pb_field_iter_t
  fields_seen :: "u32 list"
  extension_range_start :: u32
  fixed_count_field :: "nat option"

text \<open>How an iteration of the loop over the fields ends.\<close>

datatype control = Continue | Break | Fail

definition skip_unknown ::
  "u32 \<Rightarrow> decode_vars \<Rightarrow> 's pb_istream_t \<Rightarrow> heap \<Rightarrow>
   (control \<times> decode_vars \<times> 's pb_istream_t \<times> heap) option" where
  "skip_unknown wire_type v s h =
     (case pb_skip_field wire_type s of
        (None, s1) \<Rightarrow> Some (Fail, v, s1, h) | (Some _, s1) \<Rightarrow> Some (Continue, v, s1, h))"

definition decode_unknown ::
  "nat \<Rightarrow> 's dec_env \<Rightarrow> 's message_decoder \<Rightarrow> u32 \<Rightarrow> u32 \<Rightarrow> decode_vars \<Rightarrow> 's pb_istream_t \<Rightarrow> heap \<Rightarrow>
   (control \<times> decode_vars \<times> 's pb_istream_t \<times> heap) option" where
  "decode_unknown k env noinit t wire_type v s h =
     (if t \<ge> extension_range_start v then
        (case find_extension_field (d_iter v) of
           None \<Rightarrow> None
         | Some (found, it) \<Rightarrow>
             let from = (if found then tag (cur it) else - 1);
                 v1 = v\<lparr>d_iter := it, extension_range_start := from\<rparr>
             in if t \<ge> from then
                  (case decode_extension k env noinit t wire_type it s h of
                     None \<Rightarrow> None
                   | Some (False, s1, h1) \<Rightarrow> Some (Fail, v1, s1, h1)
                   | Some (True, s1, h1) \<Rightarrow>
                       if bytes_left s1 \<noteq> bytes_left s then Some (Continue, v1, s1, h1)
                       else skip_unknown wire_type v1 s1 h1)
                else skip_unknown wire_type v1 s h)
      else skip_unknown wire_type v s h)"

text \<open>
  An array of fixed count has no counter in the message; its position is counted in the local
  variable \<^verbatim>\<open>fixed_count_size\<close> at the address \<open>counter\<close>. \<open>None\<close> is the error that the previous
  such array was not complete.
\<close>

definition fixed_count_done :: "addr \<Rightarrow> decode_vars \<Rightarrow> heap \<Rightarrow> bool" where
  "fixed_count_done counter v h \<longleftrightarrow>
     (case fixed_count_field v of
        None \<Rightarrow> True
      | Some i \<Rightarrow> get32 h counter = array_size (field_at (start (d_iter v)) i))"

definition enter_fixed_count :: "addr \<Rightarrow> decode_vars \<Rightarrow> heap \<Rightarrow> (decode_vars \<times> heap) option" where
  "enter_fixed_count counter v h =
     (let it = d_iter v in
      if PB_HTYPE (ftype (cur it)) = PB_HTYPE_REPEATED \<and> pSize it = pData it then
        (if fixed_count_field v \<noteq> Some (pos it) then
           (if \<not> fixed_count_done counter v h then None
            else Some (v\<lparr>d_iter := it\<lparr>pSize := counter\<rparr>, fixed_count_field := Some (pos it)\<rparr>,
                       store32 counter 0 h))
         else Some (v\<lparr>d_iter := it\<lparr>pSize := counter\<rparr>\<rparr>, h))
      else Some (v, h))"

definition mark_seen :: "decode_vars \<Rightarrow> decode_vars" where
  "mark_seen v =
     (let it = d_iter v; idx = required_field_index it; w = unat (drop_bit 5 idx) in
      if PB_HTYPE (ftype (cur it)) = PB_HTYPE_REQUIRED \<and> idx < PB_MAX_REQUIRED_FIELDS
      then v\<lparr>fields_seen := (fields_seen v)[w := fields_seen v ! w OR push_bit (unat (idx AND 31)) 1]\<rparr>
      else v)"

definition decode_known ::
  "nat \<Rightarrow> 's dec_env \<Rightarrow> 's message_decoder \<Rightarrow> addr \<Rightarrow> u32 \<Rightarrow> decode_vars \<Rightarrow> 's pb_istream_t \<Rightarrow> heap \<Rightarrow>
   (control \<times> decode_vars \<times> 's pb_istream_t \<times> heap) option" where
  "decode_known k env noinit counter wire_type v s h =
     (case enter_fixed_count counter v h of
        None \<Rightarrow> Some (Fail, v, iset_error ''wrong size for fixed count field'' s, h)
      | Some (v1, h1) \<Rightarrow>
          let v2 = mark_seen v1 in
          (case decode_field k env noinit wire_type (d_iter v2) s h1 of
             None \<Rightarrow> None
           | Some (ok, it, s1, h2) \<Rightarrow> Some (if ok then Continue else Fail, v2\<lparr>d_iter := it\<rparr>, s1, h2)))"

text \<open>The body of the loop.\<close>

definition decode_next ::
  "nat \<Rightarrow> 's dec_env \<Rightarrow> 's message_decoder \<Rightarrow> addr \<Rightarrow> decode_vars \<Rightarrow> 's pb_istream_t \<Rightarrow> heap \<Rightarrow>
   (control \<times> decode_vars \<times> 's pb_istream_t \<times> heap) option" where
  "decode_next k env noinit counter v s h =
     (case pb_decode_tag s of
        (None, eof, s1) \<Rightarrow> Some (if eof then Break else Fail, v, s1, h)
      | (Some (wire_type, t), eof, s1) \<Rightarrow>
          (case pb_field_iter_find (d_iter v) t of
             None \<Rightarrow> None
           | Some (found, it) \<Rightarrow>
               if found then decode_known k env noinit counter wire_type (v\<lparr>d_iter := it\<rparr>) s1 h
               else decode_unknown k env noinit t wire_type (v\<lparr>d_iter := it\<rparr>) s1 h))"

partial_function (option) fields_loop ::
  "(decode_vars \<Rightarrow> 's pb_istream_t \<Rightarrow> heap \<Rightarrow> (control \<times> decode_vars \<times> 's pb_istream_t \<times> heap) option) \<Rightarrow>
   decode_vars \<Rightarrow> 's pb_istream_t \<Rightarrow> heap \<Rightarrow> (bool \<times> decode_vars \<times> 's pb_istream_t \<times> heap) option" where
  "fields_loop body v s h =
     (if bytes_left s = 0 then Some (True, v, s, h)
      else case body v s h of
        None \<Rightarrow> None
      | Some (c, v1, s1, h1) \<Rightarrow>
          if c = Continue then fields_loop body v1 s1 h1 else Some (c = Break, v1, s1, h1))"

text \<open>
  The loop to the end of the descriptors: the index and type of the last field, and the iterator
  wrapped around.
\<close>

function seek_end :: "pb_field_iter_t \<Rightarrow> u32 \<times> byte \<times> pb_field_iter_t" where
  "seek_end iter =
     (case pb_field_iter_next iter of
        (True, iter1) \<Rightarrow> seek_end iter1
      | (False, iter1) \<Rightarrow> (required_field_index iter, ftype (cur iter), iter1))"
  by pat_completeness auto
termination
  by (relation "measure (\<lambda>iter. length (start iter) - pos iter)") (auto dest!: next_advances [OF sym])

declare seek_end.simps [simp del]

definition required_count :: "pb_field_iter_t \<Rightarrow> u32" where
  "required_count iter =
     (let (idx, last_type, it) = seek_end iter;
          n = (if PB_HTYPE last_type = PB_HTYPE_REQUIRED \<and> tag (cur it) \<noteq> 0 then idx + 1 else idx)
      in if n > PB_MAX_REQUIRED_FIELDS then PB_MAX_REQUIRED_FIELDS else n)"

definition all_seen :: "u32 \<Rightarrow> u32 list \<Rightarrow> bool" where
  "all_seen n seen \<longleftrightarrow>
     list_all (\<lambda>i. seen ! i = - 1) [0..<unat (drop_bit 5 n)] \<and>
     (n AND 31 \<noteq> 0 \<longrightarrow> seen ! unat (drop_bit 5 n) = drop_bit (unat (32 - (n AND 31))) (- 1))"

definition decode_message ::
  "nat \<Rightarrow> 's dec_env \<Rightarrow> 's message_decoder \<Rightarrow> addr \<Rightarrow> 's message_decoder" where
  "decode_message k env noinit counter fs dest s h =
     (let v = \<lparr>d_iter = snd (pb_field_iter_begin fs dest), fields_seen = [0, 0],
               extension_range_start = 0, fixed_count_field = None\<rparr>
      in case fields_loop (decode_next k env noinit counter) v s (store32 counter 0 h) of
           None \<Rightarrow> None
         | Some (False, v1, s1, h1) \<Rightarrow> Some (False, s1, h1)
         | Some (True, v1, s1, h1) \<Rightarrow>
             if \<not> fixed_count_done counter v1 h1
             then dec_error ''wrong size for fixed count field'' s1 h1
             else if required_count (d_iter v1) > 0 \<and> \<not> all_seen (required_count (d_iter v1)) (fields_seen v1)
             then dec_error ''missing required field'' s1 h1
             else Some (True, s1, h1))"

text \<open>
  \<open>k\<close> bounds the depth of nested messages, and with it the recursion over defaults and releases;
  the C program has no such bound.
\<close>

fun pb_decode_noinit :: "nat \<Rightarrow> 's dec_env \<Rightarrow> 's message_decoder" where
  "pb_decode_noinit 0 env fs dest = stuck"
| "pb_decode_noinit (Suc k) env fs dest =
     decode_message k env (pb_decode_noinit k env) (counter_addr env k) fs dest"

definition pb_decode :: "nat \<Rightarrow> 's dec_env \<Rightarrow> 's message_decoder" where
  "pb_decode k env = decode_initialized k env (pb_decode_noinit k env)"

definition pb_decode_delimited_noinit :: "nat \<Rightarrow> 's dec_env \<Rightarrow> 's message_decoder" where
  "pb_decode_delimited_noinit k env fs dest = in_substream (pb_decode_noinit k env fs dest)"

definition pb_decode_delimited :: "nat \<Rightarrow> 's dec_env \<Rightarrow> 's message_decoder" where
  "pb_decode_delimited k env fs dest = in_substream (pb_decode k env fs dest)"

definition pb_decode_nullterminated :: "nat \<Rightarrow> 's dec_env \<Rightarrow> 's message_decoder" where
  "pb_decode_nullterminated k env = pb_decode k env"

definition pb_decode_bool :: "addr \<Rightarrow> 's dec" where
  "pb_decode_bool dest = pb_dec_bool PB_LAST_FIELD dest"

text \<open>The loops as code equations, so that decoding evaluates.\<close>

declare find_loop.simps [code] each_extension.simps [code] packed_loop.simps [code]
  pointer_loop.simps [code] callback_loop.simps [code] extension_loop.simps [code]
  fields_loop.simps [code]

end
