(* ===== verification/Pb_Decode_Frame.thy ===== *)
theory Pb_Decode_Frame
  imports Pb_Decode
begin

unbundle bit_operations_syntax

text \<open>
  What the parts of the message decoder do to the stream and to memory. Every reading step of
  \<^verbatim>\<open>pb_decode.c\<close> keeps the stream's contract and takes bytes when it succeeds (\<open>consumed\<close>). A
  decoder is \<open>confined\<close> to a set of addresses if it returns, changes no byte outside the set,
  allocates and frees nothing, and never adds to the bytes left. The lemmas compose \<open>confined\<close>
  along the sequencing of \<open>Pb_Decode\<close> and prove it for the value decoders.
\<close>

section \<open>Streams\<close>

fun source_ok :: "'s source \<Rightarrow> bool" where
  "source_ok (Buf mem) \<longleftrightarrow> True"
| "source_ok (User f st) \<longleftrightarrow>
     (\<forall>st n. case f st n of (Some data, st') \<Rightarrow> length data \<le> n | (None, st') \<Rightarrow> True)"

text \<open>What a reading step does to the stream, and, if \<open>strict\<close>, that success takes bytes.\<close>

definition consumed :: "bool \<Rightarrow> 's pb_istream_t \<Rightarrow> 'v option \<times> 's pb_istream_t \<Rightarrow> bool" where
  "consumed strict s p \<longleftrightarrow>
     (source_ok (source s) \<longrightarrow>
        source_ok (source (snd p)) \<and> bytes_left (snd p) \<le> bytes_left s \<and>
        (strict \<and> fst p \<noteq> None \<longrightarrow> bytes_left (snd p) < bytes_left s))"

lemma consumedD:
  assumes "consumed strict s (r, s1)" "source_ok (source s)"
  shows "source_ok (source s1)" "bytes_left s1 \<le> bytes_left s"
    "strict \<Longrightarrow> r \<noteq> None \<Longrightarrow> bytes_left s1 < bytes_left s"
  using assms by (simp_all add: consumed_def)

lemma iset_error_static [simp]:
  "bytes_left (iset_error msg s) = bytes_left s" "source (iset_error msg s) = source s"
  by (simp_all add: iset_error_def)

lemma callback_ok:
  assumes "read_callback src n = (r, src1)" and "source_ok src"
  shows "source_ok src1" and "r = Some data \<Longrightarrow> length data \<le> n"
proof -
  have "source_ok src1 \<and> (\<forall>data. r = Some data \<longrightarrow> length data \<le> n)"
  proof (cases src)
    case (User f st)
    obtain r2 st2 where f: "f st n = (r2, st2)" by fastforce
    from assms(2) User have "case f st n of (Some data, st') \<Rightarrow> length data \<le> n | (None, st') \<Rightarrow> True"
      by (simp only: source_ok.simps)
    with assms User f show ?thesis
      by (cases r2) (auto simp del: source_ok.simps simp: User source_ok.simps(2) [of f])
  qed (use assms in auto)
  then show "source_ok src1" "r = Some data \<Longrightarrow> length data \<le> n" by simp_all
qed

lemma consumed_bind:
  assumes f: "consumed a s p" and g: "\<And>v s1. p = (Some v, s1) \<Longrightarrow> consumed b s1 (g v s1)" and "c \<Longrightarrow> a \<or> b"
  shows "consumed c s (case p of (None, s1) \<Rightarrow> (None, s1) | (Some v, s1) \<Rightarrow> g v s1)"
proof -
  obtain v s1 where p: "p = (v, s1)" by fastforce
  show ?thesis
  proof (cases v)
    case None
    with f p show ?thesis by (simp add: consumed_def)
  next
    case (Some x)
    obtain r s2 where 2: "g x s1 = (r, s2)" by fastforce
    from g [of x s1] f p Some 2 assms(3) show ?thesis by (auto simp: consumed_def)
  qed
qed

lemma consumed_simps [simp]:
  "consumed False s (r, s)" "consumed c s (None, s)" "consumed c s (None, iset_error msg s)"
  by (simp_all add: consumed_def)

lemma consumed_weaken: "consumed a s p \<Longrightarrow> (b \<Longrightarrow> a) \<Longrightarrow> consumed b s p"
  by (auto simp: consumed_def)

lemma consumed_if:
  "(b \<Longrightarrow> consumed c s p) \<Longrightarrow> (\<not> b \<Longrightarrow> consumed c s q) \<Longrightarrow> consumed c s (if b then p else q)"
  by simp

lemma consumed_discard: "consumed c s p \<Longrightarrow> consumed c s (discard p)"
  by (auto simp: consumed_def discard_def)

lemma consumed_checked: "consumed (0 < n) s (pb_read_checked n s)"
proof -
  obtain r src where c: "read_callback (source s) n = (r, src)" by fastforce
  then show ?thesis using callback_ok(1) [OF c]
    by (auto simp: pb_read_checked_def consumed_def split: option.splits)
qed

lemma consumed_chunks: "consumed (0 < n) s (pb_skip_chunks n s)"
proof (induction n s rule: pb_skip_chunks.induct)
  case (1 n s)
  show ?case
  proof (cases "n > 16")
    case True
    then show ?thesis
      by (subst pb_skip_chunks.simps) (auto intro!: consumed_bind [OF consumed_checked] 1)
  next
    case False
    then show ?thesis using consumed_checked [of n s] by (subst pb_skip_chunks.simps) simp
  qed
qed

lemma consumed_read: "consumed (0 < n) s (pb_read b n s)"
  using consumed_chunks [of n s] consumed_checked [of n s] by (cases "n = 0") (simp_all add: pb_read_def)

lemma read_length:
  assumes "pb_read False n s = (Some data, s1)" and "source_ok (source s)"
  shows "length data \<le> n"
proof -
  obtain r src where c: "read_callback (source s) n = (r, src)" by fastforce
  from callback_ok(2) [OF c assms(2), of data] assms c show ?thesis
    by (auto simp: pb_read_def pb_read_checked_def split: if_splits option.splits)
qed

lemma consumed_readbyte: "consumed True s (pb_readbyte s)"
proof -
  obtain r src where c: "read_callback (source s) 1 = (r, src)" by fastforce
  show ?thesis
  proof (cases "bytes_left s = 0")
    case False
    with callback_ok(1) [OF c] c show ?thesis
      by (auto simp: pb_readbyte_def consumed_def split: option.splits)
  qed (simp add: pb_readbyte_def)
qed

lemma consumed_varint32_loop: "consumed False s (varint32_loop bitpos result s)"
proof (induction bitpos result s rule: varint32_loop.induct)
  case (1 bitpos result s)
  show ?case
    by (subst varint32_loop.simps, rule consumed_bind [OF consumed_readbyte])
      (auto simp: Let_def intro!: 1)
qed

lemma consumed_varint32_eof:
  assumes "pb_decode_varint32_eof s = (r, eof, s1)" shows "consumed True s (r, s1)"
proof -
  obtain b s2 where b: "pb_readbyte s = (b, s2)" by fastforce
  note B = consumed_readbyte [of s, unfolded b]
  show ?thesis
  proof (cases b)
    case (Some c)
    obtain r3 s3 where 3: "varint32_loop 7 (ucast (c AND 0x7F)) s2 = (r3, s3)" by fastforce
    note L = consumed_varint32_loop [of s2 7 "ucast (c AND 0x7F)", unfolded 3]
    from assms b Some 3 B L show ?thesis
      by (auto simp: pb_decode_varint32_eof_def consumed_def split: if_splits option.splits)
  qed (use assms b B in \<open>auto simp: pb_decode_varint32_eof_def consumed_def\<close>)
qed

lemma consumed_varint32: "consumed True s (pb_decode_varint32 s)"
  using consumed_varint32_eof by (auto simp: pb_decode_varint32_def split: prod.splits)

lemma consumed_varint_loop: "consumed True s (varint_dec_loop bitpos result s)"
proof (induction bitpos result s rule: varint_dec_loop.induct)
  case (1 bitpos result s)
  have "consumed True s (case pb_readbyte s of (None, s1) \<Rightarrow> (None, s1)
      | (Some b, s1) \<Rightarrow> (let result' = result OR push_bit (unat bitpos) (ucast (b AND 0x7F)) in
           if b AND 0x80 \<noteq> 0 then varint_dec_loop (bitpos + 7) result' s1
           else (Some result', s1)))" if "\<not> bitpos \<ge> 64"
    using that by (intro consumed_bind [OF consumed_readbyte, where b = False])
      (auto simp: Let_def intro!: 1 [THEN consumed_weaken])
  then show ?case by (subst varint_dec_loop.simps) simp
qed

lemma consumed_varint: "consumed True s (pb_decode_varint s)"
  by (simp add: pb_decode_varint_def consumed_varint_loop)

lemma consumed_svarint: "consumed True s (pb_decode_svarint s)"
  unfolding pb_decode_svarint_def by (rule consumed_bind [OF consumed_varint, where b = False]) auto

lemma consumed_fixed32: "consumed True s (pb_decode_fixed32 s)"
  unfolding pb_decode_fixed32_def by (rule consumed_bind [OF consumed_read, where b = False]) auto

lemma consumed_fixed64: "consumed True s (pb_decode_fixed64 s)"
  unfolding pb_decode_fixed64_def by (rule consumed_bind [OF consumed_read, where b = False]) auto

lemma consumed_skip_varint: "consumed False s (pb_skip_varint s)"
proof (induction s rule: pb_skip_varint.induct)
  case (1 s)
  show ?case
    by (subst pb_skip_varint.simps, rule consumed_bind [OF consumed_read]) (auto intro!: 1)
qed

lemma consumed_skip_field: "consumed False s (pb_skip_field wire_type s)"
proof -
  have "consumed False s (pb_skip_string s)"
    unfolding pb_skip_string_def
    by (rule consumed_bind [OF consumed_varint32])
      (auto intro!: consumed_discard consumed_weaken [OF consumed_read])
  moreover have "consumed False s (discard (pb_read True n s))" for n
    by (intro consumed_discard consumed_weaken [OF consumed_read]) simp
  ultimately show ?thesis by (auto simp: pb_skip_field_def consumed_skip_varint)
qed

lemma consumed_tag:
  assumes "pb_decode_tag s = (r, eof, s1)" shows "consumed True s (r, s1)"
proof -
  obtain r2 eof2 s2 where 2: "pb_decode_varint32_eof s = (r2, eof2, s2)" by (metis prod_cases3)
  from assms 2 consumed_varint32_eof [OF 2] show ?thesis
    by (auto simp: pb_decode_tag_def consumed_def split: if_splits option.splits)
qed

section \<open>Memory\<close>

definition within :: "addr \<Rightarrow> nat \<Rightarrow> addr \<Rightarrow> bool" where
  "within p n a \<longleftrightarrow> unat (a - p) < n"

text \<open>Only addresses of \<open>W\<close> have changed, and no block was allocated or freed.\<close>

definition only :: "(addr \<Rightarrow> bool) \<Rightarrow> heap \<Rightarrow> heap \<Rightarrow> bool" where
  "only W h h1 \<longleftrightarrow> blocks h1 = blocks h \<and> (\<forall>a. \<not> W a \<longrightarrow> bytes h1 a = bytes h a)"

lemma only_refl [simp]: "only W h h"
  by (simp add: only_def)

lemma only_trans: "only W h h1 \<Longrightarrow> only W h1 h2 \<Longrightarrow> only W h h2"
  by (simp add: only_def)

lemma only_mono: "only W h h1 \<Longrightarrow> (\<And>a. W a \<Longrightarrow> V a) \<Longrightarrow> only V h h1"
  by (auto simp: only_def)

lemma within_sub:
  assumes "within (p + q) m a" and "unat q + m \<le> n"
  shows "within p n a"
proof -
  have "a - p = (a - (p + q)) + q" by simp
  moreover have "unat ((a - (p + q)) + q) \<le> unat (a - (p + q)) + unat q"
    unfolding unat_word_ariths by (rule mod_less_eq_dividend)
  ultimately show ?thesis using assms(1,2) unfolding within_def by simp
qed

lemma only_store:
  assumes "\<And>a. within p (length bs) a \<Longrightarrow> W a"
  shows "only W h (heap_store p bs h)"
  using assms by (auto simp: only_def heap_store_def store_bytes_def within_def)

section \<open>Decoders that stay within a set of addresses\<close>

definition result_ok :: "(addr \<Rightarrow> bool) \<Rightarrow> bool \<Rightarrow> 's pb_istream_t \<Rightarrow> heap \<Rightarrow>
    (bool \<times> 's pb_istream_t \<times> heap) option \<Rightarrow> bool" where
  "result_ok W strict s h r \<longleftrightarrow>
     (source_ok (source s) \<longrightarrow>
        (\<exists>ok s1 h1. r = Some (ok, s1, h1) \<and> source_ok (source s1) \<and> only W h h1 \<and>
           bytes_left s1 \<le> bytes_left s \<and> (strict \<and> ok \<longrightarrow> bytes_left s1 < bytes_left s)))"

definition confined :: "(addr \<Rightarrow> bool) \<Rightarrow> bool \<Rightarrow> 's dec \<Rightarrow> bool" where
  "confined W strict d \<longleftrightarrow> (\<forall>s h. result_ok W strict s h (d s h))"

lemma result_okE:
  assumes "result_ok W strict s h r" and "source_ok (source s)"
  obtains ok s1 h1 where "r = Some (ok, s1, h1)" "source_ok (source s1)" "only W h h1"
    "bytes_left s1 \<le> bytes_left s" "strict \<Longrightarrow> ok \<Longrightarrow> bytes_left s1 < bytes_left s"
  using assms unfolding result_ok_def by blast

lemma result_okI:
  assumes "r = Some (ok, s1, h1)" "source_ok (source s) \<Longrightarrow> source_ok (source s1)" "only W h h1"
    "bytes_left s1 \<le> bytes_left s" "strict \<Longrightarrow> ok \<Longrightarrow> bytes_left s1 < bytes_left s"
  shows "result_ok W strict s h r"
  using assms unfolding result_ok_def by blast

lemma result_ok_trans:
  assumes "result_ok W b s1 h1 r" and "only W h h1" and "bytes_left s1 \<le> bytes_left s"
    and "source_ok (source s) \<Longrightarrow> source_ok (source s1)"
    and "c \<Longrightarrow> b \<or> bytes_left s1 < bytes_left s"
  shows "result_ok W c s h r"
  unfolding result_ok_def
proof
  assume "source_ok (source s)"
  with assms(4) have "source_ok (source s1)" by blast
  from result_okE [OF assms(1) this] obtain ok s2 h2 where
    r: "r = Some (ok, s2, h2)" "source_ok (source s2)" "only W h1 h2" "bytes_left s2 \<le> bytes_left s1"
       "b \<Longrightarrow> ok \<Longrightarrow> bytes_left s2 < bytes_left s1" by metis
  moreover have "only W h h2" using assms(2) r(3) by (rule only_trans)
  ultimately show "\<exists>ok s1 h1. r = Some (ok, s1, h1) \<and> source_ok (source s1) \<and> only W h h1 \<and>
      bytes_left s1 \<le> bytes_left s \<and> (c \<and> ok \<longrightarrow> bytes_left s1 < bytes_left s)"
    using assms(3,5) by fastforce
qed

lemma confinedD: "confined W strict d \<Longrightarrow> result_ok W strict s h (d s h)"
  by (simp add: confined_def)

lemma confined_weaken: "confined W a d \<Longrightarrow> (b \<Longrightarrow> a) \<Longrightarrow> confined W b d"
  unfolding confined_def result_ok_def by blast

lemma confined_mono: "confined W a d \<Longrightarrow> (\<And>a. W a \<Longrightarrow> V a) \<Longrightarrow> confined V a d"
  unfolding confined_def result_ok_def using only_mono [of W _ _ V] by blast

lemma confined_done [simp]: "confined W False (done_with b)"
  by (auto simp: confined_def result_ok_def done_with_def)

lemma confined_error [simp]: "confined W c (dec_error msg)"
  by (auto simp: confined_def result_ok_def dec_error_def)

lemma confined_update:
  assumes "\<And>h. only W h (f h)" and "confined W c d"
  shows "confined W c (update_heap f d)"
  unfolding confined_def update_heap_def
  using assms result_ok_trans [OF confinedD [OF assms(2)]] by blast

lemma confined_try:
  assumes "\<And>h. \<exists>h1. f h = Some h1 \<and> only W h h1" and "confined W c d"
  shows "confined W c (try_heap f d)"
  unfolding confined_def try_heap_def
proof (intro allI)
  fix s h
  obtain h1 where "f h = Some h1" "only W h h1" using assms(1) by blast
  then show "result_ok W c s h (case f h of None \<Rightarrow> None | Some h1 \<Rightarrow> d s h1)"
    using result_ok_trans [OF confinedD [OF assms(2)]] by auto
qed

lemma confined_read:
  assumes "\<And>s. consumed a s (f s)"
    and "\<And>s v s1. f s = (Some v, s1) \<Longrightarrow> source_ok (source s) \<Longrightarrow> confined W b (d v)"
    and "c \<Longrightarrow> a \<or> b"
  shows "confined W c (read_then f d)"
  unfolding confined_def read_then_def
proof (intro allI)
  fix s h
  obtain r s1 where f: "f s = (r, s1)" by fastforce
  note C = assms(1) [of s, unfolded f]
  show "result_ok W c s h (case f s of (None, s1) \<Rightarrow> Some (False, s1, h) | (Some v, s1) \<Rightarrow> d v s1 h)"
  proof (cases r)
    case None
    with f C show ?thesis by (auto simp: result_ok_def consumed_def)
  next
    case (Some v)
    show ?thesis
    proof (cases "source_ok (source s)")
      case True
      then have "result_ok W b s1 h (d v s1 h)" using assms(2) f Some by (blast intro: confinedD)
      from result_ok_trans [OF this, of h s c] consumedD [OF C True] f Some assms(3)
      show ?thesis by auto
    qed (simp add: result_ok_def)
  qed
qed

lemma confined_if:
  "(b \<Longrightarrow> confined W c d1) \<Longrightarrow> (\<not> b \<Longrightarrow> confined W c d2) \<Longrightarrow> confined W c (if b then d1 else d2)"
  by simp

section \<open>Value decoders\<close>

lemma unat_u32_u64: "unat (ucast (n :: u32) :: u64) = unat n"
  using unat_less_32 [of n] by (simp add: unsigned_ucast_eq take_bit_eq_mod)

text \<open>How many bytes a value of static allocation takes.\<close>

definition value_size :: "pb_field_t \<Rightarrow> nat" where
  "value_size field =
     (let lt = PB_LTYPE (ftype field) in
      if lt = PB_LTYPE_BOOL then 1
      else if lt = PB_LTYPE_FIXED32 then 4
      else if lt = PB_LTYPE_FIXED64 then 8
      else unat (data_size field))"

lemma confined_store_clamped:
  assumes "\<And>a. within dest (unat (data_size field)) a \<Longrightarrow> W a"
  shows "confined W False (store_clamped clamped field dest v)"
proof -
  have "only W h (store_int (data_size field) dest v h)" for h
    using assms by (auto simp: store_int_def within_def intro!: only_store)
  then show ?thesis
    by (auto simp: store_clamped_def intro!: confined_update split: option.splits)
qed

declare length_fixed [simp]

lemma confined_read_into:
  assumes "\<And>a. within p (unat n) a \<Longrightarrow> W a"
  shows "confined W False (read_into p n)"
  unfolding read_into_def
proof (rule confined_read [OF consumed_read, where b = False])
  fix s :: "'s pb_istream_t" and bs s1
  assume "pb_read False (unat n) s = (Some bs, s1)" and "source_ok (source s)"
  then have "length bs \<le> unat n" by (rule read_length)
  then show "confined W False (update_heap (heap_store p bs) (done_with True))"
    using assms by (auto simp: within_def intro!: confined_update only_store)
qed simp

text \<open>A field of static allocation at \<open>dest\<close>, where its value may be written.\<close>

definition value_ok :: "(addr \<Rightarrow> bool) \<Rightarrow> pb_field_t \<Rightarrow> addr \<Rightarrow> bool" where
  "value_ok W field dest \<longleftrightarrow>
     PB_ATYPE (ftype field) = PB_ATYPE_STATIC \<and> (\<forall>a. within dest (value_size field) a \<longrightarrow> W a)"

lemma value_okD:
  assumes "value_ok W field dest"
  shows "PB_ATYPE (ftype field) = PB_ATYPE_STATIC" "within dest (value_size field) a \<Longrightarrow> W a"
  using assms by (simp_all add: value_ok_def)

lemma confined_bool:
  assumes "value_ok W field dest" and "PB_LTYPE (ftype field) = PB_LTYPE_BOOL"
  shows "confined W True (pb_dec_bool field dest)"
  unfolding pb_dec_bool_def using assms(2) value_okD(2) [OF assms(1)]
  by (intro confined_read [OF consumed_varint32, where b = False] confined_update)
    (auto simp: store_bool_def value_size_def intro!: only_store)

lemma confined_fixed32:
  assumes "value_ok W field dest" and "PB_LTYPE (ftype field) = PB_LTYPE_FIXED32"
  shows "confined W True (pb_dec_fixed32 field dest)"
  unfolding pb_dec_fixed32_def using assms(2) value_okD(2) [OF assms(1)]
  by (intro confined_read [OF consumed_fixed32, where b = False] confined_update)
    (auto simp: store32_def value_size_def pb_types intro!: only_store)

lemma confined_fixed64:
  assumes "value_ok W field dest" and "PB_LTYPE (ftype field) = PB_LTYPE_FIXED64"
  shows "confined W True (pb_dec_fixed64 field dest)"
  unfolding pb_dec_fixed64_def using assms(2) value_okD(2) [OF assms(1)]
  by (intro confined_read [OF consumed_fixed64, where b = False] confined_update)
    (auto simp: store64_def value_size_def pb_types intro!: only_store)

lemma confined_varints:
  assumes v: "value_ok W field dest" and "PB_LTYPE (ftype field) \<in> {PB_LTYPE_VARINT, PB_LTYPE_UVARINT, PB_LTYPE_SVARINT}"
  shows "confined W True (pb_dec_varint field dest)" "confined W True (pb_dec_uvarint field dest)"
    "confined W True (pb_dec_svarint field dest)"
proof -
  have "confined W False (store_clamped c field dest v)" for c v
    using assms value_okD(2) [OF v] by (intro confined_store_clamped) (auto simp: value_size_def pb_types)
  then show "confined W True (pb_dec_varint field dest)" "confined W True (pb_dec_uvarint field dest)"
    "confined W True (pb_dec_svarint field dest)"
    unfolding pb_dec_varint_def pb_dec_uvarint_def pb_dec_svarint_def Let_def
    by (blast intro: confined_read [OF consumed_varint, where b = False]
        confined_read [OF consumed_svarint, where b = False])+
qed

lemma confined_fixed_length:
  assumes v: "value_ok W field dest" and "PB_LTYPE (ftype field) = PB_LTYPE_FIXED_LENGTH_BYTES"
  shows "confined W True (pb_dec_fixed_length_bytes field dest)"
proof -
  have t: "\<And>a. within dest (unat (data_size field)) a \<Longrightarrow> W a"
    using value_okD(2) [OF v] assms by (simp add: value_size_def pb_types)
  then show ?thesis
    unfolding pb_dec_fixed_length_bytes_def
    by (intro confined_read [OF consumed_varint32, where b = False])
      (auto simp: memset_zero_def intro!: confined_update confined_read_into only_store)
qed

text \<open>The counted forms: the size is compared before anything is stored.\<close>

lemma confined_with_target:
  assumes v: "value_ok W field dest" and "alloc_size \<le> ucast (data_size field) \<Longrightarrow> confined W c (d dest)"
  shows "confined W c (with_target env overflow field dest n alloc_size d)"
  using assms value_okD(1) [OF v] by (auto simp: with_target_def pb_types not_less)

lemma confined_bytes:
  assumes v: "value_ok W field dest" and "PB_LTYPE (ftype field) = PB_LTYPE_BYTES"
  shows "confined W True (pb_dec_bytes env field dest)"
proof -
  have "confined W False (update_heap (store32 dest n) (read_into (dest + 4) n))"
    if "(ucast n :: u64) + 4 \<le> ucast (data_size field)" for n
  proof -
    have "unat ((ucast n :: u64) + 4) = unat n + 4"
      using unat_less_32 [of n] by (simp add: unat_word_ariths unat_u32_u64)
    with that have le: "4 + unat n \<le> value_size field"
      using assms unfolding word_le_nat_alt unat_u32_u64 by (simp add: value_size_def pb_types)
    then have "within dest 4 a \<Longrightarrow> W a" "within (dest + 4) (unat n) a \<Longrightarrow> W a" for a
      using within_sub [of dest 4 "unat n" a "value_size field"] value_okD(2) [OF v] by (auto simp: within_def)
    then show ?thesis
      by (auto simp: store32_def intro!: confined_update confined_read_into only_store)
  qed
  then show ?thesis
    unfolding pb_dec_bytes_def
    by (intro confined_read [OF consumed_varint32, where b = False])
      (auto simp: Let_def intro!: confined_with_target [OF v])
qed

lemma confined_string:
  assumes v: "value_ok W field dest" and "PB_LTYPE (ftype field) = PB_LTYPE_STRING"
  shows "confined W True (pb_dec_string env field dest)"
proof -
  have "confined W False (\<lambda>s h. case read_into dest n s h of None \<Rightarrow> None
      | Some (status, s1, h1) \<Rightarrow> Some (status, s1, heap_store (dest + ucast n) [0] h1))"
    if fits: "ucast (n + 1) \<le> (ucast (data_size field) :: u64)" and wrap: "\<not> ucast (n + 1) < (ucast n :: u64)" for n
    unfolding confined_def
  proof (intro allI)
    fix s :: "'s pb_istream_t" and h
    have "unat n \<le> unat (n + 1)"
      using wrap unfolding word_less_nat_alt unat_u32_u64 by simp
    then have n1: "unat (n + 1) = unat n + 1"
      using unat_less_32 [of n] by (cases "unat n + 1 = 2 ^ 32") (auto simp: unat_word_ariths)
    then have le: "unat n + 1 \<le> value_size field"
      using fits assms unfolding word_le_nat_alt unat_u32_u64 by (simp add: value_size_def pb_types)
    have W: "within dest (unat n) a \<Longrightarrow> W a" "within (dest + ucast n) 1 a \<Longrightarrow> W a" for a
      using within_sub [of dest "ucast n" 1 a "value_size field"] value_okD(2) [OF v] le
      by (auto simp: within_def unat_u32_u64)
    have "result_ok W False s h (read_into dest n s h)"
      by (rule confinedD) (rule confined_read_into, rule W)
    then show "result_ok W False s h (case read_into dest n s h of None \<Rightarrow> None
        | Some (status, s1, h1) \<Rightarrow> Some (status, s1, heap_store (dest + ucast n) [0] h1))"
      using only_trans [OF _ only_store, of W h _ "dest + ucast n" "[0]"] W(2)
      unfolding result_ok_def by fastforce
  qed
  then show ?thesis
    unfolding pb_dec_string_def
    by (intro confined_read [OF consumed_varint32, where b = False])
      (auto simp: Let_def intro!: confined_with_target [OF v])
qed

end
