(* ===== verification/Pb_Decode_Layout.thy ===== *)
theory Pb_Decode_Layout
  imports Pb_Decode_Frame
begin

unbundle bit_operations_syntax

text \<open>
  Message types of static allocation that fit in a structure of a given size, the iterators over
  them, and what \<^verbatim>\<open>pb_message_set_to_defaults\<close> and \<^verbatim>\<open>pb_release\<close> do to such a structure: the
  first writes only to it, the second does nothing.
\<close>

section \<open>Messages of static allocation\<close>

text \<open>The bytes that a field takes in its message.\<close>

definition span :: "pb_field_t \<Rightarrow> nat" where
  "span field =
     (if PB_HTYPE (ftype field) = PB_HTYPE_REPEATED then unat (data_size field) * unat (array_size field)
      else max (value_size field) (unat (data_size field)))"

text \<open>
  A field at the offset \<open>off\<close> of a message of \<open>sz\<close> bytes: its value and its presence flag or
  counter lie in the message. An array has room for its elements, its size fits in 32 bits, and
  without a counter of its own it has at least the four bytes that resetting a counter writes.
\<close>

definition field_fits :: "pb_field_t \<Rightarrow> addr \<Rightarrow> nat \<Rightarrow> bool" where
  "field_fits field off sz \<longleftrightarrow>
     (let ht = PB_HTYPE (ftype field); q = unat (size_addr off field) in
      unat off + span field \<le> sz \<and>
      (ht = PB_HTYPE_OPTIONAL \<and> size_offset field \<noteq> 0 \<longrightarrow> q + 1 \<le> sz) \<and>
      (ht = PB_HTYPE_ONEOF \<or> ht = PB_HTYPE_REPEATED \<and> size_offset field \<noteq> 0 \<longrightarrow> q + 4 \<le> sz) \<and>
      (ht = PB_HTYPE_REPEATED \<longrightarrow> value_size field \<le> unat (data_size field) \<and> int (span field) < 2 ^ 32 \<and>
         (size_offset field = 0 \<longrightarrow> 4 \<le> span field)))"

definition static_type :: "byte \<Rightarrow> bool" where
  "static_type t \<longleftrightarrow>
     PB_ATYPE t = PB_ATYPE_STATIC \<and> PB_LTYPE t \<le> PB_LTYPE_FIXED_LENGTH_BYTES \<and>
     PB_LTYPE t \<noteq> PB_LTYPE_EXTENSION"

text \<open>
  A message type of static allocation and at most \<open>n\<close> levels of nesting, whose fields fit in
  \<open>sz\<close> bytes.
\<close>

fun message_fits :: "nat \<Rightarrow> (addr \<Rightarrow> pb_field_t list) \<Rightarrow> pb_field_t list \<Rightarrow> nat \<Rightarrow> bool" where
  "message_fits 0 ds fs sz = False"
| "message_fits (Suc n) ds fs sz \<longleftrightarrow>
     0 < sz \<and>
     list_all (\<lambda>i. let field = fs ! i in
        tag field \<noteq> 0 \<and> static_type (ftype field) \<and> field_fits field (field_addr fs 0 i) sz \<and>
        (PB_LTYPE (ftype field) = PB_LTYPE_SUBMESSAGE \<longrightarrow>
           ptr field \<noteq> 0 \<and> message_fits n ds (ds (ptr field)) (unat (data_size field))))
       [0..<length fs]"

lemma all_tags:
  assumes "\<And>i. i < length fs \<Longrightarrow> tag (fs ! i) \<noteq> 0"
  shows "num_fields fs = length fs"
proof -
  have "\<forall>f\<in>set fs. tag f \<noteq> 0" using assms by (auto simp: in_set_conv_nth)
  then have "takeWhile (\<lambda>f. tag f \<noteq> 0) fs = fs" by (simp only: takeWhile_eq_all_conv)
  then show ?thesis by (simp only: num_fields_def)
qed

lemma field_addr_shift: "field_addr fs dest i = dest + field_addr fs 0 i"
  by (induction i) simp_all

lemma size_addr_shift: "size_addr (dest + p) field = dest + size_addr p field"
  by (simp add: size_addr_def)

lemma ucast_scast_u32: "(ucast (scast w :: u64) :: u32) = w"
  by (rule bit_word_eqI) (auto simp: bit_simps le_less_Suc_eq)

lemma scast_zero: "scast (w :: u32) = (0 :: u64) \<longleftrightarrow> w = 0"
  by (metis ucast_scast_u32 unsigned_0 signed_0)

lemma size_addr_same: "size_addr p field = p \<longleftrightarrow> size_offset field = 0"
  by (simp add: size_addr_def scast_zero)

text \<open>Where the iterator's second pointer is.\<close>

lemma iter_at_size:
  assumes "dest \<noteq> 0" and "i < num_fields fs"
  shows "pSize (iter_at fs dest i) =
    (case i of 0 \<Rightarrow> size_addr (field_addr fs dest 0) (field_at fs 0)
     | Suc j \<Rightarrow> if in_union (field_at fs j) (field_at fs i) then pSize (iter_at fs dest j)
               else size_addr (field_addr fs dest i) (field_at fs i))"
proof (cases i)
  case 0
  then show ?thesis using assms by (simp add: iter_at.simps pb_field_iter_begin_def Let_def)
next
  case (Suc j)
  then have "tag (field_at fs j) \<noteq> 0" "tag (field_at fs (Suc j)) \<noteq> 0" "pos (iter_at fs dest j) = j"
    "pData (iter_at fs dest j) = field_addr fs dest j"
    using assms by (simp_all add: field_at_tag iter_at_pos iter_at_data)
  then show ?thesis by (simp add: Suc iter_at.simps pb_field_iter_next_def Let_def)
qed

section \<open>Places\<close>

text \<open>A message that may be written, in terms of the writable addresses \<open>W\<close>.\<close>

definition target_ok :: "(addr \<Rightarrow> bool) \<Rightarrow> nat \<Rightarrow> (addr \<Rightarrow> pb_field_t list) \<Rightarrow> pb_field_t list \<Rightarrow> addr \<Rightarrow> bool" where
  "target_ok W n ds fs dest \<longleftrightarrow>
     (\<exists>sz. message_fits n ds fs sz \<and> dest \<noteq> 0 \<and> unat dest + sz < 2 ^ 64 \<and>
        (\<forall>a. within dest sz a \<longrightarrow> W a))"

text \<open>An iterator whose field may be decoded.\<close>

definition place_ok :: "(addr \<Rightarrow> bool) \<Rightarrow> nat \<Rightarrow> (addr \<Rightarrow> pb_field_t list) \<Rightarrow> pb_field_iter_t \<Rightarrow> bool" where
  "place_ok W n ds it \<longleftrightarrow>
     (let field = cur it; ht = PB_HTYPE (ftype field) in
      static_type (ftype field) \<and> pData it \<noteq> 0 \<and> unat (pData it) + span field < 2 ^ 64 \<and>
      (\<forall>a. within (pData it) (span field) a \<longrightarrow> W a) \<and>
      (ht = PB_HTYPE_REPEATED \<longrightarrow> value_size field \<le> unat (data_size field) \<and> span field < 2 ^ 32) \<and>
      (ht = PB_HTYPE_OPTIONAL \<and> pSize it \<noteq> pData it \<longrightarrow> W (pSize it)) \<and>
      (ht = PB_HTYPE_ONEOF \<or> ht = PB_HTYPE_REPEATED \<longrightarrow> (\<forall>a. within (pSize it) 4 a \<longrightarrow> W a)) \<and>
      (PB_LTYPE (ftype field) = PB_LTYPE_SUBMESSAGE \<longrightarrow>
         ptr field \<noteq> 0 \<and> message_fits n ds (ds (ptr field)) (unat (data_size field))))"

lemma within_place:
  assumes "within (dest + q) m a" and "unat q + m \<le> sz" and "\<And>a. within dest sz a \<Longrightarrow> W a"
  shows "W a"
  using within_sub [OF assms(1,2)] assms(3) by blast

lemma unat_place:
  fixes dest :: addr
  assumes "unat dest + sz < 2 ^ 64" and "unat q + m \<le> sz" and "0 < m \<or> unat q < sz"
  shows "unat (dest + q) = unat dest + unat q"
  using assms by (auto simp: unat_word_ariths)

lemma terminator_types:
  "static_type 0" "PB_HTYPE 0 = PB_HTYPE_REQUIRED" "PB_LTYPE 0 = PB_LTYPE_BOOL"
  by (simp_all add: static_type_def PB_ATYPE_def PB_HTYPE_def PB_LTYPE_def pb_types)

lemma message_fitsD:
  assumes "message_fits (Suc n) ds fs sz"
  shows "num_fields fs = length fs" and "0 < sz"
    and "i < length fs \<Longrightarrow> static_type (ftype (field_at fs i))"
    and "i < length fs \<Longrightarrow> field_fits (field_at fs i) (field_addr fs 0 i) sz"
    and "i < length fs \<Longrightarrow> PB_LTYPE (ftype (field_at fs i)) = PB_LTYPE_SUBMESSAGE \<Longrightarrow>
      ptr (field_at fs i) \<noteq> 0 \<and>
      message_fits n ds (ds (ptr (field_at fs i))) (unat (data_size (field_at fs i)))"
  using assms by (auto simp: list_all_iff Let_def field_at_def intro!: all_tags)

lemma iter_presence:
  assumes fits: "message_fits (Suc n) ds fs sz" and "dest \<noteq> 0" and "i < length fs"
    and "PB_HTYPE (ftype (field_at fs i)) = PB_HTYPE_ONEOF"
  shows "\<exists>q. pSize (iter_at fs dest i) = dest + q \<and> unat q + 4 \<le> sz"
  using assms(3,4)
proof (induction i)
  case 0
  with message_fitsD(4) [OF fits, of 0] assms(2) message_fitsD(1) [OF fits] show ?case
    by (intro exI [of _ "size_addr (field_addr fs 0 0) (field_at fs 0)"])
      (auto simp: iter_at_size field_fits_def Let_def size_addr_def)
next
  case (Suc i)
  show ?case
  proof (cases "in_union (field_at fs i) (field_at fs (Suc i))")
    case True
    then have "PB_HTYPE (ftype (field_at fs i)) = PB_HTYPE_ONEOF" by (simp add: in_union_def)
    with Suc.IH Suc.prems True show ?thesis
      using iter_at_size [OF assms(2), of "Suc i" fs] message_fitsD(1) [OF fits] by simp
  next
    case False
    with message_fitsD(4) [OF fits, of "Suc i"] Suc.prems iter_at_size [OF assms(2), of "Suc i" fs]
      message_fitsD(1) [OF fits] show ?thesis
      by (intro exI [of _ "size_addr (field_addr fs 0 (Suc i)) (field_at fs (Suc i))"])
        (auto simp: field_fits_def Let_def field_addr_shift [of fs dest] size_addr_shift simp del: field_addr.simps)
  qed
qed

lemma iter_size_own:
  assumes "dest \<noteq> 0" and "i < num_fields fs" and "PB_HTYPE (ftype (field_at fs i)) \<noteq> PB_HTYPE_ONEOF"
  shows "pSize (iter_at fs dest i) = dest + size_addr (field_addr fs 0 i) (field_at fs i)"
  using assms iter_at_size [OF assms(1,2)]
  by (cases i) (auto simp: in_union_def field_addr_shift [of fs dest] size_addr_shift simp del: field_addr.simps)

text \<open>The iterators of a message: at one of its fields, or at the terminator of an empty one.\<close>

definition iter_ok :: "(addr \<Rightarrow> bool) \<Rightarrow> pb_field_t list \<Rightarrow> addr \<Rightarrow> pb_field_iter_t \<Rightarrow> bool" where
  "iter_ok W fs dest it \<longleftrightarrow>
     (\<exists>i q. i < max 1 (length fs) \<and> it = (iter_at fs dest i)\<lparr>pSize := q\<rparr> \<and>
        (q = pSize (iter_at fs dest i) \<or>
         PB_HTYPE (ftype (field_at fs i)) = PB_HTYPE_REPEATED \<and> (\<forall>a. within q 4 a \<longrightarrow> W a)))"

lemma iter_ok_at: "i < max 1 (length fs) \<Longrightarrow> iter_ok W fs dest (iter_at fs dest i)"
  unfolding iter_ok_def by (intro exI [of _ i] exI [of _ "pSize (iter_at fs dest i)"]) simp

lemma fixed_lt_32: "a < (2::nat) ^ 32 \<Longrightarrow> 4 \<le> a \<Longrightarrow> within p 4 b \<Longrightarrow> within p a b"
  by (simp add: within_def)

lemma place_of_iter:
  assumes target: "target_ok W (Suc n) ds fs dest" and it: "iter_ok W fs dest it"
  shows "place_ok W n ds it"
proof -
  obtain sz where fits: "message_fits (Suc n) ds fs sz" and dest: "dest \<noteq> 0"
      and top: "unat dest + sz < 2 ^ 64" and W: "\<And>a. within dest sz a \<Longrightarrow> W a"
    using target unfolding target_ok_def by blast
  note F = message_fitsD [OF fits]
  obtain i q where i: "i < max 1 (length fs)" "it = (iter_at fs dest i)\<lparr>pSize := q\<rparr>"
      "q = pSize (iter_at fs dest i) \<or>
       PB_HTYPE (ftype (field_at fs i)) = PB_HTYPE_REPEATED \<and> (\<forall>a. within q 4 a \<longrightarrow> W a)"
    using it unfolding iter_ok_def by blast
  show ?thesis
  proof (cases "fs = []")
    case True
    with i have it0: "it = iter_at [] dest 0"
      by (auto simp: field_at_def PB_LAST_FIELD_def terminator_types pb_types)
    then have p: "pos it = 0" "start it = []" "pData it = dest"
      using dest by (simp_all add: iter_at.simps pb_field_iter_begin_def field_at_def PB_LAST_FIELD_def Let_def)
    have s: "span (cur it) = 1"
      by (simp add: p field_at_def PB_LAST_FIELD_def span_def terminator_types value_size_def pb_types)
    have "W a" if "within dest 1 a" for a using that F(2) W by (auto simp: within_def)
    then show ?thesis using dest top F(2) s p
      by (simp add: place_ok_def field_at_def PB_LAST_FIELD_def terminator_types pb_types)
  next
    case False
    then have len: "i < length fs" "i < num_fields fs" using i F(1) by (simp_all add: max_def split: if_splits)
    define f where "f = field_at fs i"
    define off where "off = field_addr fs 0 i"
    have cur: "cur it = f" "pData it = dest + off" "pSize it = q"
      using i(2) len dest by (simp_all add: f_def off_def iter_at_pos iter_at_data field_addr_shift [of fs dest])
    have fits_f: "field_fits f off sz" "static_type (ftype f)" using F(3,4) len by (simp_all add: f_def off_def)
    then have room: "unat off + span f \<le> sz" by (simp add: field_fits_def Let_def)
    have own: "pSize (iter_at fs dest i) = dest + size_addr off f" if "PB_HTYPE (ftype f) \<noteq> PB_HTYPE_ONEOF"
      using iter_size_own [OF dest len(2)] that by (simp add: f_def off_def)
    have data: "unat (pData it) = unat dest + unat off"
      using room top cur(2) by (simp add: unat_word_ariths)
    then have "pData it \<noteq> 0" using dest by (metis add_is_0 unat_0 unat_eq_zero)
    moreover have "unat (pData it) + span f < 2 ^ 64" using data room top by simp
    moreover have "W a" if "within (pData it) (span f) a" for a
      using within_place [OF _ room W] that cur(2) by simp
    moreover have "W (pSize it)" if "PB_HTYPE (ftype f) = PB_HTYPE_OPTIONAL" "pSize it \<noteq> pData it"
    proof -
      have q: "q = dest + size_addr off f" using i(3) own that(1) by (auto simp: f_def pb_types)
      then have "size_offset f \<noteq> 0" using that(2) cur size_addr_same [of off f] by auto
      then have "unat (size_addr off f) + 1 \<le> sz" using fits_f that(1) by (simp add: field_fits_def Let_def)
      from within_place [OF _ this W, of dest "pSize it"] q cur(3) show ?thesis by (simp add: within_def)
    qed
    moreover have "W a" if "PB_HTYPE (ftype f) = PB_HTYPE_ONEOF" "within (pSize it) 4 a" for a
    proof -
      have "q = pSize (iter_at fs dest i)" using i(3) that(1) by (auto simp: f_def pb_types)
      then show ?thesis
        using iter_presence [OF fits dest len(1)] that cur(3) within_place [OF _ _ W] by (auto simp: f_def)
    qed
    moreover have "W a" if "PB_HTYPE (ftype f) = PB_HTYPE_REPEATED" "within (pSize it) 4 a" for a
    proof (cases "q = pSize (iter_at fs dest i)")
      case True
      then have q: "q = dest + size_addr off f" using own that(1) by (simp add: pb_types)
      show ?thesis
      proof (cases "size_offset f = 0")
        case True
        then have "within (dest + off) (span f) a"
          using that fits_f q cur size_addr_same [of off f]
          by (auto simp: field_fits_def Let_def within_def)
        from within_place [OF this room W] show ?thesis .
      next
        case False
        then have "unat (size_addr off f) + 4 \<le> sz" using fits_f that(1) by (simp add: field_fits_def Let_def)
        from within_place [OF _ this W, of dest a] that(2) q cur(3) show ?thesis by simp
      qed
    qed (use i(3) that cur(3) in auto)
    ultimately show ?thesis
      using fits_f(1,2) F(5) len(1) unfolding place_ok_def cur(1) Let_def
      by (auto simp: field_fits_def Let_def f_def)
  qed
qed

section \<open>Defaults and release\<close>

lemma each_field_trans:
  assumes "\<And>j h. i \<le> j \<Longrightarrow> j < num_fields fs \<Longrightarrow> \<exists>h1. f (iter_at fs dest j) h = Some h1 \<and> P h h1"
    and "\<And>h1 h2 h3. P h1 h2 \<Longrightarrow> P h2 h3 \<Longrightarrow> P h1 h3" and "i < num_fields fs"
  shows "\<exists>h1. each_field f (iter_at fs dest i) h = Some h1 \<and> P h h1"
  using assms(1,3)
proof (induction "num_fields fs - i" arbitrary: i h)
  case (Suc d)
  obtain h1 where h1: "f (iter_at fs dest i) h = Some h1" "P h h1" using Suc.prems(1) [of i h] Suc.prems(2) by auto
  show ?case
  proof (cases "Suc i < num_fields fs")
    case True
    have "\<exists>h2. each_field f (iter_at fs dest (Suc i)) h1 = Some h2 \<and> P h1 h2"
      using Suc.hyps(2) True by (intro Suc.hyps(1) Suc.prems(1)) auto
    then show ?thesis using h1 True Suc.prems(2) assms(2)
      by (subst each_field.simps) (fastforce simp: next_at)
  next
    case False
    then show ?thesis using h1 Suc.prems(2) by (subst each_field.simps) (simp add: next_at)
  qed
qed simp

lemma begin_fields:
  assumes "target_ok W (Suc n) ds fs dest"
    and "\<And>it h. place_ok W n ds it \<Longrightarrow> \<exists>h1. f it h = Some h1 \<and> P h h1"
    and "\<And>h1 h2 h3. P h1 h2 \<Longrightarrow> P h2 h3 \<Longrightarrow> P h1 h3" and "\<And>h. P h h"
  shows "\<exists>h1. (case pb_field_iter_begin fs dest of
       (False, it) \<Rightarrow> Some h | (True, it) \<Rightarrow> each_field f it h) = Some h1 \<and> P h h1"
proof (cases "num_fields fs")
  case 0
  then show ?thesis using assms(4) by (simp add: begin_result)
next
  case (Suc m)
  obtain sz where "message_fits (Suc n) ds fs sz" using assms(1) by (auto simp: target_ok_def)
  then have len: "num_fields fs = length fs" by (rule message_fitsD)
  have "\<exists>h1. each_field f (iter_at fs dest 0) h = Some h1 \<and> P h h1"
  proof (rule each_field_trans [where P = P])
    fix j h assume "j < num_fields fs"
    then have "iter_ok W fs dest (iter_at fs dest j)" using len by (intro iter_ok_at) simp
    then show "\<exists>h1. f (iter_at fs dest j) h = Some h1 \<and> P h h1"
      by (intro assms(2) place_of_iter [OF assms(1)])
  qed (use Suc assms(3) in auto)
  then show ?thesis using Suc by (simp add: begin_result)
qed

lemma target_sub:
  assumes "place_ok W n ds it" and "PB_LTYPE (ftype (cur it)) = PB_LTYPE_SUBMESSAGE"
    and "PB_HTYPE (ftype (cur it)) \<noteq> PB_HTYPE_REPEATED"
  shows "target_ok W n ds (ds (ptr (cur it))) (pData it)"
proof -
  have "span (cur it) = unat (data_size (cur it))"
    using assms(2,3) by (simp add: span_def value_size_def pb_types)
  then show ?thesis using assms unfolding place_ok_def target_ok_def Let_def
    by (intro exI [of _ "unat (data_size (cur it))"]) simp
qed

lemma only_store_int [intro]:
  "(\<And>a. within p 4 a \<Longrightarrow> W a) \<Longrightarrow> only W h (store32 p w h)"
  "W p \<Longrightarrow> only W h (store_bool p b h)"
  "(\<And>a. within p n a \<Longrightarrow> W a) \<Longrightarrow> only W h (memset_zero p n h)"
  unfolding store32_def store_bool_def memset_zero_def
  by (rule only_store, simp add: within_def unat_eq_zero)+

lemma field_default:
  assumes place: "place_ok W n (descs env) it"
    and sub: "\<And>fs dest h. target_ok W n (descs env) fs dest \<Longrightarrow>
      \<exists>h1. pb_message_set_to_defaults k env fs dest h = Some h1 \<and> only W h h1"
  shows "\<exists>h1. pb_field_set_to_default (Suc k) env it h = Some h1 \<and> only W h h1"
proof -
  let ?f = "cur it" let ?ht = "PB_HTYPE (ftype ?f)"
  have st: "PB_ATYPE (ftype ?f) = PB_ATYPE_STATIC" "PB_LTYPE (ftype ?f) \<noteq> PB_LTYPE_EXTENSION"
    using place by (simp_all add: place_ok_def static_type_def Let_def)
  have m: "(\<lambda>fs dest h. case pb_field_iter_begin fs dest of
      (False, it) \<Rightarrow> Some h | (True, it) \<Rightarrow> each_field (pb_field_set_to_default k env) it h) =
      pb_message_set_to_defaults k env"
    by (intro ext) (simp add: pb_message_set_to_defaults_def)
  have d: "pb_field_set_to_default (Suc k) env it h =
      set_static_default (pb_message_set_to_defaults k env) env it h"
    using st by (simp add: m)
  show ?thesis
  proof (cases "?ht = PB_HTYPE_REPEATED \<or> ?ht = PB_HTYPE_ONEOF")
    case True
    then have "only W h (store32 (pSize it) 0 h)"
      using place by (intro only_store_int) (auto simp: place_ok_def Let_def)
    then show ?thesis using True unfolding d set_static_default_def Let_def by (auto simp: pb_types)
  next
    case False
    define h1 where "h1 = (if ?ht = PB_HTYPE_OPTIONAL \<and> pSize it \<noteq> pData it then store_bool (pSize it) False h else h)"
    have h1: "only W h h1"
      using place by (auto simp: h1_def place_ok_def Let_def intro!: only_store_int)
    have n: "within (pData it) (unat (data_size ?f)) a \<Longrightarrow> W a" for a
      using place False by (auto simp: place_ok_def Let_def span_def within_def)
    have "\<exists>h2. (if PB_LTYPE (ftype ?f) = PB_LTYPE_SUBMESSAGE
         then pb_message_set_to_defaults k env (descs env (ptr ?f)) (pData it) h1
         else if ptr ?f \<noteq> 0
         then Some (heap_store (pData it) (load_bytes (bytes h1) (ptr ?f) (unat (data_size ?f))) h1)
         else Some (memset_zero (pData it) (unat (data_size ?f)) h1)) = Some h2 \<and> only W h1 h2"
      using sub [OF target_sub [OF place]] False n by (auto intro!: only_store only_store_int)
    then show ?thesis using only_trans [OF h1] False
      unfolding d set_static_default_def Let_def h1_def [symmetric] by (auto simp: h1_def)
  qed
qed

lemma message_default:
  "n \<le> k \<Longrightarrow> target_ok W n (descs env) fs dest \<Longrightarrow>
   \<exists>h1. pb_message_set_to_defaults k env fs dest h = Some h1 \<and> only W h h1"
proof (induction n arbitrary: k fs dest h)
  case 0
  then show ?case by (simp add: target_ok_def)
next
  case (Suc n)
  then obtain j where j: "k = Suc j" "n \<le> j" by (cases k) auto
  show ?case
    unfolding pb_message_set_to_defaults_def
  proof (rule begin_fields [OF Suc.prems(2), where P = "only W"])
    fix it h assume "place_ok W n (descs env) it"
    then show "\<exists>h1. pb_field_set_to_default k env it h = Some h1 \<and> only W h h1"
      unfolding j(1) by (rule field_default) (rule Suc.IH [OF j(2)])
  qed (blast intro: only_trans, simp)
qed

text \<open>There is nothing to release.\<close>

lemma each_item_same: "(\<And>p h. f p h = Some h) \<Longrightarrow> each_item f step n p h = Some h"
  by (induction n arbitrary: p) simp_all

lemma item_within:
  assumes "place_ok W n ds it" and "PB_HTYPE (ftype (cur it)) = PB_HTYPE_REPEATED"
    and "i < array_size (cur it)"
  shows "\<exists>q. item_addr (pData it) (cur it) i = pData it + q \<and>
    unat q + unat (data_size (cur it)) \<le> span (cur it)"
proof -
  let ?d = "unat (data_size (cur it))"
  have "span (cur it) = ?d * unat (array_size (cur it))" "span (cur it) < 2 ^ 32"
    using assms(1,2) by (simp_all add: span_def place_ok_def Let_def)
  moreover have "?d * (unat i + 1) \<le> ?d * unat (array_size (cur it))"
    using assms(3) by (intro mult_le_mono) (simp_all add: word_less_nat_alt)
  ultimately have le: "?d * unat i + ?d \<le> span (cur it)" "?d * unat i + ?d < 2 ^ 32" by simp_all
  then have "unat (data_size (cur it) * i) = ?d * unat i" by (simp add: unat_word_ariths)
  then show ?thesis using le unat_u32_u64 [of "data_size (cur it) * i"] by (auto simp: item_addr_def)
qed

definition releasable :: "nat \<Rightarrow> (addr \<Rightarrow> pb_field_t list) \<Rightarrow> pb_field_t \<Rightarrow> bool" where
  "releasable n ds field \<longleftrightarrow> static_type (ftype field) \<and>
     (PB_LTYPE (ftype field) = PB_LTYPE_SUBMESSAGE \<longrightarrow> (\<exists>sz. message_fits n ds (ds (ptr field)) sz))"

lemma release_field:
  assumes place: "releasable n (descs env) (cur it)"
    and sub: "\<And>fs sz dest h. message_fits n (descs env) fs sz \<Longrightarrow> pb_release k env fs dest h = Some h"
  shows "pb_release_single_field (Suc k) env it h = Some h"
proof -
  let ?f = "cur it"
  have st: "PB_ATYPE (ftype ?f) = PB_ATYPE_STATIC" "PB_LTYPE (ftype ?f) \<noteq> PB_LTYPE_EXTENSION"
    using place by (simp_all add: releasable_def static_type_def)
  have r: "(\<lambda>p h. if p = 0 then Some h else case pb_field_iter_begin (descs env (ptr ?f)) p of
      (False, it) \<Rightarrow> Some h | (True, it) \<Rightarrow> each_field (pb_release_single_field k env) it h) =
      (\<lambda>p h. pb_release k env (descs env (ptr ?f)) p h)"
    by (intro ext) (simp add: pb_release_def)
  have "each_item (\<lambda>p h. pb_release k env (descs env (ptr ?f)) p h) d m q h = Some h"
    if "PB_LTYPE (ftype ?f) = PB_LTYPE_SUBMESSAGE" for d m q h
    using place that sub by (intro each_item_same) (auto simp: releasable_def)
  then show ?thesis
    using st by (auto simp: Let_def r release_pointer_def pb_types)
qed

lemma message_release:
  "n \<le> k \<Longrightarrow> message_fits n (descs env) fs sz \<Longrightarrow> pb_release k env fs dest h = Some h"
proof (induction n arbitrary: k fs sz dest h)
  case (Suc n)
  then obtain j where j: "k = Suc j" "n \<le> j" by (cases k) auto
  note F = message_fitsD [OF Suc.prems(2)]
  have "\<exists>h1. each_field (pb_release_single_field k env) (iter_at fs dest 0) h = Some h1 \<and> h1 = h"
    if "0 < num_fields fs"
  proof (rule each_field_trans [where P = "\<lambda>h h1. h1 = h"])
    fix i h assume i: "i < num_fields fs"
    then have "cur (iter_at fs dest i) = field_at fs i" by (simp add: iter_at_pos)
    with i F have "releasable n (descs env) (cur (iter_at fs dest i))" by (auto simp: releasable_def)
    then have "pb_release_single_field k env (iter_at fs dest i) h = Some h"
      unfolding j(1) by (rule release_field) (rule Suc.IH [OF j(2)])
    then show "\<exists>h1. pb_release_single_field k env (iter_at fs dest i) h = Some h1 \<and> h1 = h" by simp
  qed (use that in auto)
  then show ?case by (auto simp: pb_release_def begin_result split: bool.splits)
qed simp

end
