(* ===== verification/Pb_Decode_Safe.thy ===== *)
theory Pb_Decode_Safe
  imports Pb_Decode_Layout
begin

unbundle bit_operations_syntax

text \<open>
  Memory safety and termination of \<^verbatim>\<open>pb_decode\<close> on messages of static allocation: the loops over
  arrays and fields, unions, nested messages, and the theorem for whole messages.
\<close>

section \<open>Substreams and arrays\<close>

lemma confined_open:
  assumes "\<And>s sub h. source_ok (source s) \<Longrightarrow> source_ok (source sub) \<Longrightarrow> result_ok W False s h (f s sub h)"
  shows "confined W True (open_substream f)"
  unfolding confined_def
proof (intro allI)
  fix s :: "'a pb_istream_t" and h
  obtain r s1 where d: "pb_decode_varint32 s = (r, s1)" by fastforce
  note C = consumed_varint32 [of s, unfolded d]
  show "result_ok W True s h (open_substream f s h)"
  proof (cases "source_ok (source s)")
    case ok: True
    note D = consumedD [OF C ok]
    show ?thesis
    proof (cases "\<exists>sz. r = Some sz \<and> \<not> bytes_left s1 < unat sz")
      case True
      then obtain sz where r: "r = Some sz" "\<not> bytes_left s1 < unat sz" by blast
      let ?p = "s1\<lparr>bytes_left := bytes_left s1 - unat sz\<rparr>" and ?sub = "s1\<lparr>bytes_left := unat sz\<rparr>"
      have "result_ok W False ?p h (f ?p ?sub h)" using D by (intro assms) simp_all
      from result_ok_trans [OF this, of h s True] D r
      show ?thesis by (auto simp: open_substream_def pb_make_string_substream_def d)
    next
      case False
      then show ?thesis using D
        by (auto simp: open_substream_def pb_make_string_substream_def d result_ok_def split: option.splits)
    qed
  qed (simp add: result_ok_def)
qed

lemma close_ok:
  assumes "source_ok (source sub)"
  shows "result_ok W False s h (close_substream status s sub h)"
proof -
  obtain r sub1 where c: "pb_read True (bytes_left sub) sub = (r, sub1)" by fastforce
  have "source_ok (source sub1)"
    using consumedD(1) [OF consumed_read [of "bytes_left sub" sub True, unfolded c] assms] .
  then show ?thesis using c assms
    by (auto simp: close_substream_def pb_close_string_substream_def result_ok_def Let_def split: option.splits)
qed

lemma confined_in_substream:
  assumes "confined W False d"
  shows "confined W True (in_substream d)"
  unfolding in_substream_def
proof (rule confined_open)
  fix s sub :: "'a pb_istream_t" and h
  assume ok: "source_ok (source s)" "source_ok (source sub)"
  obtain st sub1 h1 where d: "d sub h = Some (st, sub1, h1)" "source_ok (source sub1)" "only W h h1"
    by (rule result_okE [OF confinedD [OF assms, of sub h] ok(2)]) blast
  show "result_ok W False s h (case d sub h of None \<Rightarrow> None
      | Some (status, sub1, h1) \<Rightarrow> close_substream status s sub1 h1)"
    using result_ok_trans [OF close_ok [OF d(2)] d(3)] d(1) by simp
qed

lemma packed_loop_ok:
  assumes step: "\<And>i. i < array_size field \<Longrightarrow> confined W True (func (item_addr p field i))"
    and count: "\<And>a. within q 4 a \<Longrightarrow> W a"
  shows "confined W False (packed_loop func field p q)"
  unfolding confined_def
proof (intro allI)
  fix s h
  show "result_ok W False s h (packed_loop func field p q s h)"
  proof (induction "bytes_left s" arbitrary: s h rule: less_induct)
    case less
    show ?case
    proof (cases "source_ok (source s) \<and> bytes_left s > 0 \<and> get32 h q < array_size field")
      case True
      obtain ok s1 h1 where f: "func (item_addr p field (get32 h q)) s h = Some (ok, s1, h1)"
          "source_ok (source s1)" "only W h h1" "bytes_left s1 \<le> bytes_left s" "ok \<Longrightarrow> bytes_left s1 < bytes_left s"
        using True by (blast intro: result_okE [OF confinedD [OF step, of "get32 h q" s h]])
      show ?thesis
      proof (cases ok)
        case ok: True
        let ?h2 = "store32 q (get32 h1 q + 1) h1"
        have "only W h ?h2" using f(3) only_store_int(1) [OF count] by (rule only_trans)
        from result_ok_trans [OF less [OF f(5) [OF ok]] this] f ok True show ?thesis
          by (subst packed_loop.simps) auto
      qed (use f True in \<open>subst packed_loop.simps, auto simp: result_ok_def\<close>)
    qed (subst packed_loop.simps, auto simp: result_ok_def)
  qed
qed

lemma packed_ok:
  assumes "place_ok W n ds it" and "PB_HTYPE (ftype (cur it)) = PB_HTYPE_REPEATED"
    and step: "\<And>i. i < array_size (cur it) \<Longrightarrow> confined W True (func (item_addr (pData it) (cur it) i))"
  shows "confined W True (decode_packed_static func it)"
  unfolding decode_packed_static_def
proof (rule confined_open)
  fix s sub :: "'a pb_istream_t" and h
  assume ok: "source_ok (source s)" "source_ok (source sub)"
  have "within (pSize it) 4 a \<Longrightarrow> W a" for a using assms(1,2) by (simp add: place_ok_def Let_def)
  then have "confined W False (packed_loop func (cur it) (pData it) (pSize it))"
    by (intro packed_loop_ok step)
  then obtain st sub1 h1 where d: "packed_loop func (cur it) (pData it) (pSize it) sub h = Some (st, sub1, h1)"
      "source_ok (source sub1)" "only W h h1"
    by (rule result_okE [OF confinedD [of W False _ sub h] ok(2)]) blast
  show "result_ok W False s h (case packed_loop func (cur it) (pData it) (pSize it) sub h of None \<Rightarrow> None
      | Some (status, sub1, h1) \<Rightarrow> if bytes_left sub1 \<noteq> 0 then dec_error ''array overflow'' s h1
          else close_substream status s sub1 h1)"
    using result_ok_trans [OF close_ok [OF d(2)] d(3)] d(1)
      result_ok_trans [OF confinedD [OF confined_error, of W False s h1 "''array overflow''"] d(3)] by simp
qed

lemma element_ok:
  assumes "place_ok W n ds it" and "PB_HTYPE (ftype (cur it)) = PB_HTYPE_REPEATED"
    and step: "\<And>i. i < array_size (cur it) \<Longrightarrow> confined W True (func (item_addr (pData it) (cur it) i))"
  shows "confined W True (decode_element_static func it)"
  unfolding confined_def
proof (intro allI)
  fix s h
  let ?n = "get32 h (pSize it)" let ?h1 = "store32 (pSize it) (?n + 1) h"
  have o: "only W h ?h1" using assms(1,2) by (intro only_store_int) (simp add: place_ok_def Let_def)
  show "result_ok W True s h (decode_element_static func it s h)"
  proof (cases "?n < array_size (cur it)")
    case True
    from result_ok_trans [OF confinedD [OF step [OF this]] o] True show ?thesis
      by (simp add: decode_element_static_def Let_def not_less [symmetric])
  next
    case False
    from result_ok_trans [OF confinedD [OF confined_error [of W True]] o] False show ?thesis
      by (auto simp: decode_element_static_def Let_def not_less)
  qed
qed

section \<open>Fields\<close>

lemma ltype_cases:
  assumes "static_type t"
  shows "PB_LTYPE t \<in> {PB_LTYPE_BOOL, PB_LTYPE_VARINT, PB_LTYPE_UVARINT, PB_LTYPE_SVARINT,
    PB_LTYPE_FIXED32, PB_LTYPE_FIXED64, PB_LTYPE_BYTES, PB_LTYPE_STRING, PB_LTYPE_SUBMESSAGE,
    PB_LTYPE_FIXED_LENGTH_BYTES}"
proof -
  have "unat (PB_LTYPE t) \<le> 10" using assms by (simp add: static_type_def word_le_nat_alt pb_types)
  then have "unat (PB_LTYPE t) \<in> set [0..<11]" by simp
  moreover have "PB_LTYPE t = of_nat (unat (PB_LTYPE t))" by simp
  ultimately have "PB_LTYPE t \<in> of_nat ` set [0..<11]" by (rule rev_image_eqI)
  then show ?thesis using assms by (auto simp: static_type_def pb_types upt_rec)
qed

text \<open>The decoders of nested messages that a field may call.\<close>

definition nested_ok :: "(addr \<Rightarrow> bool) \<Rightarrow> nat \<Rightarrow> 's dec_env \<Rightarrow> 's message_decoder \<Rightarrow> bool" where
  "nested_ok W n env noinit \<longleftrightarrow>
     (\<forall>fs dest. target_ok W n (descs env) fs dest \<longrightarrow> confined W False (noinit fs dest))"

lemma initialized_ok:
  assumes "nested_ok W n env noinit" and "n \<le> k" and target: "target_ok W n (descs env) fs dest"
  shows "confined W False (decode_initialized k env noinit fs dest)"
proof -
  have c: "confined W False (noinit fs dest)" using assms by (auto simp: nested_ok_def)
  obtain sz where "message_fits n (descs env) fs sz" using target by (auto simp: target_ok_def)
  note rel = message_release [OF assms(2) this]
  show ?thesis
    unfolding decode_initialized_def
  proof (rule confined_try)
    show "\<exists>h1. pb_message_set_to_defaults k env fs dest h = Some h1 \<and> only W h h1" for h
      by (rule message_default [OF assms(2) target])
    show "confined W False (\<lambda>s h. case noinit fs dest s h of None \<Rightarrow> None
        | Some (True, s1, h1) \<Rightarrow> Some (True, s1, h1)
        | Some (False, s1, h1) \<Rightarrow>
            (case pb_release k env fs dest h1 of None \<Rightarrow> None | Some h2 \<Rightarrow> Some (False, s1, h2)))"
      unfolding confined_def
    proof (intro allI)
      fix s h
      show "result_ok W False s h (case noinit fs dest s h of None \<Rightarrow> None
        | Some (True, s1, h1) \<Rightarrow> Some (True, s1, h1)
        | Some (False, s1, h1) \<Rightarrow>
            (case pb_release k env fs dest h1 of None \<Rightarrow> None | Some h2 \<Rightarrow> Some (False, s1, h2)))"
        using confinedD [OF c, of s h] unfolding result_ok_def rel by (auto split: bool.splits)
    qed
  qed
qed

lemma decoder_ok:
  assumes static: "static_type (ftype field)" and nested: "nested_ok W n env noinit" and "n \<le> k"
    and target: "\<And>a. within dest (value_size field) a \<Longrightarrow> W a"
    and sub: "PB_LTYPE (ftype field) = PB_LTYPE_SUBMESSAGE \<Longrightarrow>
      ptr field \<noteq> 0 \<and> target_ok W n (descs env) (descs env (ptr field)) dest"
  shows "confined W True (PB_DECODERS k env noinit (PB_LTYPE (ftype field)) field dest)"
proof -
  have v: "value_ok W field dest" using static target by (simp add: value_ok_def static_type_def)
  have "confined W True (pb_dec_submessage k env noinit field dest)"
    if "PB_LTYPE (ftype field) = PB_LTYPE_SUBMESSAGE"
    using sub [OF that] initialized_ok [OF nested assms(3)] nested
    by (auto simp: pb_dec_submessage_def nested_ok_def intro!: confined_in_substream)
  with ltype_cases [OF static] show ?thesis
    using confined_bool [OF v] confined_varints [OF v] confined_fixed32 [OF v] confined_fixed64 [OF v]
      confined_bytes [OF v] confined_string [OF v] confined_fixed_length [OF v]
    by (auto simp: PB_DECODERS_def pb_types)
qed

lemma static_field_ok:
  assumes place: "place_ok W n (descs env) it" and nested: "nested_ok W n env noinit" and k: "n \<le> k"
  shows "confined W True (decode_static_field k env noinit wire_type it)"
proof -
  let ?f = "cur it" let ?ht = "PB_HTYPE (ftype ?f)"
  let ?func = "PB_DECODERS k env noinit (PB_LTYPE (ftype ?f)) ?f"
  note P = place [unfolded place_ok_def Let_def]
  have static: "static_type (ftype ?f)" using P by simp
  show ?thesis
  proof (cases "?ht = PB_HTYPE_REPEATED")
    case True
    have item: "confined W True (?func (item_addr (pData it) ?f i))" if i: "i < array_size ?f" for i
    proof -
      obtain q where q: "item_addr (pData it) ?f i = pData it + q" "unat q + unat (data_size ?f) \<le> span ?f"
        using item_within [OF place True i] by blast
      have W: "W a" if "within (item_addr (pData it) ?f i) m a" "m \<le> unat (data_size ?f)" for m a
        using within_place [of "pData it" q m a "span ?f" W] that q P by auto
      have u: "unat (pData it + q) = unat (pData it) + unat q" using P q(2) by (simp add: unat_word_ariths)
      then have "pData it + q \<noteq> 0" using P by (metis add_is_0 unat_0 unat_eq_zero)
      then have "target_ok W n (descs env) (descs env (ptr ?f)) (item_addr (pData it) ?f i)"
        if "PB_LTYPE (ftype ?f) = PB_LTYPE_SUBMESSAGE"
        unfolding target_ok_def using that P W q u by (intro exI [of _ "unat (data_size ?f)"]) auto
      then show ?thesis using P True W by (intro decoder_ok [OF static nested k]) auto
    qed
    show ?thesis
      using packed_ok [OF place True, of ?func, OF item] element_ok [OF place True, of ?func, OF item] True
      by (simp add: decode_static_field_def Let_def pb_types)
  next
    case False
    have W: "W a" if "within (pData it) m a" "m \<le> max (value_size ?f) (unat (data_size ?f))" for m a
      using P that False by (auto simp: span_def within_def)
    have func: "confined W True (?func (pData it))"
      using W P target_sub [OF place] False by (intro decoder_ok [OF static nested k]) auto
    have "confined W True (decode_member_static k env ?func it)" if o: "?ht = PB_HTYPE_ONEOF"
    proof -
      have c: "confined W True (update_heap (store32 (pSize it) (tag ?f)) (?func (pData it)))"
        using P o by (intro confined_update func only_store_int) auto
      have d: "\<exists>h1. pb_message_set_to_defaults k env (descs env (ptr ?f)) (pData it) h = Some h1 \<and> only W h h1"
        if "PB_LTYPE (ftype ?f) = PB_LTYPE_SUBMESSAGE" for h
        using message_default [OF k target_sub [OF place that False]] .
      show ?thesis
        unfolding confined_def
      proof (intro allI)
        fix s h
        have "confined W True (update_heap (memset_zero (pData it) (unat (data_size ?f)))
            (try_heap (pb_message_set_to_defaults k env (descs env (ptr ?f)) (pData it))
              (update_heap (store32 (pSize it) (tag ?f)) (?func (pData it)))))"
          if "PB_LTYPE (ftype ?f) = PB_LTYPE_SUBMESSAGE"
          using W by (intro confined_update confined_try d [OF that] c only_store_int) simp
        with confinedD [OF c] show "result_ok W True s h (decode_member_static k env ?func it s h)"
          unfolding decode_member_static_def Let_def by (simp add: confined_def)
      qed
    qed
    moreover have "confined W True (update_heap (store_bool (pSize it) True) (?func (pData it)))"
      if "?ht = PB_HTYPE_OPTIONAL" "pSize it \<noteq> pData it"
      using P that by (intro confined_update func only_store_int) auto
    ultimately show ?thesis using False func
      by (simp add: decode_static_field_def Let_def)
  qed
qed

section \<open>Searching\<close>

lemma next_other_size:
  assumes "\<not> in_union (cur it) (field_at (start it) (Suc (pos it)))"
  shows "snd (pb_field_iter_next (it\<lparr>pSize := q\<rparr>)) = (if tag (cur it) = 0 then it\<lparr>pSize := q\<rparr> else snd (pb_field_iter_next it))"
  using assms by (simp add: pb_field_iter_next_def Let_def)

lemma find_ok:
  assumes it: "iter_ok W fs dest it" and n: "num_fields fs = length fs"
  shows "\<exists>found it1. find_loop m (pos it) it = Some (found, it1) \<and> iter_ok W fs dest it1 \<and> (found \<longrightarrow> m (cur it1))"
proof (cases "m (cur it)")
  case True
  then show ?thesis using it by (subst find_loop.simps) auto
next
  case False
  obtain i q where i: "i < max 1 (length fs)" "it = (iter_at fs dest i)\<lparr>pSize := q\<rparr>"
      "q = pSize (iter_at fs dest i) \<or> PB_HTYPE (ftype (field_at fs i)) = PB_HTYPE_REPEATED"
    using it unfolding iter_ok_def by blast
  show ?thesis
  proof (cases "fs = []")
    case True
    with i have "pos it = 0" "start it = []" by (simp_all add: iter_at_pos)
    then have "snd (pb_field_iter_next it) = it"
      by (simp add: pb_field_iter_next_def field_at_def PB_LAST_FIELD_def)
    with False it show ?thesis by (subst find_loop.simps) (auto simp: Let_def)
  next
    case ne: False
    then have len: "i < length fs" "i < num_fields fs" using i n by (auto simp: max_def split: if_splits)
    have p: "pos it = i" "start it = fs" "cur it = field_at fs i" using i(2) len by (simp_all add: iter_at_pos)
    let ?it = "iter_at fs dest i"
    have c: "cur ?it = field_at fs i" "pos ?it = i" using len by (simp_all add: iter_at_pos)
    have "snd (pb_field_iter_next it) = snd (pb_field_iter_next ?it)"
    proof (cases "q = pSize ?it")
      case False
      then have "\<not> in_union (cur ?it) (field_at (start ?it) (Suc (pos ?it)))"
        using i(3) c by (simp add: in_union_def pb_types)
      with next_other_size [of ?it q] field_at_tag [OF len(2)] c show ?thesis by (simp add: i(2))
    qed (simp add: i(2))
    then have "find_loop m (pos it) it = find_loop m i ?it"
      using False p c by (subst (1 2) find_loop.simps) (simp add: Let_def)
    moreover have "iter_ok W fs dest (iter_at fs dest j)" if "j < length fs" for j
      using that by (intro iter_ok_at) simp
    moreover have "j < length fs" "m (field_at fs j)"
      if "find (\<lambda>k. m (field_at fs k)) (cyclic (num_fields fs) i) = Some j" for j
    proof -
      have "j \<in> set (cyclic (num_fields fs) i)" "m (field_at fs j)"
        using that nth_mem by (fastforce simp: find_Some_iff)+
      then show "j < length fs" "m (field_at fs j)" using len n by (auto simp: cyclic_def)
    qed
    ultimately show ?thesis using find_loop_cyclic [OF len(2), of m dest] len n
      by (auto simp: iter_at_pos split: option.splits)
  qed
qed

section \<open>Messages\<close>

lemma drop_3: "drop_bit 3 (t :: u32) \<noteq> - 1"
proof
  assume "drop_bit 3 t = - 1"
  then have "bit (drop_bit 3 t) 31 = bit (- 1 :: u32) 31" by simp
  then have "bit t 34" by (simp add: bit_simps)
  from bit_imp_le_length [OF this] show False by simp
qed

text \<open>The result of a step that also moves the iterator or the variables \<open>v\<close> with \<open>J v\<close>.\<close>

definition step_ok ::
  "(addr \<Rightarrow> bool) \<Rightarrow> ('v \<Rightarrow> bool) \<Rightarrow> ('c \<Rightarrow> bool) \<Rightarrow> 's pb_istream_t \<Rightarrow> heap \<Rightarrow>
   ('c \<times> 'v \<times> 's pb_istream_t \<times> heap) option \<Rightarrow> bool" where
  "step_ok W J strict s h r \<longleftrightarrow>
     (\<exists>c v s1 h1. r = Some (c, v, s1, h1) \<and> J v \<and> source_ok (source s1) \<and> only W h h1 \<and>
        bytes_left s1 \<le> bytes_left s \<and> (strict c \<longrightarrow> bytes_left s1 < bytes_left s))"

text \<open>
  The decoding of a message with \<open>Suc n\<close> levels into \<open>dest\<close>, with \<open>noinit\<close> for nested messages
  and a counter for arrays of fixed count at \<open>counter\<close>.
\<close>

definition decoding ::
  "(addr \<Rightarrow> bool) \<Rightarrow> nat \<Rightarrow> nat \<Rightarrow> 's dec_env \<Rightarrow> 's message_decoder \<Rightarrow> pb_field_t list \<Rightarrow> addr \<Rightarrow> addr \<Rightarrow> bool" where
  "decoding W n k env noinit fs dest counter \<longleftrightarrow>
     target_ok W (Suc n) (descs env) fs dest \<and> nested_ok W n env noinit \<and> n < k \<and>
     (\<forall>a. within counter 4 a \<longrightarrow> W a)"

lemma all_fields_found:
  assumes "decoding W n k env noinit fs dest counter"
  shows "num_fields fs = length fs"
  using assms message_fitsD(1) by (auto simp: decoding_def target_ok_def)

lemma place:
  assumes "decoding W n k env noinit fs dest counter" and "iter_ok W fs dest it"
  shows "place_ok W n (descs env) it"
  using assms place_of_iter by (auto simp: decoding_def)

lemma release_ok:
  assumes "decoding W n k env noinit fs dest counter" and "iter_ok W fs dest it"
  shows "pb_release_single_field k env it h = Some h"
proof -
  obtain j where j: "k = Suc j" "n \<le> j" using assms(1) by (cases k) (auto simp: decoding_def)
  have "releasable n (descs env) (cur it)"
    using place [OF assms] by (auto simp: place_ok_def releasable_def Let_def)
  then show ?thesis unfolding j(1) by (rule release_field) (rule message_release [OF j(2)])
qed

lemma union_ok:
  assumes D: "decoding W n k env noinit fs dest counter" and it: "iter_ok W fs dest it" and ok: "source_ok (source s)"
  shows "step_ok W (iter_ok W fs dest) (\<lambda>_. False) s h (pb_release_union_field k env it s h)"
proof -
  obtain f1 it1 where 1: "pb_field_iter_find it (get32 h (pSize it)) = Some (f1, it1)" "iter_ok W fs dest it1"
    unfolding pb_field_iter_find_def using find_ok [OF it all_fields_found [OF D]] by metis
  obtain f2 it2 where 2: "pb_field_iter_find it1 (tag (cur it)) = Some (f2, it2)" "iter_ok W fs dest it2"
    unfolding pb_field_iter_find_def using find_ok [OF 1(2) all_fields_found [OF D]] by metis
  have st: "PB_ATYPE (ftype (cur it2)) \<noteq> PB_ATYPE_POINTER"
    using place [OF D 2(2)] by (simp add: place_ok_def static_type_def Let_def pb_types)
  show ?thesis
    unfolding pb_release_union_field_def Let_def 1(1)
    by (cases f1; cases f2; auto simp: 2(1) release_ok [OF D 1(2)] st step_ok_def assms 1(2) 2(2))
qed

lemma field_ok:
  assumes D: "decoding W n k env noinit fs dest counter" and it: "iter_ok W fs dest it" and ok: "source_ok (source s)"
  shows "step_ok W (iter_ok W fs dest) (\<lambda>_. False) s h (decode_field k env noinit wire_type it s h)"
proof -
  have "step_ok W (iter_ok W fs dest) (\<lambda>_. False) s h
      (if PB_HTYPE (ftype (cur it)) = PB_HTYPE_ONEOF then pb_release_union_field k env it s h
       else Some (True, it, s, h))"
    using union_ok [OF assms] assms by (auto simp: step_ok_def)
  then obtain c it1 s1 h1 where
    u: "(if PB_HTYPE (ftype (cur it)) = PB_HTYPE_ONEOF then pb_release_union_field k env it s h
       else Some (True, it, s, h)) = Some (c, it1, s1, h1)"
    and 1: "iter_ok W fs dest it1" "source_ok (source s1)" "only W h h1" "bytes_left s1 \<le> bytes_left s"
    unfolding step_ok_def by blast
  have p: "place_ok W n (descs env) it1" using D 1(1) by (rule place)
  then have a: "decode_allocated k env noinit wire_type it1 = decode_static_field k env noinit wire_type it1"
    by (simp add: decode_allocated_def place_ok_def static_type_def Let_def)
  have "confined W True (decode_static_field k env noinit wire_type it1)"
    using D by (intro static_field_ok [OF p]) (simp_all add: decoding_def)
  from confinedD [OF this, of s1 h1] 1(2) obtain c2 s2 h2 where
    d: "decode_static_field k env noinit wire_type it1 s1 h1 = Some (c2, s2, h2)"
      "source_ok (source s2)" "only W h1 h2" "bytes_left s2 \<le> bytes_left s1"
    unfolding result_ok_def by blast
  have "only W h h2" using 1(3) d(3) by (rule only_trans)
  then show ?thesis unfolding decode_field_def u using 1 d a
    by (cases c) (auto simp: step_ok_def)
qed

definition vars_ok :: "(addr \<Rightarrow> bool) \<Rightarrow> pb_field_t list \<Rightarrow> addr \<Rightarrow> decode_vars \<Rightarrow> bool" where
  "vars_ok W fs dest v \<longleftrightarrow> iter_ok W fs dest (d_iter v)"

lemma known_ok:
  assumes D: "decoding W n k env noinit fs dest counter" and v: "vars_ok W fs dest v" and ok: "source_ok (source s)"
  shows "step_ok W (vars_ok W fs dest) (\<lambda>_. False) s h (decode_known k env noinit counter wire_type v s h)"
proof (cases "enter_fixed_count counter v h")
  case None
  then show ?thesis using assms by (simp add: decode_known_def step_ok_def)
next
  case (Some p)
  obtain v1 h1 where p: "p = (v1, h1)" by fastforce
  have "iter_ok W fs dest ((d_iter v)\<lparr>pSize := counter\<rparr>)"
    if "PB_HTYPE (ftype (cur (d_iter v))) = PB_HTYPE_REPEATED"
  proof -
    obtain i q where i: "i < max 1 (length fs)" "d_iter v = (iter_at fs dest i)\<lparr>pSize := q\<rparr>"
      using v unfolding vars_ok_def iter_ok_def by blast
    then have "i < num_fields fs \<or> i = 0" using all_fields_found [OF D] by auto
    with i(2) have "pos (d_iter v) = i" by (simp add: iter_at_pos)
    with i that D show ?thesis
      unfolding iter_ok_def by (intro exI [of _ i] exI [of _ counter]) (auto simp: decoding_def)
  qed
  then have v1: "vars_ok W fs dest v1" "only W h h1"
    using Some v p D
    by (auto simp: enter_fixed_count_def vars_ok_def decoding_def Let_def intro!: only_store_int split: if_splits)
  then have v2: "iter_ok W fs dest (d_iter (mark_seen v1))"
    by (simp add: mark_seen_def vars_ok_def Let_def)
  from field_ok [OF D this ok, of h1 wire_type] obtain c it s1 h2 where
    "decode_field k env noinit wire_type (d_iter (mark_seen v1)) s h1 = Some (c, it, s1, h2)"
    "iter_ok W fs dest it" "source_ok (source s1)" "only W h1 h2" "bytes_left s1 \<le> bytes_left s"
    unfolding step_ok_def by blast
  moreover have "only W h h2" using v1(2) calculation(4) by (rule only_trans)
  ultimately show ?thesis by (simp add: decode_known_def Some p step_ok_def vars_ok_def Let_def)
qed

lemma unknown_ok:
  assumes D: "decoding W n k env noinit fs dest counter" and v: "vars_ok W fs dest v" and ok: "source_ok (source s)" and t: "t \<noteq> - 1"
  shows "step_ok W (vars_ok W fs dest) (\<lambda>_. False) s h (decode_unknown k env noinit t wire_type v s h)"
proof -
  have skip: "step_ok W (vars_ok W fs dest) (\<lambda>_. False) s h (skip_unknown wire_type v' s h)" if "vars_ok W fs dest v'" for v'
  proof -
    obtain r s1 where c: "pb_skip_field wire_type s = (r, s1)" by fastforce
    from consumedD [OF consumed_skip_field [of s wire_type, unfolded c] ok] that c show ?thesis
      by (auto simp: skip_unknown_def step_ok_def split: option.splits)
  qed
  obtain found it where f: "find_extension_field (d_iter v) = Some (found, it)" "iter_ok W fs dest it"
      "found \<longrightarrow> PB_LTYPE (ftype (cur it)) = PB_LTYPE_EXTENSION"
    unfolding find_extension_field_def using find_ok [OF _ all_fields_found [OF D]] v unfolding vars_ok_def by blast
  have "\<not> found" using f(3) place [OF D f(2)] by (auto simp: place_ok_def static_type_def Let_def)
  moreover have "\<not> t \<ge> - 1" using t word_order.extremum_unique [of t] by simp
  ultimately show ?thesis
    using skip v f by (simp add: decode_unknown_def vars_ok_def Let_def)
qed

lemma next_ok:
  assumes D: "decoding W n k env noinit fs dest counter" and v: "vars_ok W fs dest v" and ok: "source_ok (source s)"
  shows "step_ok W (vars_ok W fs dest) (\<lambda>c. c = Continue) s h (decode_next k env noinit counter v s h)"
proof -
  obtain r eof s1 where d: "pb_decode_tag s = (r, eof, s1)" by (metis prod_cases3)
  note C = consumedD [OF consumed_tag [OF d] ok]
  show ?thesis
  proof (cases r)
    case None
    then show ?thesis using d v C by (simp add: decode_next_def step_ok_def)
  next
    case (Some p)
    obtain wt t where p: "p = (wt, t)" by fastforce
    have t: "t \<noteq> - 1"
      using d Some p drop_3 by (auto simp: pb_decode_tag_def split: prod.splits option.splits if_splits)
    obtain found it where f: "pb_field_iter_find (d_iter v) t = Some (found, it)" "iter_ok W fs dest it"
      unfolding pb_field_iter_find_def using find_ok [OF _ all_fields_found [OF D]] v unfolding vars_ok_def by metis
    have v1: "vars_ok W fs dest (v\<lparr>d_iter := it\<rparr>)" using f(2) by (simp add: vars_ok_def)
    have "bytes_left s1 < bytes_left s" using C(3) Some by simp
    with known_ok [OF D v1 C(1), of h wt] unknown_ok [OF D v1 C(1) t, of h wt] show ?thesis
      using d Some p f(1) by (cases found) (fastforce simp: decode_next_def step_ok_def)+
  qed
qed

lemma fields_loop_ok:
  assumes D: "decoding W n k env noinit fs dest counter" and "vars_ok W fs dest v" and "source_ok (source s)"
  shows "step_ok W (vars_ok W fs dest) (\<lambda>_. False) s h (fields_loop (decode_next k env noinit counter) v s h)"
  using assms(2,3)
proof (induction "bytes_left s" arbitrary: v s h rule: less_induct)
  case less
  show ?case
  proof (cases "bytes_left s = 0")
    case True
    then show ?thesis using less.prems by (subst fields_loop.simps) (auto simp: step_ok_def)
  next
    case False
    from next_ok [OF D less.prems, of h] obtain c v1 s1 h1 where
      d: "decode_next k env noinit counter v s h = Some (c, v1, s1, h1)" and
      1: "vars_ok W fs dest v1" "source_ok (source s1)" "only W h h1" "bytes_left s1 \<le> bytes_left s"
         "c = Continue \<Longrightarrow> bytes_left s1 < bytes_left s"
      unfolding step_ok_def by blast
    show ?thesis
    proof (cases "c = Continue")
      case True
      obtain ok v2 s2 h2 where
        "fields_loop (decode_next k env noinit counter) v1 s1 h1 = Some (ok, v2, s2, h2)"
        "vars_ok W fs dest v2" "source_ok (source s2)" "only W h1 h2" "bytes_left s2 \<le> bytes_left s1"
        using less.hyps [OF 1(5) [OF True] 1(1,2), of h1] unfolding step_ok_def by blast
      moreover have "only W h h2" using 1(3) calculation(4) by (rule only_trans)
      ultimately show ?thesis using d True False 1(4) by (subst fields_loop.simps) (simp add: step_ok_def)
    next
      case other: False
      then show ?thesis using d 1 False by (subst fields_loop.simps) (simp add: step_ok_def)
    qed
  qed
qed

lemma message_ok:
  assumes D: "decoding W n k env noinit fs dest counter"
  shows "confined W False (decode_message k env noinit counter fs dest)"
  unfolding confined_def
proof (intro allI)
  fix s h
  let ?v = "\<lparr>d_iter = snd (pb_field_iter_begin fs dest), fields_seen = [0, 0],
      extension_range_start = 0, fixed_count_field = None\<rparr>"
  have v: "vars_ok W fs dest ?v" using iter_ok_at [of 0 fs W dest] by (simp add: vars_ok_def begin_result)
  have o: "only W h (store32 counter 0 h)" using D by (intro only_store_int) (simp add: decoding_def)
  show "result_ok W False s h (decode_message k env noinit counter fs dest s h)"
    unfolding result_ok_def
  proof
    assume ok: "source_ok (source s)"
    obtain c v1 s1 h1 where
      "fields_loop (decode_next k env noinit counter) ?v s (store32 counter 0 h) = Some (c, v1, s1, h1)"
      "source_ok (source s1)" "only W (store32 counter 0 h) h1" "bytes_left s1 \<le> bytes_left s"
      using fields_loop_ok [OF D v ok, of "store32 counter 0 h"] unfolding step_ok_def by blast
    moreover have "only W h h1" using o calculation(3) by (rule only_trans)
    ultimately show "\<exists>ok s1 h1. decode_message k env noinit counter fs dest s h = Some (ok, s1, h1) \<and>
        source_ok (source s1) \<and> only W h h1 \<and> bytes_left s1 \<le> bytes_left s \<and>
        (False \<and> ok \<longrightarrow> bytes_left s1 < bytes_left s)"
      by (cases c) (auto simp: decode_message_def Let_def dec_error_def)
  qed
qed

lemma noinit_ok:
  assumes "\<And>j a. j < k \<Longrightarrow> within (counter_addr env j) 4 a \<Longrightarrow> W a" and "n < k"
    and "target_ok W n (descs env) fs dest"
  shows "confined W False (pb_decode_noinit k env fs dest)"
  using assms
proof (induction k arbitrary: n fs dest)
  case (Suc k)
  then obtain m where n: "n = Suc m" by (cases n) (auto simp: target_ok_def)
  have "nested_ok W m env (pb_decode_noinit k env)"
    unfolding nested_ok_def
  proof (intro allI impI)
    fix fs dest assume "target_ok W m (descs env) fs dest"
    then show "confined W False (pb_decode_noinit k env fs dest)"
      using Suc.prems(2) n by (intro Suc.IH [of m]) (blast intro: Suc.prems(1) less_SucI, simp_all)
  qed
  then have "confined W False (decode_message k env (pb_decode_noinit k env) (counter_addr env k) fs dest)"
    using Suc.prems n by (intro message_ok [where n = m]) (auto simp: decoding_def)
  then show ?case by simp
qed simp

section \<open>Property\<close>

text \<open>
  C7 (safety). Decoding into a message of static allocation is memory safe and ends, whatever the
  input: if the descriptors describe fields that fit in \<open>sz\<close> bytes with at most \<open>n\<close> levels of
  nesting, then \<open>pb_decode\<close> returns on every stream, with success or failure, has not read
  more than the stream had, has neither allocated nor freed a block, and has
  written only to the \<open>sz\<close> bytes of the message and to its own counters. The stream may be
  a memory buffer or a client callback that delivers no more bytes than it is asked for. That
  the fields fit includes that an array of fixed count spans at least four bytes: the last
  property of this theory shows that the code overruns a shorter one.
\<close>

theorem pb_decode_confined:
  assumes "message_fits n (descs env) fs sz" and "n < k"
    and "dest \<noteq> 0" and "unat dest + sz < 2 ^ 64" and "source_ok (source s)"
  shows "\<exists>ok s1 h1. pb_decode k env fs dest s h = Some (ok, s1, h1) \<and>
    bytes_left s1 \<le> bytes_left s \<and> blocks h1 = blocks h \<and>
    (\<forall>a. \<not> within dest sz a \<and> (\<forall>j<k. \<not> within (counter_addr env j) 4 a) \<longrightarrow> bytes h1 a = bytes h a)"
proof -
  let ?W = "\<lambda>a. within dest sz a \<or> (\<exists>j<k. within (counter_addr env j) 4 a)"
  have target: "target_ok ?W n (descs env) fs dest" using assms by (auto simp: target_ok_def)
  have "nested_ok ?W n env (pb_decode_noinit k env)"
    unfolding nested_ok_def
  proof (intro allI impI)
    fix fs dest assume "target_ok ?W n (descs env) fs dest"
    then show "confined ?W False (pb_decode_noinit k env fs dest)"
      by (intro noinit_ok [OF _ assms(2)]) blast+
  qed
  then have "confined ?W False (pb_decode k env fs dest)"
    unfolding pb_decode_def using assms(2) by (intro initialized_ok [OF _ _ target]) simp_all
  then have "result_ok ?W False s h (pb_decode k env fs dest s h)" by (rule confinedD)
  then obtain ok s1 h1 where "pb_decode k env fs dest s h = Some (ok, s1, h1)" "only ?W h h1"
      "bytes_left s1 \<le> bytes_left s"
    using assms(5) unfolding result_ok_def by blast
  then show ?thesis by (auto simp: only_def)
qed

text \<open>
  A message with a number, an array of at most eight small numbers with its counter, and an
  optional submessage with its flag, in 24 bytes.
\<close>

definition sample_types :: "addr \<Rightarrow> pb_field_t list" where
  "sample_types a = (if a = 0x500 then [PB_LAST_FIELD\<lparr>tag := 1, data_size := 1\<rparr>] else [])"

definition sample_message :: "pb_field_t list" where
  "sample_message =
     [PB_LAST_FIELD\<lparr>tag := 1, ftype := 0x01, data_size := 4\<rparr>,
      PB_LAST_FIELD\<lparr>tag := 2, ftype := 0x22, data_offset := 4, size_offset := - 4, data_size := 1, array_size := 8\<rparr>,
      PB_LAST_FIELD\<lparr>tag := 3, ftype := 0x18, data_offset := 4, size_offset := - 4, data_size := 4, ptr := 0x500\<rparr>]"

definition sample_dec_env :: "unit dec_env" where
  "sample_dec_env =
     \<lparr>descs = sample_types, realloc_at = \<lambda>_ _ _. None, counter_addr = \<lambda>k. 0x8000 + of_nat k * 4,
      decode_callback = \<lambda>_ _ _. stuck, extension_decode = \<lambda>_ _ _ _. stuck\<rparr>"

theorem pb_decode_confined_witness:
  "\<exists>ok s1 h1. pb_decode 3 sample_dec_env sample_message 0x1000
       (pb_istream_from_buffer [0x12, 0x09, 1, 2, 3, 4, 5, 6, 7, 8, 9] 11)
       \<lparr>bytes = \<lambda>_. 7, blocks = \<lambda>_. None\<rparr> = Some (ok, s1, h1) \<and> bytes h1 0x1018 = 7"
proof -
  let ?s = "pb_istream_from_buffer [0x12, 0x09, 1, 2, 3, 4, 5, 6, 7, 8, 9] 11 :: unit pb_istream_t"
  let ?h = "\<lparr>bytes = \<lambda>_. 7, blocks = \<lambda>_. None\<rparr> :: heap"
  have "message_fits 2 sample_types sample_message 24" by code_simp
  then have "message_fits 2 (descs sample_dec_env) sample_message 24" by (simp add: sample_dec_env_def)
  moreover have "source_ok (source ?s)" by (simp add: pb_istream_from_buffer_def)
  moreover have "(2::nat) < 3" "(0x1000 :: addr) \<noteq> 0" "unat (0x1000 :: addr) + 24 < 2 ^ 64" by simp_all
  ultimately obtain ok s1 h1 where
    d: "pb_decode 3 sample_dec_env sample_message 0x1000 ?s ?h = Some (ok, s1, h1)" and
    f: "\<forall>a. \<not> within 0x1000 24 a \<and> (\<forall>j<3. \<not> within (counter_addr sample_dec_env j) 4 a) \<longrightarrow>
          bytes h1 a = bytes ?h a"
    using pb_decode_confined [where h = ?h] by blast
  have "\<not> within 0x1000 24 0x1018" by (simp add: within_def)
  moreover have "\<not> within (counter_addr sample_dec_env j) 4 0x1018" if "j < 3" for j
  proof -
    have "j = 0 \<or> j = 1 \<or> j = 2" using that by auto
    then show ?thesis by (elim disjE) (simp_all add: within_def sample_dec_env_def)
  qed
  ultimately have "bytes h1 0x1018 = bytes ?h 0x1018" using f by blast
  then have "bytes h1 0x1018 = 7" by simp
  with d show ?thesis by blast
qed

section \<open>Two departures\<close>



lemma terminator [simp]:
  "tag PB_LAST_FIELD = 0" "PB_HTYPE (ftype PB_LAST_FIELD) = PB_HTYPE_REQUIRED"
  "PB_ATYPE (ftype PB_LAST_FIELD) = PB_ATYPE_STATIC" "PB_LTYPE (ftype PB_LAST_FIELD) = PB_LTYPE_BOOL"
  by (simp_all add: PB_LAST_FIELD_def PB_HTYPE_def PB_ATYPE_def PB_LTYPE_def pb_types)







text \<open>
  C12 (error). An array of fixed count has no counter in the message; its presence pointer is
  its data pointer. Setting it to defaults, with which \<^verbatim>\<open>pb_decode\<close> begins, stores a 32-bit zero
  through that pointer all the same: whatever the heap, the environment and the place of the
  field in its message, if the array has \<open>n < 4\<close> bytes then the bytes from \<open>n\<close> to 3 are
  cleared too, which lie behind it. This is why \<open>field_fits\<close> asks for four bytes.
\<close>

theorem fixed_count_reset_overruns:
  assumes "dest \<noteq> 0" and "i < num_fields fs"
    and "PB_ATYPE (ftype (field_at fs i)) = PB_ATYPE_STATIC" and "PB_HTYPE (ftype (field_at fs i)) = PB_HTYPE_REPEATED"
    and "PB_LTYPE (ftype (field_at fs i)) \<noteq> PB_LTYPE_EXTENSION"
    and "size_offset (field_at fs i) = 0"
    and "unat (data_size (field_at fs i)) * unat (array_size (field_at fs i)) = n" and "n < 4"
  shows "\<exists>h1. pb_field_set_to_default (Suc k) env (iter_at fs dest i) h = Some h1 \<and>
    (\<forall>j. n \<le> j \<and> j < 4 \<longrightarrow> bytes h1 (field_addr fs dest i + of_nat j) = 0)"
proof -
  let ?it = "iter_at fs dest i" let ?p = "field_addr fs dest i"
  have c: "cur ?it = field_at fs i" using assms(2) by (simp add: iter_at_pos)
  have p: "pData ?it = ?p" by (rule iter_at_data [OF assms(1,2)])
  have "pSize ?it = dest + size_addr (field_addr fs 0 i) (field_at fs i)"
    using assms(4) by (intro iter_size_own assms(1,2)) (simp add: pb_types)
  also have "size_addr (field_addr fs 0 i) (field_at fs i) = field_addr fs 0 i" by (simp only: size_addr_same assms(6))
  also have "dest + field_addr fs 0 i = ?p" by (rule field_addr_shift [symmetric])
  finally have q: "pSize ?it = ?p" .
  have "pb_field_set_to_default (Suc k) env ?it h = Some (store32 ?p 0 h)"
    unfolding pb_field_set_to_default.simps Let_def set_static_default_def c q using assms(3-5)
    by (simp only: if_True if_False simp_thms PB_HTYPE_REPEATED_def PB_HTYPE_OPTIONAL_def) simp
  moreover have "bytes (store32 ?p 0 h) (?p + of_nat j) = 0" if "j < 4" for j
  proof -
    have "unat (of_nat j :: addr) = j" using that by (simp add: unat_of_nat)
    moreover have "fixed32_bytes 0 ! j = 0"
    proof -
      have "fixed32_bytes 0 = replicate 4 0" by (simp add: fixed32_bytes_def numeral_eq_Suc)
      then show ?thesis using that by simp
    qed
    ultimately show ?thesis using that by (simp add: store32_def heap_store_def store_bytes_def length_fixed)
  qed
  ultimately show ?thesis by blast
qed

theorem fixed_count_reset_overruns_witness:
  "\<exists>h1. pb_field_set_to_default 1 sample_dec_env
       (iter_at [PB_LAST_FIELD\<lparr>tag := 1, ftype := 0x20, data_size := 1, array_size := 2\<rparr>] 0x1000 0)
       \<lparr>bytes = \<lambda>_. 0xAA, blocks = \<lambda>_. None\<rparr> = Some h1 \<and> bytes h1 0x1002 = 0 \<and> bytes h1 0x1003 = 0"
proof -
  let ?fs = "[PB_LAST_FIELD\<lparr>tag := 1, ftype := 0x20, data_size := 1, array_size := 2\<rparr>]"
  let ?h = "\<lparr>bytes = \<lambda>_. 0xAA, blocks = \<lambda>_. None\<rparr> :: heap"
  have f: "field_at ?fs 0 = PB_LAST_FIELD\<lparr>tag := 1, ftype := 0x20, data_size := 1, array_size := 2\<rparr>"
    by (simp add: field_at_def)
  have "(0x1000 :: addr) \<noteq> 0" "0 < num_fields ?fs" "PB_ATYPE (ftype (field_at ?fs 0)) = PB_ATYPE_STATIC"
      "PB_HTYPE (ftype (field_at ?fs 0)) = PB_HTYPE_REPEATED" "PB_LTYPE (ftype (field_at ?fs 0)) \<noteq> PB_LTYPE_EXTENSION"
      "size_offset (field_at ?fs 0) = 0" "unat (data_size (field_at ?fs 0)) * unat (array_size (field_at ?fs 0)) = 2" "(2 :: nat) < 4"
    unfolding f by (simp_all add: num_fields_def PB_ATYPE_def PB_HTYPE_def PB_LTYPE_def pb_types PB_LAST_FIELD_def)
  from fixed_count_reset_overruns [OF this, of 0 sample_dec_env ?h] obtain h1 where
    "pb_field_set_to_default (Suc 0) sample_dec_env (iter_at ?fs 0x1000 0) ?h = Some h1"
    and z: "\<forall>j. 2 \<le> j \<and> j < 4 \<longrightarrow> bytes h1 (field_addr ?fs 0x1000 0 + of_nat j) = 0" by blast
  moreover have "field_addr ?fs 0x1000 0 = 0x1000" by (simp add: field_at_def PB_LAST_FIELD_def)
  moreover from this z have "bytes h1 0x1002 = 0" "bytes h1 0x1003 = 0"
    using z [rule_format, of 2] z [rule_format, of 3] by simp_all
  ultimately show ?thesis by (simp only: One_nat_def) blast
qed

end
