(* ===== verification/Mem.thy ===== *)
theory Mem
  imports Prelude
begin

text \<open>
  String and memory helpers of BoringSSL's \<^verbatim>\<open>crypto/mem.c\<close> and the byte swaps of
  \<^verbatim>\<open>crypto/internal.h\<close>. Memory blocks are byte lists, C strings are byte lists that end
  with their first zero byte, \<^verbatim>\<open>int\<close> character arguments are mathematical integers. The
  system allocator is a parameter \<open>alloc\<close>: its answer to a request of a given size. An
  allocated block carries its contents, so \<open>None\<close> stands for the \<^verbatim>\<open>NULL\<close> result.
\<close>

section \<open>Copies into a block\<close>

text \<open>\<^verbatim>\<open>OPENSSL_memcpy(&b[pos], bs, len)\<close> and \<^verbatim>\<open>OPENSSL_memset\<close> within a block.\<close>

definition store_at :: "nat \<Rightarrow> byte list \<Rightarrow> byte list \<Rightarrow> byte list" where
  "store_at pos bs b = take pos b @ bs @ drop (pos + length bs) b"

lemma store_at_take:
  "pos \<le> length b \<Longrightarrow> take (pos + length bs) (store_at pos bs b) = take pos b @ bs"
  by (simp add: store_at_def)

lemma length_store_at [simp]: "pos + length bs \<le> length b \<Longrightarrow> length (store_at pos bs b) = length b"
  by (simp add: store_at_def)

section \<open>Allocation\<close>

text \<open>
  \<open>OPENSSL_malloc\<close> asks for an 8 byte prefix that holds the size; what matters to callers is
  whether it succeeds. \<open>alloc\<close> is the answer of \<^verbatim>\<open>malloc\<close> (the weak hooks and the
  failure-testing build are not compiled in).
\<close>

definition OPENSSL_malloc :: "(size_t \<Rightarrow> bool) \<Rightarrow> size_t \<Rightarrow> bool" where
  "OPENSSL_malloc alloc sz = (\<not> (sz + 8 < sz) \<and> alloc (sz + 8))"

definition OPENSSL_zalloc :: "(size_t \<Rightarrow> bool) \<Rightarrow> size_t \<Rightarrow> byte list option" where
  "OPENSSL_zalloc alloc sz = (if OPENSSL_malloc alloc sz then Some (replicate (unat sz) 0) else None)"

definition OPENSSL_calloc :: "(size_t \<Rightarrow> bool) \<Rightarrow> size_t \<Rightarrow> size_t \<Rightarrow> byte list option" where
  "OPENSSL_calloc alloc num sz =
     (if sz \<noteq> 0 \<and> num > (- 1) div sz then None else OPENSSL_zalloc alloc (num * sz))"

text \<open>
  \<open>fresh\<close> is what the new block holds before it is written. \<open>None\<close> as the old block is the
  \<^verbatim>\<open>NULL\<close> pointer.
\<close>

definition OPENSSL_realloc ::
  "(size_t \<Rightarrow> bool) \<Rightarrow> (nat \<Rightarrow> byte) \<Rightarrow> byte list option \<Rightarrow> size_t \<Rightarrow> byte list option" where
  "OPENSSL_realloc alloc fresh orig new_size =
     (if \<not> OPENSSL_malloc alloc new_size then None
      else let ret = map fresh [0..<unat new_size] in
        case orig of
          None \<Rightarrow> Some ret
        | Some old \<Rightarrow>
            let to_copy = (if length old < unat new_size then length old else unat new_size)
            in Some (take to_copy old @ drop to_copy ret))"

definition OPENSSL_memdup :: "(size_t \<Rightarrow> bool) \<Rightarrow> byte list \<Rightarrow> byte list option" where
  "OPENSSL_memdup alloc data =
     (if length data = 0 then None
      else if OPENSSL_malloc alloc (of_nat (length data)) then Some data else None)"

section \<open>Comparison and hashing\<close>

definition CRYPTO_memcmp :: "byte list \<Rightarrow> byte list \<Rightarrow> nat \<Rightarrow> byte" where
  "CRYPTO_memcmp a b len = foldl (\<lambda>x i. x OR (a ! i XOR b ! i)) 0 [0..<len]"

definition OPENSSL_hash32 :: "byte list \<Rightarrow> u32" where
  "OPENSSL_hash32 ptr = foldl (\<lambda>h b. (h XOR ucast b) * 16777619) 2166136261 ptr"

fun strlen :: "byte list \<Rightarrow> nat" where
  "strlen [] = 0"
| "strlen (c # s) = (if c = 0 then 0 else Suc (strlen s))"

definition OPENSSL_strhash :: "byte list \<Rightarrow> u32" where
  "OPENSSL_strhash s = OPENSSL_hash32 (take (strlen s) s)"

section \<open>Strings\<close>

function strnlen_loop :: "byte list \<Rightarrow> nat \<Rightarrow> nat \<Rightarrow> nat" where
  "strnlen_loop s len i =
     (if i < len then (if s ! i = 0 then i else strnlen_loop s len (i + 1)) else len)"
  by pat_completeness auto
termination by (relation "measure (\<lambda>(_, len, i). len - i)") auto

declare strnlen_loop.simps [simp del]

definition OPENSSL_strnlen :: "byte list \<Rightarrow> nat \<Rightarrow> nat" where
  "OPENSSL_strnlen s len = strnlen_loop s len 0"

definition OPENSSL_strdup :: "(size_t \<Rightarrow> bool) \<Rightarrow> byte list option \<Rightarrow> byte list option" where
  "OPENSSL_strdup alloc sp =
     (case sp of
        None \<Rightarrow> None
      | Some s \<Rightarrow>
          let len = strlen s + 1 in
          if OPENSSL_malloc alloc (of_nat len) then Some (take len s) else None)"

definition OPENSSL_strndup :: "(size_t \<Rightarrow> bool) \<Rightarrow> byte list \<Rightarrow> nat \<Rightarrow> byte list option" where
  "OPENSSL_strndup alloc str size0 =
     (let sz = OPENSSL_strnlen str size0;
          alloc_size = (of_nat sz + 1 :: size_t)
      in if alloc_size < of_nat sz then None
         else if \<not> OPENSSL_malloc alloc alloc_size then None
         else Some (take sz str @ [0]))"

text \<open>
  \<^verbatim>\<open>OPENSSL_strlcpy\<close>: the bytes stored at \<open>dst\<close> and the returned length.
\<close>

fun strlcpy_loop :: "byte list \<Rightarrow> nat \<Rightarrow> nat \<Rightarrow> byte list \<Rightarrow> byte list \<times> nat \<times> nat \<times> byte list" where
  "strlcpy_loop (c # src) dst_size l dst =
     (if dst_size > 1 \<and> c \<noteq> 0 then strlcpy_loop src (dst_size - 1) (l + 1) (dst @ [c])
      else (dst, dst_size, l, c # src))"
| "strlcpy_loop [] dst_size l dst = (dst, dst_size, l, [])"

definition OPENSSL_strlcpy :: "byte list \<Rightarrow> nat \<Rightarrow> byte list \<times> nat" where
  "OPENSSL_strlcpy src dst_size =
     (case strlcpy_loop src dst_size 0 [] of
        (dst, n, l, rest) \<Rightarrow> ((if n \<noteq> 0 then dst @ [0] else dst), l + strlen rest))"

text \<open>\<^verbatim>\<open>OPENSSL_strlcat\<close>: the string that \<open>dst\<close> holds, then the copy behind it.\<close>

fun strlcat_loop :: "byte list \<Rightarrow> nat \<Rightarrow> nat \<Rightarrow> nat \<times> nat" where
  "strlcat_loop (c # dst) dst_size l =
     (if dst_size > 0 \<and> c \<noteq> 0 then strlcat_loop dst (dst_size - 1) (l + 1) else (dst_size, l))"
| "strlcat_loop [] dst_size l = (dst_size, l)"

definition OPENSSL_strlcat :: "byte list \<Rightarrow> byte list \<Rightarrow> nat \<Rightarrow> byte list \<times> nat" where
  "OPENSSL_strlcat dst src dst_size =
     (case strlcat_loop dst dst_size 0 of
        (n, l) \<Rightarrow> (case OPENSSL_strlcpy src n of (out, k) \<Rightarrow> (take l dst @ out, l + k)))"

section \<open>Character classes\<close>

definition OPENSSL_isalpha :: "int \<Rightarrow> bool" where
  "OPENSSL_isalpha c = ((c \<ge> 97 \<and> c \<le> 122) \<or> (c \<ge> 65 \<and> c \<le> 90))"

definition OPENSSL_isdigit :: "int \<Rightarrow> bool" where
  "OPENSSL_isdigit c = (c \<ge> 48 \<and> c \<le> 57)"

definition OPENSSL_isxdigit :: "int \<Rightarrow> bool" where
  "OPENSSL_isxdigit c = (OPENSSL_isdigit c \<or> (c \<ge> 97 \<and> c \<le> 102) \<or> (c \<ge> 65 \<and> c \<le> 70))"

definition OPENSSL_fromxdigit :: "int \<Rightarrow> byte option" where
  "OPENSSL_fromxdigit c =
     (if OPENSSL_isdigit c then Some (of_int (c - 48))
      else if 97 \<le> c \<and> c \<le> 102 then Some (of_int (c - 97 + 10))
      else if 65 \<le> c \<and> c \<le> 70 then Some (of_int (c - 65 + 10))
      else None)"

definition OPENSSL_isalnum :: "int \<Rightarrow> bool" where
  "OPENSSL_isalnum c = (OPENSSL_isalpha c \<or> OPENSSL_isdigit c)"

definition OPENSSL_tolower :: "int \<Rightarrow> int" where
  "OPENSSL_tolower c = (if c \<ge> 65 \<and> c \<le> 90 then c + (97 - 65) else c)"

definition OPENSSL_isspace :: "int \<Rightarrow> bool" where
  "OPENSSL_isspace c = (c = 9 \<or> c = 10 \<or> c = 11 \<or> c = 12 \<or> c = 13 \<or> c = 32)"

text \<open>
  \<^verbatim>\<open>char\<close> is signed: an element of a C string reads as \<open>sint\<close>. Reading past the list
  would be reading past the terminator, which the loops stop at; the empty list stands for
  the terminator.
\<close>

fun OPENSSL_strcasecmp :: "byte list \<Rightarrow> byte list \<Rightarrow> int" where
  "OPENSSL_strcasecmp a b =
     (let aa = OPENSSL_tolower (case a of [] \<Rightarrow> 0 | c # _ \<Rightarrow> sint c);
          bb = OPENSSL_tolower (case b of [] \<Rightarrow> 0 | c # _ \<Rightarrow> sint c)
      in if aa < bb then -1 else if aa > bb then 1
         else if aa = 0 then 0
         else case a of [] \<Rightarrow> 0 | _ # a' \<Rightarrow> OPENSSL_strcasecmp a' (tl b))"

declare OPENSSL_strcasecmp.simps [simp del]

fun OPENSSL_strncasecmp :: "byte list \<Rightarrow> byte list \<Rightarrow> nat \<Rightarrow> int" where
  "OPENSSL_strncasecmp a b 0 = 0"
| "OPENSSL_strncasecmp a b (Suc n) =
     (let aa = OPENSSL_tolower (case a of [] \<Rightarrow> 0 | c # _ \<Rightarrow> sint c);
          bb = OPENSSL_tolower (case b of [] \<Rightarrow> 0 | c # _ \<Rightarrow> sint c)
      in if aa < bb then -1 else if aa > bb then 1
         else if aa = 0 then 0
         else OPENSSL_strncasecmp (tl a) (tl b) n)"

section \<open>Byte swaps\<close>

definition CRYPTO_bswap2 :: "u16 \<Rightarrow> u16" where
  "CRYPTO_bswap2 x = drop_bit 8 x OR push_bit 8 x"

definition CRYPTO_bswap4 :: "u32 \<Rightarrow> u32" where
  "CRYPTO_bswap4 x0 =
     (let x = drop_bit 16 x0 OR push_bit 16 x0
      in drop_bit 8 (x AND 0xff00ff00) OR push_bit 8 (x AND 0x00ff00ff))"

definition CRYPTO_bswap8 :: "u64 \<Rightarrow> u64" where
  "CRYPTO_bswap8 x =
     ucast (CRYPTO_bswap4 (ucast (drop_bit 32 x))) OR push_bit 32 (ucast (CRYPTO_bswap4 (ucast x)))"


section \<open>Properties\<close>

lemma or_xor_fold_zero:
  "foldl (\<lambda>x i. x OR (a ! i XOR b ! i)) x is = 0 \<longleftrightarrow>
   x = 0 \<and> (\<forall>i \<in> set is. (a ! i :: byte) = b ! i)"
proof (induction "is" arbitrary: x)
  case (Cons i "is")
  have "x OR (a ! i XOR b ! i) = 0 \<longleftrightarrow> x = 0 \<and> a ! i = b ! i"
    by (auto simp: bit_eq_iff bit_or_iff bit_xor_iff)
  with Cons show ?case by auto
qed simp

text \<open>
  The constant-time comparison \<^verbatim>\<open>CRYPTO_memcmp\<close>, which touches every byte
  whatever the data, is zero exactly for equal blocks.
\<close>

theorem CRYPTO_memcmp_zero_iff:
  "CRYPTO_memcmp a b n = 0 \<longleftrightarrow> (\<forall>i. i < n \<longrightarrow> a ! i = b ! i)"
  by (simp add: CRYPTO_memcmp_def or_xor_fold_zero Ball_def)

theorem CRYPTO_memcmp_zero_iff_witness:
  "CRYPTO_memcmp [1, 2, 3] [1, 2, 4] 2 = 0 \<and> CRYPTO_memcmp [1, 2, 3] [1, 2, 4] 3 \<noteq> 0"
  using CRYPTO_memcmp_zero_iff [of "[1, 2, 3]" "[1, 2, 4]" 2]
    CRYPTO_memcmp_zero_iff [of "[1, 2, 3]" "[1, 2, 4]" 3]
  by (auto simp: less_Suc_eq numeral_eq_Suc)

lemma strlen_le: "strlen s \<le> length s"
  by (induction s) auto

lemma strlcpy_loop_eq:
  "strlcpy_loop src n l dst =
     (let k = min (n - 1) (strlen src) in (dst @ take k src, n - k, l + k, drop k src))"
proof (induction src n l dst rule: strlcpy_loop.induct)
  case (1 c src n l dst)
  show ?case
  proof (cases "n > 1 \<and> c \<noteq> 0")
    case True
    then obtain m where n: "n = Suc (Suc m)" by (metis Suc_lessE One_nat_def less_iff_Suc_add add_Suc)
    with True 1 show ?thesis by (simp add: Let_def)
  next
    case False
    then show ?thesis by (auto simp: Let_def)
  qed
qed (simp add: Let_def)

lemma strlen_drop: "k \<le> strlen s \<Longrightarrow> strlen (drop k s) = strlen s - k"
  by (induction s arbitrary: k) (auto simp: drop_Cons split: nat.splits)

lemma strlcpy_eq:
  "OPENSSL_strlcpy src n =
     (if n = 0 then [] else take (min (n - 1) (strlen src)) src @ [0], strlen src)"
  by (auto simp: OPENSSL_strlcpy_def strlcpy_loop_eq Let_def strlen_drop)

lemma strlcat_loop_eq:
  "strlcat_loop dst n l = (let k = min n (strlen dst) in (n - k, l + k))"
  by (induction dst n l rule: strlcat_loop.induct) (auto simp: Let_def min_def)

text \<open>
  \<^verbatim>\<open>OPENSSL_strlcat\<close> on a buffer of \<open>n\<close> bytes holding a string never fills more
  than \<open>n\<close> bytes and leaves a terminated string whenever the old one was terminated
  inside the buffer: the concatenation cut to \<open>n - 1\<close> characters. It returns the length the
  whole concatenation would have had, so the caller sees truncation as a result of at
  least \<open>n\<close>.
\<close>

theorem strlcat_bounded:
  assumes "strlen dst < n" and "OPENSSL_strlcat dst src n = (out, r)"
  shows "length out \<le> n \<and>
    out = take (n - 1) (take (strlen dst) dst @ take (strlen src) src) @ [0] \<and>
    r = strlen dst + strlen src"
  using assms strlen_le [of dst] strlen_le [of src]
  by (cases "n - 1 = strlen dst") (auto simp: OPENSSL_strlcat_def strlcat_loop_eq strlcpy_eq Let_def min_def split: if_splits)

theorem strlcat_bounded_witness:
  "strlen [97, 98, 0] < 5 \<and>
   OPENSSL_strlcat [97, 98, 0] [99, 100, 101, 0] 5 = ([97, 98, 99, 100, 0], 5) \<and>
   length [97, 98, 99, 100, 0 :: byte] \<le> 5"
proof -
  have "strlen [97, 98, 0] < 5"
      "OPENSSL_strlcat [97, 98, 0] [99, 100, 101, 0] 5 = ([97, 98, 99, 100, 0], 5)"
    by code_simp+
  with strlcat_bounded [OF this] show ?thesis by simp
qed

lemma strnlen_loop_eq:
  "i \<le> n \<Longrightarrow> n \<le> length s \<Longrightarrow> strnlen_loop s n i = i + strlen (take (n - i) (drop i s))"
proof (induction s n i rule: strnlen_loop.induct)
  case (1 s n i)
  show ?case
  proof (cases "i < n")
    case True
    then have "take (n - i) (drop i s) = s ! i # take (n - (i + 1)) (drop (i + 1) s)"
      using "1.prems" by (simp add: Cons_nth_drop_Suc [symmetric] Suc_diff_Suc take_Cons')
    with True 1 show ?thesis by (simp add: strnlen_loop.simps [of s n i])
  next
    case False
    with 1 have "n = i" by simp
    then show ?thesis by (simp add: strnlen_loop.simps [of s i i])
  qed
qed

lemma strnlen_eq: "n \<le> length s \<Longrightarrow> OPENSSL_strnlen s n = strlen (take n s)"
  by (simp add: OPENSSL_strnlen_def strnlen_loop_eq)

text \<open>The swaps reverse the bytes: they are the masked form of the portable code.\<close>

lemma bswap2_bytes:
  "CRYPTO_bswap2 (push_bit 8 (ucast a) OR ucast b) = push_bit 8 (ucast b) OR ucast (a :: byte)"
  for b :: byte
  by (rule bit_word_eqI) (auto simp: CRYPTO_bswap2_def bit_simps dest: bit_byte_le)

end
