(* ===== verification/Cbs.thy ===== *)
theory Cbs
  imports Mem
begin

unbundle bit_operations_syntax

text \<open>
  BoringSSL's byte-string reader (\<^verbatim>\<open>crypto/bytestring/cbs.c\<close>). A \<^verbatim>\<open>CBS\<close> is a pointer and
  a length; it is modelled by the bytes between them, which the reader consumes from the
  front. Every operation returns its result (\<open>None\<close> where the C function returns zero) with the
  \<^verbatim>\<open>CBS\<close> as it is left, in the failing cases too: a failed read may have consumed input.
  Output parameters count on success only. \<^verbatim>\<open>size_t\<close> is 64 bits wide; lengths are natural
  numbers except where the source computes with them at that width.
\<close>

section \<open>Bytes and integers\<close>

type_synonym CBS = "byte list"
type_synonym 'a cbs_result = "'a option \<times> CBS"

definition CBS_init :: "byte list \<Rightarrow> nat \<Rightarrow> CBS" where
  "CBS_init data len = take len data"

definition cbs_get :: "nat \<Rightarrow> CBS \<Rightarrow> byte list cbs_result" where
  "cbs_get n cbs = (if length cbs < n then (None, cbs) else (Some (take n cbs), drop n cbs))"

definition CBS_skip :: "nat \<Rightarrow> CBS \<Rightarrow> unit cbs_result" where
  "CBS_skip len cbs = (case cbs_get len cbs of (None, c) \<Rightarrow> (None, c) | (Some _, c) \<Rightarrow> (Some (), c))"

definition CBS_data :: "CBS \<Rightarrow> byte list" where
  "CBS_data cbs = cbs"

definition CBS_len :: "CBS \<Rightarrow> nat" where
  "CBS_len cbs = length cbs"

text \<open>The copy that \<^verbatim>\<open>CBS_stow\<close> leaves in \<open>out_ptr\<close>, \<open>Some None\<close> being success with \<^verbatim>\<open>NULL\<close>.\<close>

definition CBS_stow :: "(size_t \<Rightarrow> bool) \<Rightarrow> CBS \<Rightarrow> byte list option option" where
  "CBS_stow alloc cbs =
     (if length cbs = 0 then Some None
      else case OPENSSL_memdup alloc cbs of None \<Rightarrow> None | Some p \<Rightarrow> Some (Some p))"

definition CBS_strdup :: "(size_t \<Rightarrow> bool) \<Rightarrow> CBS \<Rightarrow> byte list option" where
  "CBS_strdup alloc cbs = OPENSSL_strndup alloc cbs (length cbs)"

fun memchr :: "byte list \<Rightarrow> byte \<Rightarrow> nat option" where
  "memchr [] c = None"
| "memchr (b # s) c = (if b = c then Some 0 else map_option Suc (memchr s c))"

definition CBS_contains_zero_byte :: "CBS \<Rightarrow> bool" where
  "CBS_contains_zero_byte cbs = (memchr cbs 0 \<noteq> None)"

definition CBS_mem_equal :: "CBS \<Rightarrow> byte list \<Rightarrow> bool" where
  "CBS_mem_equal cbs data =
     (if length data \<noteq> length cbs then False else CRYPTO_memcmp cbs data (length data) = 0)"

definition be_word :: "byte list \<Rightarrow> u64" where
  "be_word data = foldl (\<lambda>result d. push_bit 8 result OR ucast d) 0 data"

definition cbs_get_u :: "nat \<Rightarrow> CBS \<Rightarrow> u64 cbs_result" where
  "cbs_get_u len cbs =
     (case cbs_get len cbs of
        (None, c) \<Rightarrow> (None, c) | (Some data, c) \<Rightarrow> (Some (be_word data), c))"

definition CBS_get_u8 :: "CBS \<Rightarrow> byte cbs_result" where
  "CBS_get_u8 cbs =
     (case cbs_get 1 cbs of (None, c) \<Rightarrow> (None, c) | (Some v, c) \<Rightarrow> (Some (hd v), c))"

definition CBS_get_u16 :: "CBS \<Rightarrow> u16 cbs_result" where
  "CBS_get_u16 cbs =
     (case cbs_get_u 2 cbs of (None, c) \<Rightarrow> (None, c) | (Some v, c) \<Rightarrow> (Some (ucast v), c))"

definition CBS_get_u16le :: "CBS \<Rightarrow> u16 cbs_result" where
  "CBS_get_u16le cbs =
     (case CBS_get_u16 cbs of (None, c) \<Rightarrow> (None, c) | (Some v, c) \<Rightarrow> (Some (CRYPTO_bswap2 v), c))"

definition CBS_get_u24 :: "CBS \<Rightarrow> u32 cbs_result" where
  "CBS_get_u24 cbs =
     (case cbs_get_u 3 cbs of (None, c) \<Rightarrow> (None, c) | (Some v, c) \<Rightarrow> (Some (ucast v), c))"

definition CBS_get_u32 :: "CBS \<Rightarrow> u32 cbs_result" where
  "CBS_get_u32 cbs =
     (case cbs_get_u 4 cbs of (None, c) \<Rightarrow> (None, c) | (Some v, c) \<Rightarrow> (Some (ucast v), c))"

definition CBS_get_u32le :: "CBS \<Rightarrow> u32 cbs_result" where
  "CBS_get_u32le cbs =
     (case CBS_get_u32 cbs of (None, c) \<Rightarrow> (None, c) | (Some v, c) \<Rightarrow> (Some (CRYPTO_bswap4 v), c))"

definition CBS_get_u64 :: "CBS \<Rightarrow> u64 cbs_result" where
  "CBS_get_u64 cbs = cbs_get_u 8 cbs"

definition CBS_get_u64le :: "CBS \<Rightarrow> u64 cbs_result" where
  "CBS_get_u64le cbs =
     (case cbs_get_u 8 cbs of (None, c) \<Rightarrow> (None, c) | (Some v, c) \<Rightarrow> (Some (CRYPTO_bswap8 v), c))"

definition CBS_get_last_u8 :: "CBS \<Rightarrow> byte cbs_result" where
  "CBS_get_last_u8 cbs =
     (if length cbs = 0 then (None, cbs) else (Some (cbs ! (length cbs - 1)), butlast cbs))"

definition CBS_get_bytes :: "nat \<Rightarrow> CBS \<Rightarrow> CBS cbs_result" where
  "CBS_get_bytes len cbs =
     (case cbs_get len cbs of (None, c) \<Rightarrow> (None, c) | (Some v, c) \<Rightarrow> (Some (CBS_init v len), c))"

definition CBS_copy_bytes :: "nat \<Rightarrow> CBS \<Rightarrow> byte list cbs_result" where
  "CBS_copy_bytes len cbs =
     (case cbs_get len cbs of (None, c) \<Rightarrow> (None, c) | (Some v, c) \<Rightarrow> (Some v, c))"

definition cbs_get_length_prefixed :: "nat \<Rightarrow> CBS \<Rightarrow> CBS cbs_result" where
  "cbs_get_length_prefixed len_len cbs =
     (case cbs_get_u len_len cbs of
        (None, c) \<Rightarrow> (None, c) | (Some len, c) \<Rightarrow> CBS_get_bytes (unat len) c)"

definition CBS_get_u8_length_prefixed :: "CBS \<Rightarrow> CBS cbs_result" where
  "CBS_get_u8_length_prefixed = cbs_get_length_prefixed 1"

definition CBS_get_u16_length_prefixed :: "CBS \<Rightarrow> CBS cbs_result" where
  "CBS_get_u16_length_prefixed = cbs_get_length_prefixed 2"

definition CBS_get_u24_length_prefixed :: "CBS \<Rightarrow> CBS cbs_result" where
  "CBS_get_u24_length_prefixed = cbs_get_length_prefixed 3"

definition CBS_get_until_first :: "byte \<Rightarrow> CBS \<Rightarrow> CBS cbs_result" where
  "CBS_get_until_first c cbs =
     (case memchr cbs c of None \<Rightarrow> (None, cbs) | Some split \<Rightarrow> CBS_get_bytes split cbs)"

text \<open>
  The loop of \<^verbatim>\<open>CBS_get_u64_decimal\<close>; \<open>- 1\<close> is \<^verbatim>\<open>UINT64_MAX\<close>. A forbidden digit has
  been skipped when the function fails.
\<close>

fun u64_decimal_loop :: "u64 \<Rightarrow> bool \<Rightarrow> CBS \<Rightarrow> (u64 \<times> bool) cbs_result" where
  "u64_decimal_loop v seen_digit [] = (Some (v, seen_digit), [])"
| "u64_decimal_loop v seen_digit (c # cbs) =
     (if \<not> OPENSSL_isdigit (uint c) then (Some (v, seen_digit), c # cbs)
      else if (v = 0 \<and> seen_digit) \<or> v > (- 1) div 10 \<or> v * 10 > - 1 - ucast (c - 48)
      then (None, cbs)
      else u64_decimal_loop (v * 10 + ucast (c - 48)) True cbs)"

definition CBS_get_u64_decimal :: "CBS \<Rightarrow> u64 cbs_result" where
  "CBS_get_u64_decimal cbs =
     (case u64_decimal_loop 0 False cbs of
        (None, c) \<Rightarrow> (None, c)
      | (Some (v, seen_digit), c) \<Rightarrow> ((if seen_digit then Some v else None), c))"

section \<open>ASN.1 elements\<close>

fun base128_loop :: "u64 \<Rightarrow> CBS \<Rightarrow> u64 cbs_result" where
  "base128_loop v [] = (None, [])"
| "base128_loop v (b # cbs) =
     (if drop_bit (64 - 7) v \<noteq> 0 then (None, cbs)
      else if v = 0 \<and> b = 0x80 then (None, cbs)
      else let v' = push_bit 7 v OR ucast (b AND 0x7f)
           in if b AND 0x80 \<noteq> 0 then base128_loop v' cbs else (Some v', cbs))"

definition parse_base128_integer :: "CBS \<Rightarrow> u64 cbs_result" where
  "parse_base128_integer cbs = base128_loop 0 cbs"

type_synonym CBS_ASN1_TAG = u32

definition CBS_ASN1_CONSTRUCTED :: CBS_ASN1_TAG where "CBS_ASN1_CONSTRUCTED = push_bit 24 0x20"
definition CBS_ASN1_TAG_NUMBER_MASK :: CBS_ASN1_TAG where
  "CBS_ASN1_TAG_NUMBER_MASK = push_bit (5 + 24) 1 - 1"
definition CBS_ASN1_BOOLEAN :: CBS_ASN1_TAG where "CBS_ASN1_BOOLEAN = 1"
definition CBS_ASN1_INTEGER :: CBS_ASN1_TAG where "CBS_ASN1_INTEGER = 2"
definition CBS_ASN1_OCTETSTRING :: CBS_ASN1_TAG where "CBS_ASN1_OCTETSTRING = 4"

text \<open>The end of \<^verbatim>\<open>parse_asn1_tag\<close>: join class and number, reject [UNIVERSAL 0].\<close>

definition finish_tag :: "CBS_ASN1_TAG \<Rightarrow> CBS_ASN1_TAG \<Rightarrow> CBS \<Rightarrow> CBS_ASN1_TAG cbs_result" where
  "finish_tag tag0 tag_number cbs =
     (let tag = tag0 OR tag_number in
      if tag AND NOT CBS_ASN1_CONSTRUCTED = 0 then (None, cbs) else (Some tag, cbs))"

definition parse_asn1_tag :: "CBS \<Rightarrow> CBS_ASN1_TAG cbs_result" where
  "parse_asn1_tag cbs =
     (case CBS_get_u8 cbs of
        (None, c) \<Rightarrow> (None, c)
      | (Some tag_byte, c) \<Rightarrow>
          let tag = push_bit 24 (ucast tag_byte AND 0xe0);
              tag_number = ucast (tag_byte AND 0x1f)
          in if tag_number = 0x1f then
               (case parse_base128_integer c of
                  (None, c1) \<Rightarrow> (None, c1)
                | (Some v, c1) \<Rightarrow>
                    if v > ucast CBS_ASN1_TAG_NUMBER_MASK \<or> v < 0x1f then (None, c1)
                    else finish_tag tag (ucast v) c1)
             else finish_tag tag tag_number c)"

text \<open>The output parameters of \<^verbatim>\<open>cbs_get_any_asn1_element\<close>.\<close>

record asn1_element =
  element :: CBS
  out_tag :: CBS_ASN1_TAG
  out_header_len :: nat
  out_ber_found :: bool
  out_indefinite :: bool

definition get_element ::
  "CBS_ASN1_TAG \<Rightarrow> nat \<Rightarrow> bool \<Rightarrow> bool \<Rightarrow> nat \<Rightarrow> CBS \<Rightarrow> asn1_element cbs_result" where
  "get_element tag header_len ber_found indefinite len cbs =
     (case CBS_get_bytes len cbs of
        (None, c) \<Rightarrow> (None, c)
      | (Some el, c) \<Rightarrow>
          (Some \<lparr>element = el, out_tag = tag, out_header_len = header_len,
                 out_ber_found = ber_found, out_indefinite = indefinite\<rparr>, c))"

text \<open>
  The header is read from a copy, so \<open>cbs\<close> moves only with the final \<^verbatim>\<open>CBS_get_bytes\<close>.
\<close>

definition cbs_get_any_asn1_element :: "bool \<Rightarrow> CBS \<Rightarrow> asn1_element cbs_result" where
  "cbs_get_any_asn1_element ber_ok cbs =
     (case parse_asn1_tag cbs of
        (None, _) \<Rightarrow> (None, cbs)
      | (Some tag, header) \<Rightarrow>
     (case CBS_get_u8 header of
        (None, _) \<Rightarrow> (None, cbs)
      | (Some length_byte, header1) \<Rightarrow>
          let header_len = CBS_len cbs - CBS_len header1 in
          if length_byte AND 0x80 = 0 then
            get_element tag header_len False False (unat length_byte + header_len) cbs
          else
            let num_bytes = unat (length_byte AND 0x7f) in
            if ber_ok \<and> tag AND CBS_ASN1_CONSTRUCTED \<noteq> 0 \<and> num_bytes = 0 then
              get_element tag header_len True True header_len cbs
            else if num_bytes = 0 \<or> num_bytes > 4 then (None, cbs)
            else (case cbs_get_u num_bytes header1 of
                (None, _) \<Rightarrow> (None, cbs)
              | (Some len64, header2) \<Rightarrow>
                  let long = len64 < 128; padded = drop_bit ((num_bytes - 1) * 8) len64 = 0 in
                  if \<not> ber_ok \<and> (long \<or> padded) then (None, cbs)
                  else
                    let total = len64 + of_nat header_len + of_nat num_bytes :: size_t in
                    if total < len64 then (None, cbs)
                    else get_element tag (header_len + num_bytes) (long \<or> padded) False
                           (unat total) cbs)))"

definition CBS_get_any_asn1_element :: "CBS \<Rightarrow> asn1_element cbs_result" where
  "CBS_get_any_asn1_element = cbs_get_any_asn1_element False"

definition CBS_get_any_ber_asn1_element :: "CBS \<Rightarrow> asn1_element cbs_result" where
  "CBS_get_any_ber_asn1_element = cbs_get_any_asn1_element True"

definition CBS_get_any_asn1 :: "CBS \<Rightarrow> (CBS \<times> CBS_ASN1_TAG) cbs_result" where
  "CBS_get_any_asn1 cbs =
     (case CBS_get_any_asn1_element cbs of
        (None, c) \<Rightarrow> (None, c)
      | (Some e, c) \<Rightarrow>
          (case CBS_skip (out_header_len e) (element e) of
             (None, _) \<Rightarrow> (None, c)
           | (Some _, contents) \<Rightarrow> (Some (contents, out_tag e), c)))"

definition cbs_get_asn1 :: "CBS_ASN1_TAG \<Rightarrow> bool \<Rightarrow> CBS \<Rightarrow> CBS cbs_result" where
  "cbs_get_asn1 tag_value skip_header cbs =
     (case CBS_get_any_asn1_element cbs of
        (None, c) \<Rightarrow> (None, c)
      | (Some e, c) \<Rightarrow>
          if out_tag e \<noteq> tag_value then (None, c)
          else if skip_header then
            (case CBS_skip (out_header_len e) (element e) of
               (None, _) \<Rightarrow> (None, c) | (Some _, contents) \<Rightarrow> (Some contents, c))
          else (Some (element e), c))"

definition CBS_get_asn1 :: "CBS_ASN1_TAG \<Rightarrow> CBS \<Rightarrow> CBS cbs_result" where
  "CBS_get_asn1 tag_value = cbs_get_asn1 tag_value True"

definition CBS_get_asn1_element :: "CBS_ASN1_TAG \<Rightarrow> CBS \<Rightarrow> CBS cbs_result" where
  "CBS_get_asn1_element tag_value = cbs_get_asn1 tag_value False"

definition CBS_peek_asn1_tag :: "CBS_ASN1_TAG \<Rightarrow> CBS \<Rightarrow> bool" where
  "CBS_peek_asn1_tag tag_value cbs = (fst (parse_asn1_tag cbs) = Some tag_value)"

section \<open>Values inside elements\<close>

definition CBS_is_valid_asn1_integer :: "CBS \<Rightarrow> bool option" where
  "CBS_is_valid_asn1_integer cbs =
     (case CBS_get_u8 cbs of
        (None, _) \<Rightarrow> None
      | (Some first_byte, copy) \<Rightarrow>
          let is_negative = first_byte AND 0x80 \<noteq> 0 in
          (case CBS_get_u8 copy of
             (None, _) \<Rightarrow> Some is_negative
           | (Some second_byte, _) \<Rightarrow>
               if (first_byte = 0x00 \<and> second_byte AND 0x80 = 0) \<or>
                  (first_byte = 0xff \<and> second_byte AND 0x80 \<noteq> 0)
               then None else Some is_negative))"

definition CBS_is_unsigned_asn1_integer :: "CBS \<Rightarrow> bool" where
  "CBS_is_unsigned_asn1_integer cbs = (CBS_is_valid_asn1_integer cbs = Some False)"

text \<open>The accumulation loop of \<^verbatim>\<open>CBS_get_asn1_uint64\<close>.\<close>

fun asn1_uint64_loop :: "u64 \<Rightarrow> byte list \<Rightarrow> u64 option" where
  "asn1_uint64_loop v [] = Some v"
| "asn1_uint64_loop v (d # data) =
     (if drop_bit 56 v \<noteq> 0 then None else asn1_uint64_loop (push_bit 8 v OR ucast d) data)"

definition CBS_get_asn1_uint64 :: "CBS \<Rightarrow> u64 cbs_result" where
  "CBS_get_asn1_uint64 cbs =
     (case CBS_get_asn1 CBS_ASN1_INTEGER cbs of
        (None, c) \<Rightarrow> (None, c)
      | (Some bytes, c) \<Rightarrow>
          if \<not> CBS_is_unsigned_asn1_integer bytes then (None, c)
          else (asn1_uint64_loop 0 bytes, c))"

text \<open>An \<^verbatim>\<open>int64_t\<close> is its two's complement word; memory is little-endian.\<close>

definition le_word :: "byte list \<Rightarrow> u64" where
  "le_word bs = foldr (\<lambda>b r. push_bit 8 r OR ucast b) bs 0"

definition CBS_get_asn1_int64 :: "CBS \<Rightarrow> u64 cbs_result" where
  "CBS_get_asn1_int64 cbs =
     (case CBS_get_asn1 CBS_ASN1_INTEGER cbs of
        (None, c) \<Rightarrow> (None, c)
      | (Some bytes, c) \<Rightarrow>
          (case CBS_is_valid_asn1_integer bytes of
             None \<Rightarrow> (None, c)
           | Some is_negative \<Rightarrow>
               if length bytes > 8 then (None, c)
               else let sign_extend = rev bytes @
                          replicate (8 - length bytes) (if is_negative then 0xff else 0)
                    in (Some (le_word sign_extend), c)))"

definition CBS_get_asn1_bool :: "CBS \<Rightarrow> bool cbs_result" where
  "CBS_get_asn1_bool cbs =
     (case CBS_get_asn1 CBS_ASN1_BOOLEAN cbs of
        (None, c) \<Rightarrow> (None, c)
      | (Some bytes, c) \<Rightarrow>
          if length bytes \<noteq> 1 then (None, c)
          else let v = hd bytes in
            if v \<noteq> 0 \<and> v \<noteq> 0xff then (None, c) else (Some (v \<noteq> 0), c))"

text \<open>\<open>Some None\<close> is success with the element absent.\<close>

definition CBS_get_optional_asn1 :: "CBS_ASN1_TAG \<Rightarrow> CBS \<Rightarrow> CBS option cbs_result" where
  "CBS_get_optional_asn1 tag cbs =
     (if CBS_peek_asn1_tag tag cbs then
        (case CBS_get_asn1 tag cbs of
           (None, c) \<Rightarrow> (None, c) | (Some contents, c) \<Rightarrow> (Some (Some contents), c))
      else (Some None, cbs))"

definition CBS_get_optional_asn1_octet_string ::
  "CBS_ASN1_TAG \<Rightarrow> CBS \<Rightarrow> (CBS \<times> bool) cbs_result" where
  "CBS_get_optional_asn1_octet_string tag cbs =
     (case CBS_get_optional_asn1 tag cbs of
        (None, c) \<Rightarrow> (None, c)
      | (Some None, c) \<Rightarrow> (Some (CBS_init [] 0, False), c)
      | (Some (Some child), c) \<Rightarrow>
          (case CBS_get_asn1 CBS_ASN1_OCTETSTRING child of
             (None, _) \<Rightarrow> (None, c)
           | (Some contents, child1) \<Rightarrow>
               if CBS_len child1 \<noteq> 0 then (None, c) else (Some (contents, True), c)))"

definition CBS_get_optional_asn1_uint64 :: "CBS_ASN1_TAG \<Rightarrow> u64 \<Rightarrow> CBS \<Rightarrow> u64 cbs_result" where
  "CBS_get_optional_asn1_uint64 tag default_value cbs =
     (case CBS_get_optional_asn1 tag cbs of
        (None, c) \<Rightarrow> (None, c)
      | (Some None, c) \<Rightarrow> (Some default_value, c)
      | (Some (Some child), c) \<Rightarrow>
          (case CBS_get_asn1_uint64 child of
             (None, _) \<Rightarrow> (None, c)
           | (Some v, child1) \<Rightarrow> if CBS_len child1 \<noteq> 0 then (None, c) else (Some v, c)))"

text \<open>The result is a C \<^verbatim>\<open>int\<close>: the default value is passed through unchanged.\<close>

definition CBS_get_optional_asn1_bool :: "CBS_ASN1_TAG \<Rightarrow> int \<Rightarrow> CBS \<Rightarrow> int cbs_result" where
  "CBS_get_optional_asn1_bool tag default_value cbs =
     (case CBS_get_optional_asn1 tag cbs of
        (None, c) \<Rightarrow> (None, c)
      | (Some None, c) \<Rightarrow> (Some default_value, c)
      | (Some (Some child), c) \<Rightarrow>
          (case CBS_get_asn1 CBS_ASN1_BOOLEAN child of
             (None, _) \<Rightarrow> (None, c)
           | (Some child2, child1) \<Rightarrow>
               if CBS_len child2 \<noteq> 1 \<or> CBS_len child1 \<noteq> 0 then (None, c)
               else let boolean = CBS_data child2 ! 0 in
                 if boolean = 0 then (Some 0, c)
                 else if boolean = 0xff then (Some 1, c)
                 else (None, c)))"

definition CBS_is_valid_asn1_bitstring :: "CBS \<Rightarrow> bool" where
  "CBS_is_valid_asn1_bitstring cbs =
     (case CBS_get_u8 cbs of
        (None, _) \<Rightarrow> False
      | (Some num_unused_bits, c) \<Rightarrow>
          if num_unused_bits > 7 then False
          else if num_unused_bits = 0 then True
          else (case CBS_get_last_u8 c of
                  (None, _) \<Rightarrow> False
                | (Some last_byte, _) \<Rightarrow> last_byte AND (push_bit (unat num_unused_bits) 1 - 1) = 0))"

text \<open>\<open>bit\<close> is a 32-bit \<^verbatim>\<open>unsigned\<close>; \<open>byte_num\<close> cannot wrap.\<close>

definition CBS_asn1_bitstring_has_bit :: "CBS \<Rightarrow> u32 \<Rightarrow> bool" where
  "CBS_asn1_bitstring_has_bit cbs b =
     (if \<not> CBS_is_valid_asn1_bitstring cbs then False
      else let byte_num = unat (drop_bit 3 b + 1); bit_num = unat (7 - (b AND 7)) in
        byte_num < CBS_len cbs \<and> (CBS_data cbs ! byte_num) AND push_bit bit_num 1 \<noteq> 0)"

fun valid_oid_loop :: "byte \<Rightarrow> CBS \<Rightarrow> bool" where
  "valid_oid_loop prev [] = (prev AND 0x80 = 0)"
| "valid_oid_loop prev (v # copy) =
     (if prev AND 0x80 = 0 \<and> v = 0x80 then False else valid_oid_loop v copy)"

definition CBS_is_valid_asn1_oid :: "CBS \<Rightarrow> bool" where
  "CBS_is_valid_asn1_oid cbs = (if CBS_len cbs = 0 then False else valid_oid_loop 0 cbs)"

section \<open>Reading a byte\<close>

lemma CBS_get_u8_simps [simp, cbs_simps]:
  "CBS_get_u8 [] = (None, [])" "CBS_get_u8 (b # rest) = (Some b, rest)"
  by (simp_all add: CBS_get_u8_def cbs_get_def)

end
