(* ===== verification/Posix_Time.thy ===== *)
theory Posix_Time
  imports Prelude "HOL-Library.Signed_Division"
begin

text \<open>
  BoringSSL's calendar arithmetic (\<^verbatim>\<open>crypto/asn1/posix_time.c\<close>): conversion between
  \<^verbatim>\<open>struct tm\<close> in UTC and seconds since 1970, for the years 0000 to 9999. C integers are
  mathematical integers here: every intermediate value of an accepted date or time is far
  inside 64 bits. C division truncates, so it is \<open>sdiv\<close> and \<open>smod\<close> wherever an operand
  may be negative and at every other division of the source.
\<close>

section \<open>Definitions\<close>

record tm =
  tm_year :: int
  tm_mon :: int
  tm_mday :: int
  tm_hour :: int
  tm_min :: int
  tm_sec :: int

definition SECS_PER_HOUR :: int where "SECS_PER_HOUR = 60 * 60"
definition SECS_PER_DAY :: int where "SECS_PER_DAY = 24 * SECS_PER_HOUR"

definition is_valid_date :: "int \<Rightarrow> int \<Rightarrow> int \<Rightarrow> bool" where
  "is_valid_date year month day =
     (if day < 1 \<or> month < 1 \<or> year < 0 \<or> year > 9999 then False
      else if month \<in> {1, 3, 5, 7, 8, 10, 12} then day > 0 \<and> day \<le> 31
      else if month \<in> {4, 6, 9, 11} then day > 0 \<and> day \<le> 30
      else if month = 2 then
        (if (year smod 4 = 0 \<and> year smod 100 \<noteq> 0) \<or> year smod 400 = 0
         then day > 0 \<and> day \<le> 29 else day > 0 \<and> day \<le> 28)
      else False)"

definition is_valid_time :: "int \<Rightarrow> int \<Rightarrow> int \<Rightarrow> bool" where
  "is_valid_time hours minutes seconds =
     (\<not> (hours < 0 \<or> minutes < 0 \<or> seconds < 0 \<or> hours > 23 \<or> minutes > 59 \<or> seconds > 59))"

definition is_valid_epoch_time :: "int \<Rightarrow> bool" where
  "is_valid_epoch_time t = (- 62167219200 \<le> t \<and> t \<le> 253402300799)"

definition posix_time_from_utc ::
  "int \<Rightarrow> int \<Rightarrow> int \<Rightarrow> int \<Rightarrow> int \<Rightarrow> int \<Rightarrow> int option" where
  "posix_time_from_utc year0 month day hours minutes seconds =
     (if \<not> is_valid_date year0 month day \<or> \<not> is_valid_time hours minutes seconds then None
      else let
        year = (if month \<le> 2 then year0 - 1 else year0);
        era = (if year \<ge> 0 then year else year - 399) sdiv 400;
        year_of_era = year - era * 400;
        day_of_year = (153 * (if month > 2 then month - 3 else month + 9) + 2) sdiv 5 + day - 1;
        day_of_era = year_of_era * 365 + year_of_era sdiv 4 - year_of_era sdiv 100 + day_of_year;
        posix_days = era * 146097 + day_of_era - 719468
      in Some (posix_days * SECS_PER_DAY + hours * SECS_PER_HOUR + minutes * 60 + seconds))"

definition utc_from_posix_time :: "int \<Rightarrow> (int \<times> int \<times> int \<times> int \<times> int \<times> int) option" where
  "utc_from_posix_time time =
     (if \<not> is_valid_epoch_time time then None
      else let
        days0 = time sdiv SECS_PER_DAY;
        leftover0 = time smod SECS_PER_DAY;
        (days1, leftover) = (if leftover0 < 0 then (days0 - 1, leftover0 + SECS_PER_DAY)
                             else (days0, leftover0));
        days = days1 + 719468;
        era = (if days > 0 then days else days - 146096) sdiv 146097;
        day_of_era = days - era * 146097;
        year_of_era = (day_of_era - day_of_era sdiv 1460 + day_of_era sdiv 36524 -
                       day_of_era sdiv 146096) sdiv 365;
        out_year0 = year_of_era + era * 400;
        day_of_year = day_of_era -
          (365 * year_of_era + year_of_era sdiv 4 - year_of_era sdiv 100);
        month_of_year = (5 * day_of_year + 2) sdiv 153;
        out_month = (if month_of_year < 10 then month_of_year + 3 else month_of_year - 9);
        out_year = (if out_month \<le> 2 then out_year0 + 1 else out_year0);
        out_day = day_of_year - (153 * month_of_year + 2) sdiv 5 + 1;
        out_hours = leftover sdiv SECS_PER_HOUR;
        leftover' = leftover smod SECS_PER_HOUR
      in Some (out_year, out_month, out_day, out_hours, leftover' sdiv 60, leftover' smod 60))"

definition OPENSSL_tm_to_posix :: "tm \<Rightarrow> int option" where
  "OPENSSL_tm_to_posix t =
     posix_time_from_utc (tm_year t + 1900) (tm_mon t + 1) (tm_mday t)
       (tm_hour t) (tm_min t) (tm_sec t)"

definition OPENSSL_posix_to_tm :: "int \<Rightarrow> tm option" where
  "OPENSSL_posix_to_tm time =
     (case utc_from_posix_time time of
        None \<Rightarrow> None
      | Some (y, mo, d, h, mi, s) \<Rightarrow>
          Some \<lparr>tm_year = y - 1900, tm_mon = mo - 1, tm_mday = d,
                tm_hour = h, tm_min = mi, tm_sec = s\<rparr>)"

text \<open>\<open>time_t_bits\<close> is the width of \<^verbatim>\<open>time_t\<close>, 32 or 64.\<close>

definition OPENSSL_timegm :: "nat \<Rightarrow> tm \<Rightarrow> int option" where
  "OPENSSL_timegm time_t_bits t =
     (case OPENSSL_tm_to_posix t of
        None \<Rightarrow> None
      | Some posix_time \<Rightarrow>
          if time_t_bits = 32 \<and> (posix_time > 2147483647 \<or> posix_time < - 2147483648)
          then None else Some posix_time)"

definition OPENSSL_gmtime :: "int \<Rightarrow> tm option" where
  "OPENSSL_gmtime time = OPENSSL_posix_to_tm time"

definition OPENSSL_gmtime_adj :: "tm \<Rightarrow> int \<Rightarrow> int \<Rightarrow> tm option" where
  "OPENSSL_gmtime_adj t off_day offset_sec =
     (case posix_time_from_utc (tm_year t + 1900) (tm_mon t + 1) (tm_mday t)
             (tm_hour t) (tm_min t) (tm_sec t) of
        None \<Rightarrow> None
      | Some posix_time \<Rightarrow>
          (case utc_from_posix_time (posix_time + off_day * SECS_PER_DAY + offset_sec) of
             None \<Rightarrow> None
           | Some (y, mo, d, h, mi, s) \<Rightarrow>
               Some \<lparr>tm_year = y - 1900, tm_mon = mo - 1, tm_mday = d,
                     tm_hour = h, tm_min = mi, tm_sec = s\<rparr>))"

definition OPENSSL_gmtime_diff :: "tm \<Rightarrow> tm \<Rightarrow> (int \<times> int) option" where
  "OPENSSL_gmtime_diff from to =
     (case OPENSSL_tm_to_posix to of
        None \<Rightarrow> None
      | Some time_to \<Rightarrow>
          (case OPENSSL_tm_to_posix from of
             None \<Rightarrow> None
           | Some time_from \<Rightarrow>
               let timediff = time_to - time_from;
                   daydiff = timediff sdiv SECS_PER_DAY
               in if daydiff > 2147483647 \<or> daydiff < - 2147483648 then None
                  else Some (daydiff, timediff smod SECS_PER_DAY)))"

section \<open>Years and months of an era\<close>

text \<open>
  An era is 400 years of 146097 days, counted from 1 March. \<open>year_start\<close> is the day of the
  era on which a year begins; \<open>year_of\<close> is the source's formula for its inverse.
\<close>

definition year_start :: "int \<Rightarrow> int" where
  "year_start y = 365 * y + y div 4 - y div 100 + y div 400"

definition year_num :: "int \<Rightarrow> int" where
  "year_num d = d - d div 1460 + d div 36524 - d div 146096"

lemma year_num_mono_step: "0 \<le> d \<Longrightarrow> d < 146096 \<Longrightarrow> year_num d \<le> year_num (d + 1)"
proof (cases "d = 146095")
  case True
  then show ?thesis by (simp add: year_num_def)
next
  case False
  assume d: "0 \<le> d" "d < 146096"
  with False have "d div 146096 = 0" "(d + 1) div 146096 = 0"
    by (simp_all add: div_pos_pos_trivial)
  moreover have "(d + 1) div 1460 \<le> d div 1460 + 1" by linarith
  moreover have "d div 36524 \<le> (d + 1) div 36524" by (simp add: zdiv_mono1)
  ultimately show ?thesis unfolding year_num_def by linarith
qed

lemma year_num_mono:
  assumes "0 \<le> a" "a \<le> b" "b \<le> 146096"
  shows "year_num a \<le> year_num b"
  using assms(2,3)
proof (induction b rule: int_ge_induct)
  case (step b)
  with assms(1) year_num_mono_step [of b] show ?case by simp
qed simp

lemma year_num_bounds:
  "list_all (\<lambda>y. 365 * y \<le> year_num (year_start y) \<and>
     year_num (year_start (y + 1) - 1) \<le> 365 * y + 364) [0..399]"
  by code_simp

lemma div_succ:
  fixes y k :: int
  assumes "0 < k"
  shows "(y + 1) div k = y div k + (if k dvd y + 1 then 1 else 0)"
proof -
  have y: "y + 1 = k * (y div k) + (y mod k + 1)" by simp
  have r: "0 \<le> y mod k" "y mod k < k" using assms by simp_all
  show ?thesis
  proof (cases "y mod k + 1 = k")
    case True
    with y have "y + 1 = k * (y div k + 1)" by (simp add: distrib_left)
    then show ?thesis using assms by simp
  next
    case False
    with r have b: "0 \<le> y mod k + 1" "y mod k + 1 < k" by simp_all
    from int_div_pos_eq [OF y b] int_mod_pos_eq [OF y b] r show ?thesis
      by (simp add: dvd_eq_mod_eq_0)
  qed
qed

lemma year_start_step: "year_start (y + 1) = year_start y + 365 + (if 4 dvd y + 1 then 1 else 0) -
    (if 100 dvd y + 1 then 1 else 0) + (if 400 dvd y + 1 then 1 else 0)"
  by (simp add: year_start_def div_succ)

lemma year_start_mono: "a \<le> b \<Longrightarrow> year_start a \<le> year_start b"
proof (induction b rule: int_ge_induct)
  case (step b)
  then show ?case by (simp add: year_start_step)
qed simp

lemma year_of_day:
  assumes "0 \<le> y" "y < 400" "year_start y \<le> d" "d < year_start (y + 1)"
  shows "year_num d div 365 = y"
proof -
  have "\<forall>y \<in> {0..399}. 365 * y \<le> year_num (year_start y) \<and>
      year_num (year_start (y + 1) - 1) \<le> 365 * y + 364"
    using year_num_bounds by (simp only: list_all_iff set_upto)
  moreover have "y \<in> {0..399}" using assms by simp
  ultimately have b: "365 * y \<le> year_num (year_start y)"
      "year_num (year_start (y + 1) - 1) \<le> 365 * y + 364"
    by blast+
  have "0 \<le> year_start y" using assms by (simp add: year_start_def)
  moreover have "year_start (y + 1) - 1 \<le> 146096"
    using year_start_mono [of "y + 1" 400] assms by (simp add: year_start_def)
  ultimately have "year_num (year_start y) \<le> year_num d" "year_num d \<le> year_num (year_start (y + 1) - 1)"
    using assms by (auto intro!: year_num_mono)
  with b have "365 * y \<le> year_num d" "year_num d < 365 * (y + 1)" by auto
  then show ?thesis by simp
qed

lemma year_exists:
  assumes "0 \<le> d" "d < year_start (int n)"
  shows "\<exists>y \<ge> 0. y < int n \<and> year_start y \<le> d \<and> d < year_start (y + 1)"
  using assms
proof (induction n)
  case 0
  then show ?case by (simp add: year_start_def)
next
  case (Suc n)
  show ?case
  proof (cases "d < year_start (int n)")
    case True
    with Suc show ?thesis by force
  next
    case False
    with Suc.prems show ?thesis
      by (intro exI [of _ "int n"]) (simp add: add.commute)
  qed
qed

lemma year_start_400: "year_start 400 = 146097"
  by (simp add: year_start_def)


text \<open>Months count from March; \<open>month_start\<close> is the day of the year on which one begins.\<close>

definition month_start :: "int \<Rightarrow> int" where
  "month_start m = (153 * m + 2) div 5"

lemma month_of_day:
  "(5 * d + 2) div 153 = m \<longleftrightarrow> month_start m \<le> d \<and> d < month_start (m + 1)"
proof -
  have "(5 * d + 2) div 153 = m \<longleftrightarrow> 153 * m \<le> 5 * d + 2 \<and> 5 * d + 2 < 153 * m + 153" by linarith
  moreover have "month_start m \<le> d \<longleftrightarrow> 153 * m \<le> 5 * d + 2"
    unfolding month_start_def by linarith
  moreover have "d < (153 * m + 155) div 5 \<longleftrightarrow> 5 * d + 2 < 153 * m + 153" by linarith
  then have "d < month_start (m + 1) \<longleftrightarrow> 5 * d + 2 < 153 * m + 153"
    by (simp add: month_start_def distrib_left add.commute)
  ultimately show ?thesis by blast
qed

lemma year_start_era: "year_start (y + 400 * e) = year_start y + 146097 * e"
proof -
  have "y + 400 * e = y + 4 * (100 * e)" "y + 400 * e = y + 100 * (4 * e)" by simp_all
  then have "(y + 400 * e) div 4 = y div 4 + 100 * e" "(y + 400 * e) div 100 = y div 100 + 4 * e"
    by (metis div_mult_self2 zero_neq_numeral add.commute)+
  then show ?thesis by (simp add: year_start_def)
qed

text \<open>
  The calendar the code implements, as conditions on a March-based year \<open>y\<close>, month \<open>m\<close>
  and day of the month \<open>d\<close>.
\<close>

definition march_date :: "int \<Rightarrow> int \<Rightarrow> int \<Rightarrow> bool" where
  "march_date y m d \<longleftrightarrow> 0 \<le> m \<and> m \<le> 11 \<and> 1 \<le> d \<and> month_start m + d - 1 < month_start (m + 1) \<and>
     year_start y + month_start m + d - 1 < year_start (y + 1)"

definition march_year :: "int \<Rightarrow> int \<Rightarrow> int" where
  "march_year year month = (if month \<le> 2 then year - 1 else year)"

definition march_month :: "int \<Rightarrow> int" where
  "march_month month = (if month > 2 then month - 3 else month + 9)"

lemma sdiv_nonneg: "0 \<le> a \<Longrightarrow> 0 < b \<Longrightarrow> (a :: int) sdiv b = a div b"
  by (cases "a = 0") (simp_all add: signed_divide_int_def sgn_pos)

lemma smod_nonneg: "0 \<le> a \<Longrightarrow> 0 < b \<Longrightarrow> (a :: int) smod b = a mod b"
  by (cases "a = 0") (simp_all add: signed_modulo_int_def sgn_pos)

lemma smod_dvd: "0 \<le> y \<Longrightarrow> 0 < k \<Longrightarrow> (y :: int) smod k = 0 \<longleftrightarrow> k dvd y"
  by (simp add: smod_nonneg dvd_eq_mod_eq_0)

lemmas valid_defs = is_valid_date_def march_date_def march_year_def march_month_def
  month_start_def smod_dvd

lemma valid_date_march:
  "is_valid_date y mo d \<longleftrightarrow>
     0 \<le> y \<and> y \<le> 9999 \<and> 1 \<le> mo \<and> mo \<le> 12 \<and> march_date (march_year y mo) (march_month mo) d"
proof (cases "1 \<le> mo \<and> mo \<le> 12 \<and> 0 \<le> y \<and> y \<le> 9999")
  case True
  then have "mo = 1 \<or> mo = 2 \<or> (mo = 3 \<or> mo = 4 \<or> mo = 5 \<or> mo = 6 \<or> mo = 7 \<or> mo = 8 \<or>
      mo = 9 \<or> mo = 10 \<or> mo = 11 \<or> mo = 12)"
    by presburger
  then consider "mo = 1" | "mo = 2"
    | "mo = 3 \<or> mo = 4 \<or> mo = 5 \<or> mo = 6 \<or> mo = 7 \<or> mo = 8 \<or> mo = 9 \<or> mo = 10 \<or> mo = 11 \<or> mo = 12"
    by blast
  then show ?thesis
  proof cases
    case 1
    moreover have "year_start (y - 1) + 365 \<le> year_start y"
      using year_start_step [of "y - 1"] by (auto elim: dvdE)
    ultimately show ?thesis using True by (auto simp: valid_defs)
  next
    case 2
    moreover have "100 dvd y \<Longrightarrow> 4 dvd y" "400 dvd y \<Longrightarrow> 100 dvd y" by (auto elim!: dvdE)
    moreover have "year_start y = year_start (y - 1) + 365 + (if 4 dvd y then 1 else 0) -
        (if 100 dvd y then 1 else 0) + (if 400 dvd y then 1 else 0)"
      using year_start_step [of "y - 1"] by simp
    ultimately show ?thesis using True by (auto simp: valid_defs)
  next
    case 3
    moreover have "year_start y + 365 \<le> year_start (y + 1)"
      using year_start_step [of y] by (auto elim: dvdE)
    ultimately show ?thesis using True by (elim disjE) (auto simp: valid_defs)
  qed
next
  case False
  then show ?thesis by (auto simp: is_valid_date_def)
qed


section \<open>Both conversions as one day count\<close>

definition day_count :: "int \<Rightarrow> int \<Rightarrow> int \<Rightarrow> int" where
  "day_count y m d = year_start y + month_start m + d - 719469"

lemma floor_sdiv_400: "(if y \<ge> 0 then y else y - 399) sdiv 400 = (y :: int) div 400"
proof (cases "0 \<le> y")
  case False
  then have "(y - 399) sdiv 400 = - ((399 - y) div 400)"
    by (simp add: signed_divide_int_def sgn_neg)
  also have "\<dots> = y div 400" by linarith
  finally show ?thesis using False by simp
qed (simp add: sdiv_nonneg)

lemma floor_sdiv_era: "(if d > 0 then d else d - 146096) sdiv 146097 = (d :: int) div 146097"
proof (cases "0 < d")
  case False
  then have "(d - 146096) sdiv 146097 = - ((146096 - d) div 146097)"
    by (simp add: signed_divide_int_def sgn_neg)
  also have "\<dots> = d div 146097" by linarith
  finally show ?thesis using False by simp
qed (simp add: sdiv_nonneg)

lemma floor_sdiv_mod:
  assumes "0 < (k :: int)"
  shows "(if t smod k < 0 then (t sdiv k - 1, t smod k + k) else (t sdiv k, t smod k)) =
    (t div k, t mod k)"
proof (cases "0 \<le> t")
  case True
  then have "\<not> t mod k < 0" using assms by (simp add: not_less)
  with True assms show ?thesis by (simp add: sdiv_nonneg smod_nonneg)
next
  case False
  then have s: "t sdiv k = - (- t div k)" "t smod k = - (- t mod k)"
    using assms by (simp_all add: signed_divide_int_def signed_modulo_int_def sgn_neg)
  show ?thesis
  proof (cases "- t mod k = 0")
    case True
    then have "k dvd t" by (simp add: dvd_eq_mod_eq_0 [symmetric])
    with True s show ?thesis by (auto simp: dvd_neg_div dvd_eq_mod_eq_0 div_minus_minus)
  next
    case False
    have "t div k = - (- t div k) - 1" "t mod k = k - (- t mod k)"
      using False assms zdiv_zminus1_eq_if [of k "- t"] zmod_zminus1_eq_if [of "- t" k] by auto
    moreover have "0 < - t mod k" using False assms by (simp add: order_less_le)
    ultimately show ?thesis using s by simp
  qed
qed

lemma year_start_split: "year_start y = (y div 400) * 146097 + (365 * (y mod 400) + y mod 400 div 4 - y mod 400 div 100)"
  using year_start_era [of "y mod 400" "y div 400"] by (simp add: year_start_def)

lemma posix_time_from_utc_count:
  "posix_time_from_utc y mo d h mi s =
     (if is_valid_date y mo d \<and> is_valid_time h mi s
      then Some (day_count (march_year y mo) (march_month mo) d * 86400 + h * 3600 + mi * 60 + s)
      else None)"
proof (cases "is_valid_date y mo d \<and> is_valid_time h mi s")
  case True
  let ?y = "march_year y mo" and ?m = "march_month mo"
  have m: "0 \<le> ?m" using True by (simp add: valid_date_march march_date_def)
  have yoe: "?y - ?y div 400 * 400 = ?y mod 400" by (simp add: minus_div_mult_eq_mod)
  have "(153 * ?m + 2) sdiv 5 = month_start ?m" using m by (simp add: month_start_def sdiv_nonneg)
  then show ?thesis using True
    unfolding posix_time_from_utc_def Let_def march_year_def [symmetric] march_month_def [symmetric]
      floor_sdiv_400 yoe
    by (simp add: day_count_def year_start_split [of ?y] sdiv_nonneg SECS_PER_DAY_def SECS_PER_HOUR_def
        algebra_simps)
qed (auto simp: posix_time_from_utc_def)



text \<open>Every day number is one March-based date, the one \<^verbatim>\<open>utc_from_posix_time\<close> computes.\<close>

lemma march_date_exists:
  obtains y m d where "march_date y m d" and "n = day_count y m d"
proof -
  define e doe where "e = (n + 719468) div 146097" and "doe = (n + 719468) mod 146097"
  have n: "n = doe + e * 146097 - 719468" and "0 \<le> doe" "doe < 146097"
    by (simp_all add: e_def doe_def)
  then obtain yo where yo: "0 \<le> yo" "yo < 400" "year_start yo \<le> doe" "doe < year_start (yo + 1)"
    using year_exists [of doe 400] year_start_400 by auto
  define doy m where "doy = doe - year_start yo" and "m = (5 * doy + 2) div 153"
  have doy: "0 \<le> doy" "doy < year_start (yo + 1) - year_start yo"
    using yo by (simp_all add: doy_def)
  moreover have "year_start (yo + 1) - year_start yo \<le> 366"
    using year_start_step [of yo] dvd_trans [of 100 400 "yo + 1"] by auto
  ultimately have m: "0 \<le> m" "m \<le> 11" by (simp_all add: m_def)
  have ms: "month_start m \<le> doy" "doy < month_start (m + 1)"
    using month_of_day [of doy m] by (simp_all add: m_def)
  have ys: "year_start (yo + 400 * e) = year_start yo + 146097 * e"
      "year_start (yo + 400 * e + 1) = year_start (yo + 1) + 146097 * e"
    using year_start_era [of yo e] year_start_era [of "yo + 1" e] by (simp_all add: algebra_simps)
  show thesis
  proof (rule that)
    show "march_date (yo + 400 * e) m (doy - month_start m + 1)"
      using m ms doy ys by (simp add: march_date_def)
    show "n = day_count (yo + 400 * e) m (doy - month_start m + 1)"
      using n ys by (simp add: day_count_def doy_def)
  qed
qed

lemma clock_split:
  assumes "is_valid_time h mi s"
  shows "(h * 3600 + mi * 60 + s) div 3600 = h" and "(h * 3600 + mi * 60 + s) mod 3600 div 60 = mi"
    and "(h * 3600 + mi * 60 + s) mod 3600 mod 60 = s"
proof -
  have r: "0 \<le> mi * 60 + s" "mi * 60 + s < 3600" "0 \<le> s" "s < 60"
    using assms by (auto simp: is_valid_time_def)
  have "(h * 3600 + (mi * 60 + s)) div 3600 = h" "(h * 3600 + (mi * 60 + s)) mod 3600 = mi * 60 + s"
    using r(1,2) by simp_all
  with r show "(h * 3600 + mi * 60 + s) div 3600 = h" "(h * 3600 + mi * 60 + s) mod 3600 div 60 = mi"
    "(h * 3600 + mi * 60 + s) mod 3600 mod 60 = s" by (simp_all add: add.assoc)
qed

lemma clock_day:
  assumes "is_valid_time h mi s"
  shows "(n * 86400 + h * 3600 + mi * 60 + s) div 86400 = n"
    and "(n * 86400 + h * 3600 + mi * 60 + s) mod 86400 = h * 3600 + mi * 60 + s"
proof -
  have "0 \<le> h * 3600 + mi * 60 + s" "h * 3600 + mi * 60 + s < 86400"
    using assms by (auto simp: is_valid_time_def)
  then have "(n * 86400 + (h * 3600 + mi * 60 + s)) div 86400 = n"
      "(n * 86400 + (h * 3600 + mi * 60 + s)) mod 86400 = h * 3600 + mi * 60 + s"
    by simp_all
  then show "(n * 86400 + h * 3600 + mi * 60 + s) div 86400 = n"
    and "(n * 86400 + h * 3600 + mi * 60 + s) mod 86400 = h * 3600 + mi * 60 + s"
    by (simp_all add: add.assoc)
qed

lemma month_start_bounds:
  assumes "0 \<le> m"
  shows "m < 10 \<Longrightarrow> month_start (m + 1) \<le> 306" and "\<not> m < 10 \<Longrightarrow> 306 \<le> month_start m"
    and "0 \<le> month_start m"
proof -
  show "m < 10 \<Longrightarrow> month_start (m + 1) \<le> 306"
    using zdiv_mono1 [of "153 * (m + 1) + 2" 1532 5] by (simp add: month_start_def)
  show "\<not> m < 10 \<Longrightarrow> 306 \<le> month_start m"
    using zdiv_mono1 [of 1532 "153 * m + 2" 5] by (simp add: month_start_def)
  show "0 \<le> month_start m" using assms by (simp add: month_start_def)
qed

lemma day_count_range:
  assumes "march_date y m d"
  shows "- 719528 \<le> day_count y m d \<and> day_count y m d \<le> 2932896 \<longleftrightarrow>
    0 \<le> (if m < 10 then y else y + 1) \<and> (if m < 10 then y else y + 1) \<le> 9999"
proof -
  have ys: "year_start (-1) = -366" "year_start 0 = 0" "year_start 9999 = 3652059"
      "year_start 10000 = 3652425" by (simp_all add: year_start_def)
  have b: "0 \<le> m" "1 \<le> d" "month_start m + d - 1 < month_start (m + 1)"
      "year_start y + month_start m + d - 1 < year_start (y + 1)"
    using assms by (auto simp: march_date_def)
  note mb = month_start_bounds [OF b(1)]
  show ?thesis
  proof (cases "m < 10")
    case True
    have "y < 0 \<Longrightarrow> year_start y \<le> year_start (-1)" "0 \<le> y \<Longrightarrow> year_start 0 \<le> year_start y"
        "y \<le> 9999 \<Longrightarrow> year_start y \<le> year_start 9999"
        "9999 < y \<Longrightarrow> year_start 10000 \<le> year_start y"
      by (rule year_start_mono; simp)+
    with True b mb ys show ?thesis by (cases "y < 0"; cases "y \<le> 9999") (auto simp: day_count_def)
  next
    case False
    have "y < -1 \<Longrightarrow> year_start (y + 1) \<le> year_start (-1)"
        "-1 \<le> y \<Longrightarrow> year_start (-1) \<le> year_start y"
        "y \<le> 9998 \<Longrightarrow> year_start (y + 1) \<le> year_start 9999"
        "9998 < y \<Longrightarrow> year_start 9999 \<le> year_start y"
      by (rule year_start_mono; simp)+
    with False b mb ys show ?thesis
      by (cases "y < -1"; cases "y \<le> 9998") (auto simp: day_count_def)
  qed
qed

lemma epoch_days: "is_valid_epoch_time t \<longleftrightarrow> - 719528 \<le> t div 86400 \<and> t div 86400 \<le> 2932896"
proof -
  have *: "- 62167219200 \<le> q * 86400 + r \<and> q * 86400 + r \<le> 253402300799 \<longleftrightarrow>
      - 719528 \<le> q \<and> q \<le> 2932896" if "0 \<le> r" "r < 86400" for q r :: int
    using that by auto
  have "0 \<le> t mod 86400" "t mod 86400 < 86400" by simp_all
  from * [OF this, of "t div 86400"] show ?thesis
    unfolding is_valid_epoch_time_def div_mult_mod_eq .
qed

lemma valid_clock:
  assumes "0 \<le> n" "n < 86400"
  shows "is_valid_time (n div 3600) (n mod 3600 div 60) (n mod 3600 mod 60)"
proof -
  have "0 \<le> k div 60" "k div 60 \<le> 59" if "0 \<le> k" "k < 3600" for k :: int
    using that by linarith+
  then have "0 \<le> n mod 3600 div 60" "n mod 3600 div 60 \<le> 59" by simp_all
  moreover have "0 \<le> n div 3600" "n div 3600 \<le> 23" using assms by linarith+
  moreover have "0 \<le> k mod 60" "k mod 60 \<le> 59" for k :: int by simp_all
  ultimately show ?thesis by (simp only: is_valid_time_def de_Morgan_disj not_less simp_thms)
qed

lemma secs_per: "SECS_PER_DAY = 86400" "SECS_PER_HOUR = 3600"
  by (simp_all add: SECS_PER_DAY_def SECS_PER_HOUR_def)

lemma utc_from_posix_time_count:
  assumes "march_date y m d" and "is_valid_time h mi s"
    and t: "t = day_count y m d * 86400 + h * 3600 + mi * 60 + s"
    and "is_valid_epoch_time t"
  shows "utc_from_posix_time t =
    Some (if m < 10 then y else y + 1, if m < 10 then m + 3 else m - 9, d, h, mi, s)"
proof -
  define doy where "doy = month_start m + d - 1"
  let ?days = "day_count y m d + 719468" and ?left = "h * 3600 + mi * 60 + s"
  have left: "0 \<le> ?left" "?left < 86400" using assms(2) by (auto simp: is_valid_time_def)
  note td = clock_day [OF assms(2), of "day_count y m d", folded t]
  have doy: "?days = year_start y + doy" by (simp add: doy_def day_count_def)
  have b: "0 \<le> doy" "doy < year_start (y + 1) - year_start y"
      "month_start m \<le> doy" "doy < month_start (m + 1)" "0 \<le> m"
    using assms(1) by (auto simp: march_date_def doy_def month_start_def)
  have era: "year_start y = year_start (y mod 400) + 146097 * (y div 400)"
      "year_start (y + 1) = year_start (y mod 400 + 1) + 146097 * (y div 400)"
    using year_start_era [of "y mod 400" "y div 400"] year_start_era [of "y mod 400 + 1" "y div 400"]
    by (simp_all add: add.assoc)
  define doe where "doe = year_start (y mod 400) + doy"
  have doe: "year_start (y mod 400) \<le> doe" "doe < year_start (y mod 400 + 1)"
    using b era by (simp_all add: doe_def)
  then have yoe: "year_num doe div 365 = y mod 400" by (intro year_of_day) simp_all
  have "0 \<le> year_start (y mod 400)" "year_start (y mod 400 + 1) \<le> year_start 400"
    using year_start_mono [of 0 "y mod 400"] by (auto intro!: year_start_mono simp: year_start_def [of 0])
  then have r: "0 \<le> doe" "doe < 146097" using doe by (simp_all add: year_start_400)
  have days: "?days = doe + (y div 400) * 146097" using doy era by (simp add: doe_def)
  then have e: "?days div 146097 = y div 400" "?days - y div 400 * 146097 = doe" using r by simp_all
  have yn: "doe - doe sdiv 1460 + doe sdiv 36524 - doe sdiv 146096 = year_num doe"
    using r by (simp add: year_num_def sdiv_nonneg)
  have ynn: "0 \<le> year_num doe" 
    using year_num_mono [of 0 doe] r by (simp add: year_num_def [of 0])
  have doy': "doe - (365 * (y mod 400) + (y mod 400) sdiv 4 - (y mod 400) sdiv 100) = doy"
    by (simp add: doe_def year_start_def sdiv_nonneg)
  have mon: "(5 * doy + 2) sdiv 153 = m" using b by (simp add: sdiv_nonneg month_of_day)
  have day: "doy - (153 * m + 2) sdiv 5 + 1 = d" using b by (simp add: sdiv_nonneg doy_def month_start_def)
  have time: "?left sdiv 3600 = h" "(?left smod 3600) sdiv 60 = mi" "(?left smod 3600) smod 60 = s"
    using left clock_split [OF assms(2)] by (simp_all add: sdiv_nonneg smod_nonneg)
  have yy: "y mod 400 + y div 400 * 400 = y" by simp
  have fl: "(if t smod 86400 < 0 then (t sdiv 86400 - 1, t smod 86400 + 86400)
      else (t sdiv 86400, t smod 86400)) = (day_count y m d, ?left)"
    using floor_sdiv_mod [of 86400 t] td by simp
  have yd: "year_num doe sdiv 365 = y mod 400" using ynn yoe by (simp add: sdiv_nonneg)
  have "utc_from_posix_time t =
    Some (if (if m < 10 then m + 3 else m - 9) \<le> 2 then y + 1 else y,
      if m < 10 then m + 3 else m - 9, d, h, mi, s)"
    unfolding utc_from_posix_time_def Let_def secs_per fl prod.case floor_sdiv_era e yn yd doy' mon day
      time yy
    using assms(4) by (simp only: not_True_eq_False if_False)
  moreover have "(if m < 10 then m + 3 else m - 9) \<le> 2 \<longleftrightarrow> \<not> m < 10"
    using assms(1) by (auto simp: march_date_def)
  ultimately show ?thesis by (simp split: if_splits)
qed

lemma utc_valid_epoch: "utc_from_posix_time t = Some r \<Longrightarrow> is_valid_epoch_time t"
  by (rule ccontr) (simp add: utc_from_posix_time_def)

lemma posix_utc_inverse:
  "posix_time_from_utc y mo d h mi s = Some t \<longleftrightarrow>
   utc_from_posix_time t = Some (y, mo, d, h, mi, s)"
proof
  assume "posix_time_from_utc y mo d h mi s = Some t"
  then have v: "is_valid_date y mo d" "is_valid_time h mi s"
    and t: "t = day_count (march_year y mo) (march_month mo) d * 86400 + h * 3600 + mi * 60 + s"
    by (auto simp: posix_time_from_utc_count split: if_splits)
  have "is_valid_epoch_time t"
    using v(1) clock_day [OF v(2)] day_count_range [of "march_year y mo" "march_month mo" d]
    by (auto simp: epoch_days t valid_date_march march_year_def march_month_def split: if_splits)
  with v t utc_from_posix_time_count [of "march_year y mo" "march_month mo" d h mi s t]
  show "utc_from_posix_time t = Some (y, mo, d, h, mi, s)"
    by (auto simp: valid_date_march march_year_def march_month_def split: if_splits)
next
  assume u: "utc_from_posix_time t = Some (y, mo, d, h, mi, s)"
  then have ep: "is_valid_epoch_time t" by (rule utc_valid_epoch)
  obtain y' m' d' where date: "march_date y' m' d'" "t div 86400 = day_count y' m' d'"
    by (rule march_date_exists)
  define h' mi' s' where "h' = t mod 86400 div 3600" and "mi' = t mod 86400 mod 3600 div 60"
    and "s' = t mod 86400 mod 3600 mod 60"
  have time: "is_valid_time h' mi' s'" unfolding h'_def mi'_def s'_def by (rule valid_clock) simp_all
  have "t mod 86400 = h' * 3600 + mi' * 60 + s'"
    by (simp add: h'_def mi'_def s'_def)
  then have t: "t = day_count y' m' d' * 86400 + h' * 3600 + mi' * 60 + s'"
    using div_mult_mod_eq [of t 86400] date(2) by simp
  from utc_from_posix_time_count [OF date(1) time t ep] u
  have r: "y = (if m' < 10 then y' else y' + 1)" "mo = (if m' < 10 then m' + 3 else m' - 9)"
      "d = d'" "h = h'" "mi = mi'" "s = s'" by simp_all
  then have mm: "march_year y mo = y'" "march_month mo = m'" "1 \<le> mo" "mo \<le> 12"
    using date(1) by (auto simp: march_year_def march_month_def march_date_def split: if_splits)
  have "0 \<le> y" "y \<le> 9999"
    using ep day_count_range [OF date(1)] by (simp_all add: epoch_days date(2) r)
  with mm date(1) r have "is_valid_date y mo d" by (simp add: valid_date_march)
  with mm r time t show "posix_time_from_utc y mo d h mi s = Some t"
    by (simp add: posix_time_from_utc_count)
qed


section \<open>Properties\<close>

text \<open>
  C13 (roundtrip). \<^verbatim>\<open>OPENSSL_tm_to_posix\<close> and \<^verbatim>\<open>OPENSSL_posix_to_tm\<close> are inverse to each
  other, in both directions: a broken-down time is accepted with result \<open>p\<close> exactly when
  \<open>p\<close> breaks down into it.
\<close>

theorem tm_posix_bijection:
  "OPENSSL_tm_to_posix t = Some p \<longleftrightarrow> OPENSSL_posix_to_tm p = Some t"
  by (auto simp: OPENSSL_tm_to_posix_def OPENSSL_posix_to_tm_def posix_utc_inverse
      split: option.splits)

text \<open>The day after a given one, by the calendar's own rules.\<close>

definition next_day :: "int \<Rightarrow> int \<Rightarrow> int \<Rightarrow> int \<times> int \<times> int" where
  "next_day y mo d =
     (if is_valid_date y mo (d + 1) then (y, mo, d + 1)
      else if mo < 12 then (y, mo + 1, 1) else (y + 1, 1, 1))"

lemma month_start_less: "month_start k < month_start (k + 1)"
proof -
  have "(153 * k + 2) div 5 < (153 * k + 155) div 5" by linarith
  then show ?thesis by (simp add: month_start_def distrib_left add.commute)
qed

lemma march_next:
  assumes "march_date y m d" and "\<not> march_date y m (d + 1)"
  shows "if m < 11 then march_date y (m + 1) 1 \<and> month_start m + d = month_start (m + 1)
    else m = 11 \<and> march_date (y + 1) 0 1 \<and> year_start y + month_start m + d = year_start (y + 1)"
proof -
  have ys: "year_start y + 365 \<le> year_start (y + 1)" "year_start (y + 1) \<le> year_start y + 366"
      "year_start (y + 1) + 365 \<le> year_start (y + 1 + 1)"
    using year_start_step [of y] year_start_step [of "y + 1"] dvd_trans [of 100 400 "y + 1"]
    by (auto elim: dvdE)
  have b: "0 \<le> m" "m \<le> 11" "1 \<le> d" "month_start m + d - 1 < month_start (m + 1)"
      "year_start y + month_start m + d - 1 < year_start (y + 1)"
    using assms(1) by (auto simp: march_date_def)
  show ?thesis
  proof (cases "m < 11")
    case True
    then have "month_start (m + 1) \<le> 337"
      using zdiv_mono1 [of "153 * (m + 1) + 2" 1685 5] by (simp add: month_start_def)
    moreover have "month_start (m + 1) < month_start (m + 1 + 1)"
      by (rule month_start_less)
    ultimately show ?thesis using True assms(2) b ys by (auto simp: march_date_def)
  next
    case False
    with b have m: "m = 11" by simp
    with assms(2) b ys show ?thesis by (auto simp: march_date_def month_start_def)
  qed
qed

text \<open>
  The conversion counts days by the calendar: 1970-01-01 00:00:00 is zero,
  and every other day of the years 0000 to 9999 is 86400 seconds after the day before it,
  across month ends, leap days and centuries alike.
\<close>

theorem posix_time_counts_days:
  assumes "posix_time_from_utc y mo d h mi s = Some t"
    and "next_day y mo d = (y', mo', d')" and "y' \<le> 9999"
  shows "posix_time_from_utc y' mo' d' h mi s = Some (t + 86400) \<and>
    posix_time_from_utc 1970 1 1 0 0 0 = Some 0"
proof
  let ?y = "march_year y mo" and ?m = "march_month mo"
  have v: "is_valid_date y mo d" "is_valid_time h mi s"
    and t: "t = day_count ?y ?m d * 86400 + h * 3600 + mi * 60 + s"
    using assms(1) by (auto simp: posix_time_from_utc_count split: if_splits)
  have md: "march_date ?y ?m d" "0 \<le> y" "y \<le> 9999" "1 \<le> mo" "mo \<le> 12"
    using v(1) by (auto simp: valid_date_march)
  have "is_valid_date y' mo' d' \<and>
      day_count (march_year y' mo') (march_month mo') d' = day_count ?y ?m d + 1"
  proof (cases "is_valid_date y mo (d + 1)")
    case True
    with assms(2) show ?thesis by (auto simp: next_day_def day_count_def)
  next
    case False
    with md have "\<not> march_date ?y ?m (d + 1)" by (simp add: valid_date_march)
    from march_next [OF md(1) this] False assms(2,3) md(2-) show ?thesis
      by (cases "mo = 2"; cases "mo = 12")
        (auto simp: next_day_def valid_date_march march_year_def march_month_def day_count_def
          month_start_def [of 0] split: if_splits)
  qed
  with v t show "posix_time_from_utc y' mo' d' h mi s = Some (t + 86400)"
    by (simp add: posix_time_from_utc_count)
  show "posix_time_from_utc 1970 1 1 0 0 0 = Some 0" by code_simp
qed

theorem posix_time_counts_days_witness:
  "posix_time_from_utc 2024 2 29 23 59 59 = Some 1709251199 \<and>
   next_day 2024 2 29 = (2024, 3, 1) \<and>
   posix_time_from_utc 2024 3 1 23 59 59 = Some (1709251199 + 86400)"
proof -
  have "posix_time_from_utc 2024 2 29 23 59 59 = Some 1709251199" "next_day 2024 2 29 = (2024, 3, 1)"
    by code_simp+
  with posix_time_counts_days [OF this] show ?thesis by simp
qed

lemma sdiv_smod_split:
  assumes "0 < (k :: int)"
  shows "x sdiv k * k + x smod k = x" and "\<bar>x smod k\<bar> < k" and "0 \<le> (x sdiv k) * (x smod k)"
proof -
  have pos: "y sdiv k * k + y smod k = y \<and> \<bar>y smod k\<bar> < k \<and> 0 \<le> (y sdiv k) * (y smod k)"
    if "0 \<le> y" for y
    using that assms by (simp add: sdiv_nonneg smod_nonneg pos_imp_zdiv_nonneg_iff)
  have neg: "(- y) sdiv k = - (y sdiv k)" "(- y) smod k = - (y smod k)" for y
    by (simp_all add: signed_divide_int_def signed_modulo_int_def)
  have "x sdiv k * k + x smod k = x \<and> \<bar>x smod k\<bar> < k \<and> 0 \<le> (x sdiv k) * (x smod k)"
  proof (cases "0 \<le> x")
    case False
    with pos [of "- x"] neg [of "- x"] show ?thesis by auto
  qed (rule pos)
  then show "x sdiv k * k + x smod k = x" "\<bar>x smod k\<bar> < k" "0 \<le> (x sdiv k) * (x smod k)"
    by blast+
qed

text \<open>
  \<^verbatim>\<open>OPENSSL_gmtime_diff\<close> of two valid times gives days and seconds that
  \<^verbatim>\<open>OPENSSL_gmtime_adj\<close> adds back, with fewer seconds than a day and both counts of the
  same sign.
\<close>

theorem gmtime_diff_adj:
  assumes "OPENSSL_tm_to_posix a = Some p" and "OPENSSL_tm_to_posix b = Some q"
  shows "\<exists>d s. OPENSSL_gmtime_diff a b = Some (d, s) \<and> OPENSSL_gmtime_adj a d s = Some b \<and>
    \<bar>s\<bar> < 86400 \<and> 0 \<le> d * s"
proof -
  define d s where "d = (q - p) sdiv 86400" and "s = (q - p) smod 86400"
  have ds: "d * 86400 + s = q - p" "\<bar>s\<bar> < 86400" "0 \<le> d * s"
    using sdiv_smod_split [of 86400 "q - p"] by (simp_all add: d_def s_def)
  have "is_valid_epoch_time p" "is_valid_epoch_time q"
    using assms by (auto simp: OPENSSL_tm_to_posix_def posix_utc_inverse intro: utc_valid_epoch)
  then have "\<bar>q - p\<bar> < 2147483648 * 86400" by (auto simp: is_valid_epoch_time_def)
  then have "\<bar>d\<bar> < 2147483648" using ds(1-3) by (cases "0 \<le> d") (auto simp: zero_le_mult_iff)
  then have diff: "OPENSSL_gmtime_diff a b = Some (d, s)"
    using assms unfolding OPENSSL_gmtime_diff_def Let_def d_def s_def secs_per by auto
  have "utc_from_posix_time q = Some (tm_year b + 1900, tm_mon b + 1, tm_mday b, tm_hour b,
      tm_min b, tm_sec b)"
    using assms(2) by (simp add: OPENSSL_tm_to_posix_def posix_utc_inverse)
  moreover have "p + d * SECS_PER_DAY + s = q"
    using ds(1) by (simp add: secs_per)
  ultimately have "OPENSSL_gmtime_adj a d s = Some b"
    using assms(1) by (simp add: OPENSSL_gmtime_adj_def OPENSSL_tm_to_posix_def)
  with diff ds(2,3) show ?thesis by blast
qed

theorem gmtime_diff_adj_witness:
  "let a = \<lparr>tm_year = 124, tm_mon = 1, tm_mday = 28, tm_hour = 12, tm_min = 0, tm_sec = 1\<rparr>;
       b = \<lparr>tm_year = 124, tm_mon = 2, tm_mday = 1, tm_hour = 12, tm_min = 0, tm_sec = 0\<rparr>
   in OPENSSL_tm_to_posix a = Some 1709121601 \<and> OPENSSL_tm_to_posix b = Some 1709294400 \<and>
     (\<exists>d s. OPENSSL_gmtime_diff a b = Some (d, s) \<and> OPENSSL_gmtime_adj a d s = Some b)"
proof -
  let ?a = "\<lparr>tm_year = 124, tm_mon = 1, tm_mday = 28, tm_hour = 12, tm_min = 0, tm_sec = 1\<rparr>"
  let ?b = "\<lparr>tm_year = 124, tm_mon = 2, tm_mday = 1, tm_hour = 12, tm_min = 0, tm_sec = 0\<rparr>"
  have "OPENSSL_tm_to_posix ?a = Some 1709121601" "OPENSSL_tm_to_posix ?b = Some 1709294400"
    by code_simp+
  with gmtime_diff_adj [OF this] show ?thesis by (auto simp: Let_def)
qed

end
