(* ===== verification/Cbs_Time.thy ===== *)
theory Cbs_Time
  imports Cbs Posix_Time
begin

unbundle bit_operations_syntax

text \<open>
  The RFC 5280 time parsers at the end of \<^verbatim>\<open>crypto/bytestring/cbs.c\<close>: two-digit fields,
  day-of-month check, UTCTime and GeneralizedTime with their optional time zone offset.
  C \<^verbatim>\<open>int\<close>s are mathematical integers; the fields have at most four digits.
\<close>

section \<open>Definitions\<close>

definition cbs_get_two_digits :: "CBS \<Rightarrow> int cbs_result" where
  "cbs_get_two_digits cbs =
     (case CBS_get_u8 cbs of
        (None, c) \<Rightarrow> (None, c)
      | (Some first_digit, c) \<Rightarrow>
          if \<not> OPENSSL_isdigit (uint first_digit) then (None, c)
          else (case CBS_get_u8 c of
                  (None, c1) \<Rightarrow> (None, c1)
                | (Some second_digit, c1) \<Rightarrow>
                    if \<not> OPENSSL_isdigit (uint second_digit) then (None, c1)
                    else (Some ((uint first_digit - 48) * 10 + (uint second_digit - 48)), c1)))"

definition is_valid_day :: "int \<Rightarrow> int \<Rightarrow> int \<Rightarrow> bool" where
  "is_valid_day year month day =
     (if day < 1 then False
      else if month \<in> {1, 3, 5, 7, 8, 10, 12} then day \<le> 31
      else if month \<in> {4, 6, 9, 11} then day \<le> 30
      else if month = 2 then
        (if (year smod 4 = 0 \<and> year smod 100 \<noteq> 0) \<or> year smod 400 = 0 then day \<le> 29
         else day \<le> 28)
      else False)"

text \<open>The year: four digits in a GeneralizedTime, two in a UTCTime (1950 to 2049).\<close>

definition time_year :: "bool \<Rightarrow> CBS \<Rightarrow> int cbs_result" where
  "time_year is_gentime copy =
     (if is_gentime then
        (case cbs_get_two_digits copy of
           (None, c) \<Rightarrow> (None, c)
         | (Some tmp, c) \<Rightarrow>
             (case cbs_get_two_digits c of
                (None, c1) \<Rightarrow> (None, c1) | (Some tmp', c1) \<Rightarrow> (Some (tmp * 100 + tmp'), c1)))
      else
        (case cbs_get_two_digits copy of
           (None, c) \<Rightarrow> (None, c)
         | (Some tmp, c) \<Rightarrow>
             let year0 = 1900 + tmp; year = (if year0 < 1950 then year0 + 100 else year0)
             in if year \<ge> 2050 then (None, c) else (Some year, c)))"

text \<open>A two-digit field followed by its check.\<close>

definition checked_field :: "(int \<Rightarrow> bool) \<Rightarrow> CBS \<Rightarrow> int cbs_result" where
  "checked_field ok cbs =
     (case cbs_get_two_digits cbs of
        (None, c) \<Rightarrow> (None, c) | (Some v, c) \<Rightarrow> if ok v then (Some v, c) else (None, c))"

text \<open>The time zone letter and, where allowed, its offset in seconds.\<close>

definition time_offset :: "bool \<Rightarrow> CBS \<Rightarrow> int cbs_result" where
  "time_offset allow_timezone_offset cbs =
     (case CBS_get_u8 cbs of
        (None, c) \<Rightarrow> (None, c)
      | (Some tz, c) \<Rightarrow>
          if tz = 90 then (Some 0, c)
          else if tz = 43 \<or> tz = 45 then
            let offset_sign = (if tz = 43 then 1 else - 1) in
            if \<not> allow_timezone_offset then (None, c)
            else (case checked_field (\<lambda>h. \<not> h > 23) c of
                    (None, c1) \<Rightarrow> (None, c1)
                  | (Some offset_hours, c1) \<Rightarrow>
                      (case checked_field (\<lambda>m. \<not> m > 59) c1 of
                         (None, c2) \<Rightarrow> (None, c2)
                       | (Some offset_minutes, c2) \<Rightarrow>
                           (Some (offset_sign * (offset_hours * 3600 + offset_minutes * 60)), c2)))
          else (None, c))"

text \<open>
  \<open>want_tm\<close> tells whether the caller passes an \<open>out_tm\<close>; the result is what it holds
  afterwards, \<open>Some None\<close> when there is none. The model's \<^verbatim>\<open>struct tm\<close> has the fields that
  are filled in.
\<close>

definition CBS_parse_rfc5280_time_internal ::
  "CBS \<Rightarrow> bool \<Rightarrow> bool \<Rightarrow> bool \<Rightarrow> tm option option" where
  "CBS_parse_rfc5280_time_internal cbs is_gentime allow_timezone_offset want_tm =
     (case time_year is_gentime cbs of
        (None, _) \<Rightarrow> None
      | (Some year, c0) \<Rightarrow>
     (case checked_field (\<lambda>m. \<not> (m < 1 \<or> m > 12)) c0 of
        (None, _) \<Rightarrow> None
      | (Some month, c1) \<Rightarrow>
     (case checked_field (is_valid_day year month) c1 of
        (None, _) \<Rightarrow> None
      | (Some day, c2) \<Rightarrow>
     (case checked_field (\<lambda>h. \<not> h > 23) c2 of
        (None, _) \<Rightarrow> None
      | (Some hour, c3) \<Rightarrow>
     (case checked_field (\<lambda>m. \<not> m > 59) c3 of
        (None, _) \<Rightarrow> None
      | (Some minute, c4) \<Rightarrow>
     (case checked_field (\<lambda>s. \<not> s > 59) c4 of
        (None, _) \<Rightarrow> None
      | (Some sec, c5) \<Rightarrow>
     (case time_offset allow_timezone_offset c5 of
        (None, _) \<Rightarrow> None
      | (Some offset_seconds, c6) \<Rightarrow>
          if CBS_len c6 \<noteq> 0 then None
          else if \<not> want_tm then Some None
          else
            let t = \<lparr>tm_year = year - 1900, tm_mon = month - 1, tm_mday = day,
                     tm_hour = hour, tm_min = minute, tm_sec = sec\<rparr>
            in if offset_seconds \<noteq> 0 then
                 (case OPENSSL_gmtime_adj t 0 offset_seconds of
                    None \<Rightarrow> None | Some t' \<Rightarrow> Some (Some t'))
               else Some (Some t))))))))"

definition CBS_parse_generalized_time :: "CBS \<Rightarrow> bool \<Rightarrow> bool \<Rightarrow> tm option option" where
  "CBS_parse_generalized_time cbs want_tm allow_timezone_offset =
     CBS_parse_rfc5280_time_internal cbs True allow_timezone_offset want_tm"

definition CBS_parse_utc_time :: "CBS \<Rightarrow> bool \<Rightarrow> bool \<Rightarrow> tm option option" where
  "CBS_parse_utc_time cbs want_tm allow_timezone_offset =
     CBS_parse_rfc5280_time_internal cbs False allow_timezone_offset want_tm"

section \<open>Fields\<close>

definition two_digits :: "int \<Rightarrow> byte list" where
  "two_digits v = [of_int (48 + v div 10), of_int (48 + v mod 10)]"

lemma uint_digit: "0 \<le> k \<Longrightarrow> k \<le> 9 \<Longrightarrow> uint (of_int (48 + k) :: byte) = 48 + k"
  by (simp add: uint_word_of_int del: of_int_add)

lemma get_two_digits_iff:
  "cbs_get_two_digits cbs = (Some v, c) \<longleftrightarrow> 0 \<le> v \<and> v \<le> 99 \<and> cbs = two_digits v @ c"
proof
  assume a: "cbs_get_two_digits cbs = (Some v, c)"
  then obtain x y where xy: "cbs = x # y # c" "OPENSSL_isdigit (uint x)" "OPENSSL_isdigit (uint y)"
      "v = (uint x - 48) * 10 + (uint y - 48)"
    by (cases cbs; cases "tl cbs") (auto simp: cbs_get_two_digits_def split: if_splits)
  define p q where "p = uint x - 48" and "q = uint y - 48"
  have pq: "0 \<le> p" "p \<le> 9" "0 \<le> q" "q \<le> 9" "v = p * 10 + q"
    using xy by (auto simp: p_def q_def OPENSSL_isdigit_def)
  then have "v div 10 = p" "v mod 10 = q"
    using int_div_pos_eq [of v 10 p q] int_mod_pos_eq [of v 10 p q] by simp_all
  moreover have "x = of_int (48 + p)" "y = of_int (48 + q)" by (simp_all add: p_def q_def)
  ultimately show "0 \<le> v \<and> v \<le> 99 \<and> cbs = two_digits v @ c"
    using pq xy(1) by (simp add: two_digits_def)
next
  assume a: "0 \<le> v \<and> v \<le> 99 \<and> cbs = two_digits v @ c"
  then have k: "0 \<le> v div 10" "v div 10 \<le> 9" "0 \<le> v mod 10" "v mod 10 \<le> 9" by auto
  note u = uint_digit [OF k(1,2)] uint_digit [OF k(3,4)]
  have "v div 10 * 10 + v mod 10 = v" by simp
  with a k u show "cbs_get_two_digits cbs = (Some v, c)"
    by (simp add: cbs_get_two_digits_def two_digits_def OPENSSL_isdigit_def del: of_int_add)
qed

lemma checked_field_iff:
  "checked_field ok cbs = (Some v, c) \<longleftrightarrow> ok v \<and> 0 \<le> v \<and> v \<le> 99 \<and> cbs = two_digits v @ c"
proof
  assume "checked_field ok cbs = (Some v, c)"
  then have "ok v" "cbs_get_two_digits cbs = (Some v, c)"
    by (auto simp: checked_field_def split: prod.splits option.splits if_splits)
  then show "ok v \<and> 0 \<le> v \<and> v \<le> 99 \<and> cbs = two_digits v @ c" by (simp add: get_two_digits_iff)
next
  assume "ok v \<and> 0 \<le> v \<and> v \<le> 99 \<and> cbs = two_digits v @ c"
  then have "ok v" "cbs_get_two_digits cbs = (Some v, c)" by (simp_all add: get_two_digits_iff)
  then show "checked_field ok cbs = (Some v, c)" by (simp add: checked_field_def)
qed

definition year_bytes :: "bool \<Rightarrow> int \<Rightarrow> byte list" where
  "year_bytes is_gentime y =
     (if is_gentime then two_digits (y div 100) @ two_digits (y mod 100) else two_digits (y mod 100))"

definition year_ok :: "bool \<Rightarrow> int \<Rightarrow> bool" where
  "year_ok is_gentime y = (if is_gentime then 0 \<le> y \<and> y \<le> 9999 else 1950 \<le> y \<and> y \<le> 2049)"

lemma hundreds: "0 \<le> y \<Longrightarrow> y \<le> 9999 \<Longrightarrow> 0 \<le> y div 100 \<and> y div 100 \<le> 99"
    "y mod 100 \<le> 99" for y :: int
proof -
  show "0 \<le> y \<Longrightarrow> y \<le> 9999 \<Longrightarrow> 0 \<le> y div 100 \<and> y div 100 \<le> 99"
    using zdiv_mono1 [of y 9999 100] by (simp add: pos_imp_zdiv_nonneg_iff)
  show "y mod 100 \<le> 99" using pos_mod_bound [of 100 y] by linarith
qed

lemma time_year_iff:
  "time_year g cbs = (Some y, c) \<longleftrightarrow> year_ok g y \<and> cbs = year_bytes g y @ c"
proof (cases g)
  case True
  have "time_year True cbs = (Some y, c) \<longleftrightarrow>
      (\<exists>a b c1. cbs_get_two_digits cbs = (Some a, c1) \<and> cbs_get_two_digits c1 = (Some b, c) \<and> y = a * 100 + b)"
    by (auto simp: time_year_def split: prod.splits option.splits)
  also have "\<dots> \<longleftrightarrow> year_ok True y \<and> cbs = year_bytes True y @ c"
  proof
    assume "\<exists>a b c1. cbs_get_two_digits cbs = (Some a, c1) \<and> cbs_get_two_digits c1 = (Some b, c) \<and> y = a * 100 + b"
    then obtain a b where ab: "0 \<le> a" "a \<le> 99" "0 \<le> b" "b \<le> 99" "y = a * 100 + b"
        "cbs = two_digits a @ two_digits b @ c"
      by (auto simp: get_two_digits_iff)
    then have dm: "y div 100 = a" "y mod 100 = b"
      using int_div_pos_eq [of y 100 a b] int_mod_pos_eq [of y 100 a b] by simp_all
    have "year_bytes True y = two_digits a @ two_digits b" unfolding year_bytes_def dm by simp
    with ab show "year_ok True y \<and> cbs = year_bytes True y @ c"
      unfolding year_ok_def by simp
  next
    assume ok: "year_ok True y \<and> cbs = year_bytes True y @ c"
    then have y: "0 \<le> y div 100" "y div 100 \<le> 99" "0 \<le> y mod 100" "y mod 100 \<le> 99"
      using hundreds [of y] pos_mod_sign [of 100 y] by (simp_all add: year_ok_def)
    have "y = y div 100 * 100 + y mod 100" by simp
    with ok y show "\<exists>a b c1. cbs_get_two_digits cbs = (Some a, c1) \<and> cbs_get_two_digits c1 = (Some b, c) \<and> y = a * 100 + b"
      by (intro exI [of _ "y div 100"] exI [of _ "y mod 100"] exI [of _ "two_digits (y mod 100) @ c"])
        (simp only: get_two_digits_iff year_bytes_def if_True append.assoc simp_thms)
  qed
  finally show ?thesis using True by simp
next
  case False
  have "time_year False cbs = (Some y, c) \<longleftrightarrow>
      (\<exists>a. cbs_get_two_digits cbs = (Some a, c) \<and> y = (if a < 50 then 2000 + a else 1900 + a) \<and> y < 2050)"
  proof (cases "cbs_get_two_digits cbs")
    case (Pair r c1)
    then show ?thesis by (cases r) (auto simp: time_year_def Let_def)
  qed
  also have "\<dots> \<longleftrightarrow> year_ok False y \<and> cbs = year_bytes False y @ c"
  proof
    assume "\<exists>a. cbs_get_two_digits cbs = (Some a, c) \<and> y = (if a < 50 then 2000 + a else 1900 + a) \<and> y < 2050"
    then obtain a where a: "0 \<le> a" "a \<le> 99" "cbs = two_digits a @ c"
        "y = (if a < 50 then 2000 + a else 1900 + a)" by (auto simp: get_two_digits_iff)
    then have "y mod 100 = a"
      using int_mod_pos_eq [of y 100 20 a] int_mod_pos_eq [of y 100 19 a] by (auto split: if_splits)
    then have "year_bytes False y = two_digits a" unfolding year_bytes_def by simp
    with a show "year_ok False y \<and> cbs = year_bytes False y @ c"
      unfolding year_ok_def by (simp split: if_splits)
  next
    assume ok: "year_ok False y \<and> cbs = year_bytes False y @ c"
    then have y: "1950 \<le> y" "y \<le> 2049" by (simp_all add: year_ok_def)
    obtain a where a: "a = y mod 100" "0 \<le> a" "a \<le> 99"
      using hundreds(2) [of y] pos_mod_sign [of 100 y] by simp
    have "y = (if a < 50 then 2000 + a else 1900 + a)"
    proof (cases "y < 2000")
      case True
      with y a(1) int_mod_pos_eq [of y 100 19 "y - 1900"] have "a = y - 1900" by simp
      with True y show ?thesis by simp
    next
      case False
      with y a(1) int_mod_pos_eq [of y 100 20 "y - 2000"] have "a = y - 2000" by simp
      with False y show ?thesis by simp
    qed
    moreover have "cbs = two_digits a @ c" using ok a(1) by (simp add: year_bytes_def)
    ultimately show "\<exists>a. cbs_get_two_digits cbs = (Some a, c) \<and> y = (if a < 50 then 2000 + a else 1900 + a) \<and> y < 2050"
      using a(2,3) y unfolding get_two_digits_iff by (intro exI [of _ a]) simp
  qed
  finally show ?thesis using False by simp
qed

text \<open>
  A time as it is written: the fields of the local time, then \<open>Z\<close> or, where offsets are
  allowed, a sign with the hours and minutes by which it differs from UTC. \<open>off\<close> is the
  written offset in seconds.
\<close>

definition local_time :: "bool \<Rightarrow> tm \<Rightarrow> byte list" where
  "local_time is_gentime t =
     year_bytes is_gentime (tm_year t + 1900) @ two_digits (tm_mon t + 1) @ two_digits (tm_mday t) @
     two_digits (tm_hour t) @ two_digits (tm_min t) @ two_digits (tm_sec t)"

definition time_zone :: "bool \<Rightarrow> byte list \<Rightarrow> int \<Rightarrow> bool" where
  "time_zone allow z off \<longleftrightarrow>
     z = [90] \<and> off = 0 \<or>
     allow \<and> (\<exists>h m. 0 \<le> h \<and> h \<le> 23 \<and> 0 \<le> m \<and> m \<le> 59 \<and>
       (z = 43 # two_digits h @ two_digits m \<and> off = h * 3600 + m * 60 \<or>
        z = 45 # two_digits h @ two_digits m \<and> off = - (h * 3600 + m * 60)))"

definition time_bytes :: "bool \<Rightarrow> tm \<Rightarrow> byte list" where
  "time_bytes is_gentime t = local_time is_gentime t @ [90]"

lemma valid_tm_iff:
  "(\<exists>p. OPENSSL_tm_to_posix t = Some p) \<longleftrightarrow>
     is_valid_date (tm_year t + 1900) (tm_mon t + 1) (tm_mday t) \<and>
     is_valid_time (tm_hour t) (tm_min t) (tm_sec t)"
  by (simp add: OPENSSL_tm_to_posix_def posix_time_from_utc_count)

lemma valid_day_iff:
  "is_valid_date y mo d \<longleftrightarrow> 0 \<le> y \<and> y \<le> 9999 \<and> \<not> (mo < 1 \<or> mo > 12) \<and> is_valid_day y mo d"
  by (auto simp: is_valid_date_def is_valid_day_def split: if_splits)

lemma valid_day_le: "is_valid_day y mo d \<Longrightarrow> 1 \<le> d \<and> d \<le> 31"
  by (auto simp: is_valid_day_def split: if_splits)

lemma time_offset_iff: "time_offset allow c = (Some n, c') \<longleftrightarrow> (\<exists>z. time_zone allow z n \<and> c = z @ c')"
proof
  assume l: "time_offset allow c = (Some n, c')"
  then obtain tz c0 where c: "c = tz # c0" by (cases c) (auto simp: time_offset_def)
  show "\<exists>z. time_zone allow z n \<and> c = z @ c'"
  proof (cases "tz = 90")
    case True
    with l c show ?thesis by (intro exI [of _ "[90]"]) (simp add: time_offset_def time_zone_def)
  next
    case False
    with l c obtain h m c1 where a: "allow" "tz = 43 \<or> tz = 45"
        "checked_field (\<lambda>h. \<not> h > 23) c0 = (Some h, c1)" "checked_field (\<lambda>m. \<not> m > 59) c1 = (Some m, c')"
        "n = (if tz = 43 then 1 else - 1) * (h * 3600 + m * 60)"
      by (auto simp: time_offset_def Let_def split: if_splits prod.splits option.splits)
    from a(3,4) have "0 \<le> h" "h \<le> 23" "0 \<le> m" "m \<le> 59" "c0 = two_digits h @ two_digits m @ c'"
      by (auto simp: checked_field_iff)
    with a(1,2,5) c show ?thesis
      by (intro exI [of _ "tz # two_digits h @ two_digits m"]) (auto simp: time_zone_def)
  qed
next
  assume "\<exists>z. time_zone allow z n \<and> c = z @ c'"
  then obtain z where z: "time_zone allow z n" "c = z @ c'" by blast
  from z(1) show "time_offset allow c = (Some n, c')" unfolding time_zone_def
  proof (elim disjE conjE exE)
    assume "z = [90]" "n = 0"
    with z(2) show ?thesis by (simp add: time_offset_def)
  next
    fix h m :: int assume a: "allow" "0 \<le> h" "h \<le> 23" "0 \<le> m" "m \<le> 59"
    then have f: "checked_field (\<lambda>h. \<not> h > 23) (two_digits h @ two_digits m @ c') = (Some h, two_digits m @ c')"
        "checked_field (\<lambda>m. \<not> m > 59) (two_digits m @ c') = (Some m, c')"
      by (simp_all add: checked_field_iff)
    show ?thesis if "z = 43 # two_digits h @ two_digits m" "n = h * 3600 + m * 60"
      using that z(2) a(1) f by (simp add: time_offset_def)
    show ?thesis if "z = 45 # two_digits h @ two_digits m" "n = - (h * 3600 + m * 60)"
      using that z(2) a(1) f by (simp add: time_offset_def)
  qed
qed

text \<open>The adjustment by an offset, in POSIX time.\<close>

lemma adjusted_time:
  assumes "OPENSSL_tm_to_posix l = Some p"
  shows "(if off \<noteq> 0 then case OPENSSL_gmtime_adj l 0 off of None \<Rightarrow> None | Some t' \<Rightarrow> Some (Some t') else Some (Some l)) = Some (Some t) \<longleftrightarrow>
    OPENSSL_posix_to_tm (p + off) = Some t"
proof (cases "off = 0")
  case True
  have "utc_from_posix_time p = Some (tm_year l + 1900, tm_mon l + 1, tm_mday l, tm_hour l, tm_min l, tm_sec l)"
    using assms by (simp add: OPENSSL_tm_to_posix_def posix_utc_inverse)
  then have "OPENSSL_posix_to_tm p = Some l" by (simp add: OPENSSL_posix_to_tm_def)
  with True show ?thesis by simp
next
  case False
  have "OPENSSL_gmtime_adj l 0 off = OPENSSL_posix_to_tm (p + off)"
    using assms unfolding OPENSSL_gmtime_adj_def OPENSSL_posix_to_tm_def OPENSSL_tm_to_posix_def by simp
  with False show ?thesis by (simp split: option.splits)
qed

lemma parse_time_iff:
  "CBS_parse_rfc5280_time_internal cbs g allow True = Some (Some t) \<longleftrightarrow>
     (\<exists>l p z off. OPENSSL_tm_to_posix l = Some p \<and> year_ok g (tm_year l + 1900) \<and> time_zone allow z off \<and>
        cbs = local_time g l @ z \<and> OPENSSL_posix_to_tm (p + off) = Some t)"
proof
  assume "CBS_parse_rfc5280_time_internal cbs g allow True = Some (Some t)"
  then obtain year month day hour minute sec c0 c1 c2 c3 c4 c5 c6 n where
    f: "time_year g cbs = (Some year, c0)" "checked_field (\<lambda>m. \<not> (m < 1 \<or> m > 12)) c0 = (Some month, c1)"
      "checked_field (is_valid_day year month) c1 = (Some day, c2)"
      "checked_field (\<lambda>h. \<not> h > 23) c2 = (Some hour, c3)"
      "checked_field (\<lambda>m. \<not> m > 59) c3 = (Some minute, c4)"
      "checked_field (\<lambda>s. \<not> s > 59) c4 = (Some sec, c5)"
      "time_offset allow c5 = (Some n, c6)"
    and r: "(if CBS_len c6 \<noteq> 0 then None else if \<not> True then Some None else
      let t = \<lparr>tm_year = year - 1900, tm_mon = month - 1, tm_mday = day, tm_hour = hour, tm_min = minute, tm_sec = sec\<rparr>
      in if n \<noteq> 0 then case OPENSSL_gmtime_adj t 0 n of None \<Rightarrow> None | Some t' \<Rightarrow> Some (Some t') else Some (Some t)) = Some (Some t)"
    unfolding CBS_parse_rfc5280_time_internal_def by (auto split: prod.splits option.splits)
  define l where "l = \<lparr>tm_year = year - 1900, tm_mon = month - 1, tm_mday = day, tm_hour = hour, tm_min = minute, tm_sec = sec\<rparr>"
  have e: "c6 = []" using r by (cases c6) (auto simp: CBS_len_def)
  have "year_ok g year \<Longrightarrow> 0 \<le> year \<and> year \<le> 9999" by (auto simp: year_ok_def split: if_splits)
  with f(1-6) have v: "\<exists>p. OPENSSL_tm_to_posix l = Some p" "year_ok g (tm_year l + 1900)" "cbs = local_time g l @ c5"
    by (simp_all add: valid_tm_iff valid_day_iff is_valid_time_def local_time_def time_year_iff checked_field_iff l_def)
  then obtain p where p: "OPENSSL_tm_to_posix l = Some p" by blast
  have "OPENSSL_posix_to_tm (p + n) = Some t"
    using r adjusted_time [OF p, of n t] by (simp add: e CBS_len_def l_def [symmetric])
  moreover have "time_zone allow c5 n" using f(7) e by (auto simp: time_offset_iff)
  ultimately show "\<exists>l p z off. OPENSSL_tm_to_posix l = Some p \<and> year_ok g (tm_year l + 1900) \<and> time_zone allow z off \<and>
      cbs = local_time g l @ z \<and> OPENSSL_posix_to_tm (p + off) = Some t"
    using p v(2,3) by blast
next
  assume "\<exists>l p z off. OPENSSL_tm_to_posix l = Some p \<and> year_ok g (tm_year l + 1900) \<and> time_zone allow z off \<and>
      cbs = local_time g l @ z \<and> OPENSSL_posix_to_tm (p + off) = Some t"
  then obtain l p z off where a: "OPENSSL_tm_to_posix l = Some p" "year_ok g (tm_year l + 1900)" "time_zone allow z off"
      "cbs = local_time g l @ z" "OPENSSL_posix_to_tm (p + off) = Some t" by blast
  then have v: "\<not> (tm_mon l + 1 < 1 \<or> tm_mon l + 1 > 12)"
      "is_valid_day (tm_year l + 1900) (tm_mon l + 1) (tm_mday l)"
      "is_valid_time (tm_hour l) (tm_min l) (tm_sec l)"
    using valid_tm_iff [of l] unfolding valid_day_iff by blast+
  define c5 c4 c3 c2 where "c5 = two_digits (tm_sec l) @ z"
    and "c4 = two_digits (tm_min l) @ c5" and "c3 = two_digits (tm_hour l) @ c4"
    and "c2 = two_digits (tm_mday l) @ c3"
  have "time_year g cbs = (Some (tm_year l + 1900), two_digits (tm_mon l + 1) @ c2)"
    using a(2,4) by (simp add: time_year_iff local_time_def c5_def c4_def c3_def c2_def)
  moreover have "checked_field (\<lambda>m. \<not> (m < 1 \<or> m > 12)) (two_digits (tm_mon l + 1) @ c2) =
      (Some (tm_mon l + 1), c2)" using v(1) by (simp add: checked_field_iff)
  moreover have "checked_field (is_valid_day (tm_year l + 1900) (tm_mon l + 1)) c2 =
      (Some (tm_mday l), c3)" using v(2) valid_day_le [OF v(2)] by (simp add: checked_field_iff c2_def)
  moreover have "checked_field (\<lambda>h. \<not> h > 23) c3 = (Some (tm_hour l), c4)"
      "checked_field (\<lambda>m. \<not> m > 59) c4 = (Some (tm_min l), c5)"
      "checked_field (\<lambda>s. \<not> s > 59) c5 = (Some (tm_sec l), z)"
    using v(3) by (simp_all add: checked_field_iff is_valid_time_def c5_def c4_def c3_def)
  moreover have "time_offset allow z = (Some off, [])" using a(3) by (auto simp: time_offset_iff)
  moreover have "(if off \<noteq> 0 then case OPENSSL_gmtime_adj l 0 off of None \<Rightarrow> None | Some t' \<Rightarrow> Some (Some t') else Some (Some l)) = Some (Some t)"
    using adjusted_time [OF a(1)] a(5) by blast
  moreover have own: "\<lparr>tm_year = tm_year l, tm_mon = tm_mon l, tm_mday = tm_mday l, tm_hour = tm_hour l,
      tm_min = tm_min l, tm_sec = tm_sec l\<rparr> = l" by (cases l) simp
  ultimately show "CBS_parse_rfc5280_time_internal cbs g allow True = Some (Some t)"
    by (simp add: CBS_parse_rfc5280_time_internal_def CBS_len_def own Let_def)
qed

lemma posix_to_tm_own: "OPENSSL_tm_to_posix l = Some p \<Longrightarrow> OPENSSL_posix_to_tm p = Some t \<longleftrightarrow> t = l"
  using adjusted_time [of l p 0 t] by auto

lemma parse_utc_iff:
  "CBS_parse_rfc5280_time_internal cbs g False True = Some (Some t) \<longleftrightarrow>
     (\<exists>p. OPENSSL_tm_to_posix t = Some p) \<and> year_ok g (tm_year t + 1900) \<and> cbs = time_bytes g t"
proof -
  have "time_zone False z off \<longleftrightarrow> z = [90] \<and> off = 0" for z off by (simp add: time_zone_def)
  then show ?thesis unfolding parse_time_iff time_bytes_def by simp (metis posix_to_tm_own)
qed

lemma tm_year_range: "OPENSSL_tm_to_posix t = Some p \<Longrightarrow> year_ok True (tm_year t + 1900)"
  using valid_tm_iff [of t] by (auto simp: year_ok_def valid_day_iff)

section \<open>Properties\<close>

text \<open>
  C15 (equivalence). Without time zone offsets, and asked for the time, \<^verbatim>\<open>CBS_parse_generalized_time\<close>
  accepts exactly the strings \<open>YYYYMMDDHHMMSSZ\<close> of calendar times of the years 0000 to 9999, and
  \<^verbatim>\<open>CBS_parse_utc_time\<close> exactly the strings \<open>YYMMDDHHMMSSZ\<close> of the years 1950 to 2049; the
  result is the time that was written, and it converts to POSIX time.
\<close>

theorem rfc5280_time_exact:
  "(CBS_parse_generalized_time cbs True False = Some (Some t) \<longleftrightarrow>
     (\<exists>p. OPENSSL_tm_to_posix t = Some p) \<and> cbs = time_bytes True t) \<and>
   (CBS_parse_utc_time cbs True False = Some (Some t) \<longleftrightarrow>
     (\<exists>p. OPENSSL_tm_to_posix t = Some p) \<and> 50 \<le> tm_year t \<and> tm_year t \<le> 149 \<and>
     cbs = time_bytes False t)"
  by (auto simp: CBS_parse_generalized_time_def CBS_parse_utc_time_def parse_utc_iff
      valid_tm_iff valid_day_iff year_ok_def)

text \<open>
  C16 (equivalence). With time zone offsets allowed, and asked for the time, the two parsers
  accept exactly a calendar time in the range of their years followed by \<open>Z\<close> or by a sign, an
  hour up to 23 and a minute up to 59, if adding the signed offset to the written time stays in the
  years 0000 to 9999; the result is that sum. The sign is the wrong one: a local time is UTC plus its
  offset, so UTC is the difference. \<open>851106210627-0500\<close> is 02:06:27 of the following day in
  UTC; the parser returns 16:06:27 of the same day.
\<close>

theorem time_zone_exact:
  "(CBS_parse_generalized_time cbs True True = Some (Some t) \<longleftrightarrow>
     (\<exists>l p z off. OPENSSL_tm_to_posix l = Some p \<and> time_zone True z off \<and>
        cbs = local_time True l @ z \<and> OPENSSL_posix_to_tm (p + off) = Some t)) \<and>
   (CBS_parse_utc_time cbs True True = Some (Some t) \<longleftrightarrow>
     (\<exists>l p z off. OPENSSL_tm_to_posix l = Some p \<and> 50 \<le> tm_year l \<and> tm_year l \<le> 149 \<and>
        time_zone True z off \<and> cbs = local_time False l @ z \<and> OPENSSL_posix_to_tm (p + off) = Some t))"
proof -
  have y: "year_ok False (tm_year l + 1900) \<longleftrightarrow> 50 \<le> tm_year l \<and> tm_year l \<le> 149" for l by (auto simp: year_ok_def)
  show ?thesis
    unfolding CBS_parse_generalized_time_def CBS_parse_utc_time_def parse_time_iff y conj_assoc using tm_year_range by blast
qed

text \<open>The example of the wrong sign.\<close>

lemma time_zone_sign:
  "CBS_parse_utc_time [56,53,49,49,48,54,50,49,48,54,50,55,45,48,53,48,48] True True =
     Some (Some \<lparr>tm_year = 85, tm_mon = 10, tm_mday = 6, tm_hour = 16, tm_min = 6, tm_sec = 27\<rparr>)"
  by code_simp

end
