(* ===== verification/Der.thy ===== *)
theory Der
  imports Cbs
begin

unbundle bit_operations_syntax

text \<open>
  The encodings that the readers of \<^verbatim>\<open>cbs.c\<close> accept, as functions from values to bytes,
  and proofs that each reader is the exact inverse of its encoding: it accepts the encoding
  of a value with that value as the result, and nothing else. Nothing here models source code.
\<close>

section \<open>Big-endian integers\<close>

fun be_bytes :: "nat \<Rightarrow> u64 \<Rightarrow> byte list" where
  "be_bytes 0 v = []"
| "be_bytes (Suc k) v = be_bytes k (drop_bit 8 v) @ [ucast v]"

lemma length_be_bytes [simp]: "length (be_bytes k v) = k"
  by (induction k arbitrary: v) simp_all

lemma be_word_append: "be_word (bs @ [b]) = push_bit 8 (be_word bs) OR ucast b"
  by (simp add: be_word_def)

lemma be_word_nil [simp]: "be_word [] = 0"
  by (simp add: be_word_def)

lemma push_drop_8: "push_bit 8 (drop_bit 8 v) OR ucast (ucast v :: byte) = (v :: u64)"
  by (rule bit_word_eqI) (auto simp: bit_simps)

text \<open>Appending a byte to a word that has room for it.\<close>

lemma push_8:
  fixes b :: byte and v :: u64
  assumes "unat v < 2 ^ 56"
  shows "unat (push_bit 8 v OR ucast b) = unat v * 256 + unat b"
    and "drop_bit 8 (push_bit 8 v OR ucast b) = v"
    and "ucast (push_bit 8 v OR ucast b) = b"
proof -
  have p: "unat (push_bit 8 v) = unat v * 256" using assms by (simp add: unat_push_bit)
  have b: "unat (ucast b :: u64) = unat b" by (rule unat_ucast_byte)
  have "push_bit 8 v OR ucast b = push_bit 8 v + ucast b"
    by (rule or_push_eq_add) (use b unat_less_8 [of b] in simp)
  moreover have "unat (push_bit 8 v) + unat (ucast b :: u64) < 2 ^ 64"
    using p b assms unat_less_8 [of b] by simp
  ultimately show u: "unat (push_bit 8 v OR ucast b) = unat v * 256 + unat b"
    by (simp add: unat_word_ariths p b)
  show "drop_bit 8 (push_bit 8 v OR ucast b) = v"
    unfolding word_unat_eq_iff unat_drop_bit u using unat_less_8 [of b] by simp
  show "ucast (push_bit 8 v OR ucast b) = b"
    by (rule bit_word_eqI) (auto simp: bit_simps)
qed

lemma be_word_bytes: "unat v < 256 ^ k \<Longrightarrow> be_word (be_bytes k v) = v"
proof (induction k arbitrary: v)
  case (Suc k)
  then have "unat (drop_bit 8 v) < 256 ^ k"
    unfolding unat_drop_bit by (simp add: div_less_iff_less_mult mult.commute)
  from Suc.IH [OF this] show ?case by (simp add: be_word_append push_drop_8)
qed (simp add: unat_eq_zero)

lemma be_word_less: "length bs \<le> 8 \<Longrightarrow> unat (be_word bs) < 256 ^ length bs"
proof (induction bs rule: rev_induct)
  case (snoc b bs)
  then have IH: "unat (be_word bs) < 256 ^ length bs" by simp
  also have "(256 :: nat) ^ length bs \<le> 256 ^ 7" using snoc.prems by (intro power_increasing) auto
  finally have "unat (be_word bs) < 2 ^ 56" by simp
  from push_8(1) [OF this, of b] IH unat_less_8 [of b] show ?case
    by (simp add: be_word_append)
qed simp

lemma be_bytes_word: "length bs \<le> 8 \<Longrightarrow> be_bytes (length bs) (be_word bs) = bs"
proof (induction bs rule: rev_induct)
  case (snoc b bs)
  have "unat (be_word bs) < 256 ^ length bs" using snoc by (intro be_word_less) simp
  also have "(256 :: nat) ^ length bs \<le> 256 ^ 7" using snoc.prems by (intro power_increasing) auto
  finally have "unat (be_word bs) < 2 ^ 56" by simp
  from push_8(2,3) [OF this] snoc show ?case by (simp add: be_word_append)
qed simp

lemma cbs_get_iff: "cbs_get n cbs = (Some bs, rest) \<longleftrightarrow> cbs = bs @ rest \<and> length bs = n"
  by (auto simp: cbs_get_def)

lemma cbs_get_u_iff:
  assumes "k \<le> 8"
  shows "cbs_get_u k cbs = (Some v, rest) \<longleftrightarrow> cbs = be_bytes k v @ rest \<and> unat v < 256 ^ k"
proof
  assume "cbs_get_u k cbs = (Some v, rest)"
  then obtain bs where "cbs = bs @ rest" "length bs = k" "v = be_word bs"
    by (auto simp: cbs_get_u_def cbs_get_iff split: prod.splits option.splits)
  with assms be_bytes_word [of bs] be_word_less [of bs]
  show "cbs = be_bytes k v @ rest \<and> unat v < 256 ^ k" by auto
next
  assume a: "cbs = be_bytes k v @ rest \<and> unat v < 256 ^ k"
  then show "cbs_get_u k cbs = (Some v, rest)"
    by (simp add: cbs_get_u_def cbs_get_def be_word_bytes)
qed

lemma CBS_get_u8_iff: "CBS_get_u8 cbs = (Some b, rest) \<longleftrightarrow> cbs = b # rest"
  by (cases cbs) (auto simp: CBS_get_u8_def cbs_get_def)

lemma CBS_get_bytes_iff:
  "CBS_get_bytes n cbs = (Some bs, rest) \<longleftrightarrow> cbs = bs @ rest \<and> length bs = n"
  by (auto simp: CBS_get_bytes_def CBS_init_def cbs_get_def split: if_splits)

section \<open>Base-128 integers\<close>

function base128_high :: "u64 \<Rightarrow> byte list" where
  "base128_high v =
     (if v = 0 then [] else base128_high (drop_bit 7 v) @ [ucast (v AND 0x7F) OR 0x80])"
  by pat_completeness auto
termination
proof (relation "measure unat")
  fix v :: u64
  assume "v \<noteq> 0"
  then show "(drop_bit 7 v, v) \<in> measure unat"
    by (simp add: drop_bit_eq_div unat_div unat_gt_0)
qed simp

declare base128_high.simps [simp del]

definition base128 :: "u64 \<Rightarrow> byte list" where
  "base128 v = base128_high (drop_bit 7 v) @ [ucast (v AND 0x7F)]"

lemma push_7:
  fixes b :: byte and v :: u64
  assumes "drop_bit 57 v = 0"
  shows "drop_bit 7 (push_bit 7 v OR ucast (b AND 0x7F)) = v"
    and "ucast ((push_bit 7 v OR ucast (b AND 0x7F)) AND 0x7F) = b AND 0x7F"
proof -
  have hi: "bit v n \<Longrightarrow> n < 57" for n
    using arg_cong [OF assms, of "\<lambda>w. bit w (n - 57)"] by (cases "n < 57") (simp_all add: bit_drop_bit_eq)
  show "drop_bit 7 (push_bit 7 v OR ucast (b AND 0x7F)) = v"
    by (rule bit_word_eqI) (auto simp: bit_simps byte_simps dest: hi)
  show "ucast ((push_bit 7 v OR ucast (b AND 0x7F)) AND 0x7F) = b AND 0x7F"
    by (rule bit_word_eqI) (auto simp: bit_simps byte_simps)
qed

lemma base128_loop_sound:
  "base128_loop v0 cbs = (Some v, rest) \<Longrightarrow> base128_high v0 @ cbs = base128 v @ rest"
proof (induction v0 cbs rule: base128_loop.induct)
  case (2 v0 b cbs)
  define v1 where "v1 = push_bit 7 v0 OR ucast (b AND 0x7F)"
  have ok: "drop_bit 57 v0 = 0" "\<not> (v0 = 0 \<and> b = 0x80)"
    using "2.prems" by (auto split: if_splits)
  have d: "drop_bit 7 v1 = v0" "ucast (v1 AND 0x7F) = b AND 0x7F"
    unfolding v1_def using push_7 [OF ok(1)] by simp_all
  show ?case
  proof (cases "b AND 0x80 = 0")
    case True
    then have "v = v1" "rest = cbs" using "2.prems" ok by (auto simp: v1_def Let_def)
    with True d show ?thesis by (simp add: base128_def byte_low_bits)
  next
    case False
    have "v1 \<noteq> 0"
    proof
      assume "v1 = 0"
      with d have "v0 = 0" "b AND 0x7F = 0" by simp_all
      with False byte_high_bit [of b] ok(2) show False by simp
    qed
    with False d have "base128_high v1 = base128_high v0 @ [b]"
      by (simp add: base128_high.simps [of v1] byte_high_bit)
    moreover have "base128_loop v1 cbs = (Some v, rest)"
      using "2.prems" ok False by (simp add: v1_def Let_def)
    ultimately show ?thesis using "2.IH" ok False by (simp add: v1_def)
  qed
qed simp

lemma drop_7_small: "drop_bit 57 (drop_bit 7 v) = (0 :: u64)"
  by (rule bit_word_eqI) (simp add: bit_simps)

lemma join_7: "push_bit 7 (drop_bit 7 v) OR (v AND 0x7F) = (v :: u64)"
  using split_low_high [of 0 v 7] by (simp add: mask7 or.commute)

lemma base128_loop_high:
  "base128_loop 0 (base128_high v @ cbs) = base128_loop v cbs"
proof (induction v arbitrary: cbs rule: base128_high.induct)
  case (1 v)
  show ?case
  proof (cases "v = 0")
    case False
    define b where "b = (ucast (v AND 0x7F) OR 0x80 :: byte)"
    have b: "b AND 0x80 \<noteq> 0" "ucast (b AND 0x7F) = v AND 0x7F"
      unfolding b_def using cont_byte by simp_all
    have nz: "\<not> (drop_bit 7 v = 0 \<and> b = 0x80)"
    proof
      assume z: "drop_bit 7 v = 0 \<and> b = 0x80"
      then have "v AND 0x7F = 0" using b(2) by simp
      with z join_7 [of v] False show False by simp
    qed
    have "base128_loop 0 (base128_high v @ cbs) = base128_loop (drop_bit 7 v) (b # cbs)"
      using 1 False by (simp add: base128_high.simps [of v] b_def)
    also have "\<dots> = base128_loop v cbs"
      using b nz join_7 [of v] drop_7_small [of v] by (auto simp: Let_def)
    finally show ?thesis .
  qed (simp add: base128_high.simps)
qed

lemma parse_base128_iff:
  "parse_base128_integer cbs = (Some v, rest) \<longleftrightarrow> cbs = base128 v @ rest"
proof
  assume "parse_base128_integer cbs = (Some v, rest)"
  then show "cbs = base128 v @ rest"
    using base128_loop_sound [of 0 cbs v rest]
    by (simp add: parse_base128_integer_def base128_high.simps)
next
  assume cbs: "cbs = base128 v @ rest"
  define b where "b = (ucast (v AND 0x7F) :: byte)"
  have "b AND 0x80 = 0" "ucast (b AND 0x7F) = v AND 0x7F"
    unfolding b_def byte_bit_80
    by (simp add: bit_simps byte_simps) (rule bit_word_eqI, auto simp: bit_simps byte_simps)
  moreover from this(1) have "b \<noteq> 0x80" by auto
  ultimately show "parse_base128_integer cbs = (Some v, rest)"
    using drop_7_small [of v] join_7 [of v]
    by (simp add: cbs base128_def parse_base128_integer_def base128_loop_high b_def [symmetric] Let_def)
qed

section \<open>Tags\<close>

definition tag_number :: "CBS_ASN1_TAG \<Rightarrow> CBS_ASN1_TAG" where
  "tag_number tag = tag AND CBS_ASN1_TAG_NUMBER_MASK"

definition tag_class :: "CBS_ASN1_TAG \<Rightarrow> byte" where
  "tag_class tag = ucast (drop_bit 24 tag AND 0xe0)"

definition asn1_tag_bytes :: "CBS_ASN1_TAG \<Rightarrow> byte list" where
  "asn1_tag_bytes tag =
     (if tag_number tag \<ge> 0x1f then (tag_class tag OR 0x1f) # base128 (ucast (tag_number tag))
      else [tag_class tag OR ucast (tag_number tag)])"

text \<open>Every tag but [UNIVERSAL 0] has an encoding.\<close>

definition valid_tag :: "CBS_ASN1_TAG \<Rightarrow> bool" where
  "valid_tag tag \<longleftrightarrow> tag AND NOT CBS_ASN1_CONSTRUCTED \<noteq> 0"

lemma bit_mask29: "bit CBS_ASN1_TAG_NUMBER_MASK n \<longleftrightarrow> n < 29"
proof -
  have eq: "CBS_ASN1_TAG_NUMBER_MASK = mask 29"
    by (simp add: CBS_ASN1_TAG_NUMBER_MASK_def mask_eq_exp_minus_1 push_bit_eq_mult)
  show ?thesis unfolding eq bit_mask_iff by auto
qed

lemma bit_E0 [byte_simps]: "bit (0xE0 :: int) n \<longleftrightarrow> 5 \<le> n \<and> n < 8"
proof -
  have "(0xE0 :: int) = push_bit 5 (mask 3)" by (simp add: mask_eq_exp_minus_1)
  then show ?thesis by (simp only: bit_push_bit_iff bit_mask_iff) auto
qed

lemma bit_1F [byte_simps]: "bit (0x1F :: int) n \<longleftrightarrow> n < 5"
  using bit_mask_iff [of 5 n, where ?'a = int] by (simp add: mask_eq_exp_minus_1)

lemma tag_class_join:
  fixes num :: CBS_ASN1_TAG and b :: byte
  assumes "num \<le> CBS_ASN1_TAG_NUMBER_MASK"
  shows "tag_number (push_bit 24 (ucast b AND 0xe0) OR num) = num"
    and "tag_class (push_bit 24 (ucast b AND 0xe0) OR num) = b AND 0xe0"
proof -
  have "unat num < 2 ^ 29"
    using assms by (simp add: CBS_ASN1_TAG_NUMBER_MASK_def word_le_nat_alt push_bit_eq_mult)
  then have num: "bit num n \<Longrightarrow> n < 29" for n by (rule high_bits_clear)
  show "tag_number (push_bit 24 (ucast b AND 0xe0) OR num) = num"
    by (rule bit_word_eqI) (auto simp: tag_number_def bit_simps byte_simps bit_mask29 dest: num simp del: push_bit_and)
  show "tag_class (push_bit 24 (ucast b AND 0xe0) OR num) = b AND 0xe0"
    by (rule bit_word_eqI) (auto simp: tag_class_def bit_simps byte_simps dest: num simp del: push_bit_and)
qed

lemma byte_split_tag: "(b AND 0xe0) OR (b AND 0x1f) = (b :: byte)"
  by (rule bit_word_eqI) (auto simp: bit_simps byte_simps)

lemma tag_split: "push_bit 24 (ucast (tag_class tag)) OR tag_number tag = tag"
    "ucast (tag_class tag) AND 0xe0 = (ucast (tag_class tag) :: u32)"
    "(tag_class tag) AND 0x1f = 0" "tag_class tag AND 0xe0 = tag_class tag"
    "tag_number tag \<le> CBS_ASN1_TAG_NUMBER_MASK"
proof -
  show "push_bit 24 (ucast (tag_class tag)) OR tag_number tag = tag"
    by (rule bit_word_eqI) (auto simp: tag_class_def tag_number_def bit_simps byte_simps bit_mask29)
  show "ucast (tag_class tag) AND 0xe0 = (ucast (tag_class tag) :: u32)"
    by (rule bit_word_eqI) (auto simp: tag_class_def bit_simps byte_simps)
  show "(tag_class tag) AND 0x1f = 0" "tag_class tag AND 0xe0 = tag_class tag"
    by (rule bit_word_eqI; auto simp: tag_class_def bit_simps byte_simps)+
  show "tag_number tag \<le> CBS_ASN1_TAG_NUMBER_MASK"
    by (simp add: tag_number_def word_and_le1)
qed

lemma tag_number_cast:
  fixes v :: u64
  assumes "\<not> v > ucast CBS_ASN1_TAG_NUMBER_MASK"
  shows "ucast (ucast v :: u32) = v" and "ucast v \<le> CBS_ASN1_TAG_NUMBER_MASK"
    and "(0x1f :: u32) \<le> ucast v \<longleftrightarrow> \<not> v < 0x1f"
proof -
  have v: "unat v < 2 ^ 29"
    using assms by (simp add: CBS_ASN1_TAG_NUMBER_MASK_def word_less_nat_alt push_bit_eq_mult)
  then have u: "unat (ucast v :: u32) = unat v"
    by (simp add: unsigned_ucast_eq take_bit_nat_eq_self)
  show "ucast (ucast v :: u32) = v"
    by (rule bit_word_eqI) (use high_bits_clear [OF v] in \<open>auto simp: bit_simps dest: high_bits_clear [OF v]\<close>)
  show "ucast v \<le> CBS_ASN1_TAG_NUMBER_MASK" "(0x1f :: u32) \<le> ucast v \<longleftrightarrow> \<not> v < 0x1f"
    using v u by (simp_all add: CBS_ASN1_TAG_NUMBER_MASK_def word_le_nat_alt word_less_nat_alt
        push_bit_eq_mult not_less)
qed

lemma low_tag_byte:
  fixes b :: byte
  shows "(ucast (b AND 0x1f) :: u32) = 0x1f \<longleftrightarrow> b AND 0x1f = 0x1f"
    and "(ucast (b AND 0x1f) :: u32) \<le> 0x1f"
    and "ucast (ucast (b AND 0x1f) :: u32) = b AND 0x1f"
proof -
  show c: "ucast (ucast (b AND 0x1f) :: u32) = b AND 0x1f"
    by (rule bit_word_eqI) (auto simp: bit_simps byte_simps)
  then show "(ucast (b AND 0x1f) :: u32) = 0x1f \<longleftrightarrow> b AND 0x1f = 0x1f" by fastforce
  have "unat (ucast (b AND 0x1f) :: u32) = unat (b AND 0x1f)"
    using unat_less_8 [of "b AND 0x1f"] by (simp add: unsigned_ucast_eq take_bit_nat_eq_self)
  also have "\<dots> \<le> unat (0x1f :: byte)" by (simp only: word_le_nat_alt [symmetric] word_and_le1)
  finally show "(ucast (b AND 0x1f) :: u32) \<le> 0x1f" by (simp add: word_le_nat_alt)
qed

lemma asn1_tag_bytes_high:
  assumes "\<not> v > ucast CBS_ASN1_TAG_NUMBER_MASK" and "\<not> v < 0x1f" and "b AND 0x1f = 0x1f"
  shows "asn1_tag_bytes (push_bit 24 (ucast b AND 0xe0) OR ucast v) = b # base128 v"
  using tag_number_cast [OF assms(1)] assms(2,3) byte_split_tag [of b]
  by (simp add: asn1_tag_bytes_def tag_class_join)

lemma asn1_tag_bytes_low:
  assumes "b AND 0x1f \<noteq> 0x1f"
  shows "asn1_tag_bytes (push_bit 24 (ucast b AND 0xe0) OR ucast (b AND 0x1f)) = [b]"
proof -
  have "(ucast (b AND 0x1f) :: u32) < 0x1f"
    using assms low_tag_byte [of b] by (simp add: order_less_le)
  moreover have "(0x1f :: u32) \<le> CBS_ASN1_TAG_NUMBER_MASK" by code_simp
  ultimately show ?thesis
    using assms low_tag_byte [of b] byte_split_tag [of b]
    by (simp add: asn1_tag_bytes_def tag_class_join not_le)
qed

lemma parse_asn1_tag_cons:
  "parse_asn1_tag (b # c) =
     (if b AND 0x1f = 0x1f then
        (case parse_base128_integer c of
           (None, c1) \<Rightarrow> (None, c1)
         | (Some v, c1) \<Rightarrow>
             if v > ucast CBS_ASN1_TAG_NUMBER_MASK \<or> v < 0x1f then (None, c1)
             else finish_tag (push_bit 24 (ucast b AND 0xe0)) (ucast v) c1)
      else finish_tag (push_bit 24 (ucast b AND 0xe0)) (ucast (b AND 0x1f)) c)"
  by (simp add: parse_asn1_tag_def Let_def low_tag_byte(1))

lemma finish_tag_iff:
  "finish_tag t n c = (Some tag, rest) \<longleftrightarrow> tag = t OR n \<and> rest = c \<and> valid_tag tag"
  by (auto simp: finish_tag_def Let_def valid_tag_def)

lemma parse_asn1_tag_iff:
  "parse_asn1_tag cbs = (Some tag, rest) \<longleftrightarrow> cbs = asn1_tag_bytes tag @ rest \<and> valid_tag tag"
proof
  assume p: "parse_asn1_tag cbs = (Some tag, rest)"
  then obtain b c where cbs: "cbs = b # c" by (cases cbs) (auto simp: parse_asn1_tag_def)
  with p show "cbs = asn1_tag_bytes tag @ rest \<and> valid_tag tag"
    by (auto simp: parse_asn1_tag_cons finish_tag_iff parse_base128_iff asn1_tag_bytes_low
        asn1_tag_bytes_high simp del: not_less split: prod.splits option.splits if_splits)
next
  assume a: "cbs = asn1_tag_bytes tag @ rest \<and> valid_tag tag"
  define c n where "c = tag_class tag" and "n = tag_number tag"
  have tag: "tag = push_bit 24 (ucast c) OR n" "ucast c AND 0xe0 = (ucast c :: u32)"
      "c AND 0x1f = 0" "c AND 0xe0 = c" "n \<le> CBS_ASN1_TAG_NUMBER_MASK"
    using tag_split [of tag] by (simp_all add: c_def n_def)
  show "parse_asn1_tag cbs = (Some tag, rest)"
  proof (cases "n \<ge> 0x1f")
    case True
    have u: "unat (ucast x :: u64) = unat x" for x :: u32
      using unat_less_32 [of x] by (simp add: unsigned_ucast_eq take_bit_nat_eq_self)
    have nn: "\<not> (ucast n :: u64) > ucast CBS_ASN1_TAG_NUMBER_MASK" "\<not> (ucast n :: u64) < 0x1f"
      using tag(5) True unfolding word_less_nat_alt word_le_nat_alt u by simp_all
    have bb: "(c OR 0x1f) AND 0x1f = 0x1f" "ucast (c OR 0x1f) AND (0xe0 :: u32) = ucast c"
      unfolding c_def by (rule bit_word_eqI; auto simp: tag_class_def bit_simps byte_simps)+
    have "parse_base128_integer (base128 (ucast n) @ rest) = (Some (ucast n), rest)"
      by (simp add: parse_base128_iff)
    moreover have "cbs = (c OR 0x1f) # base128 (ucast n) @ rest"
      using a True by (simp add: asn1_tag_bytes_def c_def n_def)
    ultimately show ?thesis
      using a nn bb tag(1) by (simp add: parse_asn1_tag_cons finish_tag_iff ucast_u32_u64)
  next
    case False
    then have n31: "unat n < 31" by (simp add: word_le_nat_alt)
    then have small: "bit n i \<Longrightarrow> i < 5" for i by (intro high_bits_clear [of n 5]) simp_all
    have bb: "(c OR ucast n) AND 0x1f = ucast n" "ucast (c OR ucast n) AND (0xe0 :: u32) = ucast c"
      unfolding c_def
      by (rule bit_word_eqI; auto simp: tag_class_def bit_simps byte_simps dest: small)+
    have un: "ucast (ucast n :: byte) = n" 
      by (rule bit_word_eqI) (auto simp: bit_simps dest: small)
    have "ucast n \<noteq> (0x1f :: byte)"
    proof
      assume "ucast n = (0x1f :: byte)"
      with un have "n = 0x1f" by simp
      with n31 show False by simp
    qed
    moreover have "cbs = (c OR ucast n) # rest"
      using a False by (simp add: asn1_tag_bytes_def c_def n_def)
    ultimately show ?thesis
      using a bb un tag(1) by (simp add: parse_asn1_tag_cons finish_tag_iff)
  qed
qed

section \<open>Lengths and elements\<close>

definition len_octets :: "nat \<Rightarrow> nat" where
  "len_octets n = (if n \<le> 0xff then 1 else if n \<le> 0xffff then 2 else if n \<le> 0xffffff then 3 else 4)"

definition asn1_len_bytes :: "nat \<Rightarrow> byte list" where
  "asn1_len_bytes n =
     (if n \<le> 0x7f then [of_nat n]
      else (0x80 OR of_nat (len_octets n)) # be_bytes (len_octets n) (of_nat n))"

definition asn1_header :: "CBS_ASN1_TAG \<Rightarrow> nat \<Rightarrow> byte list" where
  "asn1_header tag n = asn1_tag_bytes tag @ asn1_len_bytes n"

text \<open>The DER encoding of an element with given tag and contents.\<close>

definition asn1_element_bytes :: "CBS_ASN1_TAG \<Rightarrow> byte list \<Rightarrow> byte list" where
  "asn1_element_bytes tag contents = asn1_header tag (length contents) @ contents"

lemma base128_high_length: "unat v < 2 ^ (7 * k) \<Longrightarrow> length (base128_high v) \<le> k"
proof (induction v arbitrary: k rule: base128_high.induct)
  case (1 v)
  show ?case
  proof (cases "v = 0")
    case False
    then obtain k' where k: "k = Suc k'" using "1.prems" by (cases k) (auto simp: unat_eq_zero)
    have "unat (drop_bit 7 v) < 2 ^ (7 * k')"
      using "1.prems" unfolding unat_drop_bit by (simp add: k power_add div_less_iff_less_mult mult.commute)
    from "1.IH" [OF False this] False show ?thesis by (simp add: base128_high.simps [of v] k)
  qed (simp add: base128_high.simps)
qed

lemma base128_length: "length (base128 v) \<le> 10"
proof -
  have "unat (drop_bit 7 v) < 2 ^ (7 * 9)"
    using unat_less_64 [of v] unfolding unat_drop_bit by (simp add: div_less_iff_less_mult)
  from base128_high_length [OF this] show ?thesis by (simp add: base128_def)
qed

lemma asn1_tag_bytes_length: "length (asn1_tag_bytes tag) \<le> 11"
  using base128_length by (simp add: asn1_tag_bytes_def)

lemma len_octets_unique:
  assumes "128 \<le> n" "n < 256 ^ k" "256 ^ (k - 1) \<le> n \<or> k = 1" "1 \<le> k" "k \<le> 4"
  shows "len_octets n = k"
proof -
  have "k = 1 \<or> k = 2 \<or> k = 3 \<or> k = 4" using assms by linarith
  with assms show ?thesis by (auto simp: len_octets_def)
qed

lemma len_octets_bounds:
  assumes "0x7f < n" "n < 2 ^ 32"
  shows "n < 256 ^ len_octets n" "1 \<le> len_octets n" "len_octets n \<le> 4"
    "n div 256 ^ (len_octets n - 1) \<noteq> 0"
  using assms by (auto simp: len_octets_def)

lemma pow8: "(2 :: nat) ^ (m * 8) = 256 ^ m"
  using power_mult [of "2 :: nat" 8 m] by (simp add: mult.commute)

lemma get_element_iff:
  "get_element tag hl bf ind len cbs = (Some e, rest) \<longleftrightarrow>
     cbs = element e @ rest \<and> length (element e) = len \<and>
     e = \<lparr>element = element e, out_tag = tag, out_header_len = hl,
          out_ber_found = bf, out_indefinite = ind\<rparr>"
proof
  assume "get_element tag hl bf ind len cbs = (Some e, rest)"
  then show "cbs = element e @ rest \<and> length (element e) = len \<and>
     e = \<lparr>element = element e, out_tag = tag, out_header_len = hl,
          out_ber_found = bf, out_indefinite = ind\<rparr>"
    by (auto simp: get_element_def CBS_get_bytes_iff split: prod.splits option.splits)
next
  assume a: "cbs = element e @ rest \<and> length (element e) = len \<and>
     e = \<lparr>element = element e, out_tag = tag, out_header_len = hl,
          out_ber_found = bf, out_indefinite = ind\<rparr>"
  then have "CBS_get_bytes len cbs = (Some (element e), rest)" by (simp add: CBS_get_bytes_iff)
  with a show "get_element tag hl bf ind len cbs = (Some e, rest)"
    unfolding get_element_def by auto
qed

text \<open>The length bytes, read after the tag: what the strict reader accepts.\<close>

definition der_length :: "CBS \<Rightarrow> (nat \<times> nat) option" where
  "der_length header =
     (case CBS_get_u8 header of
        (None, _) \<Rightarrow> None
      | (Some b, header1) \<Rightarrow>
          if b AND 0x80 = 0 then Some (unat b, 1)
          else let k = unat (b AND 0x7f) in
            if k = 0 \<or> k > 4 then None
            else (case cbs_get_u k header1 of
                    (None, _) \<Rightarrow> None
                  | (Some n, _) \<Rightarrow>
                      if n < 128 \<or> drop_bit ((k - 1) * 8) n = 0 then None
                      else Some (unat n, 1 + k)))"

lemma short_len_byte: "(b :: byte) AND 0x80 = 0 \<Longrightarrow> unat b \<le> 0x7f"
proof -
  assume "b AND 0x80 = 0"
  then have "b \<le> 0x7F" using byte_low_bits [of b] by (metis word_and_le1 and.commute)
  then show ?thesis by (simp add: word_le_nat_alt)
qed

lemma der_length_sound:
  assumes "der_length header = Some (n, k)"
  shows "n < 2 ^ 32 \<and> k = length (asn1_len_bytes n) \<and> take k header = asn1_len_bytes n"
proof -
  obtain b h where h: "header = b # h"
    using assms by (cases header) (auto simp: der_length_def)
  show ?thesis
  proof (cases "b AND 0x80 = 0")
    case True
    with assms h have "n = unat b" "k = 1" by (auto simp: der_length_def)
    with True h show ?thesis using short_len_byte [OF True] by (auto simp: asn1_len_bytes_def)
  next
    case False
    define j where "j = unat (b AND 0x7f)"
    have j: "1 \<le> j" "j \<le> 4" using assms h False by (auto simp: der_length_def j_def Let_def split: if_splits)
    then obtain v rest where v: "cbs_get_u j h = (Some v, rest)" "\<not> v < 128"
        "drop_bit ((j - 1) * 8) v \<noteq> 0" "n = unat v" "k = 1 + j"
      using assms h False by (auto simp: der_length_def j_def Let_def
          split: if_splits prod.splits option.splits)
    have hb: "h = be_bytes j v @ rest" and lt: "unat v < 256 ^ j"
      using v(1) j by (simp_all add: cbs_get_u_iff)
    have "128 \<le> n" using v(2,4) by (simp add: word_less_nat_alt)
    moreover have "256 ^ (j - 1) \<le> n"
    proof (rule ccontr)
      assume "\<not> 256 ^ (j - 1) \<le> n"
      then have "unat v < 2 ^ ((j - 1) * 8)" by (simp add: v(4) pow8)
      with v(3) show False by (simp add: word_unat_eq_iff unat_drop_bit)
    qed
    ultimately have lo: "len_octets n = j" using lt v(4) j by (intro len_octets_unique) auto
    have "n < 2 ^ 32" 
      using lt j v(4) power_increasing [of j 4 "256 :: nat"] by simp
    moreover have "b = 0x80 OR of_nat j"
      using byte_high_bit [OF False] by (simp add: j_def or.commute)
    ultimately show ?thesis
      using \<open>128 \<le> n\<close> lo h hb v(4,5) by (simp add: asn1_len_bytes_def)
  qed
qed

lemma der_length_complete:
  assumes "n < 2 ^ 32"
  shows "der_length (asn1_len_bytes n @ rest) = Some (n, length (asn1_len_bytes n))"
proof (cases "n \<le> 0x7f")
  case True
  then have u: "unat (of_nat n :: byte) = n" by (simp add: unat_of_nat)
  then have "(of_nat n :: byte) AND 0x80 = 0"
    using True high_bits_clear [of "of_nat n :: byte" 7 7] by (auto simp: byte_bit_80)
  with True u show ?thesis by (simp add: asn1_len_bytes_def der_length_def)
next
  case False
  define j where "j = len_octets n"
  note b = len_octets_bounds [OF _ assms, folded j_def]
  have j: "j = 1 \<or> j = 2 \<or> j = 3 \<or> j = 4" using b(2,3) False by linarith
  have n: "unat (of_nat n :: u64) = n" using assms by (simp add: unat_of_nat)
  have bb: "(0x80 OR of_nat j :: byte) AND 0x80 \<noteq> 0" "unat ((0x80 OR of_nat j :: byte) AND 0x7f) = j"
    using j by auto
  have g: "cbs_get_u j (be_bytes j (of_nat n) @ rest) = (Some (of_nat n), rest)"
    using b False n by (simp add: cbs_get_u_iff)
  have "\<not> (of_nat n :: u64) < 128" using False n by (simp add: word_less_nat_alt)
  moreover have "drop_bit ((j - 1) * 8) (of_nat n :: u64) \<noteq> 0"
    using b(4) False n by (simp add: word_unat_eq_iff unat_drop_bit pow8)
  ultimately show ?thesis
    using False b g bb n by (simp add: asn1_len_bytes_def der_length_def j_def [symmetric] Let_def)
qed


text \<open>The reader, strict form, in terms of its two parts.\<close>

lemma get_any_asn1_element_der:
  assumes p: "parse_asn1_tag cbs = (Some tag, header)" and d: "der_length header = Some (n, k)"
  shows "CBS_get_any_asn1_element cbs =
    get_element tag (length cbs - length header + k) False False
      (length cbs - length header + k + n) cbs"
proof -
  obtain b h where h: "header = b # h" using d by (cases header) (auto simp: der_length_def)
  define t where "t = length cbs - length header"
  have cbs: "cbs = asn1_tag_bytes tag @ header" using p by (simp add: parse_asn1_tag_iff)
  then have t: "t \<le> 11" "length cbs - length h = t + 1"
    using asn1_tag_bytes_length [of tag] by (simp_all add: t_def h)
  show ?thesis
  proof (cases "b AND 0x80 = 0")
    case True
    with d h have "n = unat b" "k = 1" by (auto simp: der_length_def)
    with True p h t show ?thesis unfolding t_def [symmetric]
      by (simp add: CBS_get_any_asn1_element_def cbs_get_any_asn1_element_def CBS_len_def Let_def
          add.commute)
  next
    case False
    define j where "j = unat (b AND 0x7f)"
    have j: "1 \<le> j" "j \<le> 4" using d h False by (auto simp: der_length_def j_def Let_def split: if_splits)
    then obtain v rest where v: "cbs_get_u j h = (Some v, rest)" "\<not> v < 128"
        "drop_bit ((j - 1) * 8) v \<noteq> 0" "n = unat v" "k = 1 + j"
      using d h False by (auto simp: der_length_def j_def Let_def
          split: if_splits prod.splits option.splits)
    have "n < 2 ^ 32" using der_length_sound [OF d] by blast
    then have total: "unat (v + of_nat (t + 1) + of_nat j) = n + (t + 1) + j"
      using t(1) j v(4) by (simp add: unat_word_ariths unat_of_nat)
    then have "\<not> v + of_nat (t + 1) + of_nat j < v"
      using v(4) by (simp add: word_less_nat_alt)
    with False p h t j v total show ?thesis unfolding t_def [symmetric]
      by (simp add: CBS_get_any_asn1_element_def cbs_get_any_asn1_element_def CBS_len_def Let_def
          j_def [symmetric] ac_simps del: of_nat_Suc of_nat_add)
  qed
qed

lemma get_any_asn1_element_parts:
  assumes "CBS_get_any_asn1_element cbs = (Some e, rest)"
  obtains tag header n k where "parse_asn1_tag cbs = (Some tag, header)"
    and "der_length header = Some (n, k)"
proof -
  obtain tag header where p: "parse_asn1_tag cbs = (Some tag, header)"
    using assms by (auto simp: CBS_get_any_asn1_element_def cbs_get_any_asn1_element_def
        split: prod.splits option.splits)
  obtain b h where h: "header = b # h"
    using assms p by (cases header)
      (auto simp: CBS_get_any_asn1_element_def cbs_get_any_asn1_element_def)
  have "der_length header \<noteq> None"
    using assms p h by (auto simp: CBS_get_any_asn1_element_def cbs_get_any_asn1_element_def
        der_length_def Let_def split: prod.splits option.splits if_splits)
  with p that show ?thesis by auto
qed

lemma get_any_asn1_element_iff:
  "CBS_get_any_asn1_element cbs = (Some e, rest) \<longleftrightarrow>
     (\<exists>tag contents. valid_tag tag \<and> length contents < 2 ^ 32 \<and>
       cbs = asn1_element_bytes tag contents @ rest \<and>
       e = \<lparr>element = asn1_element_bytes tag contents, out_tag = tag,
            out_header_len = length (asn1_header tag (length contents)),
            out_ber_found = False, out_indefinite = False\<rparr>)"
proof
  assume a: "CBS_get_any_asn1_element cbs = (Some e, rest)"
  then obtain tag header n k where p: "parse_asn1_tag cbs = (Some tag, header)"
    and d: "der_length header = Some (n, k)" by (rule get_any_asn1_element_parts)
  have t: "cbs = asn1_tag_bytes tag @ header" "valid_tag tag" using p by (simp_all add: parse_asn1_tag_iff)
  have l: "n < 2 ^ 32" "k = length (asn1_len_bytes n)" "take k header = asn1_len_bytes n"
    using der_length_sound [OF d] by blast+
  define hd where "hd = asn1_header tag n"
  have cbs: "cbs = hd @ drop k header" and hl: "length cbs - length header + k = length hd"
    using t(1) l append_take_drop_id [of k header] by (simp_all add: hd_def asn1_header_def)
  from a get_any_asn1_element_der [OF p d] hl
  have e: "cbs = element e @ rest" "length (element e) = length hd + n"
      "e = \<lparr>element = element e, out_tag = tag, out_header_len = length hd,
          out_ber_found = False, out_indefinite = False\<rparr>"
    by (simp_all add: get_element_iff)
  define contents where "contents = drop (length hd) (element e)"
  have c: "length contents = n" using e(2) by (simp add: contents_def)
  have "element e = hd @ contents"
    using cbs e(1,2) by (metis append_eq_append_conv_if append_take_drop_id contents_def le_add1)
  with c have "element e = asn1_element_bytes tag contents"
    by (simp add: asn1_element_bytes_def hd_def)
  with t l c e show "\<exists>tag contents. valid_tag tag \<and> length contents < 2 ^ 32 \<and>
       cbs = asn1_element_bytes tag contents @ rest \<and>
       e = \<lparr>element = asn1_element_bytes tag contents, out_tag = tag,
            out_header_len = length (asn1_header tag (length contents)),
            out_ber_found = False, out_indefinite = False\<rparr>"
    by (metis hd_def)
next
  assume "\<exists>tag contents. valid_tag tag \<and> length contents < 2 ^ 32 \<and>
       cbs = asn1_element_bytes tag contents @ rest \<and>
       e = \<lparr>element = asn1_element_bytes tag contents, out_tag = tag,
            out_header_len = length (asn1_header tag (length contents)),
            out_ber_found = False, out_indefinite = False\<rparr>"
  then obtain tag contents where a: "valid_tag tag" "length contents < 2 ^ 32"
       "cbs = asn1_element_bytes tag contents @ rest"
       "e = \<lparr>element = asn1_element_bytes tag contents, out_tag = tag,
            out_header_len = length (asn1_header tag (length contents)),
            out_ber_found = False, out_indefinite = False\<rparr>" by blast
  let ?h = "asn1_len_bytes (length contents) @ contents @ rest"
  have cbs: "cbs = asn1_tag_bytes tag @ ?h" using a(3) by (simp add: asn1_element_bytes_def asn1_header_def)
  have "parse_asn1_tag cbs = (Some tag, ?h)" using a(1) cbs by (simp add: parse_asn1_tag_iff)
  from get_any_asn1_element_der [OF this der_length_complete [OF a(2)]]
  have "CBS_get_any_asn1_element cbs = get_element tag (length (asn1_header tag (length contents)))
      False False (length (asn1_element_bytes tag contents)) cbs"
    by (simp add: cbs asn1_header_def asn1_element_bytes_def add.assoc)
  with a(3,4) show "CBS_get_any_asn1_element cbs = (Some e, rest)"
    by (simp add: get_element_iff)
qed

section \<open>Contents of elements\<close>

lemma CBS_skip_iff: "CBS_skip n cbs = (Some u, rest) \<longleftrightarrow> n \<le> length cbs \<and> rest = drop n cbs"
  by (auto simp: CBS_skip_def cbs_get_def)

lemma skip_header:
  "CBS_skip (length (asn1_header tag (length contents))) (asn1_element_bytes tag contents) =
     (Some (), contents)"
  by (simp add: CBS_skip_iff asn1_element_bytes_def)

lemma get_any_asn1_element_complete:
  assumes "valid_tag tag" "length contents < 2 ^ 32"
  shows "CBS_get_any_asn1_element (asn1_element_bytes tag contents @ rest) =
    (Some \<lparr>element = asn1_element_bytes tag contents, out_tag = tag,
       out_header_len = length (asn1_header tag (length contents)),
       out_ber_found = False, out_indefinite = False\<rparr>, rest)"
  using assms get_any_asn1_element_iff by blast

lemma get_asn1_iff:
  "CBS_get_asn1 tag cbs = (Some contents, rest) \<longleftrightarrow>
     valid_tag tag \<and> length contents < 2 ^ 32 \<and> cbs = asn1_element_bytes tag contents @ rest"
proof
  assume "CBS_get_asn1 tag cbs = (Some contents, rest)"
  then obtain e where e: "CBS_get_any_asn1_element cbs = (Some e, rest)" "out_tag e = tag"
      "CBS_skip (out_header_len e) (element e) = (Some (), contents)"
    by (auto simp: CBS_get_asn1_def cbs_get_asn1_def split: prod.splits option.splits if_splits)
  then obtain c where c: "valid_tag tag" "length c < 2 ^ 32" "cbs = asn1_element_bytes tag c @ rest"
      "element e = asn1_element_bytes tag c" "out_header_len e = length (asn1_header tag (length c))"
    by (auto simp: get_any_asn1_element_iff)
  with e(3) have "contents = c" by (simp add: skip_header)
  with c show "valid_tag tag \<and> length contents < 2 ^ 32 \<and> cbs = asn1_element_bytes tag contents @ rest"
    by simp
next
  assume a: "valid_tag tag \<and> length contents < 2 ^ 32 \<and> cbs = asn1_element_bytes tag contents @ rest"
  then show "CBS_get_asn1 tag cbs = (Some contents, rest)"
    by (simp add: CBS_get_asn1_def cbs_get_asn1_def get_any_asn1_element_complete skip_header)
qed

lemma get_asn1_complete:
  "valid_tag tag \<Longrightarrow> length contents < 2 ^ 32 \<Longrightarrow>
   CBS_get_asn1 tag (asn1_element_bytes tag contents @ rest) = (Some contents, rest)"
  by (simp add: get_asn1_iff)

lemma any_asn1_iff:
  "CBS_get_any_asn1 cbs = (Some (contents, tag), rest) \<longleftrightarrow>
     valid_tag tag \<and> length contents < 2 ^ 32 \<and> cbs = asn1_element_bytes tag contents @ rest"
proof
  assume "CBS_get_any_asn1 cbs = (Some (contents, tag), rest)"
  then obtain e where "CBS_get_any_asn1_element cbs = (Some e, rest)" "out_tag e = tag"
      "CBS_skip (out_header_len e) (element e) = (Some (), contents)"
    by (auto simp: CBS_get_any_asn1_def split: prod.splits option.splits)
  then show "valid_tag tag \<and> length contents < 2 ^ 32 \<and>
      cbs = asn1_element_bytes tag contents @ rest"
    by (auto simp: get_any_asn1_element_iff skip_header)
next
  assume "valid_tag tag \<and> length contents < 2 ^ 32 \<and> cbs = asn1_element_bytes tag contents @ rest"
  then show "CBS_get_any_asn1 cbs = (Some (contents, tag), rest)"
    by (simp add: CBS_get_any_asn1_def get_any_asn1_element_complete skip_header)
qed

lemma universal_tags:
  "valid_tag CBS_ASN1_BOOLEAN" "valid_tag CBS_ASN1_INTEGER" "valid_tag CBS_ASN1_OCTETSTRING"
  by (simp_all add: valid_tag_def CBS_ASN1_CONSTRUCTED_def CBS_ASN1_BOOLEAN_def
      CBS_ASN1_INTEGER_def CBS_ASN1_OCTETSTRING_def)

section \<open>Properties of the readers\<close>

text \<open>
  C14 (equivalence). The strict element reader accepts exactly DER: \<^verbatim>\<open>CBS_get_any_asn1\<close>
  returns contents and tag precisely when the input begins with the one DER encoding of that
  element (minimal high-tag form, minimal length form, a tag other than [UNIVERSAL 0], fewer
  than \<open>2\<^sup>3\<^sup>2\<close> content bytes), and what it leaves is the input behind it.
\<close>

theorem der_reader_exact:
  "CBS_get_any_asn1 cbs = (Some (contents, tag), rest) \<longleftrightarrow>
     valid_tag tag \<and> length contents < 2 ^ 32 \<and> cbs = asn1_element_bytes tag contents @ rest"
  by (rule any_asn1_iff)

text \<open>A BER element in which nothing but DER was found.\<close>

text \<open>
  The BER reader extends the DER reader conservatively: it accepts an
  element without setting \<open>ber_found\<close> exactly when the strict reader accepts it, with the
  same outputs and the same remaining input.
\<close>

theorem ber_reader_extends_der:
  "CBS_get_any_ber_asn1_element cbs = (Some e, rest) \<and> \<not> out_ber_found e \<longleftrightarrow>
   CBS_get_any_asn1_element cbs = (Some e, rest)"
proof (cases "parse_asn1_tag cbs")
  case (Pair r header)
  have found: "out_ber_found e = bf" if "get_element t hl bf ind n cbs = (Some e, rest)" for t hl bf ind n
    using that by (metis get_element_iff asn1_element.select_convs(4))
  note defs = CBS_get_any_ber_asn1_element_def CBS_get_any_asn1_element_def
    cbs_get_any_asn1_element_def Pair Let_def
  show ?thesis
  proof (cases r)
    case (Some tag)
    show ?thesis
    proof (cases header)
      case (Cons b h)
      define k where "k = unat (b AND 0x7f)"
      show ?thesis
      proof (cases "cbs_get_u k h")
        case g: (Pair l h2)
        show ?thesis
        proof (cases l)
          case None
          with g Some Cons show ?thesis by (auto simp: defs k_def [symmetric] dest: found)
        next
          case (Some n)
          with g \<open>r = Some tag\<close> Cons show ?thesis by (auto simp: defs k_def [symmetric] dest: found)
        qed
      qed
    qed (simp add: defs Some)
  qed (simp add: defs)
qed

text \<open>
  A failing strict read of an element consumes nothing, and a read of a
  given tag that fails has consumed either nothing or one whole well-formed element.
\<close>

theorem failed_read_consumption:
  assumes "CBS_get_asn1 tag cbs = (None, c)"
  shows "c = cbs \<or> (\<exists>t contents. t \<noteq> tag \<and> cbs = asn1_element_bytes t contents @ c)"
proof (cases "CBS_get_any_asn1_element cbs")
  case (Pair r c')
  show ?thesis
  proof (cases r)
    case None
    have "c' = cbs"
      using Pair None by (auto simp: CBS_get_any_asn1_element_def cbs_get_any_asn1_element_def Let_def
          get_element_def CBS_get_bytes_def cbs_get_def split: prod.splits option.splits if_splits)
    with Pair None assms show ?thesis by (auto simp: CBS_get_asn1_def cbs_get_asn1_def)
  next
    case (Some e)
    with Pair obtain t contents where e: "cbs = asn1_element_bytes t contents @ c'" "out_tag e = t"
        "element e = asn1_element_bytes t contents"
        "out_header_len e = length (asn1_header t (length contents))"
      by (auto simp: get_any_asn1_element_iff)
    with Some Pair assms have "c = c'" "t \<noteq> tag"
      by (auto simp: CBS_get_asn1_def cbs_get_asn1_def skip_header split: if_splits)
    with e show ?thesis by blast
  qed
qed

theorem failed_read_consumption_witness:
  "CBS_get_asn1 CBS_ASN1_INTEGER [4, 1, 7, 9] = (None, [9]) \<and>
   ([9] = [4, 1, 7, 9 :: byte] \<or>
    (\<exists>t contents. t \<noteq> CBS_ASN1_INTEGER \<and> [4, 1, 7, 9] = asn1_element_bytes t contents @ [9]))"
proof -
  have "CBS_get_asn1 CBS_ASN1_INTEGER [4, 1, 7, 9] = (None, [9])" by code_simp
  with failed_read_consumption [OF this] show ?thesis by blast
qed

end
