(* ===== verification/Cbb.thy ===== *)
theory Cbb
  imports Der
begin

unbundle bit_operations_syntax

text \<open>
  BoringSSL's byte-string builder (\<^verbatim>\<open>crypto/bytestring/cbb.c\<close>). A top-level \<^verbatim>\<open>CBB\<close> owns the
  buffer; a child \<^verbatim>\<open>CBB\<close> is a pending length prefix in the same buffer, and each \<^verbatim>\<open>CBB\<close>
  has at most one child. The live objects therefore form a chain, and the state is one record:
  the buffer of the top-level object and the chain of its pending descendants, outermost
  first. A \<^verbatim>\<open>CBB *\<close> is its depth in the chain, 0 for the top-level object; a depth beyond the
  chain is a child that has been flushed or discarded, whose \<open>base\<close> is \<^verbatim>\<open>NULL\<close>.

  \<open>buf\<close> holds the \<open>len\<close> valid bytes. Functions that hand out uninitialised space take the
  bytes that the caller stores there. \<open>al\<close> is the answer of the system allocator to a request
  for the buffer of a given size; a failed request puts the \<^verbatim>\<open>CBB\<close> in the error state and a
  successful one is followed by larger ones only, so a function of the size covers every
  sequence of answers. Scratch allocations have answers of their own.
\<close>

section \<open>State and buffer\<close>

record cbb_child_st =
  offset :: size_t
  pending_len_len :: byte
  pending_is_asn1 :: bool

record CBB =
  buf :: "byte list"
  cap :: size_t
  can_resize :: bool
  error :: bool
  children :: "cbb_child_st list"

abbreviation base_len :: "CBB \<Rightarrow> size_t" where
  "base_len st \<equiv> of_nat (length (buf st))"

definition cbb_init :: "size_t \<Rightarrow> bool \<Rightarrow> CBB" where
  "cbb_init capacity resize =
     \<lparr>buf = [], cap = capacity, can_resize = resize, error = False, children = []\<rparr>"

definition CBB_init :: "(size_t \<Rightarrow> bool) \<Rightarrow> size_t \<Rightarrow> CBB option" where
  "CBB_init al initial_capacity =
     (if initial_capacity > 0 \<and> \<not> OPENSSL_malloc al initial_capacity then None
      else Some (cbb_init initial_capacity True))"

definition CBB_init_fixed :: "size_t \<Rightarrow> CBB" where
  "CBB_init_fixed len = cbb_init len False"

definition cbb_buffer_reserve :: "(size_t \<Rightarrow> bool) \<Rightarrow> size_t \<Rightarrow> CBB \<Rightarrow> bool \<times> CBB" where
  "cbb_buffer_reserve al len st =
     (let newlen = base_len st + len in
      if newlen < base_len st then (False, st\<lparr>error := True\<rparr>)
      else if newlen > cap st then
        (if \<not> can_resize st then (False, st\<lparr>error := True\<rparr>)
         else let newcap0 = cap st * 2;
                  newcap = (if newcap0 < cap st \<or> newcap0 < newlen then newlen else newcap0)
              in if \<not> OPENSSL_malloc al newcap then (False, st\<lparr>error := True\<rparr>)
                 else (True, st\<lparr>cap := newcap\<rparr>))
      else (True, st))"

definition cbb_buffer_add :: "(size_t \<Rightarrow> bool) \<Rightarrow> byte list \<Rightarrow> CBB \<Rightarrow> bool \<times> CBB" where
  "cbb_buffer_add al data st =
     (case cbb_buffer_reserve al (of_nat (length data)) st of
        (False, st1) \<Rightarrow> (False, st1)
      | (True, st1) \<Rightarrow> (True, st1\<lparr>buf := buf st1 @ data\<rparr>))"

text \<open>Whether the \<^verbatim>\<open>CBB\<close> at a depth has a base, and whether it has a child.\<close>

definition cbb_get_base :: "nat \<Rightarrow> CBB \<Rightarrow> bool" where
  "cbb_get_base d st \<longleftrightarrow> d \<le> length (children st)"

definition cbb_on_error :: "nat \<Rightarrow> CBB \<Rightarrow> CBB" where
  "cbb_on_error d st = st\<lparr>error := True, children := take d (children st)\<rparr>"

section \<open>Flushing\<close>

definition memmove :: "nat \<Rightarrow> nat \<Rightarrow> nat \<Rightarrow> byte list \<Rightarrow> byte list" where
  "memmove dst src n b = take dst b @ take n (drop src b) @ drop (dst + n) b"

text \<open>
  The loop that stores a length big-endian in \<open>k\<close> bytes from the last to the first; it
  returns the buffer and what is left of the length.
\<close>

fun store_len :: "nat \<Rightarrow> nat \<Rightarrow> size_t \<Rightarrow> byte list \<Rightarrow> byte list \<times> size_t" where
  "store_len 0 off len b = (b, len)"
| "store_len (Suc i) off len b = store_len i off (drop_bit 8 len) (b[off + i := ucast len])"

text \<open>The choice of the DER length form: \<open>len_len\<close>, the first length byte, the remaining length.\<close>

definition asn1_len_form :: "size_t \<Rightarrow> byte \<times> byte \<times> size_t" where
  "asn1_len_form len =
     (if len > 0xffffff then (5, 0x80 OR 4, len)
      else if len > 0xffff then (4, 0x80 OR 3, len)
      else if len > 0xff then (3, 0x80 OR 2, len)
      else if len > 0x7f then (2, 0x80 OR 1, len)
      else (1, ucast len, 0))"

text \<open>
  The part of \<^verbatim>\<open>CBB_flush\<close> for an ASN.1 child, up to the loop: it makes room for a longer
  length form, stores the first length byte, and gives the position, the number of bytes and
  the value for the loop.
\<close>

definition flush_asn1_prefix ::
  "(size_t \<Rightarrow> bool) \<Rightarrow> cbb_child_st \<Rightarrow> size_t \<Rightarrow> size_t \<Rightarrow> CBB \<Rightarrow>
     (size_t \<times> byte \<times> size_t) option \<times> CBB" where
  "flush_asn1_prefix al child child_start len st =
     (if len > 0xfffffffe then (None, st)
      else case asn1_len_form len of
        (len_len, initial_length_byte, len') \<Rightarrow>
          let extra_bytes = len_len - 1;
              (ok, st1) = (if len_len \<noteq> 1
                then (case cbb_buffer_add al (replicate (unat extra_bytes) 0) st of
                        (False, s) \<Rightarrow> (False, s)
                      | (True, s) \<Rightarrow>
                          (True, s\<lparr>buf := memmove (unat (child_start + ucast extra_bytes))
                                     (unat child_start) (unat len') (buf s)\<rparr>))
                else (True, st))
          in if \<not> ok then (None, st1)
             else (Some (offset child + 1, len_len - 1, len'),
                   st1\<lparr>buf := (buf st1)[unat (offset child) := initial_length_byte]\<rparr>))"

definition flush_child ::
  "(size_t \<Rightarrow> bool) \<Rightarrow> cbb_child_st \<Rightarrow> size_t \<Rightarrow> CBB \<Rightarrow> bool \<times> CBB" where
  "flush_child al child child_start st =
     (let len = base_len st - child_start;
          (r, st1) = (if pending_is_asn1 child then flush_asn1_prefix al child child_start len st
                      else (Some (offset child, pending_len_len child, len), st))
      in case r of
           None \<Rightarrow> (False, st1)
         | Some (off, n, len') \<Rightarrow>
             (case store_len (unat n) (unat off) len' (buf st1) of
                (b, rest) \<Rightarrow> (rest = 0, st1\<lparr>buf := b\<rparr>)))"

function CBB_flush :: "(size_t \<Rightarrow> bool) \<Rightarrow> nat \<Rightarrow> CBB \<Rightarrow> bool \<times> CBB" where
  "CBB_flush al d st =
     (if \<not> cbb_get_base d st \<or> error st then (False, st)
      else if d = length (children st) then (True, st)
      else
        let child = children st ! d;
            child_start = offset child + ucast (pending_len_len child)
        in case CBB_flush al (Suc d) st of
             (False, st1) \<Rightarrow> (False, cbb_on_error d st1)
           | (True, st1) \<Rightarrow>
               if child_start < offset child \<or> base_len st1 < child_start
               then (False, cbb_on_error d st1)
               else (case flush_child al child child_start st1 of
                       (False, st2) \<Rightarrow> (False, cbb_on_error d st2)
                     | (True, st2) \<Rightarrow> (True, st2\<lparr>children := take d (children st2)\<rparr>)))"
  by pat_completeness auto
termination
  by (relation "measure (\<lambda>(_, d, st). length (children st) - d)") (auto simp: cbb_get_base_def)

declare CBB_flush.simps [simp del]

text \<open>
  \<^verbatim>\<open>CBB_finish\<close> returns the buffer; \<open>want_out\<close> tells whether both output pointers were given.
  After success the object holds no buffer and is not used again: the empty list stands for
  the null pointer that the code stores, which leaves the length field as it was.
\<close>

definition CBB_finish :: "(size_t \<Rightarrow> bool) \<Rightarrow> nat \<Rightarrow> bool \<Rightarrow> CBB \<Rightarrow> byte list option \<times> CBB" where
  "CBB_finish al d want_out st =
     (if d \<noteq> 0 then (None, st)
      else case CBB_flush al d st of
        (False, st1) \<Rightarrow> (None, st1)
      | (True, st1) \<Rightarrow>
          if can_resize st1 \<and> \<not> want_out then (None, st1)
          else (Some (buf st1), st1\<lparr>buf := []\<rparr>))"

definition CBB_data :: "nat \<Rightarrow> CBB \<Rightarrow> byte list" where
  "CBB_data d st =
     (if d = 0 then buf st
      else let c = children st ! (d - 1)
           in drop (unat (offset c + ucast (pending_len_len c))) (buf st))"

definition CBB_len :: "nat \<Rightarrow> CBB \<Rightarrow> size_t" where
  "CBB_len d st =
     (if d = 0 then base_len st
      else let c = children st ! (d - 1)
           in base_len st - offset c - ucast (pending_len_len c))"

section \<open>Children and plain data\<close>

definition cbb_add_child ::
  "(size_t \<Rightarrow> bool) \<Rightarrow> nat \<Rightarrow> byte \<Rightarrow> bool \<Rightarrow> CBB \<Rightarrow> bool \<times> CBB" where
  "cbb_add_child al d len_len is_asn1 st =
     (case cbb_buffer_add al (replicate (unat len_len) 0) st of
        (False, st1) \<Rightarrow> (False, st1)
      | (True, st1) \<Rightarrow>
          (True, st1\<lparr>children := take d (children st1) @
             [\<lparr>offset = base_len st, pending_len_len = len_len, pending_is_asn1 = is_asn1\<rparr>]\<rparr>))"

definition cbb_add_length_prefixed ::
  "(size_t \<Rightarrow> bool) \<Rightarrow> nat \<Rightarrow> byte \<Rightarrow> CBB \<Rightarrow> bool \<times> CBB" where
  "cbb_add_length_prefixed al d len_len st =
     (case CBB_flush al d st of
        (False, st1) \<Rightarrow> (False, st1) | (True, st1) \<Rightarrow> cbb_add_child al d len_len False st1)"

definition CBB_add_u8_length_prefixed :: "(size_t \<Rightarrow> bool) \<Rightarrow> nat \<Rightarrow> CBB \<Rightarrow> bool \<times> CBB" where
  "CBB_add_u8_length_prefixed al d = cbb_add_length_prefixed al d 1"

definition CBB_add_u16_length_prefixed :: "(size_t \<Rightarrow> bool) \<Rightarrow> nat \<Rightarrow> CBB \<Rightarrow> bool \<times> CBB" where
  "CBB_add_u16_length_prefixed al d = cbb_add_length_prefixed al d 2"

definition CBB_add_u24_length_prefixed :: "(size_t \<Rightarrow> bool) \<Rightarrow> nat \<Rightarrow> CBB \<Rightarrow> bool \<times> CBB" where
  "CBB_add_u24_length_prefixed al d = cbb_add_length_prefixed al d 3"

definition CBB_add_space :: "(size_t \<Rightarrow> bool) \<Rightarrow> nat \<Rightarrow> byte list \<Rightarrow> CBB \<Rightarrow> bool \<times> CBB" where
  "CBB_add_space al d data st =
     (case CBB_flush al d st of
        (False, st1) \<Rightarrow> (False, st1) | (True, st1) \<Rightarrow> cbb_buffer_add al data st1)"

definition CBB_add_bytes :: "(size_t \<Rightarrow> bool) \<Rightarrow> nat \<Rightarrow> byte list \<Rightarrow> CBB \<Rightarrow> bool \<times> CBB" where
  "CBB_add_bytes al d data st = CBB_add_space al d data st"

definition CBB_add_zeros :: "(size_t \<Rightarrow> bool) \<Rightarrow> nat \<Rightarrow> nat \<Rightarrow> CBB \<Rightarrow> bool \<times> CBB" where
  "CBB_add_zeros al d len st = CBB_add_space al d (replicate len 0) st"

definition CBB_reserve :: "(size_t \<Rightarrow> bool) \<Rightarrow> nat \<Rightarrow> size_t \<Rightarrow> CBB \<Rightarrow> bool \<times> CBB" where
  "CBB_reserve al d len st =
     (case CBB_flush al d st of
        (False, st1) \<Rightarrow> (False, st1) | (True, st1) \<Rightarrow> cbb_buffer_reserve al len st1)"

text \<open>\<open>data\<close> is what the caller wrote behind the valid bytes.\<close>

definition CBB_did_write :: "nat \<Rightarrow> byte list \<Rightarrow> CBB \<Rightarrow> bool \<times> CBB" where
  "CBB_did_write d data st =
     (let newlen = base_len st + of_nat (length data) in
      if d < length (children st) \<or> newlen < base_len st \<or> newlen > cap st then (False, st)
      else (True, st\<lparr>buf := buf st @ data\<rparr>))"

text \<open>The bytes that the loop of \<^verbatim>\<open>cbb_add_u\<close> stores, and what is left of the value.\<close>

fun be_store :: "nat \<Rightarrow> u64 \<Rightarrow> byte list \<Rightarrow> byte list \<times> u64" where
  "be_store 0 v acc = (acc, v)"
| "be_store (Suc i) v acc = be_store i (drop_bit 8 v) (ucast v # acc)"

definition cbb_add_u :: "(size_t \<Rightarrow> bool) \<Rightarrow> nat \<Rightarrow> u64 \<Rightarrow> nat \<Rightarrow> CBB \<Rightarrow> bool \<times> CBB" where
  "cbb_add_u al d v len_len st =
     (case be_store len_len v [] of
        (bytes, rest) \<Rightarrow>
          (case CBB_add_space al d bytes st of
             (False, st1) \<Rightarrow> (False, st1)
           | (True, st1) \<Rightarrow> if rest \<noteq> 0 then (False, cbb_on_error d st1) else (True, st1)))"

definition CBB_add_u8 :: "(size_t \<Rightarrow> bool) \<Rightarrow> nat \<Rightarrow> byte \<Rightarrow> CBB \<Rightarrow> bool \<times> CBB" where
  "CBB_add_u8 al d v = cbb_add_u al d (ucast v) 1"

definition CBB_add_u16 :: "(size_t \<Rightarrow> bool) \<Rightarrow> nat \<Rightarrow> u16 \<Rightarrow> CBB \<Rightarrow> bool \<times> CBB" where
  "CBB_add_u16 al d v = cbb_add_u al d (ucast v) 2"

definition CBB_add_u16le :: "(size_t \<Rightarrow> bool) \<Rightarrow> nat \<Rightarrow> u16 \<Rightarrow> CBB \<Rightarrow> bool \<times> CBB" where
  "CBB_add_u16le al d v = CBB_add_u16 al d (CRYPTO_bswap2 v)"

definition CBB_add_u24 :: "(size_t \<Rightarrow> bool) \<Rightarrow> nat \<Rightarrow> u32 \<Rightarrow> CBB \<Rightarrow> bool \<times> CBB" where
  "CBB_add_u24 al d v = cbb_add_u al d (ucast v) 3"

definition CBB_add_u32 :: "(size_t \<Rightarrow> bool) \<Rightarrow> nat \<Rightarrow> u32 \<Rightarrow> CBB \<Rightarrow> bool \<times> CBB" where
  "CBB_add_u32 al d v = cbb_add_u al d (ucast v) 4"

definition CBB_add_u32le :: "(size_t \<Rightarrow> bool) \<Rightarrow> nat \<Rightarrow> u32 \<Rightarrow> CBB \<Rightarrow> bool \<times> CBB" where
  "CBB_add_u32le al d v = CBB_add_u32 al d (CRYPTO_bswap4 v)"

definition CBB_add_u64 :: "(size_t \<Rightarrow> bool) \<Rightarrow> nat \<Rightarrow> u64 \<Rightarrow> CBB \<Rightarrow> bool \<times> CBB" where
  "CBB_add_u64 al d v = cbb_add_u al d v 8"

definition CBB_add_u64le :: "(size_t \<Rightarrow> bool) \<Rightarrow> nat \<Rightarrow> u64 \<Rightarrow> CBB \<Rightarrow> bool \<times> CBB" where
  "CBB_add_u64le al d v = CBB_add_u64 al d (CRYPTO_bswap8 v)"

definition CBB_discard_child :: "nat \<Rightarrow> CBB \<Rightarrow> CBB" where
  "CBB_discard_child d st =
     (if d \<ge> length (children st) then st
      else st\<lparr>buf := take (unat (offset (children st ! d))) (buf st),
              children := take d (children st)\<rparr>)"

section \<open>Appending within capacity\<close>

text \<open>The valid bytes lie inside the buffer.\<close>

definition cbb_bounded :: "CBB \<Rightarrow> bool" where
  "cbb_bounded st \<longleftrightarrow> length (buf st) \<le> unat (cap st)"

text \<open>
  Enough room for \<open>n\<close> more bytes: the capacity has it, or the buffer can grow and the
  allocator serves every size the doubling strategy can ask for on the way.
\<close>

definition has_room :: "(size_t \<Rightarrow> bool) \<Rightarrow> nat \<Rightarrow> CBB \<Rightarrow> bool" where
  "has_room al n st \<longleftrightarrow>
     length (buf st) + n \<le> unat (cap st) \<or>
     (can_resize st \<and> length (buf st) + n < 2 ^ 62 \<and>
      (\<forall>sz. unat sz \<le> 2 * (length (buf st) + n) \<longrightarrow> OPENSSL_malloc al sz))"

lemma buffer_add_frame:
  assumes "cbb_buffer_add al data st = (ok, st')"
  shows "buf st' = (if ok then buf st @ data else buf st)" and "children st' = children st"
    and "can_resize st' = can_resize st" and "error st' = (error st \<or> \<not> ok)"
  using assms
  by (auto simp: cbb_buffer_add_def cbb_buffer_reserve_def Let_def split: if_splits prod.splits bool.splits)

lemma unat_base_len: "cbb_bounded st \<Longrightarrow> unat (base_len st) = length (buf st)"
  using unat_less_64 [of "cap st"] by (simp add: cbb_bounded_def unat_of_nat)

lemma unat_add_len:
  assumes "cbb_bounded st" "\<not> base_len st + len < base_len st"
  shows "unat (base_len st + len) = length (buf st) + unat len"
  using assms(2) unat_base_len [OF assms(1)] unat_plus_simple [of "base_len st" len]
  by (simp add: not_less)

lemma reserve_bounded:
  assumes "cbb_bounded st" and "cbb_buffer_reserve al len st = (True, st')"
  shows "length (buf st) + unat len \<le> unat (cap st')"
proof -
  let ?new = "base_len st + len"
  have n: "\<not> ?new < base_len st" using assms(2) by (auto simp: cbb_buffer_reserve_def Let_def split: if_splits)
  note u = unat_add_len [OF assms(1) n]
  show ?thesis
  proof (cases "?new > cap st")
    case False
    then have "st' = st" using assms(2) n by (simp add: cbb_buffer_reserve_def Let_def)
    with False u show ?thesis by (simp add: word_less_nat_alt)
  next
    case True
    then have "?new \<le> cap st'"
      using assms(2) n by (auto simp: cbb_buffer_reserve_def Let_def not_less split: if_splits)
    with u show ?thesis by (simp add: word_le_nat_alt)
  qed
qed

lemma buffer_add_bounded:
  assumes "cbb_bounded st" and "length data < 2 ^ 64"
  shows "cbb_bounded (snd (cbb_buffer_add al data st))"
proof (cases "cbb_buffer_reserve al (of_nat (length data)) st")
  case (Pair ok st1)
  have "buf st1 = buf st" "unat (cap st) \<le> unat (cap st1) \<or> ok"
    using Pair by (auto simp: cbb_buffer_reserve_def Let_def split: if_splits)
  moreover have "unat (of_nat (length data) :: size_t) = length data"
    using assms(2) by (simp add: unat_of_nat)
  ultimately show ?thesis
    using Pair assms reserve_bounded [OF assms(1), of al "of_nat (length data)" st1]
    by (cases ok) (auto simp: cbb_buffer_add_def cbb_bounded_def)
qed

lemma reserve_ok:
  assumes "cbb_bounded st" and "has_room al (m + n) st"
  shows "\<exists>c. cbb_buffer_reserve al (of_nat m) st = (True, st\<lparr>cap := c\<rparr>) \<and>
    (cap st \<le> c)"
proof -
  have lt: "length (buf st) + m < 2 ^ 64"
    using assms(2) unat_less_64 [of "cap st"] by (auto simp: has_room_def)
  then have m: "unat (of_nat m :: size_t) = m" by (simp add: unat_of_nat)
  have new: "unat (base_len st + of_nat m) = length (buf st) + m"
    using lt m unat_base_len [OF assms(1)] by (simp add: unat_word_ariths)
  have nov: "\<not> base_len st + of_nat m < base_len st"
    using new unat_base_len [OF assms(1)] by (simp add: word_less_nat_alt)
  show ?thesis
  proof (cases "base_len st + of_nat m > cap st")
    case False
    with nov show ?thesis by (auto simp: cbb_buffer_reserve_def Let_def intro!: exI [of _ "cap st"])
  next
    case True
    then have r: "can_resize st" "length (buf st) + (m + n) < 2 ^ 62"
        "\<And>sz. unat sz \<le> 2 * (length (buf st) + (m + n)) \<Longrightarrow> OPENSSL_malloc al sz"
      using assms(2) new by (auto simp: has_room_def word_less_nat_alt)
    have cap: "unat (cap st) < length (buf st) + m" using True new by (simp add: word_less_nat_alt)
    then have "unat (cap st * 2) = unat (cap st) * 2"
      using r(2) by (simp add: unat_word_ariths)
    then have "OPENSSL_malloc al (cap st * 2)" "OPENSSL_malloc al (base_len st + of_nat m)"
        "cap st \<le> cap st * 2" "cap st \<le> base_len st + of_nat m"
      using cap r(3) new by (auto simp: word_le_nat_alt)
    with True nov r(1) show ?thesis
      by (auto simp: cbb_buffer_reserve_def Let_def)
  qed
qed

lemma buffer_add_ok:
  assumes "cbb_bounded st" and "has_room al (length data + n) st"
  shows "\<exists>c. cbb_buffer_add al data st = (True, st\<lparr>cap := c, buf := buf st @ data\<rparr>) \<and>
    cbb_bounded (st\<lparr>cap := c, buf := buf st @ data\<rparr>) \<and>
    has_room al n (st\<lparr>cap := c, buf := buf st @ data\<rparr>)"
proof -
  obtain c where c: "cbb_buffer_reserve al (of_nat (length data)) st = (True, st\<lparr>cap := c\<rparr>)"
      "cap st \<le> c" using reserve_ok [OF assms] by blast
  have "length (buf st) + length data < 2 ^ 64"
    using assms(2) unat_less_64 [of "cap st"] by (auto simp: has_room_def)
  then have "unat (of_nat (length data) :: size_t) = length data" by (simp add: unat_of_nat)
  with reserve_bounded [OF assms(1) c(1)]
  have "length (buf st) + length data \<le> unat c" by simp
  with c assms show ?thesis
    by (auto simp: cbb_buffer_add_def cbb_bounded_def has_room_def word_le_nat_alt add.assoc)
qed

section \<open>Writers\<close>

text \<open>
  What the byte-wise writers rely on: appending is possible while room is left and uses up
  exactly that much of it.
\<close>

locale byte_appender =
  fixes add :: "byte list \<Rightarrow> 't \<Rightarrow> bool \<times> 't"
    and content :: "'t \<Rightarrow> byte list"
    and ready :: "nat \<Rightarrow> 't \<Rightarrow> bool"
  assumes add_ok: "ready (length bs + n) st \<Longrightarrow>
    \<exists>st'. add bs st = (True, st') \<and> content st' = content st @ bs \<and> ready n st'"
begin

definition appends :: "('t \<Rightarrow> bool \<times> 't) \<Rightarrow> byte list \<Rightarrow> bool" where
  "appends e bs \<longleftrightarrow> (\<forall>st n. ready (length bs + n) st \<longrightarrow>
     (\<exists>st'. e st = (True, st') \<and> content st' = content st @ bs \<and> ready n st'))"

lemma appendsE:
  assumes "appends e bs" and "ready (length bs + n) st"
  obtains st' where "e st = (True, st')" and "content st' = content st @ bs" and "ready n st'"
  using assms unfolding appends_def by blast

lemma appends_add: "appends (add bs) bs"
  using add_ok by (simp add: appends_def)

lemma appends_nil: "appends (\<lambda>st. (True, st)) []"
  by (simp add: appends_def)

lemma appends_seq:
  assumes "appends e1 xs" and "appends e2 ys"
    and "\<And>st st1. e1 st = (True, st1) \<Longrightarrow> e st = e2 st1"
  shows "appends e (xs @ ys)"
  unfolding appends_def
proof (intro allI impI)
  fix st n
  assume "ready (length (xs @ ys) + n) st"
  then have "ready (length xs + (length ys + n)) st" by (simp add: add.assoc)
  with assms(1) obtain s1 where s1: "e1 st = (True, s1)" "content s1 = content st @ xs"
      "ready (length ys + n) s1" by (rule appendsE)
  from assms(2) s1(3) obtain s2 where "e2 s1 = (True, s2)" "content s2 = content s1 @ ys"
      "ready n s2" by (rule appendsE)
  with s1 assms(3) [OF s1(1)] show "\<exists>st'. e st = (True, st') \<and> content st' = content st @ xs @ ys \<and> ready n st'"
    by auto
qed

end

text \<open>A \<^verbatim>\<open>CBB\<close> in use: no error, the given chain of pending children, and room.\<close>

definition cbb_ready :: "(size_t \<Rightarrow> bool) \<Rightarrow> cbb_child_st list \<Rightarrow> nat \<Rightarrow> CBB \<Rightarrow> bool" where
  "cbb_ready al cs n st \<longleftrightarrow>
     \<not> error st \<and> children st = cs \<and> cbb_bounded st \<and> has_room al n st"

lemma flush_none: "cbb_ready al cs n st \<Longrightarrow> CBB_flush al' (length cs) st = (True, st)"
  by (simp add: CBB_flush.simps cbb_ready_def cbb_get_base_def)

interpretation cbb_at: byte_appender "CBB_add_bytes al (length cs)" buf "cbb_ready al cs" for al cs
proof unfold_locales
  fix al cs and bs :: "byte list" and n st
  assume r: "cbb_ready al cs (length bs + n) st"
  then obtain c where "cbb_buffer_add al bs st = (True, st\<lparr>cap := c, buf := buf st @ bs\<rparr>)"
      "cbb_bounded (st\<lparr>cap := c, buf := buf st @ bs\<rparr>)" "has_room al n (st\<lparr>cap := c, buf := buf st @ bs\<rparr>)"
    using buffer_add_ok [of st al bs n] by (auto simp: cbb_ready_def)
  with r show "\<exists>st'. CBB_add_bytes al (length cs) bs st = (True, st') \<and> buf st' = buf st @ bs \<and>
      cbb_ready al cs n st'"
    using flush_none [OF r] by (simp add: CBB_add_bytes_def CBB_add_space_def cbb_ready_def)
qed

end
