(* ===== verification/Cbb_Flush.thy ===== *)
theory Cbb_Flush
  imports Cbb
begin

unbundle bit_operations_syntax

text \<open>
  What \<^verbatim>\<open>CBB_flush\<close> does to a chain of pending children, and the invariant of the builder:
  the valid bytes lie inside the buffer and the pending prefixes inside the valid bytes.
  Nothing here models source code.
\<close>

section \<open>Flushing one child\<close>

lemma store_len_eq:
  "length mid = k \<Longrightarrow>
   store_len k (length pre) len (pre @ mid @ post) = (pre @ be_bytes k len @ post, drop_bit (8 * k) len)"
proof (induction k arbitrary: len mid post)
  case (Suc k)
  then obtain x mid' where mid: "mid = mid' @ [x]" "length mid' = k"
    by (metis length_Suc_conv_rev)
  then have "(pre @ mid @ post)[length pre + k := ucast len] = pre @ mid' @ (ucast len # post)"
    by (simp add: list_update_append)
  with Suc.IH [OF mid(2), of "drop_bit 8 len" "ucast len # post"] show ?case
    by (simp add: add.commute)
qed simp

lemma ucast_of_nat_byte: "ucast (of_nat n :: u64) = (of_nat n :: byte)"
  by (rule bit_word_eqI) (simp add: bit_simps)

lemma asn1_len_form_eq:
  assumes "n < 2 ^ 32"
  shows "asn1_len_form (of_nat n) =
    (if n \<le> 0x7f then (1, of_nat n, 0)
     else (1 + of_nat (len_octets n), 0x80 OR of_nat (len_octets n), of_nat n))"
proof -
  have n: "unat (of_nat n :: size_t) = n" using assms by (simp add: unat_of_nat)
  show ?thesis
    by (simp add: asn1_len_form_def word_less_nat_alt n len_octets_def ucast_of_nat_byte)
qed

lemma buffer_add_nil: "cbb_bounded st \<Longrightarrow> cbb_buffer_add al [] st = (True, st)"
  by (auto simp: cbb_buffer_add_def cbb_buffer_reserve_def Let_def cbb_bounded_def
      word_less_nat_alt unat_base_len [unfolded cbb_bounded_def])

lemma flush_child_plain:
  assumes "cbb_bounded st" and b: "buf st = pre @ mid @ data" and "\<not> pending_is_asn1 c"
    and "offset c = of_nat (length pre)" and "length mid = unat (pending_len_len c)"
  shows "flush_child al c (of_nat (length pre + length mid)) st =
    (drop_bit (8 * length mid) (of_nat (length data) :: size_t) = 0,
     st\<lparr>buf := pre @ be_bytes (length mid) (of_nat (length data)) @ data\<rparr>)"
proof -
  have l: "base_len st - of_nat (length pre + length mid) = of_nat (length data)" by (simp add: b)
  have "length pre < 2 ^ 64"
    using assms(1) unat_less_64 [of "cap st"] by (simp add: cbb_bounded_def b)
  then have p: "unat (of_nat (length pre) :: size_t) = length pre" by (simp add: unat_of_nat)
  show ?thesis
    unfolding flush_child_def l using assms(3-5) store_len_eq [of mid "length mid" pre "of_nat (length data)" data]
    by (simp add: b p)
qed

lemma flush_child_asn1:
  assumes bd: "cbb_bounded st" and b: "buf st = pre @ x # data" and "pending_is_asn1 c"
    and off: "offset c = of_nat (length pre)" and "length data \<le> 0xfffffffe"
  shows "flush_child al c (of_nat (length pre + 1)) st =
    (case cbb_buffer_add al (replicate (length (asn1_len_bytes (length data)) - 1) 0) st of
       (False, s) \<Rightarrow> (False, s)
     | (True, s) \<Rightarrow> (True, s\<lparr>buf := pre @ asn1_len_bytes (length data) @ data\<rparr>))"
proof -
  let ?n = "length data"
  have l: "base_len st - of_nat (length pre + 1) = of_nat ?n" by (simp add: b)
  have lt: "length pre + 1 + ?n < 2 ^ 64"
    using bd unat_less_64 [of "cap st"] by (simp add: cbb_bounded_def b)
  then have p: "unat (of_nat (length pre) :: size_t) = length pre"
      "unat (of_nat ?n :: size_t) = ?n" "unat (of_nat (length pre) + 1 :: size_t) = length pre + 1"
    by (simp_all add: unat_of_nat unat_word_ariths)
  have small: "\<not> (of_nat ?n :: size_t) > 0xfffffffe"
    using assms(5) p by (simp add: word_less_nat_alt)
  show ?thesis
  proof (cases "?n \<le> 0x7f")
    case True
    then have "flush_child al c (of_nat (length pre + 1)) st =
        (True, st\<lparr>buf := pre @ asn1_len_bytes ?n @ data\<rparr>)"
      unfolding flush_child_def l flush_asn1_prefix_def
      using assms(3) small asn1_len_form_eq [of ?n]
      by (simp add: b p off Let_def asn1_len_bytes_def)
    with True buffer_add_nil [OF bd] show ?thesis by (simp add: asn1_len_bytes_def)
  next
    case False
    define k where "k = len_octets ?n"
    have k: "1 \<le> k" "k \<le> 4" "?n < 256 ^ k"
      using len_octets_bounds [of ?n] False assms(5) by (simp_all add: k_def)
    then have kw: "unat (of_nat k :: byte) = k" by (simp add: unat_of_nat)
    then have k1: "(1 :: byte) + of_nat k \<noteq> 1" using k(1) by auto
    have form: "asn1_len_form (of_nat ?n) = (1 + of_nat k, 0x80 OR of_nat k, of_nat ?n)"
      using asn1_len_form_eq [of ?n] False assms(5) by (simp add: k_def)
    have lb: "asn1_len_bytes ?n = (0x80 OR of_nat k) # be_bytes k (of_nat ?n)"
      using False by (simp add: asn1_len_bytes_def k_def)
    show ?thesis
    proof (cases "cbb_buffer_add al (replicate k 0) st")
      case (Pair ok s)
      show ?thesis
      proof (cases ok)
        case False
        with Pair show ?thesis
          unfolding flush_child_def l flush_asn1_prefix_def
          using assms(3) small k1 by (simp add: form kw lb Let_def)
      next
        case True
        have bs: "buf s = pre @ x # data @ replicate k 0"
          using buffer_add_frame(1) [OF Pair] True b by simp
        have "cbb_bounded s" using buffer_add_bounded [OF bd, of "replicate k 0" al] Pair k(2) by simp
        then have "length pre + 1 + k + ?n < 2 ^ 64"
          using unat_less_64 [of "cap s"] by (simp add: cbb_bounded_def bs)
        then have st: "unat (of_nat (Suc (length pre)) + ucast (of_nat k :: byte) :: size_t) = Suc (length pre + k)"
            "unat (of_nat (Suc (length pre)) :: size_t) = Suc (length pre)"
          using kw p by (simp_all add: unat_word_ariths unat_ucast_byte)
        define mid where "mid = take k (data @ replicate k 0)"
        have mv: "memmove (length pre + 1 + k) (length pre + 1) ?n (buf s) = pre @ x # mid @ data"
          by (simp add: memmove_def bs mid_def)
        have lm: "length mid = k" by (simp add: mid_def)
        have "256 ^ k = (2 :: nat) ^ (8 * k)" using pow8 [of k] by (simp add: mult.commute)
        then have z: "drop_bit (8 * k) (of_nat ?n :: size_t) = 0"
          using k(3) p(2) by (simp add: word_unat_eq_iff unat_drop_bit)
        define init where "init = (0x80 OR of_nat k :: byte)"
        have "store_len k (length pre + 1) (of_nat ?n) ((pre @ x # mid @ data)[length pre := init]) =
            (pre @ init # be_bytes k (of_nat ?n) @ data, 0)"
          using store_len_eq [OF lm, of "pre @ [init]" "of_nat ?n" data] z by (simp add: list_update_append)
        with Pair True show ?thesis
          unfolding flush_child_def l flush_asn1_prefix_def lb init_def [symmetric]
          using assms(3) small k1 st mv p
          by (simp add: form kw Let_def off init_def [symmetric] del: of_nat_Suc)
      qed
    qed
  qed
qed

section \<open>Flushing a chain of children\<close>

text \<open>
  The pending children lie one behind the other inside the buffer: each one's prefix starts
  at or behind the start of its parent's contents.
\<close>

fun chain_ok :: "nat \<Rightarrow> cbb_child_st list \<Rightarrow> nat \<Rightarrow> bool" where
  "chain_ok lo [] n = (lo \<le> n)"
| "chain_ok lo (c # cs) n =
     (lo \<le> unat (offset c) \<and> (pending_is_asn1 c \<longrightarrow> pending_len_len c = 1) \<and>
      chain_ok (unat (offset c) + unat (pending_len_len c)) cs n)"

definition cbb_ok :: "CBB \<Rightarrow> bool" where
  "cbb_ok st \<longleftrightarrow> cbb_bounded st \<and> chain_ok 0 (children st) (length (buf st))"

text \<open>
  The specification of a flush: from the innermost child outwards, every pending prefix is
  replaced by the encoded length of what follows it.
\<close>

definition child_prefix :: "cbb_child_st \<Rightarrow> nat \<Rightarrow> byte list" where
  "child_prefix c n =
     (if pending_is_asn1 c then asn1_len_bytes n
      else be_bytes (unat (pending_len_len c)) (of_nat n))"

fun collapse :: "cbb_child_st list \<Rightarrow> byte list \<Rightarrow> byte list" where
  "collapse [] b = b"
| "collapse (c # cs) b =
     (let b' = collapse cs b;
          contents = drop (unat (offset c) + unat (pending_len_len c)) b'
      in take (unat (offset c)) b' @ child_prefix c (length contents) @ contents)"

text \<open>A length that its prefix can hold: below 2^32 - 1 in DER, else below 256 to the bytes of the prefix.\<close>

definition child_fits :: "cbb_child_st \<Rightarrow> nat \<Rightarrow> bool" where
  "child_fits c n \<longleftrightarrow>
     (if pending_is_asn1 c then n \<le> 0xfffffffe else n < 256 ^ unat (pending_len_len c))"

fun lengths_fit :: "cbb_child_st list \<Rightarrow> byte list \<Rightarrow> bool" where
  "lengths_fit [] b \<longleftrightarrow> True"
| "lengths_fit (c # cs) b \<longleftrightarrow>
     lengths_fit cs b \<and>
     child_fits c (length (collapse cs b) - (unat (offset c) + unat (pending_len_len c)))"

lemma chain_ok_le: "chain_ok lo cs n \<Longrightarrow> lo \<le> n"
proof (induction cs arbitrary: lo)
  case (Cons c cs)
  then have "unat (offset c) + unat (pending_len_len c) \<le> n" by simp
  with Cons.prems show ?case by simp
qed simp

lemma chain_ok_mono: "chain_ok lo cs n \<Longrightarrow> n \<le> m \<Longrightarrow> chain_ok lo cs m"
  by (induction cs arbitrary: lo) auto

lemma chain_ok_lower: "chain_ok lo cs n \<Longrightarrow> lo' \<le> lo \<Longrightarrow> chain_ok lo' cs n"
  by (cases cs) auto

lemma chain_ok_append:
  "chain_ok lo (cs @ ds) n \<Longrightarrow> \<exists>mid. chain_ok lo cs mid \<and> chain_ok mid ds n"
  by (induction cs arbitrary: lo) auto

lemma chain_ok_take: "chain_ok lo cs n \<Longrightarrow> chain_ok lo (take d cs) n"
  using chain_ok_append [of lo "take d cs" "drop d cs" n] chain_ok_le chain_ok_mono by force

lemma chain_ok_snoc:
  "chain_ok lo (cs @ [c]) n \<longleftrightarrow>
     chain_ok lo cs (unat (offset c)) \<and> (pending_is_asn1 c \<longrightarrow> pending_len_len c = 1) \<and>
     unat (offset c) + unat (pending_len_len c) \<le> n"
  by (induction cs arbitrary: lo) auto

lemma collapse_prefix:
  assumes "chain_ok lo cs (length b)"
  shows "take lo (collapse cs b) = take lo b \<and> lo \<le> length (collapse cs b)"
  using assms
proof (induction cs arbitrary: lo)
  case (Cons c cs)
  let ?s = "unat (offset c) + unat (pending_len_len c)"
  have IH: "take ?s (collapse cs b) = take ?s b" "?s \<le> length (collapse cs b)"
    using Cons by auto
  have lo: "lo \<le> unat (offset c)" using Cons.prems by simp
  have "take lo (collapse cs b) = take lo (take ?s (collapse cs b))" using lo by (simp add: min_def)
  also have "\<dots> = take lo b" unfolding IH(1) using lo by (simp add: min_def)
  finally have "take lo (take (unat (offset c)) (collapse cs b)) = take lo b"
    using lo by (simp add: min_def)
  moreover have "lo \<le> length (take (unat (offset c)) (collapse cs b))" using IH(2) lo by simp
  ultimately show ?case by (simp add: Let_def trans_le_add1 del: take_take)
qed simp

lemma flush_child_spec:
  assumes bd: "cbb_bounded st"
    and fits: "unat (offset c) + unat (pending_len_len c) \<le> length (buf st)"
    and a1: "pending_is_asn1 c \<longrightarrow> pending_len_len c = 1"
    and f: "flush_child al c (offset c + ucast (pending_len_len c)) st = (ok, st')"
    and contents: "contents = drop (unat (offset c) + unat (pending_len_len c)) (buf st)"
  shows "children st' = children st \<and> cbb_bounded st' \<and> length (buf st) \<le> length (buf st') \<and>
    (ok \<longrightarrow> error st' = error st \<and> child_fits c (length contents) \<and>
      buf st' = take (unat (offset c)) (buf st) @ child_prefix c (length contents) @ contents)"
proof -
  define pre mid where "pre = take (unat (offset c)) (buf st)"
    and "mid = take (unat (pending_len_len c)) (drop (unat (offset c)) (buf st))"
  have b: "buf st = pre @ mid @ contents"
    unfolding pre_def mid_def contents
    by (metis add.commute append_take_drop_id drop_drop)
  have len: "length pre = unat (offset c)" "length mid = unat (pending_len_len c)"
    using fits by (simp_all add: pre_def mid_def)
  then have off: "offset c = of_nat (length pre)" by simp
  have start: "offset c + ucast (pending_len_len c) = of_nat (length pre + length mid)"
    using len by (simp add: unat_ucast_byte [symmetric])
  show ?thesis
  proof (cases "pending_is_asn1 c")
    case False
    note e = flush_child_plain [OF bd b False off len(2), of al, folded start]
    have "length contents < 2 ^ 64"
      using bd unat_less_64 [of "cap st"] by (simp add: cbb_bounded_def b)
    then have u: "unat (of_nat (length contents) :: size_t) = length contents" by (simp add: unat_of_nat)
    have "length contents < 256 ^ length mid" if "drop_bit (8 * length mid) (of_nat (length contents) :: size_t) = 0"
    proof -
      have "unat (drop_bit (8 * length mid) (of_nat (length contents) :: size_t)) = 0" using that by simp
      then have "length contents div 2 ^ (8 * length mid) = 0" by (simp only: unat_drop_bit u)
      moreover have "(256 :: nat) ^ length mid = 2 ^ (8 * length mid)" by (simp add: power_mult)
      ultimately show ?thesis by (simp only: div_eq_0_iff) simp
    qed
    with f bd b len(2) False show ?thesis
      unfolding e pre_def [symmetric]
      by (auto simp: child_prefix_def child_fits_def cbb_bounded_def)
  next
    case True
    with a1 len obtain x where mid: "mid = [x]" by (cases mid) (auto simp: length_Suc_conv)
    show ?thesis
    proof (cases "length contents \<le> 0xfffffffe")
      case small: True
      let ?z = "replicate (length (asn1_len_bytes (length contents)) - 1) 0"
      have e: "flush_child al c (offset c + ucast (pending_len_len c)) st =
          (case cbb_buffer_add al ?z st of (False, s) \<Rightarrow> (False, s)
           | (True, s) \<Rightarrow> (True, s\<lparr>buf := pre @ asn1_len_bytes (length contents) @ contents\<rparr>))"
        unfolding start using flush_child_asn1 [OF bd _ True off small, of x al] b mid by simp
      obtain k s where add: "cbb_buffer_add al ?z st = (k, s)" by fastforce
      have bz: "length ?z < 2 ^ 64" by (simp add: asn1_len_bytes_def len_octets_def)
      note fr = buffer_add_frame [OF add]
      have bs: "cbb_bounded s" using buffer_add_bounded [OF bd bz, of al] add by simp
      have pos: "Suc 0 \<le> length (asn1_len_bytes (length contents))" by (simp add: asn1_len_bytes_def)
      show ?thesis
        using f fr bs pos True small b mid unfolding e add pre_def [symmetric]
        by (cases k) (auto simp: child_prefix_def child_fits_def cbb_bounded_def)
    next
      case big: False
      have "length (buf st) < 2 ^ 64" using bd unat_less_64 [of "cap st"] by (simp add: cbb_bounded_def)
      then have "(of_nat (length contents) :: size_t) > 0xfffffffe"
        using big b by (simp add: word_less_nat_alt unat_of_nat)
      then have "flush_child al c (of_nat (length pre + length mid)) st = (False, st)"
        using True b by (simp add: flush_child_def flush_asn1_prefix_def)
      with f start bd show ?thesis by auto
    qed
  qed
qed

lemma chain_start:
  assumes "chain_ok lo cs n" "d < length cs"
  shows "pending_is_asn1 (cs ! d) \<longrightarrow> pending_len_len (cs ! d) = 1"
    and "chain_ok (unat (offset (cs ! d)) + unat (pending_len_len (cs ! d))) (drop (Suc d) cs) n"
    and "chain_ok lo (take d cs) (unat (offset (cs ! d)))"
proof -
  have "chain_ok lo (take d cs @ cs ! d # drop (Suc d) cs) n"
    using assms id_take_nth_drop [of d cs] by simp
  then obtain mid where mid: "chain_ok lo (take d cs) mid" "chain_ok mid (cs ! d # drop (Suc d) cs) n"
    using chain_ok_append by blast
  then show "pending_is_asn1 (cs ! d) \<longrightarrow> pending_len_len (cs ! d) = 1"
    and "chain_ok (unat (offset (cs ! d)) + unat (pending_len_len (cs ! d))) (drop (Suc d) cs) n"
    and "chain_ok lo (take d cs) (unat (offset (cs ! d)))"
    using chain_ok_mono by auto
qed

lemma on_error_ok: "cbb_ok st \<Longrightarrow> cbb_ok (cbb_on_error d st) \<and> error (cbb_on_error d st)"
  by (simp add: cbb_ok_def cbb_on_error_def cbb_bounded_def chain_ok_take)

lemma CBB_flush_spec:
  assumes "cbb_ok st" and "d \<le> length (children st)" and "CBB_flush al d st = (ok, st')"
  shows "cbb_ok st' \<and> (\<not> ok \<longrightarrow> error st') \<and>
    (ok \<longrightarrow> \<not> error st' \<and> children st' = take d (children st) \<and>
      buf st' = collapse (drop d (children st)) (buf st) \<and> lengths_fit (drop d (children st)) (buf st))"
  using assms
proof (induction al d st arbitrary: ok st' rule: CBB_flush.induct)
  case (1 al d st)
  let ?cs = "children st"
  show ?case
  proof (cases "error st \<or> d = length ?cs")
    case True
    with "1.prems" show ?thesis by (auto simp: CBB_flush.simps [of al d st] cbb_get_base_def split: if_splits)
  next
    case False
    then have d: "d < length ?cs" "\<not> error st" "cbb_get_base d st" "d \<noteq> length ?cs"
      using "1.prems"(2) by (auto simp: cbb_get_base_def)
    define c where "c = ?cs ! d"
    define start where "start = offset c + ucast (pending_len_len c)"
    let ?s = "unat (offset c) + unat (pending_len_len c)"
    obtain k st1 where f1: "CBB_flush al (Suc d) st = (k, st1)" by fastforce
    have IH: "cbb_ok st1" "\<not> k \<longrightarrow> error st1"
      "k \<longrightarrow> \<not> error st1 \<and> children st1 = take (Suc d) ?cs \<and> buf st1 = collapse (drop (Suc d) ?cs) (buf st) \<and>
        lengths_fit (drop (Suc d) ?cs) (buf st)"
      using "1.IH" [OF _ d(4) refl refl "1.prems"(1) _ f1] d(1-3) by auto
    have eq: "CBB_flush al d st = (case (k, st1) of (False, st1) \<Rightarrow> (False, cbb_on_error d st1)
      | (True, st1) \<Rightarrow> if start < offset c \<or> base_len st1 < start then (False, cbb_on_error d st1)
          else (case flush_child al c start st1 of (False, st2) \<Rightarrow> (False, cbb_on_error d st2)
             | (True, st2) \<Rightarrow> (True, st2\<lparr>children := take d (children st2)\<rparr>)))"
      unfolding CBB_flush.simps [of al d st] c_def start_def Let_def using d f1 by simp
    show ?thesis
    proof (cases k)
      case False
      then show ?thesis using "1.prems"(3) eq on_error_ok [OF IH(1)] by auto
    next
      case True
      have ch: "chain_ok 0 ?cs (length (buf st))" using "1.prems"(1) by (simp add: cbb_ok_def)
      note cs = chain_start [OF ch d(1), folded c_def]
      have b1: "buf st1 = collapse (drop (Suc d) ?cs) (buf st)" "children st1 = take (Suc d) ?cs"
          "\<not> error st1" using IH True by simp_all
      have le: "?s \<le> length (buf st1)" using collapse_prefix [OF cs(2)] b1 by simp
      have bd: "cbb_bounded st1" using IH(1) by (simp add: cbb_ok_def)
      have "length (buf st1) < 2 ^ 64" using bd unat_less_64 [of "cap st1"] by (simp add: cbb_bounded_def)
      then have us: "unat start = ?s"
        using le by (simp add: start_def unat_word_ariths unat_ucast_byte)
      then have "\<not> start < offset c" "\<not> base_len st1 < start"
        using le unat_base_len [OF bd] by (simp_all add: word_less_nat_alt)
      moreover obtain k2 st2 where f2: "flush_child al c start st1 = (k2, st2)" by fastforce
      ultimately have e2: "(ok, st') = (if k2 then (True, st2\<lparr>children := take d (children st2)\<rparr>)
          else (False, cbb_on_error d st2))"
        using "1.prems"(3) eq True by (auto split: bool.splits)
      note sp = flush_child_spec [OF bd le cs(1) f2 [unfolded start_def] refl]
      have ok2: "cbb_ok st2"
        using sp IH(1) chain_ok_mono by (auto simp: cbb_ok_def)
      show ?thesis
      proof (cases k2)
        case False
        with e2 on_error_ok [OF ok2] show ?thesis by auto
      next
        case k2: True
        have dr: "drop d ?cs = c # drop (Suc d) ?cs" using d(1) by (simp add: c_def Cons_nth_drop_Suc)
        then have "buf st2 = collapse (drop d ?cs) (buf st)"
          using sp k2 b1(1) by (simp add: Let_def)
        moreover have "lengths_fit (drop d ?cs) (buf st)"
          using dr sp k2 b1(1) IH(3) True by simp
        moreover have "chain_ok 0 (take d ?cs) (length (buf st2))"
          using cs(3) sp le by (auto intro: chain_ok_mono)
        ultimately show ?thesis using e2 k2 sp b1 d(1) ok2 by (simp add: cbb_ok_def cbb_bounded_def)
      qed
    qed
  qed
qed

section \<open>The invariant under every operation\<close>

definition keeps :: "(CBB \<Rightarrow> bool \<times> CBB) \<Rightarrow> bool" where
  "keeps e \<longleftrightarrow> (\<forall>st. cbb_ok st \<longrightarrow> cbb_ok (snd (e st)))"

lemma keepsI: "(\<And>st. cbb_ok st \<Longrightarrow> cbb_ok (snd (e st))) \<Longrightarrow> keeps e"
  by (simp add: keeps_def)

lemma keepsD: "keeps e \<Longrightarrow> cbb_ok st \<Longrightarrow> e st = (ok, st') \<Longrightarrow> cbb_ok st'"
  by (auto simp: keeps_def dest: spec [of _ st])

lemma flush_detached: "\<not> d \<le> length (children st) \<Longrightarrow> CBB_flush al d st = (False, st)"
  by (simp add: CBB_flush.simps cbb_get_base_def)

lemma keeps_flush: "keeps (CBB_flush al d)"
proof (rule keepsI)
  fix st
  assume ok: "cbb_ok st"
  obtain k s where f: "CBB_flush al d st = (k, s)" by fastforce
  show "cbb_ok (snd (CBB_flush al d st))"
  proof (cases "d \<le> length (children st)")
    case True
    from CBB_flush_spec [OF ok this f] f show ?thesis by simp
  next
    case False
    with ok show ?thesis by (simp add: flush_detached)
  qed
qed

lemma reserve_frame:
  assumes "cbb_bounded st" and "cbb_buffer_reserve al len st = (ok, st')"
  shows "buf st' = buf st" "children st' = children st" "cbb_bounded st'"
proof -
  show b: "buf st' = buf st" and "children st' = children st"
    using assms(2) by (auto simp: cbb_buffer_reserve_def Let_def split: if_splits)
  have "ok \<or> cap st' = cap st"
    using assms(2) by (auto simp: cbb_buffer_reserve_def Let_def split: if_splits)
  with b assms reserve_bounded [of st al len st'] show "cbb_bounded st'"
    by (cases ok) (auto simp: cbb_bounded_def)
qed

lemma keeps_reserve: "keeps (cbb_buffer_reserve al len)"
proof (rule keepsI)
  fix st
  assume "cbb_ok st"
  then show "cbb_ok (snd (cbb_buffer_reserve al len st))"
    using reserve_frame [of st al len] by (cases "cbb_buffer_reserve al len st") (auto simp: cbb_ok_def)
qed

lemma keeps_add: "length data < 2 ^ 64 \<Longrightarrow> keeps (cbb_buffer_add al data)"
proof (rule keepsI)
  fix st
  assume "length data < 2 ^ 64" and ok: "cbb_ok st"
  then have b: "cbb_bounded (snd (cbb_buffer_add al data st))"
    by (simp add: buffer_add_bounded cbb_ok_def)
  obtain k s where add: "cbb_buffer_add al data st = (k, s)" by fastforce
  note fr = buffer_add_frame [OF add]
  have "chain_ok 0 (children st) (length (buf s))"
    using ok fr(1) by (auto simp: cbb_ok_def intro: chain_ok_mono)
  with b add fr(2) show "cbb_ok (snd (cbb_buffer_add al data st))" by (simp add: cbb_ok_def)
qed

lemma keeps_then:
  assumes "keeps e1" and "\<And>st. keeps e2"
    and "\<And>st. e st = (case e1 st of (False, st1) \<Rightarrow> (False, st1) | (True, st1) \<Rightarrow> e2 st1)"
  shows "keeps e"
proof (rule keepsI)
  fix st
  assume "cbb_ok st"
  with assms(1,2) show "cbb_ok (snd (e st))"
    unfolding assms(3) by (cases "e1 st") (auto simp: keeps_def split: bool.splits)
qed

lemma keeps_add_space: "length data < 2 ^ 64 \<Longrightarrow> keeps (CBB_add_space al d data)"
  by (rule keeps_then [OF keeps_flush keeps_add]) (auto simp: CBB_add_space_def)

lemma keeps_CBB_reserve: "keeps (CBB_reserve al d len)"
  by (rule keeps_then [OF keeps_flush keeps_reserve]) (auto simp: CBB_reserve_def)

lemma keeps_on_error: "cbb_ok st \<Longrightarrow> cbb_ok (cbb_on_error d st)"
  using on_error_ok by blast

lemma length_be_store: "length (fst (be_store k v acc)) = k + length acc"
  by (induction k v acc rule: be_store.induct) auto

lemma be_store_eq: "be_store k v acc = (be_bytes k v @ acc, drop_bit (8 * k) v)"
  by (induction k v acc rule: be_store.induct) (auto simp: add.commute)

lemma keeps_add_u: "k \<le> 8 \<Longrightarrow> keeps (cbb_add_u al d v k)"
proof (rule keepsI)
  fix st
  assume k: "k \<le> 8" and ok: "cbb_ok st"
  have "keeps (CBB_add_space al d (be_bytes k v))" using k by (intro keeps_add_space) simp
  with ok show "cbb_ok (snd (cbb_add_u al d v k st))"
    by (cases "CBB_add_space al d (be_bytes k v) st")
      (auto simp: cbb_add_u_def be_store_eq keeps_on_error dest: keepsD split: bool.splits)
qed

lemma keeps_add_child:
  assumes "\<not> is_asn1 \<or> len_len = 1"
  shows "keeps (cbb_add_child al d len_len is_asn1)"
proof (rule keepsI)
  fix st
  assume ok: "cbb_ok st"
  have z: "length (replicate (unat len_len) (0 :: byte)) < 2 ^ 64"
    using unat_less_8 [of len_len] by simp
  obtain k s where add: "cbb_buffer_add al (replicate (unat len_len) 0) st = (k, s)" by fastforce
  note fr = buffer_add_frame [OF add] keepsD [OF keeps_add [OF z] ok add]
  have "chain_ok 0 (take d (children st)) (length (buf st))"
    using ok by (simp add: cbb_ok_def chain_ok_take)
  moreover have "unat (base_len st) = length (buf st)"
    using ok by (simp add: cbb_ok_def unat_base_len)
  ultimately show "cbb_ok (snd (cbb_add_child al d len_len is_asn1 st))"
    using add fr assms by (cases k) (auto simp: cbb_add_child_def cbb_ok_def cbb_bounded_def chain_ok_snoc)
qed

lemma keeps_length_prefixed: "keeps (cbb_add_length_prefixed al d len_len)"
  by (rule keeps_then [OF keeps_flush keeps_add_child]) (auto simp: cbb_add_length_prefixed_def)

lemma keeps_did_write: "length data < 2 ^ 64 \<Longrightarrow> keeps (CBB_did_write d data)"
proof (rule keepsI)
  fix st
  assume len: "length data < 2 ^ 64" and ok: "cbb_ok st"
  let ?new = "base_len st + of_nat (length data)"
  have "cbb_ok (st\<lparr>buf := buf st @ data\<rparr>)" if "\<not> ?new < base_len st" "\<not> ?new > cap st"
  proof -
    have "unat ?new = length (buf st) + length data"
      using unat_add_len [of st "of_nat (length data)"] ok that(1) len
      by (simp add: cbb_ok_def unat_of_nat)
    with that(2) ok show ?thesis
      by (auto simp: cbb_ok_def cbb_bounded_def word_less_nat_alt intro: chain_ok_mono)
  qed
  with ok show "cbb_ok (snd (CBB_did_write d data st))" by (simp add: CBB_did_write_def Let_def)
qed

lemma discard_ok:
  assumes "cbb_ok st"
  shows "cbb_ok (CBB_discard_child d st)"
proof (cases "d < length (children st)")
  case True
  have "chain_ok 0 (children st) (length (buf st))" using assms by (simp add: cbb_ok_def)
  note cs = chain_start [OF this True]
  have "unat (offset (children st ! d)) \<le> length (buf st)" using chain_ok_le [OF cs(2)] by simp
  with True assms cs(3) show ?thesis
    by (simp add: CBB_discard_child_def cbb_ok_def cbb_bounded_def min_def)
qed (use assms in \<open>simp add: CBB_discard_child_def\<close>)

section \<open>Properties\<close>

text \<open>
  C17 (refinement). A successful flush is the specification \<open>collapse\<close>: all pending prefixes
  below the given \<^verbatim>\<open>CBB\<close> are replaced, from the inside out, by the encoded lengths of
  their contents (the moved contents included when a DER length needs more than one byte), every
  length fits its prefix, so that none is truncated, the children are gone, and no error is set.
  A flush that fails has locked the \<^verbatim>\<open>CBB\<close> in the error state; so a length that does not fit
  locks it.
\<close>

theorem flush_refines_collapse:
  assumes "cbb_ok st" and "d \<le> length (children st)" and "CBB_flush al d st = (ok, st')"
  shows "if ok then buf st' = collapse (drop d (children st)) (buf st) \<and>
      lengths_fit (drop d (children st)) (buf st) \<and>
      children st' = take d (children st) \<and> \<not> error st' else error st'"
  using CBB_flush_spec [OF assms] by simp

theorem flush_refines_collapse_witness:
  "let st = \<lparr>buf = [9, 0, 0, 7, 8], cap = 16, can_resize = False, error = False,
      children = [\<lparr>offset = 1, pending_len_len = 1, pending_is_asn1 = True\<rparr>,
                  \<lparr>offset = 2, pending_len_len = 1, pending_is_asn1 = False\<rparr>]\<rparr>;
       big = \<lparr>buf = replicate 258 0, cap = 300, can_resize = False, error = False,
      children = [\<lparr>offset = 0, pending_len_len = 1, pending_is_asn1 = False\<rparr>]\<rparr>
   in cbb_ok st \<and> fst (CBB_flush (\<lambda>_. False) 0 st) \<and>
     buf (snd (CBB_flush (\<lambda>_. False) 0 st)) = collapse (children st) (buf st) \<and>
     buf (snd (CBB_flush (\<lambda>_. False) 0 st)) = [9, 3, 2, 7, 8] \<and>
     \<not> fst (CBB_flush (\<lambda>_. False) 0 big) \<and> error (snd (CBB_flush (\<lambda>_. False) 0 big))"
proof -
  let ?st = "\<lparr>buf = [9, 0, 0, 7, 8], cap = 16, can_resize = False, error = False,
      children = [\<lparr>offset = 1, pending_len_len = 1, pending_is_asn1 = True\<rparr>,
                  \<lparr>offset = 2, pending_len_len = 1, pending_is_asn1 = False\<rparr>]\<rparr>"
  let ?big = "\<lparr>buf = replicate 258 0, cap = 300, can_resize = False, error = False,
      children = [\<lparr>offset = 0, pending_len_len = 1, pending_is_asn1 = False\<rparr>]\<rparr>"
  have ok: "cbb_ok ?st" "cbb_ok ?big" by code_simp+
  obtain k s where f: "CBB_flush (\<lambda>_. False) 0 ?st = (k, s)" by fastforce
  obtain k' s' where g: "CBB_flush (\<lambda>_. False) 0 ?big = (k', s')" by fastforce
  have "fst (CBB_flush (\<lambda>_. False) 0 ?st)"
      "buf (snd (CBB_flush (\<lambda>_. False) 0 ?st)) = [9, 3, 2, 7, 8]" by code_simp+
  moreover have "\<not> lengths_fit (children ?big) (buf ?big)" by (simp add: child_fits_def)
  ultimately show ?thesis
    using flush_refines_collapse [OF ok(1) _ f] flush_refines_collapse [OF ok(2) _ g] f g ok(1)
    by (auto simp: Let_def split: if_splits)
qed

end
