(* ===== verification/Cbb_Asn1.thy ===== *)
theory Cbb_Asn1
  imports Cbb_Flush
begin

unbundle bit_operations_syntax

text \<open>
  The ASN.1 writers of \<^verbatim>\<open>crypto/bytestring/cbb.c\<close> (tags, integers, octet strings, booleans,
  object identifiers from text, SET OF reordering) and the object identifier printer of
  \<^verbatim>\<open>crypto/bytestring/cbs.c\<close>, which writes through a \<^verbatim>\<open>CBB\<close>.
\<close>

section \<open>Definitions\<close>

text \<open>\<^verbatim>\<open>if (!e1) return 0;\<close> followed by the rest.\<close>

definition and_then ::
  "('t \<Rightarrow> bool \<times> 't) \<Rightarrow> ('t \<Rightarrow> bool \<times> 't) \<Rightarrow> 't \<Rightarrow> bool \<times> 't" where
  "and_then e1 e2 st = (case e1 st of (False, st1) \<Rightarrow> (False, st1) | (True, st1) \<Rightarrow> e2 st1)"

function base128_len_loop :: "u64 \<Rightarrow> nat \<Rightarrow> nat" where
  "base128_len_loop copy len_len =
     (if copy > 0 then base128_len_loop (drop_bit 7 copy) (len_len + 1) else len_len)"
  by pat_completeness auto
termination
proof (relation "measure (\<lambda>(copy, _). unat copy)")
  fix v :: u64 and n :: nat
  assume "v > 0"
  then show "((drop_bit 7 v, n + 1), v, n) \<in> measure (\<lambda>(copy, _). unat copy)"
    by (simp add: drop_bit_eq_div unat_div unat_gt_0 word_neq_0_conv)
qed simp

declare base128_len_loop.simps [simp del]

fun base128_add_loop :: "(size_t \<Rightarrow> bool) \<Rightarrow> nat \<Rightarrow> u64 \<Rightarrow> nat \<Rightarrow> CBB \<Rightarrow> bool \<times> CBB" where
  "base128_add_loop al d v 0 st = (True, st)"
| "base128_add_loop al d v (Suc i) st =
     (let byte0 = ucast (drop_bit (7 * i) v AND 0x7f);
          byte = (if i \<noteq> 0 then byte0 OR 0x80 else byte0)
      in case CBB_add_u8 al d byte st of
           (False, st1) \<Rightarrow> (False, st1)
         | (True, st1) \<Rightarrow> base128_add_loop al d v i st1)"

definition add_base128_integer :: "(size_t \<Rightarrow> bool) \<Rightarrow> nat \<Rightarrow> u64 \<Rightarrow> CBB \<Rightarrow> bool \<times> CBB" where
  "add_base128_integer al d v st =
     (let len_len0 = base128_len_loop v 0;
          len_len = (if len_len0 = 0 then 1 else len_len0)
      in base128_add_loop al d v len_len st)"

definition CBB_add_asn1 :: "(size_t \<Rightarrow> bool) \<Rightarrow> nat \<Rightarrow> CBS_ASN1_TAG \<Rightarrow> CBB \<Rightarrow> bool \<times> CBB" where
  "CBB_add_asn1 al d tag st =
     (case CBB_flush al d st of
        (False, st1) \<Rightarrow> (False, st1)
      | (True, st1) \<Rightarrow>
          let tag_bits = ucast (drop_bit 24 tag AND 0xe0) :: byte;
              number = tag AND CBS_ASN1_TAG_NUMBER_MASK;
              (ok, st2) = (if number \<ge> 0x1f then
                   and_then (CBB_add_u8 al d (tag_bits OR 0x1f))
                     (add_base128_integer al d (ucast number)) st1
                 else CBB_add_u8 al d (tag_bits OR ucast number) st1)
          in if \<not> ok then (False, st2) else cbb_add_child al d 1 True st2)"

text \<open>
  The contents loop of \<^verbatim>\<open>CBB_add_asn1_uint64_with_tag\<close>, from byte \<open>i\<close> (most significant
  first) with \<open>started\<close>; \<open>d\<close> is the depth of the child.
\<close>

fun uint64_contents ::
  "(size_t \<Rightarrow> bool) \<Rightarrow> nat \<Rightarrow> u64 \<Rightarrow> nat list \<Rightarrow> bool \<Rightarrow> CBB \<Rightarrow> bool \<times> CBB" where
  "uint64_contents al d v [] started st =
     (if \<not> started then CBB_add_u8 al d 0 st else (True, st))"
| "uint64_contents al d v (i # is) started st =
     (let byte = ucast (drop_bit (8 * (7 - i)) v AND 0xff) in
      if \<not> started \<and> byte = 0 then uint64_contents al d v is False st
      else
        let (ok, st1) = (if \<not> started \<and> byte AND 0x80 \<noteq> 0 then CBB_add_u8 al d 0 st else (True, st))
        in if \<not> ok then (False, st1)
           else (case CBB_add_u8 al d byte st1 of
                   (False, st2) \<Rightarrow> (False, st2)
                 | (True, st2) \<Rightarrow> uint64_contents al d v is True st2))"

text \<open>Add a child, run a writer on it, flush the parent; any failure before the flush is an error.\<close>

definition CBB_add_asn1_uint64_with_tag ::
  "(size_t \<Rightarrow> bool) \<Rightarrow> nat \<Rightarrow> u64 \<Rightarrow> CBS_ASN1_TAG \<Rightarrow> CBB \<Rightarrow> bool \<times> CBB" where
  "CBB_add_asn1_uint64_with_tag al d v tag st =
     (case and_then (CBB_add_asn1 al d tag)
             (uint64_contents al (Suc d) v [0, 1, 2, 3, 4, 5, 6, 7] False) st of
        (False, st1) \<Rightarrow> (False, cbb_on_error d st1)
      | (True, st1) \<Rightarrow> CBB_flush al d st1)"

definition CBB_add_asn1_uint64 :: "(size_t \<Rightarrow> bool) \<Rightarrow> nat \<Rightarrow> u64 \<Rightarrow> CBB \<Rightarrow> bool \<times> CBB" where
  "CBB_add_asn1_uint64 al d v = CBB_add_asn1_uint64_with_tag al d v CBS_ASN1_INTEGER"

text \<open>The little-endian bytes of a 64-bit value in memory.\<close>

definition le_bytes :: "u64 \<Rightarrow> byte list" where
  "le_bytes v = map (\<lambda>i. ucast (drop_bit (8 * i) v)) [0..<8]"

fun int64_start :: "byte list \<Rightarrow> nat \<Rightarrow> nat" where
  "int64_start bytes 0 = 0"
| "int64_start bytes (Suc s) =
     (if bytes ! Suc s = 0xff \<and> bytes ! s AND 0x80 \<noteq> 0 then int64_start bytes s else Suc s)"

fun add_each :: "(size_t \<Rightarrow> bool) \<Rightarrow> nat \<Rightarrow> byte list \<Rightarrow> CBB \<Rightarrow> bool \<times> CBB" where
  "add_each al d [] st = (True, st)"
| "add_each al d (b # bs) st =
     (case CBB_add_u8 al d b st of
        (False, st1) \<Rightarrow> (False, st1) | (True, st1) \<Rightarrow> add_each al d bs st1)"

definition CBB_add_asn1_int64_with_tag ::
  "(size_t \<Rightarrow> bool) \<Rightarrow> nat \<Rightarrow> u64 \<Rightarrow> CBS_ASN1_TAG \<Rightarrow> CBB \<Rightarrow> bool \<times> CBB" where
  "CBB_add_asn1_int64_with_tag al d v tag st =
     (if sint v \<ge> 0 then CBB_add_asn1_uint64_with_tag al d v tag st
      else
        let bytes = le_bytes v; start = int64_start bytes 7
        in case and_then (CBB_add_asn1 al d tag)
                  (add_each al (Suc d) (rev (take (Suc start) bytes))) st of
             (False, st1) \<Rightarrow> (False, cbb_on_error d st1)
           | (True, st1) \<Rightarrow> CBB_flush al d st1)"

definition CBB_add_asn1_int64 :: "(size_t \<Rightarrow> bool) \<Rightarrow> nat \<Rightarrow> u64 \<Rightarrow> CBB \<Rightarrow> bool \<times> CBB" where
  "CBB_add_asn1_int64 al d v = CBB_add_asn1_int64_with_tag al d v CBS_ASN1_INTEGER"

definition CBB_add_asn1_octet_string ::
  "(size_t \<Rightarrow> bool) \<Rightarrow> nat \<Rightarrow> byte list \<Rightarrow> CBB \<Rightarrow> bool \<times> CBB" where
  "CBB_add_asn1_octet_string al d data st =
     (case and_then (CBB_add_asn1 al d CBS_ASN1_OCTETSTRING)
             (and_then (CBB_add_bytes al (Suc d) data) (CBB_flush al d)) st of
        (False, st1) \<Rightarrow> (False, cbb_on_error d st1) | (True, st1) \<Rightarrow> (True, st1))"

definition CBB_add_asn1_bool :: "(size_t \<Rightarrow> bool) \<Rightarrow> nat \<Rightarrow> int \<Rightarrow> CBB \<Rightarrow> bool \<times> CBB" where
  "CBB_add_asn1_bool al d v st =
     (case and_then (CBB_add_asn1 al d CBS_ASN1_BOOLEAN)
             (and_then (CBB_add_u8 al (Suc d) (if v \<noteq> 0 then 0xff else 0)) (CBB_flush al d)) st of
        (False, st1) \<Rightarrow> (False, cbb_on_error d st1) | (True, st1) \<Rightarrow> (True, st1))"

subsection \<open>Object identifiers\<close>

definition parse_dotted_decimal :: "CBS \<Rightarrow> u64 cbs_result" where
  "parse_dotted_decimal cbs =
     (case CBS_get_u64_decimal cbs of
        (None, c) \<Rightarrow> (None, c)
      | (Some v, c) \<Rightarrow>
          (case CBS_get_u8 c of
             (None, c1) \<Rightarrow> (Some v, c1)
           | (Some dot, c1) \<Rightarrow> if dot = 46 \<and> CBS_len c1 > 0 then (Some v, c1) else (None, c1)))"

lemma u64_decimal_loop_shorter:
  "u64_decimal_loop v seen cbs = (Some (w, s), c) \<Longrightarrow>
     length c \<le> length cbs \<and> (s \<and> \<not> seen \<longrightarrow> length c < length cbs)"
proof (induction v seen cbs rule: u64_decimal_loop.induct)
  case (2 v seen b cbs)
  then show ?case by (auto split: if_splits)
qed auto

lemma parse_dotted_decimal_shorter:
  assumes "parse_dotted_decimal cbs = (Some v, c)"
  shows "length c < length cbs"
proof -
  obtain c1 where "u64_decimal_loop 0 False cbs = (Some (v, True), c1)" "length c \<le> length c1"
    using assms by (auto simp: parse_dotted_decimal_def CBS_get_u64_decimal_def CBS_get_u8_def
        cbs_get_def split: prod.splits option.splits if_splits)
  with u64_decimal_loop_shorter [of 0 False cbs v True c1] show ?thesis by auto
qed

function oid_components :: "(size_t \<Rightarrow> bool) \<Rightarrow> nat \<Rightarrow> CBS \<Rightarrow> CBB \<Rightarrow> bool \<times> CBB" where
  "oid_components al d cbs st =
     (if CBS_len cbs > 0 then
        (case parse_dotted_decimal cbs of
           (None, _) \<Rightarrow> (False, st)
         | (Some a, c) \<Rightarrow>
             (case add_base128_integer al d a st of
                (False, st1) \<Rightarrow> (False, st1) | (True, st1) \<Rightarrow> oid_components al d c st1))
      else (True, st))"
  by pat_completeness auto
termination
  by (relation "measure (\<lambda>(_, _, cbs, _). length cbs)")
    (auto dest: parse_dotted_decimal_shorter [OF sym])

declare oid_components.simps [simp del]

definition CBB_add_asn1_oid_from_text ::
  "(size_t \<Rightarrow> bool) \<Rightarrow> nat \<Rightarrow> byte list \<Rightarrow> CBB \<Rightarrow> bool \<times> CBB" where
  "CBB_add_asn1_oid_from_text al d txt st =
     (case CBB_flush al d st of
        (False, st1) \<Rightarrow> (False, st1)
      | (True, st1) \<Rightarrow>
     (case parse_dotted_decimal txt of
        (None, _) \<Rightarrow> (False, st1)
      | (Some a, c) \<Rightarrow>
     (case parse_dotted_decimal c of
        (None, _) \<Rightarrow> (False, st1)
      | (Some b, c1) \<Rightarrow>
          if a > 2 \<or> (a < 2 \<and> b > 39) \<or> b > - 1 - 80 then (False, st1)
          else (case add_base128_integer al d (40 * a + b) st1 of
                  (False, st2) \<Rightarrow> (False, st2)
                | (True, st2) \<Rightarrow> oid_components al d c1 st2))))"

text \<open>\<^verbatim>\<open>snprintf("%" PRIu64)\<close>: the decimal digits of a value.\<close>

fun decimal :: "nat \<Rightarrow> byte list" where
  "decimal n = (if n < 10 then [of_nat (48 + n)] else decimal (n div 10) @ [of_nat (48 + n mod 10)])"

declare decimal.simps [simp del]

definition add_decimal :: "(size_t \<Rightarrow> bool) \<Rightarrow> nat \<Rightarrow> u64 \<Rightarrow> CBB \<Rightarrow> bool \<times> CBB" where
  "add_decimal al d v = CBB_add_bytes al d (decimal (unat v))"

lemma base128_loop_shorter:
  "base128_loop v cbs = (Some w, c) \<Longrightarrow> length c < length cbs"
  by (induction v cbs rule: base128_loop.induct) (auto simp: Let_def less_Suc_eq split: if_splits)

function oid_text_components :: "(size_t \<Rightarrow> bool) \<Rightarrow> CBS \<Rightarrow> CBB \<Rightarrow> bool \<times> CBB" where
  "oid_text_components al copy st =
     (if CBS_len copy \<noteq> 0 then
        (case parse_base128_integer copy of
           (None, _) \<Rightarrow> (False, st)
         | (Some v, c) \<Rightarrow>
             (case and_then (CBB_add_u8 al 0 46) (add_decimal al 0 v) st of
                (False, st1) \<Rightarrow> (False, st1)
              | (True, st1) \<Rightarrow> oid_text_components al c st1))
      else (True, st))"
  by pat_completeness auto
termination
  by (relation "measure (\<lambda>(_, copy, _). length copy)")
    (auto simp: parse_base128_integer_def dest: base128_loop_shorter [OF sym])

declare oid_text_components.simps [simp del]

text \<open>The text with its terminating zero byte, or \<open>None\<close> for \<^verbatim>\<open>NULL\<close>.\<close>

definition CBS_asn1_oid_to_text :: "(size_t \<Rightarrow> bool) \<Rightarrow> CBS \<Rightarrow> byte list option" where
  "CBS_asn1_oid_to_text al cbs =
     (case CBB_init al 32 of
        None \<Rightarrow> None
      | Some cbb \<Rightarrow>
     (case parse_base128_integer cbs of
        (None, _) \<Rightarrow> None
      | (Some v, copy) \<Rightarrow>
     (case (if v \<ge> 80 then and_then (CBB_add_bytes al 0 [50, 46]) (add_decimal al 0 (v - 80)) cbb
            else and_then (add_decimal al 0 (v div 40))
                   (and_then (CBB_add_u8 al 0 46) (add_decimal al 0 (v mod 40))) cbb) of
        (False, _) \<Rightarrow> None
      | (True, st1) \<Rightarrow>
     (case and_then (oid_text_components al copy) (CBB_add_u8 al 0 0) st1 of
        (False, _) \<Rightarrow> None
      | (True, st2) \<Rightarrow> fst (CBB_finish al 0 True st2)))))"

subsection \<open>SET OF\<close>

text \<open>\<^verbatim>\<open>memcmp\<close> as the difference of the first bytes that differ.\<close>

fun memcmp :: "byte list \<Rightarrow> byte list \<Rightarrow> int" where
  "memcmp (a # as) (b # bs) = (if a \<noteq> b then uint a - uint b else memcmp as bs)"
| "memcmp _ _ = 0"

definition compare_set_of_element :: "CBS \<Rightarrow> CBS \<Rightarrow> int" where
  "compare_set_of_element a b =
     (let a_len = CBS_len a; b_len = CBS_len b;
          min_len = (if a_len < b_len then a_len else b_len);
          ret = memcmp (take min_len a) (take min_len b)
      in if ret \<noteq> 0 then ret
         else if a_len = b_len then 0
         else if a_len < b_len then - 1 else 1)"

lemma get_any_element_shorter:
  assumes "CBS_get_any_asn1_element cbs = (Some e, c)"
  shows "length c < length cbs"
proof -
  obtain tag contents where "cbs = asn1_element_bytes tag contents @ c"
    using assms by (auto simp: get_any_asn1_element_iff)
  moreover have "asn1_element_bytes tag contents \<noteq> []"
    by (simp add: asn1_element_bytes_def asn1_header_def asn1_len_bytes_def)
  ultimately show ?thesis by (cases "asn1_element_bytes tag contents") auto
qed

function set_of_children :: "CBS \<Rightarrow> CBS list option" where
  "set_of_children cbs =
     (if CBS_len cbs \<noteq> 0 then
        (case CBS_get_any_asn1_element cbs of
           (None, _) \<Rightarrow> None
         | (Some e, c) \<Rightarrow> map_option (Cons (element e)) (set_of_children c))
      else Some [])"
  by pat_completeness auto
termination
  by (relation "measure length") (auto dest: get_any_element_shorter [OF sym])

declare set_of_children.simps [simp del]

text \<open>\<^verbatim>\<open>qsort\<close> with \<^verbatim>\<open>compare_set_of_element\<close>, as insertion.\<close>

fun insert_child :: "CBS \<Rightarrow> CBS list \<Rightarrow> CBS list" where
  "insert_child x [] = [x]"
| "insert_child x (y # ys) =
     (if compare_set_of_element x y \<le> 0 then x # y # ys else y # insert_child x ys)"

definition sort_children :: "CBS list \<Rightarrow> CBS list" where
  "sort_children cs = foldr insert_child cs []"

text \<open>
  \<open>copy_al\<close> and \<open>array_al\<close> answer the two scratch allocations: the copy of the contents and
  the array of 16-byte \<^verbatim>\<open>CBS\<close> structures.
\<close>

definition CBB_flush_asn1_set_of ::
  "(size_t \<Rightarrow> bool) \<Rightarrow> (size_t \<Rightarrow> bool) \<Rightarrow> (size_t \<Rightarrow> bool) \<Rightarrow> nat \<Rightarrow> CBB \<Rightarrow> bool \<times> CBB" where
  "CBB_flush_asn1_set_of al copy_al array_al d st =
     (case CBB_flush al d st of
        (False, st1) \<Rightarrow> (False, st1)
      | (True, st1) \<Rightarrow>
          (case set_of_children (CBB_data d st1) of
             None \<Rightarrow> (False, st1)
           | Some cs \<Rightarrow>
               if length cs < 2 then (True, st1)
               else if OPENSSL_memdup copy_al (CBB_data d st1) = None \<or>
                       OPENSSL_calloc array_al (of_nat (length cs)) 16 = None
               then (False, st1)
               else (True, st1\<lparr>buf := take (length (buf st1) - length (CBB_data d st1)) (buf st1) @
                       concat (sort_children cs)\<rparr>)))"

end
