(* ===== verification/Cbb_Writers.thy ===== *)
theory Cbb_Writers
  imports Cbb_Asn1
begin

unbundle bit_operations_syntax

text \<open>
  What the ASN.1 writers of \<^verbatim>\<open>cbb.c\<close> append: with enough room every writer succeeds and adds
  exactly the specified encoding (the interface \<open>byte_appender\<close> carries the composition), and
  the readers of \<^verbatim>\<open>cbs.c\<close> give the value back.
\<close>

section \<open>Bytewise writers\<close>

lemma add_u8_eq: "CBB_add_u8 al d v = CBB_add_bytes al d [v]"
proof
  fix st
  have "be_store 1 (ucast v) [] = ([v], 0)"
    by (simp add: be_store_eq) (rule conjI; rule bit_word_eqI; auto simp: bit_simps dest: bit_byte_le)
  then show "CBB_add_u8 al d v st = CBB_add_bytes al d [v] st"
    by (simp add: CBB_add_u8_def cbb_add_u_def CBB_add_bytes_def split: prod.splits bool.splits)
qed

lemma appends_then:
  "cbb_at.appends al cs e1 xs \<Longrightarrow> cbb_at.appends al cs e2 ys \<Longrightarrow>
   cbb_at.appends al cs (and_then e1 e2) (xs @ ys)"
  by (erule cbb_at.appends_seq) (auto simp: and_then_def)

lemma appends_u8: "cbb_at.appends al cs (CBB_add_u8 al (length cs) v) [v]"
  unfolding add_u8_eq by (rule cbb_at.appends_add)

lemma appends_bytes: "cbb_at.appends al cs (CBB_add_bytes al (length cs) bs) bs"
  by (rule cbb_at.appends_add)

text \<open>The bytes of a base-128 integer, as the loop produces them.\<close>

fun base128_digits :: "u64 \<Rightarrow> nat \<Rightarrow> byte list" where
  "base128_digits v 0 = []"
| "base128_digits v (Suc i) =
     (if i \<noteq> 0 then ucast (drop_bit (7 * i) v AND 0x7f) OR 0x80
      else ucast (drop_bit (7 * i) v AND 0x7f)) # base128_digits v i"

lemma appends_base128_loop:
  "cbb_at.appends al cs (base128_add_loop al (length cs) v n) (base128_digits v n)"
proof (induction n)
  case 0
  then show ?case using cbb_at.appends_nil by (simp add: base128_add_loop.simps(1) [abs_def])
next
  case (Suc i)
  let ?b = "if i \<noteq> 0 then ucast (drop_bit (7 * i) v AND 0x7f) OR 0x80
      else ucast (drop_bit (7 * i) v AND 0x7f) :: byte"
  have "cbb_at.appends al cs (base128_add_loop al (length cs) v (Suc i)) ([?b] @ base128_digits v i)"
    by (rule cbb_at.appends_seq [OF appends_u8 Suc]) (simp add: Let_def)
  then show ?case by (simp only: base128_digits.simps append.simps)
qed

lemma base128_len_loop_eq: "base128_len_loop v k = k + length (base128_high v)"
proof (induction v arbitrary: k rule: base128_high.induct)
  case (1 v)
  then show ?case
    by (cases "v = 0") (simp_all add: base128_len_loop.simps [of v] base128_len_loop.simps [of 0] base128_high.simps [of v]
        base128_high.simps [of 0] word_neq_0_conv)
qed

fun high_digits :: "u64 \<Rightarrow> nat \<Rightarrow> byte list" where
  "high_digits v 0 = []"
| "high_digits v (Suc i) = (ucast (drop_bit (7 * i) v AND 0x7f) OR 0x80) # high_digits v i"

lemma high_digits_snoc:
  "high_digits v (Suc n) = high_digits (drop_bit 7 v) n @ [ucast (v AND 0x7f) OR 0x80]"
  by (induction n) (simp_all add: add.commute)

lemma base128_digits_snoc:
  "base128_digits v (Suc n) = high_digits (drop_bit 7 v) n @ [ucast (v AND 0x7f)]"
  by (induction n) (simp_all add: add.commute)

lemma high_digits_eq: "high_digits v (length (base128_high v)) = base128_high v"
proof (induction v rule: base128_high.induct)
  case (1 v)
  then show ?case
    by (cases "v = 0") (simp_all add: base128_high.simps [of v] base128_high.simps [of 0] high_digits_snoc
        del: high_digits.simps(2))
qed

lemma appends_base128: "cbb_at.appends al cs (add_base128_integer al (length cs) v) (base128 v)"
proof -
  let ?n = "length (base128_high v)"
  have "(if ?n = 0 then 1 else ?n) = Suc (length (base128_high (drop_bit 7 v)))"
    by (cases "v = 0") (simp_all add: base128_high.simps [of v] base128_high.simps [of 0])
  then have "base128 v = base128_digits v (if ?n = 0 then 1 else ?n)"
    by (simp only: base128_digits_snoc high_digits_eq base128_def)
  moreover have "add_base128_integer al (length cs) v = base128_add_loop al (length cs) v (if ?n = 0 then 1 else ?n)"
    by (rule ext) (simp add: add_base128_integer_def base128_len_loop_eq)
  ultimately show ?thesis using appends_base128_loop by metis
qed

section \<open>Elements\<close>

text \<open>Opening an ASN.1 child writes the tag and one byte for the length.\<close>

lemma add_asn1_ready:
  assumes "cbb_ready al cs (length (asn1_tag_bytes tag) + (1 + n)) st"
  obtains st' c where "CBB_add_asn1 al (length cs) tag st = (True, st')"
    and "buf st' = buf st @ asn1_tag_bytes tag @ [0]" and "cbb_ready al (cs @ [c]) n st'"
    and "offset c = of_nat (length (buf st @ asn1_tag_bytes tag))" and "pending_len_len c = 1"
    and "pending_is_asn1 c"
proof -
  define w where "w = (if tag_number tag \<ge> 0x1f
      then and_then (CBB_add_u8 al (length cs) (tag_class tag OR 0x1f))
        (add_base128_integer al (length cs) (ucast (tag_number tag)))
      else CBB_add_u8 al (length cs) (tag_class tag OR ucast (tag_number tag)))"
  have "cbb_at.appends al cs w (asn1_tag_bytes tag)"
    using appends_u8 appends_then [OF appends_u8 appends_base128]
    by (auto simp: w_def asn1_tag_bytes_def)
  from this assms obtain s where s: "w st = (True, s)" "buf s = buf st @ asn1_tag_bytes tag"
      "cbb_ready al cs (1 + n) s" by (rule cbb_at.appendsE)
  then have "cbb_bounded s" "has_room al (length [0 :: byte] + n) s" by (simp_all add: cbb_ready_def)
  then obtain cp where add: "cbb_buffer_add al [0] s = (True, s\<lparr>cap := cp, buf := buf s @ [0]\<rparr>)"
      "cbb_bounded (s\<lparr>cap := cp, buf := buf s @ [0]\<rparr>)" "has_room al n (s\<lparr>cap := cp, buf := buf s @ [0]\<rparr>)"
    using buffer_add_ok by blast
  have run: "CBB_add_asn1 al (length cs) tag st = cbb_add_child al (length cs) 1 True s"
    using s(1) flush_none [OF assms]
    by (simp add: CBB_add_asn1_def Let_def w_def tag_class_def tag_number_def split: if_splits)
  define c where "c = \<lparr>offset = base_len s, pending_len_len = 1, pending_is_asn1 = True\<rparr>"
  define s' where "s' = s\<lparr>cap := cp, buf := buf s @ [0], children := cs @ [c]\<rparr>"
  have "cbb_add_child al (length cs) 1 True s = (True, s')"
    using add(1) s(3) by (simp add: cbb_add_child_def s'_def c_def cbb_ready_def)
  moreover have "cbb_ready al (cs @ [c]) n s'"
    using add(2,3) s(3) by (simp add: cbb_ready_def s'_def cbb_bounded_def has_room_def)
  ultimately show thesis
    using that [of s' c] run s(2) by (simp add: s'_def c_def)
qed

lemma flush_asn1_ready:
  assumes r: "cbb_ready al (cs @ [c]) (length (asn1_len_bytes (length data)) - 1 + n) st"
    and b: "buf st = pre @ x # data" and off: "offset c = of_nat (length pre)"
    and p: "pending_len_len c = 1" and a: "pending_is_asn1 c" and l: "length data \<le> 0xfffffffe"
  obtains st' where "CBB_flush al (length cs) st = (True, st')"
    and "buf st' = pre @ asn1_len_bytes (length data) @ data" and "cbb_ready al cs n st'"
proof -
  let ?z = "replicate (length (asn1_len_bytes (length data)) - 1) (0 :: byte)"
  have st: "\<not> error st" "children st = cs @ [c]" "cbb_bounded st" using r by (simp_all add: cbb_ready_def)
  have "has_room al (length ?z + n) st" using r by (simp add: cbb_ready_def)
  then obtain cp where add: "cbb_buffer_add al ?z st = (True, st\<lparr>cap := cp, buf := buf st @ ?z\<rparr>)"
      "cbb_bounded (st\<lparr>cap := cp, buf := buf st @ ?z\<rparr>)" "has_room al n (st\<lparr>cap := cp, buf := buf st @ ?z\<rparr>)"
    using buffer_add_ok [OF st(3)] by blast
  define s where "s = st\<lparr>cap := cp, buf := pre @ asn1_len_bytes (length data) @ data\<rparr>"
  have fc: "flush_child al c (of_nat (length pre + 1)) st = (True, s)"
    using flush_child_asn1 [OF st(3) b a off l, of al] add(1) by (simp add: s_def)
  have len: "length (buf s) = length (buf st @ ?z)"
    using b by (simp add: s_def asn1_len_bytes_def)
  have inner: "CBB_flush al (Suc (length cs)) st = (True, st)"
    using flush_none [OF r] by simp
  have start: "offset c + ucast (pending_len_len c) = of_nat (length pre + 1)"
    by (simp add: off p)
  have "length (buf st) < 2 ^ 64" using st(3) unat_less_64 [of "cap st"] by (simp add: cbb_bounded_def)
  then have "unat (of_nat (length pre + 1) :: size_t) = length pre + 1" "unat (offset c) = length pre"
    by (simp_all add: b off unat_of_nat del: of_nat_add of_nat_Suc)
  then have "\<not> (of_nat (length pre + 1) :: size_t) < offset c"
      "\<not> base_len st < (of_nat (length pre + 1) :: size_t)"
    using unat_base_len [OF st(3)] by (simp_all add: word_less_nat_alt b)
  then have "CBB_flush al (length cs) st = (True, s\<lparr>children := take (length cs) (children s)\<rparr>)"
    unfolding CBB_flush.simps [of al "length cs" st]
    using st(1,2) inner fc start by (simp add: cbb_get_base_def Let_def del: of_nat_Suc of_nat_add)
  then show thesis
  proof (rule that)
    show "buf (s\<lparr>children := take (length cs) (children s)\<rparr>) = pre @ asn1_len_bytes (length data) @ data"
      by (simp add: s_def)
    show "cbb_ready al cs n (s\<lparr>children := take (length cs) (children s)\<rparr>)"
      using add(2,3) len st by (simp add: cbb_ready_def cbb_bounded_def has_room_def s_def)
  qed
qed

text \<open>
  An element is written by opening it, writing its contents to the child and flushing the
  parent, whatever the contents are written with.
\<close>

lemma appends_element:
  assumes body: "\<And>c. cbb_at.appends al (cs @ [c]) e data" and len: "length data \<le> 0xfffffffe"
  shows "cbb_at.appends al cs
    (and_then (CBB_add_asn1 al (length cs) tag) (and_then e (CBB_flush al (length cs))))
    (asn1_element_bytes tag data)"
  unfolding cbb_at.appends_def
proof (intro allI impI)
  fix st n
  let ?l = "length (asn1_len_bytes (length data))"
  assume r: "cbb_ready al cs (length (asn1_element_bytes tag data) + n) st"
  have "length (asn1_element_bytes tag data) + n =
      length (asn1_tag_bytes tag) + (1 + (length data + (?l - 1 + n)))"
    by (simp add: asn1_element_bytes_def asn1_header_def asn1_len_bytes_def)
  with r obtain s1 c where s1: "CBB_add_asn1 al (length cs) tag st = (True, s1)"
      "buf s1 = buf st @ asn1_tag_bytes tag @ [0]" "cbb_ready al (cs @ [c]) (length data + (?l - 1 + n)) s1"
    and c: "offset c = of_nat (length (buf st @ asn1_tag_bytes tag))" "pending_len_len c = 1" "pending_is_asn1 c"
    using add_asn1_ready [of al cs tag "length data + (?l - 1 + n)" st] by metis
  from body s1(3) obtain s2 where s2: "e s1 = (True, s2)" "buf s2 = buf s1 @ data"
      "cbb_ready al (cs @ [c]) (?l - 1 + n) s2" by (rule cbb_at.appendsE)
  have "buf s2 = (buf st @ asn1_tag_bytes tag) @ 0 # data" using s2(2) s1(2) by simp
  from flush_asn1_ready [OF s2(3) this c len]
  obtain s3 where "CBB_flush al (length cs) s2 = (True, s3)"
      "buf s3 = (buf st @ asn1_tag_bytes tag) @ asn1_len_bytes (length data) @ data" "cbb_ready al cs n s3" .
  with s1 s2 show "\<exists>st'. and_then (CBB_add_asn1 al (length cs) tag) (and_then e (CBB_flush al (length cs))) st =
      (True, st') \<and> buf st' = buf st @ asn1_element_bytes tag data \<and> cbb_ready al cs n st'"
    by (simp add: and_then_def asn1_element_bytes_def asn1_header_def)
qed

lemma appends_same:
  assumes "cbb_at.appends al cs e bs" and "\<And>st st'. e st = (True, st') \<Longrightarrow> e' st = (True, st')"
  shows "cbb_at.appends al cs e' bs"
  using assms unfolding cbb_at.appends_def by blast

section \<open>Integers\<close>

text \<open>The minimal unsigned contents of a big-endian byte string.\<close>

fun strip_uint :: "byte list \<Rightarrow> byte list" where
  "strip_uint [] = [0]"
| "strip_uint (b # bs) =
     (if b = 0 then strip_uint bs else if b AND 0x80 \<noteq> 0 then 0 # b # bs else b # bs)"

lemma appends_uint64_started:
  "cbb_at.appends al cs (uint64_contents al (length cs) v is True)
     (map (\<lambda>i. ucast (drop_bit (8 * (7 - i)) v AND 0xff)) is)"
proof (induction "is")
  case Nil
  have "uint64_contents al (length cs) v [] True = (\<lambda>st. (True, st))" by (rule ext) simp
  then show ?case by (simp add: cbb_at.appends_nil)
next
  case (Cons i "is")
  let ?b = "ucast (drop_bit (8 * (7 - i)) v AND 0xff) :: byte"
  have "cbb_at.appends al cs (uint64_contents al (length cs) v (i # is) True)
      ([?b] @ map (\<lambda>i. ucast (drop_bit (8 * (7 - i)) v AND 0xff)) is)"
    by (rule cbb_at.appends_seq [OF appends_u8 Cons]) (simp add: Let_def)
  then show ?case by (simp only: list.map append.simps)
qed

lemma appends_uint64:
  "cbb_at.appends al cs (uint64_contents al (length cs) v is False)
     (strip_uint (map (\<lambda>i. ucast (drop_bit (8 * (7 - i)) v AND 0xff)) is))"
proof (induction "is")
  case Nil
  have "uint64_contents al (length cs) v [] False = CBB_add_u8 al (length cs) 0" by (rule ext) simp
  then show ?case by (simp add: appends_u8)
next
  case (Cons i "is")
  let ?b = "ucast (drop_bit (8 * (7 - i)) v AND 0xff) :: byte"
  let ?m = "map (\<lambda>i. ucast (drop_bit (8 * (7 - i)) v AND 0xff) :: byte) is"
  show ?case
  proof (cases "?b = 0")
    case True
    then have "uint64_contents al (length cs) v (i # is) False = uint64_contents al (length cs) v is False"
      by (intro ext) (simp add: Let_def)
    with Cons True show ?thesis by simp
  next
    case False
    have tl: "cbb_at.appends al cs (and_then (CBB_add_u8 al (length cs) ?b)
        (uint64_contents al (length cs) v is True)) (?b # ?m)"
      using appends_then [OF appends_u8 appends_uint64_started] by simp
    show ?thesis
    proof (cases "?b AND 0x80 = 0")
      case True
      then show ?thesis using False tl
        by (auto elim!: appends_same simp: Let_def and_then_def split: prod.splits bool.splits)
    next
      case hi: False
      have "cbb_at.appends al cs (and_then (CBB_add_u8 al (length cs) 0)
          (and_then (CBB_add_u8 al (length cs) ?b) (uint64_contents al (length cs) v is True))) (0 # ?b # ?m)"
        using appends_then [OF appends_u8 tl] by simp
      then show ?thesis using False hi
        by (auto elim!: appends_same simp: Let_def and_then_def split: prod.splits bool.splits)
    qed
  qed
qed

definition asn1_uint_contents :: "u64 \<Rightarrow> byte list" where
  "asn1_uint_contents v = strip_uint (be_bytes 8 v)"

lemma uint64_bytes:
  "map (\<lambda>i. ucast (drop_bit (8 * (7 - i)) v AND 0xff) :: byte) [0, 1, 2, 3, 4, 5, 6, 7] = be_bytes 8 v"
proof -
  have "ucast (w AND 0xff) = (ucast w :: byte)" for w :: u64
    by (rule bit_word_eqI) (auto simp: bit_simps byte_simps)
  then show ?thesis by (simp add: numeral_eq_Suc)
qed

lemma strip_uint_length: "length (strip_uint bs) \<le> length bs + 1"
  by (induction bs) auto

lemma appends_asn1_uint64:
  "cbb_at.appends al cs (CBB_add_asn1_uint64_with_tag al (length cs) v tag)
     (asn1_element_bytes tag (asn1_uint_contents v))"
proof (rule appends_same)
  have "length (asn1_uint_contents v) \<le> 9"
    using strip_uint_length [of "be_bytes 8 v"] by (simp add: asn1_uint_contents_def)
  moreover have "cbb_at.appends al (cs @ [c])
      (uint64_contents al (length (cs @ [c])) v [0, 1, 2, 3, 4, 5, 6, 7] False) (asn1_uint_contents v)" for c
    using appends_uint64 [of al "cs @ [c]" v "[0, 1, 2, 3, 4, 5, 6, 7]"]
    unfolding uint64_bytes asn1_uint_contents_def .
  ultimately show "cbb_at.appends al cs (and_then (CBB_add_asn1 al (length cs) tag)
      (and_then (uint64_contents al (Suc (length cs)) v [0, 1, 2, 3, 4, 5, 6, 7] False)
        (CBB_flush al (length cs)))) (asn1_element_bytes tag (asn1_uint_contents v))"
    by (intro appends_element) simp_all
qed (auto simp: CBB_add_asn1_uint64_with_tag_def and_then_def split: prod.splits bool.splits)

lemma drop_56:
  assumes "unat (v :: u64) < 256 ^ k" "k \<le> 7"
  shows "drop_bit 56 v = 0"
proof -
  have "unat v < 256 ^ 7" using assms power_increasing [of k 7 "256 :: nat"] by simp
  then show ?thesis by (simp add: word_unat_eq_iff unat_drop_bit)
qed

lemma uint_loop_eq:
  "length pre + length bs \<le> 8 \<Longrightarrow> asn1_uint64_loop (be_word pre) bs = Some (be_word (pre @ bs))"
proof (induction bs arbitrary: pre)
  case (Cons b bs)
  have "drop_bit 56 (be_word pre) = 0" using be_word_less [of pre] Cons.prems by (intro drop_56 [of _ "length pre"]) auto
  moreover have "push_bit 8 (be_word pre) OR ucast b = be_word (pre @ [b])" by (simp add: be_word_append)
  ultimately show ?case using Cons.IH [of "pre @ [b]"] Cons.prems by simp
qed simp

lemma be_word_zero: "be_word (0 # bs) = be_word bs"
  by (simp add: be_word_def)

lemma uint_loop_zero: "asn1_uint64_loop 0 (0 # bs) = asn1_uint64_loop 0 bs"
  by simp

lemma strip_uint_value: "be_word (strip_uint bs) = be_word bs"
  by (induction bs rule: strip_uint.induct) (auto simp: be_word_zero)

lemma strip_uint_loop: "length bs \<le> 8 \<Longrightarrow> asn1_uint64_loop 0 (strip_uint bs) = Some (be_word bs)"
proof (induction bs rule: strip_uint.induct)
  case (2 b bs)
  then show ?case
    using uint_loop_eq [of "[]" "b # bs"]
    by (simp add: be_word_zero uint_loop_zero del: asn1_uint64_loop.simps)
qed simp

lemma strip_uint_valid: "CBS_is_valid_asn1_integer (strip_uint bs) = Some False"
proof (induction bs rule: strip_uint.induct)
  case (2 b bs)
  then show ?case by (cases bs) (auto simp: CBS_is_valid_asn1_integer_def Let_def)
qed (simp add: CBS_is_valid_asn1_integer_def)

lemma get_asn1_uint64_contents:
  "CBS_get_asn1_uint64 (asn1_element_bytes CBS_ASN1_INTEGER (asn1_uint_contents v) @ rest) = (Some v, rest)"
proof -
  have "length (asn1_uint_contents v) \<le> 9"
    using strip_uint_length [of "be_bytes 8 v"] by (simp add: asn1_uint_contents_def)
  moreover have "be_word (be_bytes 8 v) = v" using unat_less_64 [of v] by (intro be_word_bytes) simp
  ultimately show ?thesis
    using strip_uint_loop [of "be_bytes 8 v"] strip_uint_valid [of "be_bytes 8 v"]
    by (simp add: CBS_get_asn1_uint64_def get_asn1_complete universal_tags
        CBS_is_unsigned_asn1_integer_def asn1_uint_contents_def)
qed

lemma le_word_append_zeros: "le_word (xs @ replicate k 0) = le_word xs"
proof -
  have "le_word (replicate k 0) = 0" by (induction k) (simp_all add: le_word_def)
  then show ?thesis by (induction xs) (simp_all add: le_word_def)
qed

lemma le_word_rev: "le_word (rev bs) = be_word bs"
  by (simp add: le_word_def be_word_def foldr_conv_foldl)

lemma strip_uint_length_8:
  assumes "length bs = 8" "hd bs AND 0x80 = 0"
  shows "length (strip_uint bs) \<le> 8"
proof -
  obtain b r where b: "bs = b # r" using assms by (cases bs) auto
  then show ?thesis using assms strip_uint_length [of r] by auto
qed

lemma be_bytes_8_hd: "hd (be_bytes 8 v) = ucast (drop_bit 56 v)"
  by (simp add: numeral_eq_Suc)

lemma sign_bit: "(ucast (drop_bit 56 v) :: byte) AND 0x80 = 0 \<longleftrightarrow> \<not> sint (v :: u64) < 0"
proof -
  have "(ucast (drop_bit 56 v) :: byte) AND 0x80 = 0 \<longleftrightarrow> \<not> bit v 63"
    by (simp add: byte_bit_80 bit_simps)
  also have "\<dots> \<longleftrightarrow> \<not> sint v < 0" using bit_last_iff [of v] by simp
  finally show ?thesis .
qed

lemma le_bytes_rev: "le_bytes v = rev (be_bytes 8 v)"
  by (simp add: le_bytes_def numeral_eq_Suc)

lemma le_word_le_bytes: "le_word (le_bytes v) = v"
proof -
  have "be_word (be_bytes 8 v) = v" using unat_less_64 [of v] by (intro be_word_bytes) simp
  then show ?thesis by (simp add: le_bytes_rev le_word_rev)
qed

lemma int64_start_le: "int64_start bytes n \<le> n"
  by (induction n) (auto simp: le_SucI)

text \<open>The bytes the search skips are sign bytes, and it stops at a necessary one.\<close>

lemma int64_start_spec:
  assumes "bytes ! n AND 0x80 \<noteq> 0"
  shows "bytes ! (int64_start bytes n) AND 0x80 \<noteq> 0 \<and>
    (\<forall>i. int64_start bytes n < i \<and> i \<le> n \<longrightarrow> bytes ! i = 0xff) \<and>
    (0 < int64_start bytes n \<longrightarrow>
      \<not> (bytes ! int64_start bytes n = 0xff \<and> bytes ! (int64_start bytes n - 1) AND 0x80 \<noteq> 0))"
  using assms
proof (induction n)
  case (Suc n)
  show ?case
  proof (cases "bytes ! Suc n = 0xff \<and> bytes ! n AND 0x80 \<noteq> 0")
    case True
    with Suc.IH show ?thesis by (auto simp: le_Suc_eq)
  next
    case False
    then show ?thesis using Suc.prems by auto
  qed
qed simp

definition asn1_int_contents :: "u64 \<Rightarrow> byte list" where
  "asn1_int_contents v =
     (if sint v \<ge> 0 then asn1_uint_contents v
      else rev (take (Suc (int64_start (le_bytes v) 7)) (le_bytes v)))"

lemma length_le_bytes [simp]: "length (le_bytes v) = 8"
  by (simp add: le_bytes_def)

lemma asn1_int_contents_length: "length (asn1_int_contents v) \<le> 8"
proof (cases "sint v \<ge> 0")
  case True
  then have "length (strip_uint (be_bytes 8 v)) \<le> 8"
    using sign_bit [of v] by (intro strip_uint_length_8) (simp_all add: be_bytes_8_hd)
  with True show ?thesis by (simp add: asn1_int_contents_def asn1_uint_contents_def)
next
  case False
  then show ?thesis using int64_start_le [of "le_bytes v" 7] by (simp add: asn1_int_contents_def)
qed

lemma get_asn1_int64_contents:
  "CBS_get_asn1_int64 (asn1_element_bytes CBS_ASN1_INTEGER (asn1_int_contents v) @ rest) = (Some v, rest)"
proof -
  have get: "CBS_get_asn1 CBS_ASN1_INTEGER (asn1_element_bytes CBS_ASN1_INTEGER (asn1_int_contents v) @ rest) =
      (Some (asn1_int_contents v), rest)"
    using asn1_int_contents_length [of v] by (intro get_asn1_complete universal_tags) simp
  show ?thesis
  proof (cases "sint v \<ge> 0")
    case True
    then have c: "asn1_int_contents v = strip_uint (be_bytes 8 v)"
      by (simp add: asn1_int_contents_def asn1_uint_contents_def)
    have "be_word (be_bytes 8 v) = v" using unat_less_64 [of v] by (intro be_word_bytes) simp
    then show ?thesis
      using get asn1_int_contents_length [of v] strip_uint_valid [of "be_bytes 8 v"]
      by (simp add: CBS_get_asn1_int64_def c le_word_append_zeros le_word_rev strip_uint_value Let_def)
  next
    case False
    define b s where "b = le_bytes v" and "s = int64_start b 7"
    have s: "s \<le> 7" "length b = 8" using int64_start_le [of b 7] by (simp_all add: s_def b_def)
    have c: "asn1_int_contents v = rev (take (Suc s) b)"
      using False by (simp add: asn1_int_contents_def b_def s_def)
    have "b ! 7 = ucast (drop_bit 56 v)" by (simp add: b_def le_bytes_def)
    then have "b ! 7 AND 0x80 \<noteq> 0" using False sign_bit [of v] by simp
    from int64_start_spec [OF this, folded s_def]
    have sp: "b ! s AND 0x80 \<noteq> 0" "\<And>i. s < i \<Longrightarrow> i \<le> 7 \<Longrightarrow> b ! i = 0xff"
      "0 < s \<Longrightarrow> \<not> (b ! s = 0xff \<and> b ! (s - 1) AND 0x80 \<noteq> 0)" by auto
    have hd: "rev (take (Suc s) b) = b ! s # rev (take s b)"
      using s by (simp add: take_Suc_conv_app_nth)
    have "rev (take s b) = (if s = 0 then [] else b ! (s - 1) # rev (take (s - 1) b))"
      using s by (cases s) (simp_all add: take_Suc_conv_app_nth)
    then have valid: "CBS_is_valid_asn1_integer (rev (take (Suc s) b)) = Some True"
      using sp(1,3) unfolding hd by (auto simp: CBS_is_valid_asn1_integer_def Let_def)
    have "drop (Suc s) b = replicate (8 - Suc s) 0xff"
      using s sp(2) by (intro nth_equalityI) auto
    then have "take (Suc s) b @ replicate (8 - Suc s) 0xff = b"
      using append_take_drop_id [of "Suc s" b] by simp
    then have "le_word (rev (rev (take (Suc s) b)) @ replicate (8 - length (rev (take (Suc s) b))) 0xff) = v"
      using s le_word_le_bytes [of v] by (simp add: b_def [symmetric] min_def)
    with get valid s show ?thesis
      by (simp add: CBS_get_asn1_int64_def c Let_def min_def split: if_splits)
  qed
qed

lemma appends_each: "cbb_at.appends al cs (add_each al (length cs) bs) bs"
proof (induction bs)
  case Nil
  have "add_each al (length cs) [] = (\<lambda>st. (True, st))" by (rule ext) simp
  then show ?case by (simp add: cbb_at.appends_nil)
next
  case (Cons b bs)
  have "cbb_at.appends al cs (add_each al (length cs) (b # bs)) ([b] @ bs)"
    by (rule cbb_at.appends_seq [OF appends_u8 Cons]) simp
  then show ?case by (simp only: append.simps)
qed

lemma appends_asn1_int64:
  "cbb_at.appends al cs (CBB_add_asn1_int64 al (length cs) v)
     (asn1_element_bytes CBS_ASN1_INTEGER (asn1_int_contents v))"
proof (cases "sint v \<ge> 0")
  case True
  then have "CBB_add_asn1_int64 al (length cs) v =
      CBB_add_asn1_uint64_with_tag al (length cs) v CBS_ASN1_INTEGER"
    by (intro ext) (simp add: CBB_add_asn1_int64_def CBB_add_asn1_int64_with_tag_def)
  with True appends_asn1_uint64 show ?thesis by (simp add: asn1_int_contents_def)
next
  case False
  let ?e = "add_each al (Suc (length cs)) (asn1_int_contents v)"
  have body: "cbb_at.appends al (cs @ [c]) ?e (asn1_int_contents v)" for c
    using appends_each [of al "cs @ [c]"] by simp
  have "length (asn1_int_contents v) \<le> 0xfffffffe"
    using asn1_int_contents_length [of v] by simp
  from appends_element [OF body this, where ?tag = CBS_ASN1_INTEGER] show ?thesis
    by (rule appends_same)
      (use False in \<open>auto simp: CBB_add_asn1_int64_def CBB_add_asn1_int64_with_tag_def
         asn1_int_contents_def and_then_def Let_def split: prod.splits bool.splits\<close>)
qed

lemma appends_octet_string:
  assumes "length data \<le> 0xfffffffe"
  shows "cbb_at.appends al cs (CBB_add_asn1_octet_string al (length cs) data)
     (asn1_element_bytes CBS_ASN1_OCTETSTRING data)"
proof (rule appends_same)
  have "cbb_at.appends al (cs @ [c]) (CBB_add_bytes al (Suc (length cs)) data) data" for c
    using appends_bytes [of al "cs @ [c]"] by simp
  from appends_element [OF this assms]
  show "cbb_at.appends al cs (and_then (CBB_add_asn1 al (length cs) CBS_ASN1_OCTETSTRING)
      (and_then (CBB_add_bytes al (Suc (length cs)) data) (CBB_flush al (length cs))))
      (asn1_element_bytes CBS_ASN1_OCTETSTRING data)" .
qed (auto simp: CBB_add_asn1_octet_string_def)

lemma appends_bool:
  "cbb_at.appends al cs (CBB_add_asn1_bool al (length cs) b)
     (asn1_element_bytes CBS_ASN1_BOOLEAN [if b \<noteq> 0 then 0xff else 0])"
proof (rule appends_same)
  have "cbb_at.appends al (cs @ [c]) (CBB_add_u8 al (Suc (length cs)) (if b \<noteq> 0 then 0xff else 0))
      [if b \<noteq> 0 then 0xff else 0]" for c
    using appends_u8 [of al "cs @ [c]"] by simp
  from appends_element [OF this]
  show "cbb_at.appends al cs (and_then (CBB_add_asn1 al (length cs) CBS_ASN1_BOOLEAN)
      (and_then (CBB_add_u8 al (Suc (length cs)) (if b \<noteq> 0 then 0xff else 0)) (CBB_flush al (length cs))))
      (asn1_element_bytes CBS_ASN1_BOOLEAN [if b \<noteq> 0 then 0xff else 0])" by simp
qed (auto simp: CBB_add_asn1_bool_def)

lemma ready_mono: "cbb_ready al cs m st \<Longrightarrow> n \<le> m \<Longrightarrow> cbb_ready al cs n st"
  by (auto simp: cbb_ready_def has_room_def)

text \<open>What a writer that appends gives to a caller with enough room.\<close>

lemma appends_result:
  assumes "cbb_at.appends al cs e bs" and "cbb_ready al cs m st" and "length bs \<le> m"
  shows "\<exists>st'. e st = (True, st') \<and> buf st' = buf st @ bs \<and> children st' = cs"
proof -
  have "cbb_ready al cs (length bs + (m - length bs)) st" using assms(2,3) by simp
  with assms(1) obtain st' where "e st = (True, st')" "buf st' = buf st @ bs"
      "cbb_ready al cs (m - length bs) st'" by (rule cbb_at.appendsE)
  then show ?thesis by (auto simp: cbb_ready_def)
qed

lemma short_element_length:
  assumes "length data \<le> 9"
  shows "length (asn1_element_bytes CBS_ASN1_INTEGER data) \<le> 11"
proof -
  have "length (asn1_tag_bytes CBS_ASN1_INTEGER) = 1" by code_simp
  with assms show ?thesis by (simp add: asn1_element_bytes_def asn1_header_def asn1_len_bytes_def)
qed

section \<open>Properties of the writers\<close>

text \<open>
  C20 (roundtrip). ASN.1 integers: with room for 11 bytes, \<^verbatim>\<open>CBB_add_asn1_uint64\<close> and
  \<^verbatim>\<open>CBB_add_asn1_int64\<close> succeed on every 64-bit value, append one element and leave the
  chain of children as it was; the readers \<^verbatim>\<open>CBS_get_asn1_uint64\<close> and
  \<^verbatim>\<open>CBS_get_asn1_int64\<close> return the value from that element and stop right behind it.
\<close>

theorem asn1_integer_roundtrip:
  assumes "cbb_ready al cs 11 st"
  shows "(\<exists>st' bs. CBB_add_asn1_uint64 al (length cs) v st = (True, st') \<and> buf st' = buf st @ bs \<and>
      children st' = cs \<and> CBS_get_asn1_uint64 (bs @ rest) = (Some v, rest)) \<and>
    (\<exists>st' bs. CBB_add_asn1_int64 al (length cs) v st = (True, st') \<and> buf st' = buf st @ bs \<and>
      children st' = cs \<and> CBS_get_asn1_int64 (bs @ rest) = (Some v, rest))"
proof
  let ?u = "asn1_element_bytes CBS_ASN1_INTEGER (asn1_uint_contents v)"
  let ?i = "asn1_element_bytes CBS_ASN1_INTEGER (asn1_int_contents v)"
  have "length ?u \<le> 11"
    using strip_uint_length [of "be_bytes 8 v"]
    by (intro short_element_length) (simp add: asn1_uint_contents_def)
  from appends_result [OF appends_asn1_uint64 assms this]
  show "\<exists>st' bs. CBB_add_asn1_uint64 al (length cs) v st = (True, st') \<and> buf st' = buf st @ bs \<and>
      children st' = cs \<and> CBS_get_asn1_uint64 (bs @ rest) = (Some v, rest)"
    using get_asn1_uint64_contents unfolding CBB_add_asn1_uint64_def by blast
  have "length ?i \<le> 11"
    using asn1_int_contents_length [of v] by (intro short_element_length) simp
  from appends_result [OF appends_asn1_int64 assms this]
  show "\<exists>st' bs. CBB_add_asn1_int64 al (length cs) v st = (True, st') \<and> buf st' = buf st @ bs \<and>
      children st' = cs \<and> CBS_get_asn1_int64 (bs @ rest) = (Some v, rest)"
    using get_asn1_int64_contents by blast
qed

lemma init_fixed_ready: "n \<le> unat capacity \<Longrightarrow> cbb_ready al [] n (CBB_init_fixed capacity)"
  by (simp add: cbb_ready_def CBB_init_fixed_def cbb_init_def cbb_bounded_def has_room_def)

theorem asn1_integer_roundtrip_witness:
  "cbb_ready (\<lambda>_. False) [] 11 (CBB_init_fixed 11) \<and>
   (\<exists>st' bs. CBB_add_asn1_int64 (\<lambda>_. False) 0 (- 129) (CBB_init_fixed 11) = (True, st') \<and>
      buf st' = bs \<and> CBS_get_asn1_int64 (bs @ [5]) = (Some (- 129), [5]))"
proof -
  have r: "cbb_ready (\<lambda>_. False) [] 11 (CBB_init_fixed 11)" by (rule init_fixed_ready) simp
  have "buf (CBB_init_fixed 11) = []" by (simp add: CBB_init_fixed_def cbb_init_def)
  with asn1_integer_roundtrip [OF r, of "- 129" "[5]"] r show ?thesis by auto
qed

text \<open>
  OCTET STRING and BOOLEAN: with room for the element, the writers append an
  element that \<^verbatim>\<open>CBS_get_asn1\<close> and \<^verbatim>\<open>CBS_get_asn1_bool\<close> read back; every non-zero argument of
  \<^verbatim>\<open>CBB_add_asn1_bool\<close> is read as 1. This holds at any depth of the chain of children.
\<close>

theorem asn1_string_bool_roundtrip:
  assumes "length data \<le> 0xfffffffe"
    and "cbb_ready al cs (length data + 6) st" and "cbb_ready al cs 3 st2"
  shows "(\<exists>st' bs. CBB_add_asn1_octet_string al (length cs) data st = (True, st') \<and>
      buf st' = buf st @ bs \<and> CBS_get_asn1 CBS_ASN1_OCTETSTRING (bs @ rest) = (Some data, rest)) \<and>
    (\<exists>st' bs. CBB_add_asn1_bool al (length cs) v st2 = (True, st') \<and>
      buf st' = buf st2 @ bs \<and> CBS_get_asn1_bool (bs @ rest) = (Some (v \<noteq> 0), rest))"
proof
  have t: "valid_tag CBS_ASN1_OCTETSTRING" "valid_tag CBS_ASN1_BOOLEAN"
      "length (asn1_tag_bytes CBS_ASN1_OCTETSTRING) = 1" "length (asn1_tag_bytes CBS_ASN1_BOOLEAN) = 1"
    by code_simp+
  have "length (asn1_len_bytes (length data)) \<le> 5"
    using assms(1) by (auto simp: asn1_len_bytes_def len_octets_def)
  then have "length (asn1_element_bytes CBS_ASN1_OCTETSTRING data) \<le> length data + 6"
    using t(3) by (simp add: asn1_element_bytes_def asn1_header_def)
  from appends_result [OF appends_octet_string [OF assms(1)] assms(2) this]
  show "\<exists>st' bs. CBB_add_asn1_octet_string al (length cs) data st = (True, st') \<and>
      buf st' = buf st @ bs \<and> CBS_get_asn1 CBS_ASN1_OCTETSTRING (bs @ rest) = (Some data, rest)"
    using t(1) assms(1) by (auto simp: get_asn1_complete)
  let ?b = "[if v \<noteq> 0 then 0xff else 0] :: byte list"
  have "length (asn1_element_bytes CBS_ASN1_BOOLEAN ?b) \<le> 3"
    using t(4) by (simp add: asn1_element_bytes_def asn1_header_def asn1_len_bytes_def)
  from appends_result [OF appends_bool assms(3) this]
  obtain st' where "CBB_add_asn1_bool al (length cs) v st2 = (True, st')"
      "buf st' = buf st2 @ asn1_element_bytes CBS_ASN1_BOOLEAN ?b" by blast
  moreover have "CBS_get_asn1_bool (asn1_element_bytes CBS_ASN1_BOOLEAN ?b @ rest) = (Some (v \<noteq> 0), rest)"
    unfolding CBS_get_asn1_bool_def using t(2) by (subst get_asn1_complete) (auto simp: Let_def)
  ultimately show "\<exists>st' bs. CBB_add_asn1_bool al (length cs) v st2 = (True, st') \<and>
      buf st' = buf st2 @ bs \<and> CBS_get_asn1_bool (bs @ rest) = (Some (v \<noteq> 0), rest)"
    by blast
qed

theorem asn1_string_bool_roundtrip_witness:
  "\<exists>st' bs. CBB_add_asn1_octet_string (\<lambda>_. False) 0 [1, 2] (CBB_init_fixed 8) = (True, st') \<and>
      buf st' = bs \<and> CBS_get_asn1 CBS_ASN1_OCTETSTRING (bs @ [9]) = (Some [1, 2], [9])"
proof -
  have r: "cbb_ready (\<lambda>_. False) [] (length [1 :: byte, 2] + 6) (CBB_init_fixed 8)"
      "cbb_ready (\<lambda>_. False) [] 3 (CBB_init_fixed 8)"
    by (rule init_fixed_ready, simp)+
  have "buf (CBB_init_fixed 8) = []" by (simp add: CBB_init_fixed_def cbb_init_def)
  with asn1_string_bool_roundtrip [OF _ r, of "[9]" 5] show ?thesis by auto
qed

end
