(* ===== verification/Oid_Text.thy ===== *)
theory Oid_Text
  imports Cbb_Writers
begin

unbundle bit_operations_syntax

text \<open>
  Object identifiers and dotted decimal text: the writer \<^verbatim>\<open>CBB_add_asn1_oid_from_text\<close> and
  the printer \<^verbatim>\<open>CBS_asn1_oid_to_text\<close> are inverse to each other.
\<close>

section \<open>Object identifiers as text\<close>

definition digit_byte :: "nat \<Rightarrow> byte" where
  "digit_byte k = of_nat (48 + k)"

lemma digit_byte_props:
  assumes "k < 10"
  shows "OPENSSL_isdigit (uint (digit_byte k))" and "ucast (digit_byte k - 48) = (of_nat k :: u64)"
proof -
  have "unat (digit_byte k) = 48 + k" using assms by (simp add: digit_byte_def unat_of_nat del: of_nat_add)
  moreover have "uint (digit_byte k) = int (unat (digit_byte k))" by simp
  ultimately show "OPENSSL_isdigit (uint (digit_byte k))"
    using assms by (simp only: OPENSSL_isdigit_def) simp
  have "digit_byte k - 48 = of_nat k" by (simp add: digit_byte_def)
  then show "ucast (digit_byte k - 48) = (of_nat k :: u64)"
    using assms by (simp add: word_unat_eq_iff unsigned_ucast_eq unat_of_nat take_bit_nat_eq_self)
qed

lemma max_div_10: "unat (- 1 :: u64) = 2 ^ 64 - 1" "unat ((- 1 :: u64) div 10) = 1844674407370955161"
proof -
  show m: "unat (- 1 :: u64) = 2 ^ 64 - 1" by (simp add: unsigned_minus_1_eq_mask mask_eq_exp_minus_1)
  show "unat ((- 1 :: u64) div 10) = 1844674407370955161" unfolding unat_div m by simp
qed

lemma decimal_step_ok:
  assumes "n < 2 ^ 64" and "k = n mod 10"
  shows "\<not> (of_nat (n div 10) :: u64) > (- 1) div 10"
    and "\<not> (of_nat (n div 10) :: u64) * 10 > - 1 - of_nat k"
    and "(of_nat (n div 10) :: u64) * 10 + of_nat k = of_nat n"
proof -
  have q: "n div 10 * 10 + k = n" "k < 10" using assms by simp_all
  have u: "unat (of_nat (n div 10) :: u64) = n div 10" using assms(1) by (simp add: unat_of_nat)
  have "n div 10 \<le> 1844674407370955161" using assms(1) div_le_mono [of n "2 ^ 64 - 1" 10] by simp
  then show "\<not> (of_nat (n div 10) :: u64) > (- 1) div 10"
    by (simp add: max_div_10 word_less_nat_alt u)
  have "unat ((of_nat (n div 10) :: u64) * 10) = n div 10 * 10"
    using u assms(1) q(1) by (simp add: unat_word_ariths)
  moreover have "unat (- 1 - of_nat k :: u64) = 2 ^ 64 - 1 - k"
  proof -
    have "unat (of_nat k :: u64) = k" using q(2) by (simp add: unat_of_nat)
    moreover have "(of_nat k :: u64) \<le> - 1" by simp
    ultimately show ?thesis by (simp only: unat_sub max_div_10(1))
  qed
  ultimately show "\<not> (of_nat (n div 10) :: u64) * 10 > - 1 - of_nat k"
    using q(1) assms(1) by (simp add: word_less_nat_alt)
  have "(of_nat (n div 10) :: u64) * 10 + of_nat k = of_nat (n div 10 * 10 + k)" by simp
  then show "(of_nat (n div 10) :: u64) * 10 + of_nat k = of_nat n" using q(1) by simp
qed

lemma decimal_loop:
  "n < 2 ^ 64 \<Longrightarrow> u64_decimal_loop 0 False (decimal n @ c) = u64_decimal_loop (of_nat n) True c"
proof (induction n arbitrary: c rule: decimal.induct)
  case (1 n)
  show ?case
  proof (cases "n < 10")
    case True
    then have "decimal n = [digit_byte n]" by (simp add: decimal.simps digit_byte_def)
    moreover have "\<not> (0 :: u64) > - 1 - of_nat n" by (simp add: not_less)
    ultimately show ?thesis using digit_byte_props [OF True] by simp
  next
    case False
    let ?k = "n mod 10"
    have k: "?k < 10" by simp
    have d: "decimal n @ c = decimal (n div 10) @ (digit_byte ?k # c)"
      using False by (simp add: decimal.simps [of n] digit_byte_def)
    have "n div 10 < 2 ^ 64" using "1.prems" by simp
    from "1.IH" [OF False this, of "digit_byte ?k # c"]
    have "u64_decimal_loop 0 False (decimal n @ c) = u64_decimal_loop (of_nat (n div 10)) True (digit_byte ?k # c)"
      unfolding d .
    moreover have "(of_nat (n div 10) :: u64) \<noteq> 0"
    proof -
      have "unat (of_nat (n div 10) :: u64) = n div 10" using "1.prems" by (simp add: unat_of_nat)
      with False show ?thesis by auto
    qed
    ultimately show ?thesis
      using decimal_step_ok [OF "1.prems" refl] digit_byte_props [OF k] by simp
  qed
qed

lemma get_u64_decimal:
  assumes "n < 2 ^ 64" and "c = [] \<or> \<not> OPENSSL_isdigit (uint (hd c))"
  shows "CBS_get_u64_decimal (decimal n @ c) = (Some (of_nat n), c)"
proof -
  have "u64_decimal_loop (of_nat n) True c = (Some (of_nat n, True), c)"
    using assms(2) by (cases c) auto
  then show ?thesis using decimal_loop [OF assms(1)] by (simp add: CBS_get_u64_decimal_def)
qed

text \<open>Dotted decimal text and the encoding of a list of components.\<close>

fun dotted :: "u64 list \<Rightarrow> byte list" where
  "dotted [] = []"
| "dotted (n # ns) = decimal (unat n) @ (if ns = [] then [] else 46 # dotted ns)"

lemma decimal_nonempty: "decimal n \<noteq> []"
  by (subst decimal.simps) simp

lemma parse_dotted_cons:
  "parse_dotted_decimal (dotted (n # ns)) = (Some n, dotted ns)"
proof -
  have dot: "\<not> OPENSSL_isdigit (uint (46 :: byte))" by (simp add: OPENSSL_isdigit_def)
  show ?thesis
  proof (cases ns)
    case Nil
    then show ?thesis
      using get_u64_decimal [of "unat n" "[]"] unat_less_64 [of n] by (simp add: parse_dotted_decimal_def)
  next
    case (Cons m ms)
    then have "dotted ns \<noteq> []" using decimal_nonempty by simp
    with Cons dot show ?thesis
      using get_u64_decimal [of "unat n" "46 # dotted ns"] unat_less_64 [of n]
      by (simp add: parse_dotted_decimal_def CBS_len_def)
  qed
qed

lemma appends_oid_components:
  "cbb_at.appends al cs (oid_components al (length cs) (dotted ns)) (concat (map base128 ns))"
proof (induction ns)
  case Nil
  have "oid_components al (length cs) (dotted []) = (\<lambda>st. (True, st))"
    by (rule ext) (simp add: oid_components.simps CBS_len_def)
  then show ?case by (simp add: cbb_at.appends_nil)
next
  case (Cons n ns)
  have "CBS_len (dotted (n # ns)) > 0" using decimal_nonempty by (simp add: CBS_len_def)
  then have "cbb_at.appends al cs (oid_components al (length cs) (dotted (n # ns)))
      (base128 n @ concat (map base128 ns))"
    by (intro cbb_at.appends_seq [OF appends_base128 Cons])
      (simp add: oid_components.simps [of al "length cs" "dotted (n # ns)"] parse_dotted_cons del: dotted.simps)
  then show ?case by simp
qed

definition oid_bytes :: "u64 \<Rightarrow> u64 \<Rightarrow> u64 list \<Rightarrow> byte list" where
  "oid_bytes a b ns = base128 (40 * a + b) @ concat (map base128 ns)"

definition oid_valid :: "u64 \<Rightarrow> u64 \<Rightarrow> bool" where
  "oid_valid a b \<longleftrightarrow> a \<le> 2 \<and> (a < 2 \<longrightarrow> b \<le> 39) \<and> b \<le> - 1 - 80"

lemma appends_oid_from_text:
  assumes "oid_valid a b"
  shows "cbb_at.appends al cs (CBB_add_asn1_oid_from_text al (length cs) (dotted (a # b # ns)))
    (oid_bytes a b ns)"
proof -
  have v: "\<not> (a > 2 \<or> (a < 2 \<and> b > 39) \<or> b > - 1 - 80)"
    using assms by (auto simp: oid_valid_def)
  have run: "CBB_add_asn1_oid_from_text al (length cs) (dotted (a # b # ns)) st =
      and_then (add_base128_integer al (length cs) (40 * a + b))
        (oid_components al (length cs) (dotted ns)) st"
    if "CBB_flush al (length cs) st = (True, st)" for st
    using that v unfolding CBB_add_asn1_oid_from_text_def
    by (auto simp: parse_dotted_cons and_then_def simp del: dotted.simps split: prod.splits bool.splits)
  show ?thesis
    unfolding cbb_at.appends_def
  proof (intro allI impI)
    fix st n
    assume r: "cbb_ready al cs (length (oid_bytes a b ns) + n) st"
    from appends_then [OF appends_base128 appends_oid_components, of al cs "40 * a + b" ns, folded oid_bytes_def] r
    show "\<exists>st'. CBB_add_asn1_oid_from_text al (length cs) (dotted (a # b # ns)) st = (True, st') \<and>
        buf st' = buf st @ oid_bytes a b ns \<and> cbb_ready al cs n st'"
      unfolding run [OF flush_none [OF r]] by (rule cbb_at.appendsE) blast
  qed
qed

text \<open>The printer.\<close>

lemma parse_base128_cons: "parse_base128_integer (base128 v @ c) = (Some v, c)"
  by (simp add: parse_base128_iff)

lemma base128_nonempty: "base128 v \<noteq> []"
  by (simp add: base128_def)

lemma appends_decimal: "cbb_at.appends al [] (add_decimal al 0 v) (decimal (unat v))"
  using appends_bytes [of al "[]"] by (simp add: add_decimal_def)

lemma appends_text_components:
  "cbb_at.appends al [] (oid_text_components al (concat (map base128 ns)))
     (concat (map (\<lambda>n. 46 # decimal (unat n)) ns))"
proof (induction ns)
  case Nil
  have "oid_text_components al (concat (map base128 [])) = (\<lambda>st. (True, st))"
    by (rule ext) (simp add: oid_text_components.simps CBS_len_def)
  then show ?case by (simp add: cbb_at.appends_nil)
next
  case (Cons n ns)
  let ?c = "base128 n @ concat (map base128 ns)"
  have c: "CBS_len ?c \<noteq> 0" "parse_base128_integer ?c = (Some n, concat (map base128 ns))"
    using base128_nonempty by (simp_all add: CBS_len_def parse_base128_cons)
  have w: "cbb_at.appends al [] (and_then (CBB_add_u8 al 0 46) (add_decimal al 0 n)) (46 # decimal (unat n))"
    using appends_then [OF appends_u8 [of al "[]" 46] appends_decimal] by simp
  have "cbb_at.appends al [] (oid_text_components al ?c)
      ((46 # decimal (unat n)) @ concat (map (\<lambda>n. 46 # decimal (unat n)) ns))"
    by (rule cbb_at.appends_seq [OF w Cons]) (simp add: oid_text_components.simps [of al ?c] c)
  then show ?case by (simp only: list.map concat.simps append.simps)
qed

lemma dotted_text:
  "dotted (n # ns) = decimal (unat n) @ concat (map (\<lambda>n. 46 # decimal (unat n)) ns)"
proof (induction ns arbitrary: n)
  case (Cons m ms)
  from Cons.IH [of m] show ?case by simp
qed simp

lemma first_component:
  assumes "oid_valid a b"
  shows "(40 * a + b \<ge> 80 \<longleftrightarrow> a = 2) \<and> (a = 2 \<longrightarrow> 40 * a + b - 80 = b) \<and>
    (a \<noteq> 2 \<longrightarrow> (40 * a + b) div 40 = a \<and> (40 * a + b) mod 40 = b)"
proof -
  have a: "unat a \<le> 2" using assms by (simp add: oid_valid_def word_le_nat_alt)
  have "(80 :: u64) \<le> - 1" by simp
  then have "unat (- 1 - 80 :: u64) = 2 ^ 64 - 1 - 80" by (simp only: unat_sub max_div_10(1)) simp
  then have b: "unat b \<le> 2 ^ 64 - 81" using assms by (simp add: oid_valid_def word_le_nat_alt)
  have u: "unat (40 * a + b) = 40 * unat a + unat b"
    using a b by (simp add: unat_word_ariths)
  show ?thesis
  proof (cases "a = 2")
    case True
    then show ?thesis using u by (simp add: word_le_nat_alt)
  next
    case False
    then have "unat a \<noteq> 2" by (simp add: word_unat_eq_iff)
    then have ab: "unat a < 2" "unat b \<le> 39"
      using a assms by (simp_all add: oid_valid_def word_le_nat_alt word_less_nat_alt)
    then have "\<not> 40 * a + b \<ge> 80" by (simp add: word_le_nat_alt u)
    moreover have "(40 * a + b) div 40 = a" "(40 * a + b) mod 40 = b"
      using ab by (simp_all add: word_unat_eq_iff unat_div unat_mod u)
    ultimately show ?thesis using False by simp
  qed
qed

text \<open>
  The text that the printer builds: room for it and its final zero byte is enough.
\<close>

definition oid_printer :: "(size_t \<Rightarrow> bool) \<Rightarrow> u64 \<Rightarrow> CBS \<Rightarrow> CBB \<Rightarrow> bool \<times> CBB" where
  "oid_printer al v copy =
     and_then (if v \<ge> 80 then and_then (CBB_add_bytes al 0 [50, 46]) (add_decimal al 0 (v - 80))
               else and_then (add_decimal al 0 (v div 40))
                      (and_then (CBB_add_u8 al 0 46) (add_decimal al 0 (v mod 40))))
       (and_then (oid_text_components al copy) (CBB_add_u8 al 0 0))"

lemma appends_oid_printer:
  assumes "oid_valid a b"
  shows "cbb_at.appends al [] (oid_printer al (40 * a + b) (concat (map base128 ns)))
    (dotted (a # b # ns) @ [0])"
proof -
  note v = first_component [OF assms]
  have two: "decimal 2 = [50]" by (simp add: decimal.simps)
  have dot: "cbb_at.appends al [] (CBB_add_u8 al 0 46) [46]" and z: "cbb_at.appends al [] (CBB_add_u8 al 0 0) [0]"
    using appends_u8 [of al "[]"] by simp_all
  have lead: "cbb_at.appends al [] (CBB_add_bytes al 0 [50, 46]) [50, 46]"
    using appends_bytes [of al "[]"] by simp
  have first: "cbb_at.appends al []
      (if 40 * a + b \<ge> 80 then and_then (CBB_add_bytes al 0 [50, 46]) (add_decimal al 0 (40 * a + b - 80))
       else and_then (add_decimal al 0 ((40 * a + b) div 40))
                      (and_then (CBB_add_u8 al 0 46) (add_decimal al 0 ((40 * a + b) mod 40))))
      (decimal (unat a) @ 46 # decimal (unat b))"
  proof (cases "a = 2")
    case True
    then show ?thesis using v appends_then [OF lead appends_decimal [of al b]] two by simp
  next
    case False
    then show ?thesis
      using v appends_then [OF appends_decimal [of al a] appends_then [OF dot appends_decimal [of al b]]] by simp
  qed
  from appends_then [OF first appends_then [OF appends_text_components z, of ns]]
  show ?thesis unfolding oid_printer_def dotted_text by simp
qed

lemma oid_to_text_eq:
  assumes "parse_base128_integer cbs = (Some v, copy)" and "CBB_init al 32 = Some cbb"
    and "oid_printer al v copy cbb = (True, st)"
  shows "CBS_asn1_oid_to_text al cbs = fst (CBB_finish al 0 True st)"
  using assms by (auto simp: CBS_asn1_oid_to_text_def oid_printer_def and_then_def split: prod.splits bool.splits if_splits)

text \<open>
  C21 (roundtrip). Object identifiers and text: for a valid first pair of components (as
  \<^verbatim>\<open>CBB_add_asn1_oid_from_text\<close> checks it, the overflow bound included), the parser of
  dotted text appends the base-128 encoding of the components, and \<^verbatim>\<open>CBS_asn1_oid_to_text\<close>
  prints exactly the text that was parsed, with its final zero byte. The allocator serves the
  sizes that the growth of the output buffer asks for.
\<close>

theorem oid_text_roundtrip:
  assumes "oid_valid a b" and "cbb_ready al cs (length (oid_bytes a b ns)) st"
    and "\<forall>sz. unat sz \<le> 2 * (length (dotted (a # b # ns)) + 32) \<longrightarrow> OPENSSL_malloc al sz"
    and "length (dotted (a # b # ns)) < 2 ^ 61"
  shows "(\<exists>st'. CBB_add_asn1_oid_from_text al (length cs) (dotted (a # b # ns)) st = (True, st') \<and>
      buf st' = buf st @ oid_bytes a b ns \<and> children st' = cs) \<and>
    CBS_asn1_oid_to_text al (oid_bytes a b ns) = Some (dotted (a # b # ns) @ [0])"
proof
  show "\<exists>st'. CBB_add_asn1_oid_from_text al (length cs) (dotted (a # b # ns)) st = (True, st') \<and>
      buf st' = buf st @ oid_bytes a b ns \<and> children st' = cs"
    using appends_result [OF appends_oid_from_text [OF assms(1)] assms(2)] by simp
  let ?t = "dotted (a # b # ns) @ [0]" and ?c = "cbb_init 32 True"
  have "unat (32 :: size_t) = 32" by simp
  then have i: "CBB_init al 32 = Some ?c" using assms(3) by (simp add: CBB_init_def)
  have "cbb_ready al [] (length ?t + 0) ?c"
    using assms(3,4) by (auto simp: cbb_ready_def cbb_init_def cbb_bounded_def has_room_def)
  with appends_oid_printer [OF assms(1), of al ns]
  obtain st2 where p: "oid_printer al (40 * a + b) (concat (map base128 ns)) ?c = (True, st2)"
      and b: "buf st2 = buf ?c @ ?t" and r: "cbb_ready al [] 0 st2"
    by (rule cbb_at.appendsE)
  have "parse_base128_integer (oid_bytes a b ns) = (Some (40 * a + b), concat (map base128 ns))"
    by (simp add: oid_bytes_def parse_base128_cons)
  from oid_to_text_eq [OF this i p] flush_none [OF r] b
  show "CBS_asn1_oid_to_text al (oid_bytes a b ns) = Some ?t"
    by (simp add: CBB_finish_def cbb_init_def)
qed

theorem oid_text_roundtrip_witness:
  "(\<exists>st'. CBB_add_asn1_oid_from_text (\<lambda>_. True) 0 (dotted [1, 2, 840]) (CBB_init_fixed 3) = (True, st') \<and>
      buf st' = oid_bytes 1 2 [840] \<and> children st' = []) \<and>
    CBS_asn1_oid_to_text (\<lambda>_. True) (oid_bytes 1 2 [840]) = Some (dotted [1, 2, 840] @ [0])"
proof -
  have v: "oid_valid 1 2" by code_simp
  have l: "length (oid_bytes 1 2 [840]) = 3" "length (dotted [1, 2, 840]) = 7" by code_simp+
  have r: "cbb_ready (\<lambda>_. True) [] (length (oid_bytes 1 2 [840])) (CBB_init_fixed 3)"
    unfolding l by (rule init_fixed_ready) simp
  have m: "\<forall>sz. unat sz \<le> 2 * (length (dotted [1, 2, 840]) + 32) \<longrightarrow> OPENSSL_malloc (\<lambda>_. True) sz"
    unfolding l by (auto simp: OPENSSL_malloc_def word_less_nat_alt unat_word_ariths)
  have b: "buf (CBB_init_fixed 3) = []" by (simp add: CBB_init_fixed_def cbb_init_def)
  have "length (dotted [1, 2, 840]) < 2 ^ 61" unfolding l by simp
  from oid_text_roundtrip [OF v r m this] show ?thesis by (simp only: b list.size append.simps)
qed

end
