(* ===== verification/Heap_Sort.thy ===== *)
theory Heap_Sort
  imports Prelude "HOL-Library.Multiset"
begin

text \<open>
  The in-place heap sort and the binary search of BoringSSL's pointer stack
  (\<^verbatim>\<open>crypto/stack/stack.c\<close>), on the array of elements. \<open>cmp\<close> is the comparison function with its
  calling wrapper applied. Indices are natural numbers, except in the loop that relies on the
  wrap-around of \<^verbatim>\<open>size_t\<close>.
\<close>

section \<open>Definitions\<close>

definition parent_idx :: "nat \<Rightarrow> nat" where
  "parent_idx idx = (idx - 1) div 2"

definition left_idx :: "nat \<Rightarrow> nat" where
  "left_idx idx = 2 * idx + 1"

definition swap :: "nat \<Rightarrow> nat \<Rightarrow> 'a list \<Rightarrow> 'a list" where
  "swap i j xs = xs[i := xs ! j, j := xs ! i]"

text \<open>The larger of an element and its children, as \<^verbatim>\<open>down_heap\<close> selects it.\<close>

definition heap_next :: "('a \<Rightarrow> 'a \<Rightarrow> int) \<Rightarrow> 'a list \<Rightarrow> nat \<Rightarrow> nat \<Rightarrow> nat" where
  "heap_next cmp xs i n =
     (let left = left_idx i;
          k = (if cmp (xs ! i) (xs ! left) < 0 then left else i);
          right = left + 1
      in if right < n \<and> cmp (xs ! k) (xs ! right) < 0 then right else k)"

function down_heap :: "('a \<Rightarrow> 'a \<Rightarrow> int) \<Rightarrow> 'a list \<Rightarrow> nat \<Rightarrow> nat \<Rightarrow> 'a list" where
  "down_heap cmp xs i n =
     (if left_idx i \<ge> n then xs
      else let k = heap_next cmp xs i n
           in if i = k then xs else down_heap cmp (swap i k xs) k n)"
  by pat_completeness auto
termination
  by (relation "measure (\<lambda>(_, _, i, n). n - i)") (auto simp: heap_next_def Let_def left_idx_def split: if_splits)

declare down_heap.simps [simp del]

text \<open>
  \<^verbatim>\<open>for (size_t i = parent_idx(num - 1); i < num; i--)\<close>: the loop ends when \<open>i\<close> wraps around
  below zero.
\<close>

function build_heap :: "('a \<Rightarrow> 'a \<Rightarrow> int) \<Rightarrow> 'a list \<Rightarrow> size_t \<Rightarrow> size_t \<Rightarrow> 'a list" where
  "build_heap cmp xs i n =
     (if i < n then build_heap cmp (down_heap cmp xs (unat i) (unat n)) (i - 1) n else xs)"
  by pat_completeness auto
termination
proof (relation "measure (\<lambda>(_, _, i, n). if i < n then unat i + 1 else 0)")
  fix cmp :: "'a \<Rightarrow> 'a \<Rightarrow> int" and xs and i n :: size_t
  assume "i < n"
  have "\<not> (- 1 :: size_t) < n" by (simp add: not_less)
  moreover have "i \<noteq> 0 \<Longrightarrow> unat (i - 1) < unat i" using unat_minus_one [of i] unat_gt_0 [of i] by simp
  ultimately show "((cmp, down_heap cmp xs (unat i) (unat n), i - 1, n), cmp, xs, i, n)
      \<in> measure (\<lambda>(_, _, i, n). if i < n then unat i + 1 else 0)"
    using \<open>i < n\<close> by (cases "i = 0") auto
qed simp

declare build_heap.simps [simp del]

text \<open>\<^verbatim>\<open>for (size_t i = num - 1; i > 0; i--)\<close>: move the maximum behind the heap.\<close>

fun pop_heap :: "('a \<Rightarrow> 'a \<Rightarrow> int) \<Rightarrow> 'a list \<Rightarrow> nat \<Rightarrow> 'a list" where
  "pop_heap cmp xs 0 = xs"
| "pop_heap cmp xs (Suc i) = pop_heap cmp (down_heap cmp (swap 0 (Suc i) xs) 0 (Suc i)) i"

definition heap_sort :: "('a \<Rightarrow> 'a \<Rightarrow> int) \<Rightarrow> 'a list \<Rightarrow> size_t \<Rightarrow> 'a list" where
  "heap_sort cmp xs n =
     (let heap = build_heap cmp xs (of_nat (parent_idx (unat (n - 1)))) n
      in pop_heap cmp heap (unat (n - 1)))"

text \<open>The binary search for the first match in the half-open interval from \<open>lo\<close> to \<open>hi\<close>.\<close>

function binary_search :: "('a \<Rightarrow> int) \<Rightarrow> 'a list \<Rightarrow> nat \<Rightarrow> nat \<Rightarrow> nat option" where
  "binary_search r xs lo hi =
     (if lo < hi then
        let mid = lo + (hi - lo - 1) div 2; c = r (xs ! mid) in
        if c > 0 then binary_search r xs (mid + 1) hi
        else if c < 0 then binary_search r xs lo mid
        else if hi - lo = 1 then Some mid
        else binary_search r xs lo (mid + 1)
      else None)"
  by pat_completeness auto
termination
  by (relation "measure (\<lambda>(_, _, lo, hi). hi - lo)") (auto simp: less_Suc_eq)

declare binary_search.simps [simp del]

lemma find_append: "find P (xs @ ys) = (case find P xs of None \<Rightarrow> find P ys | Some x \<Rightarrow> Some x)"
  by (induction xs) auto

lemma find_none: "(\<And>x. x \<in> set xs \<Longrightarrow> \<not> P x) \<Longrightarrow> find P xs = None"
  by (simp add: find_None_iff)

section \<open>Comparison functions\<close>

text \<open>
  What the stack relies on: the sign of the result is a total preorder, as the documentation of
  \<^verbatim>\<open>OPENSSL_sk_cmp_func\<close> asks for.
\<close>

locale comparison =
  fixes cmp :: "'a \<Rightarrow> 'a \<Rightarrow> int"
  assumes cmp_sym: "cmp a b < 0 \<longleftrightarrow> 0 < cmp b a"
    and cmp_trans: "cmp a b \<le> 0 \<Longrightarrow> cmp b c \<le> 0 \<Longrightarrow> cmp a c \<le> 0"
begin

definition le :: "'a \<Rightarrow> 'a \<Rightarrow> bool" where
  "le a b \<longleftrightarrow> cmp a b \<le> 0"

lemma le_refl [simp]: "le a a"
  using cmp_sym [of a a] unfolding le_def by linarith

lemma le_trans: "le a b \<Longrightarrow> le b c \<Longrightarrow> le a c"
  by (auto simp: le_def intro: cmp_trans)

lemma less_le: "cmp a b < 0 \<Longrightarrow> le a b"
  by (simp add: le_def)

lemma not_less_le: "\<not> cmp a b < 0 \<Longrightarrow> le b a"
  using cmp_sym [of a b] by (simp add: le_def not_less)

section \<open>Heaps\<close>

text \<open>
  All parents from \<open>lo\<close> on, within the first \<open>n\<close> elements, are at least as large as their
  children; \<open>hole\<close> is a parent for which this may fail.
\<close>

definition heap_but :: "nat \<Rightarrow> nat \<Rightarrow> nat \<Rightarrow> 'a list \<Rightarrow> bool" where
  "heap_but hole lo n xs \<longleftrightarrow>
     (\<forall>j c. lo \<le> j \<and> j \<noteq> hole \<and> c < n \<and> (c = 2 * j + 1 \<or> c = 2 * j + 2) \<longrightarrow> le (xs ! c) (xs ! j)) \<and>
     (\<forall>p c. lo \<le> p \<and> (hole = 2 * p + 1 \<or> hole = 2 * p + 2) \<and> c < n \<and>
        (c = 2 * hole + 1 \<or> c = 2 * hole + 2) \<longrightarrow> le (xs ! c) (xs ! p))"

definition heap :: "nat \<Rightarrow> nat \<Rightarrow> 'a list \<Rightarrow> bool" where
  "heap lo n xs \<longleftrightarrow> (\<forall>j c. lo \<le> j \<and> c < n \<and> (c = 2 * j + 1 \<or> c = 2 * j + 2) \<longrightarrow> le (xs ! c) (xs ! j))"

lemma heap_next_spec:
  fixes xs :: "'a list" and i n :: nat
  assumes "left_idx i < n"
  defines "k \<equiv> heap_next cmp xs i n"
  shows "k = i \<or> k = 2 * i + 1 \<or> (k = 2 * i + 2 \<and> k < n)"
    and "le (xs ! i) (xs ! k)" and "le (xs ! (2 * i + 1)) (xs ! k)"
    and "2 * i + 2 < n \<Longrightarrow> le (xs ! (2 * i + 2)) (xs ! k)"
proof -
  let ?k = "if cmp (xs ! i) (xs ! (2 * i + 1)) < 0 then 2 * i + 1 else i"
  have 1: "le (xs ! i) (xs ! ?k)" "le (xs ! (2 * i + 1)) (xs ! ?k)"
    by (auto dest: less_le not_less_le)
  have k: "k = (if 2 * i + 2 < n \<and> cmp (xs ! ?k) (xs ! (2 * i + 2)) < 0 then 2 * i + 2 else ?k)"
    by (simp add: k_def heap_next_def left_idx_def Let_def)
  have 2: "le (xs ! ?k) (xs ! k)" "2 * i + 2 < n \<Longrightarrow> le (xs ! (2 * i + 2)) (xs ! k)"
    unfolding k by (auto dest: less_le not_less_le simp del: One_nat_def)
  show "k = i \<or> k = 2 * i + 1 \<or> (k = 2 * i + 2 \<and> k < n)" unfolding k by auto
  show "le (xs ! i) (xs ! k)" "le (xs ! (2 * i + 1)) (xs ! k)" using 1 2(1) le_trans by blast+
  show "2 * i + 2 < n \<Longrightarrow> le (xs ! (2 * i + 2)) (xs ! k)" by (rule 2)
qed

lemma nth_swap:
  "i < length xs \<Longrightarrow> k < length xs \<Longrightarrow>
   swap i k xs ! j = (if j = i then xs ! k else if j = k then xs ! i else xs ! j)"
  by (simp add: swap_def nth_list_update)

lemma swap_child:
  assumes h: "heap_but i lo n xs" and n: "n \<le> length xs" and l: "left_idx i < n"
    and lo: "lo \<le> i" and k: "k = heap_next cmp xs i n" "k \<noteq> i"
  shows "heap_but k lo n (swap i k xs)"
proof -
  note s = heap_next_spec [OF l, of xs, folded k(1)]
  have kc: "k = 2 * i + 1 \<or> k = 2 * i + 2" "k < n" "i < n" using s(1) k(2) l by (auto simp: left_idx_def)
  have nth: "swap i k xs ! j = (if j = i then xs ! k else if j = k then xs ! i else xs ! j)" for j
    using kc n by (intro nth_swap) auto
  have H: "le (xs ! c) (xs ! j)" if "lo \<le> j" "j \<noteq> i" "c < n" "c = 2 * j + 1 \<or> c = 2 * j + 2" for j c
    using h that unfolding heap_but_def by blast
  have P: "le (xs ! k) (xs ! p)" if "lo \<le> p" "i = 2 * p + 1 \<or> i = 2 * p + 2" for p
    using h that kc unfolding heap_but_def by blast
  have 1: "le (swap i k xs ! c) (swap i k xs ! j)"
    if j: "lo \<le> j" "j \<noteq> k" "c < n" "c = 2 * j + 1 \<or> c = 2 * j + 2" for j c
  proof (cases "j = i")
    case True
    then have "c \<noteq> i" "le (xs ! c) (xs ! k)" using j s(3,4) by auto
    with True s(2) show ?thesis by (simp add: nth)
  next
    case False
    then have "c \<noteq> k" using j(4) kc(1) by auto
    with False j H [OF j(1) False j(3,4)] P [of j] show ?thesis by (auto simp: nth)
  qed
  have 2: "le (swap i k xs ! c) (swap i k xs ! p)"
    if p: "lo \<le> p" "k = 2 * p + 1 \<or> k = 2 * p + 2" "c < n" "c = 2 * k + 1 \<or> c = 2 * k + 2" for p c
  proof -
    have "p = i" using p(2) kc(1) by auto
    moreover have "c \<noteq> k" "c \<noteq> i" using p(4) kc(1) by auto
    moreover have "lo \<le> k" using lo kc(1) by auto
    ultimately show ?thesis using H [of k c] k(2) p by (simp add: nth)
  qed
  from 1 2 show ?thesis unfolding heap_but_def by blast
qed

lemma down_heap_heap:
  "heap_but i lo n xs \<Longrightarrow> n \<le> length xs \<Longrightarrow> lo \<le> i \<Longrightarrow> heap lo n (down_heap cmp xs i n)"
proof (induction "n - i" arbitrary: xs i rule: less_induct)
  case less
  show ?case
  proof (cases "left_idx i < n")
    case False
    then have "down_heap cmp xs i n = xs" by (subst down_heap.simps) simp
    moreover have "heap lo n xs"
      using less.prems(1) False unfolding heap_but_def heap_def left_idx_def
      by (metis add_2_eq_Suc' add_lessD1 Suc_eq_plus1 add_Suc_right)
    ultimately show ?thesis by simp
  next
    case l: True
    let ?k = "heap_next cmp xs i n"
    note s = heap_next_spec [OF l, of xs]
    show ?thesis
    proof (cases "?k = i")
      case True
      then have "down_heap cmp xs i n = xs" by (subst down_heap.simps) simp
      moreover have "heap lo n xs"
        using less.prems(1) s(3,4) True unfolding heap_but_def heap_def by metis
      ultimately show ?thesis by simp
    next
      case False
      then have "down_heap cmp xs i n = down_heap cmp (swap i ?k xs) ?k n"
        using l by (subst down_heap.simps) (simp add: Let_def)
      moreover have "n - ?k < n - i" "lo \<le> ?k"
        using s(1) False l less.prems(3) by (auto simp: left_idx_def)
      moreover have "heap_but ?k lo n (swap i ?k xs)"
        using swap_child [OF less.prems(1,2) l less.prems(3) refl False] .
      ultimately show ?thesis using less.hyps [of ?k "swap i ?k xs"] less.prems(2) by (simp add: swap_def)
    qed
  qed
qed

lemma mset_swap: "i < length xs \<Longrightarrow> j < length xs \<Longrightarrow> mset (swap i j xs) = mset xs"
  unfolding swap_def by (rule mset_swap)

lemma down_heap_frame:
  "i < n \<Longrightarrow> n \<le> length xs \<Longrightarrow>
   mset (take n (down_heap cmp xs i n)) = mset (take n xs) \<and> drop n (down_heap cmp xs i n) = drop n xs \<and>
   length (down_heap cmp xs i n) = length xs"
proof (induction "n - i" arbitrary: xs i rule: less_induct)
  case less
  let ?k = "heap_next cmp xs i n"
  show ?case
  proof (cases "left_idx i < n \<and> ?k \<noteq> i")
    case False
    then show ?thesis by (subst (1 2 3) down_heap.simps) auto
  next
    case True
    then have k: "?k < n" "n - ?k < n - i"
      using heap_next_spec(1) [of i n xs] by (auto simp: left_idx_def)
    let ?s = "swap i ?k xs"
    have "down_heap cmp xs i n = down_heap cmp ?s ?k n"
      using True by (subst down_heap.simps) (auto simp: Let_def)
    moreover have "take n ?s = swap i ?k (take n xs)" "drop n ?s = drop n xs" "length ?s = length xs"
      using k less.prems by (simp_all add: swap_def take_update_swap)
    moreover have "mset (swap i ?k (take n xs)) = mset (take n xs)"
      using k less.prems by (intro mset_swap) auto
    ultimately show ?thesis using less.hyps [OF k(2,1), of ?s] less.prems(2) by simp
  qed
qed

lemma heap_root: "heap 0 n xs \<Longrightarrow> j < n \<Longrightarrow> le (xs ! j) (xs ! 0)"
proof (induction j rule: less_induct)
  case (less j)
  show ?case
  proof (cases "j = 0")
    case False
    then have p: "(j - 1) div 2 < j" "j = 2 * ((j - 1) div 2) + 1 \<or> j = 2 * ((j - 1) div 2) + 2"
      by presburger+
    then have "le (xs ! j) (xs ! ((j - 1) div 2))" using less.prems unfolding heap_def by blast
    moreover have "le (xs ! ((j - 1) div 2)) (xs ! 0)" using less.IH [OF p(1) less.prems(1)] p(1) less.prems(2) by simp
    ultimately show ?thesis by (rule le_trans)
  qed simp
qed

lemma build_heap_spec:
  "i < n \<Longrightarrow> unat n \<le> length xs \<Longrightarrow> heap (Suc (unat i)) (unat n) xs \<Longrightarrow>
   heap 0 (unat n) (build_heap cmp xs i n) \<and> mset (take (unat n) (build_heap cmp xs i n)) = mset (take (unat n) xs) \<and>
   drop (unat n) (build_heap cmp xs i n) = drop (unat n) xs \<and> length (build_heap cmp xs i n) = length xs"
proof (induction "unat i" arbitrary: xs i)
  case 0
  then have i: "i = 0" by (simp add: word_unat_eq_iff)
  have "\<not> (- 1 :: size_t) < n" by (simp add: not_less)
  then have b: "build_heap cmp xs i n = down_heap cmp xs 0 (unat n)"
    using 0 i by (subst build_heap.simps) (simp add: build_heap.simps [of _ _ "- 1"])
  have "heap_but 0 0 (unat n) xs" using 0 i unfolding heap_but_def heap_def by auto
  from down_heap_heap [OF this] down_heap_frame [of 0 "unat n" xs] 0 i show ?case
    unfolding b by (simp add: word_less_nat_alt)
next
  case (Suc m)
  have "i \<noteq> 0" using Suc.hyps(2) by auto
  then have i: "i \<noteq> 0" "unat (i - 1) = m" "i - 1 < n" "unat i < unat n"
    using Suc.hyps(2) Suc.prems(1) unat_minus_one [of i] by (auto simp: word_less_nat_alt)
  let ?x = "down_heap cmp xs (unat i) (unat n)"
  have "heap_but (unat i) (unat i) (unat n) xs"
    using Suc.prems(3) unfolding heap_but_def heap_def by auto
  from down_heap_heap [OF this Suc.prems(2)] have h: "heap (Suc (unat (i - 1))) (unat n) ?x"
    using Suc.hyps(2) i by simp
  note f = down_heap_frame [OF i(4) Suc.prems(2)]
  have "build_heap cmp xs i n = build_heap cmp ?x (i - 1) n"
    using Suc.prems(1) by (subst build_heap.simps) simp
  with Suc.hyps(1) [OF i(2) [symmetric] i(3) _ h] f Suc.prems(2) show ?case by simp
qed

lemma pop_step:
  assumes "heap 0 (Suc (Suc i)) xs" and "Suc (Suc i) \<le> n" and "n \<le> length xs"
    and "sorted_wrt le (drop (Suc (Suc i)) (take n xs))"
    and "\<forall>a \<in> set (take (Suc (Suc i)) xs). \<forall>b \<in> set (drop (Suc (Suc i)) (take n xs)). le a b"
  defines "ys \<equiv> down_heap cmp (swap 0 (Suc i) xs) 0 (Suc i)"
  shows "heap 0 (Suc i) ys" and "sorted_wrt le (drop (Suc i) (take n ys))"
    and "\<forall>a \<in> set (take (Suc i) ys). \<forall>b \<in> set (drop (Suc i) (take n ys)). le a b"
    and "mset (take n ys) = mset (take n xs)" and "drop n ys = drop n xs" and "length ys = length xs"
proof -
  let ?s = "swap 0 (Suc i) xs"
  have nth: "?s ! j = (if j = 0 then xs ! Suc i else if j = Suc i then xs ! 0 else xs ! j)" for j
    using assms(2,3) by (intro nth_swap) auto
  have len: "length ?s = length xs" by (simp add: swap_def)
  have "heap_but 0 0 (Suc i) ?s"
    using assms(1) unfolding heap_but_def heap_def by (auto simp: nth)
  then show "heap 0 (Suc i) ys" unfolding ys_def using len assms(2,3) by (intro down_heap_heap) auto
  have f: "mset (take (Suc i) ys) = mset (take (Suc i) ?s)" "drop (Suc i) ys = drop (Suc i) ?s"
      "length ys = length ?s"
    unfolding ys_def using down_heap_frame [of 0 "Suc i" ?s] len assms(2,3) by auto
  show "length ys = length xs" using f len by simp
  have dn: "drop n ys = drop n ?s"
  proof -
    have "drop n ys = drop (n - Suc i) (drop (Suc i) ys)" using assms(2) by simp
    also have "\<dots> = drop (n - Suc i) (drop (Suc i) ?s)" by (simp only: f(2))
    finally show ?thesis using assms(2) by simp
  qed
  then show "drop n ys = drop n xs" using assms(2) by (simp add: swap_def)
  have tail: "drop (Suc i) (take n ys) = xs ! 0 # drop (Suc (Suc i)) (take n xs)"
  proof -
    have "drop (Suc i) (take n ys) = take (n - Suc i) (drop (Suc i) ?s)" by (simp add: drop_take f(2))
    also have "drop (Suc i) ?s = xs ! 0 # drop (Suc (Suc i)) xs"
      using assms(2,3) nth [of "Suc i"] len Cons_nth_drop_Suc [of "Suc i" ?s, symmetric]
      by (simp add: swap_def)
    finally show ?thesis using assms(2) by (simp add: drop_take take_Cons' Suc_diff_le)
  qed
  have sub: "set (take (Suc i) ys) \<subseteq> set (take (Suc (Suc i)) xs)"
  proof -
    have "set (take (Suc i) ys) = set (take (Suc i) ?s)" using f(1) by (metis set_mset_mset)
    also have "\<dots> \<subseteq> set (take (Suc (Suc i)) xs)"
    proof
      fix a
      assume "a \<in> set (take (Suc i) ?s)"
      then obtain j where j: "j < Suc i" "a = ?s ! j" by (auto simp: in_set_conv_nth)
      have "xs ! m \<in> set (take (Suc (Suc i)) xs)" if "m < Suc (Suc i)" for m
        using nth_mem [of m "take (Suc (Suc i)) xs"] that assms(2,3) by simp
      with j show "a \<in> set (take (Suc (Suc i)) xs)" by (simp add: nth)
    qed
    finally show ?thesis .
  qed
  have root: "le a (xs ! 0)" if "a \<in> set (take (Suc (Suc i)) xs)" for a
    using that heap_root [OF assms(1)] by (auto simp: in_set_conv_nth)
  have z: "xs ! 0 \<in> set (take (Suc (Suc i)) xs)" using assms(2,3) by (cases xs) auto
  show "sorted_wrt le (drop (Suc i) (take n ys))" unfolding tail using assms(4,5) z by simp
  show "\<forall>a \<in> set (take (Suc i) ys). \<forall>b \<in> set (drop (Suc i) (take n ys)). le a b"
    unfolding tail using sub root assms(5) by auto
  have "mset (take n ys) = mset (take (Suc i) (take n ys)) + mset (drop (Suc i) (take n ys))"
    by (metis append_take_drop_id mset_append)
  also have "mset (take (Suc i) (take n ys)) = mset (take (Suc i) (take n ?s))" using f(1) assms(2) by simp
  also have "drop (Suc i) (take n ys) = drop (Suc i) (take n ?s)" by (simp add: drop_take f(2))
  finally have "mset (take n ys) = mset (take n ?s)" by (metis append_take_drop_id mset_append)
  also have "take n ?s = swap 0 (Suc i) (take n xs)" using assms(2,3) by (simp add: swap_def take_update_swap)
  also have "mset (swap 0 (Suc i) (take n xs)) = mset (take n xs)" using assms(2,3) by (intro mset_swap) auto
  finally show "mset (take n ys) = mset (take n xs)" .
qed

lemma pop_heap_spec:
  "heap 0 (Suc i) xs \<Longrightarrow> Suc i \<le> n \<Longrightarrow> n \<le> length xs \<Longrightarrow> sorted_wrt le (drop (Suc i) (take n xs)) \<Longrightarrow>
   \<forall>a \<in> set (take (Suc i) xs). \<forall>b \<in> set (drop (Suc i) (take n xs)). le a b \<Longrightarrow>
   sorted_wrt le (take n (pop_heap cmp xs i)) \<and> mset (take n (pop_heap cmp xs i)) = mset (take n xs) \<and>
   drop n (pop_heap cmp xs i) = drop n xs \<and> length (pop_heap cmp xs i) = length xs"
proof (induction i arbitrary: xs)
  case 0
  then have "take n xs = hd xs # drop 1 (take n xs)" by (cases xs; cases n) auto
  moreover have "take (Suc 0) xs = [hd xs]" using 0 by (cases xs) auto
  ultimately have "sorted_wrt le (take n xs)" using 0(4,5) by (metis One_nat_def list.set_intros(1) sorted_wrt.simps(2))
  then show ?case by simp
next
  case (Suc i)
  note s = pop_step [OF Suc.prems]
  from Suc.IH [OF s(1) _ _ s(2,3)] s(4,5,6) Suc.prems(2,3) show ?case by simp
qed

lemma heap_sort_spec:
  assumes "2 \<le> unat n" and "unat n \<le> length xs"
  shows "sorted_wrt le (take (unat n) (heap_sort cmp xs n))"
    and "mset (take (unat n) (heap_sort cmp xs n)) = mset (take (unat n) xs)"
    and "drop (unat n) (heap_sort cmp xs n) = drop (unat n) xs" and "length (heap_sort cmp xs n) = length xs"
proof -
  let ?n = "unat n" and ?p = "parent_idx (unat (n - 1))"
  have n1: "unat (n - 1) = ?n - 1" using assms(1) by (intro unat_minus_one) auto
  have p: "?p < ?n" "?n \<le> 2 * ?p + 3" using assms(1) unfolding n1 parent_idx_def by presburger+
  then have u: "unat (of_nat ?p :: size_t) = ?p" using unat_less_64 [of n] by (simp add: unat_of_nat)
  let ?h = "build_heap cmp xs (of_nat ?p) n"
  have "(of_nat ?p :: size_t) < n" using p(1) u by (simp add: word_less_nat_alt)
  moreover have "heap (Suc (unat (of_nat ?p :: size_t))) ?n xs" using p(2) unfolding heap_def u by auto
  ultimately have h: "heap 0 ?n ?h" "mset (take ?n ?h) = mset (take ?n xs)" "drop ?n ?h = drop ?n xs"
      "length ?h = length xs"
    using build_heap_spec [of "of_nat ?p" n xs] assms(2) by auto
  have "Suc (?n - 1) = ?n" using assms(1) by simp
  with pop_heap_spec [of "?n - 1" ?h ?n] h assms(2)
  show "sorted_wrt le (take ?n (heap_sort cmp xs n))" "mset (take ?n (heap_sort cmp xs n)) = mset (take ?n xs)"
    "drop ?n (heap_sort cmp xs n) = drop ?n xs" "length (heap_sort cmp xs n) = length xs"
    by (simp_all add: heap_sort_def n1)
qed

section \<open>Searching\<close>

lemma above: "0 < cmp p m \<Longrightarrow> le j m \<Longrightarrow> 0 < cmp p j"
  using le_trans [of p j m] by (auto simp: le_def not_less [symmetric])

lemma below: "cmp p m < 0 \<Longrightarrow> le m j \<Longrightarrow> cmp p j < 0"
  using le_trans [of m j p] cmp_sym [of p m] not_less_le [of p j] by (auto simp: le_def)

lemma binary_search_linear:
  "sorted_wrt le (take n xs) \<Longrightarrow> n \<le> length xs \<Longrightarrow> hi \<le> n \<Longrightarrow>
   binary_search (cmp p) xs lo hi = find (\<lambda>k. cmp p (xs ! k) = 0) [lo..<hi]"
proof (induction "hi - lo" arbitrary: lo hi rule: less_induct)
  case less
  let ?P = "\<lambda>k. cmp p (xs ! k) = 0"
  show ?case
  proof (cases "lo < hi")
    case False
    then show ?thesis by (subst binary_search.simps) simp
  next
    case lt: True
    define mid where "mid = lo + (hi - lo - 1) div 2"
    have m: "lo \<le> mid" "mid < hi" "hi - lo \<noteq> 1 \<Longrightarrow> mid + 1 < hi" using lt unfolding mid_def by linarith+
    have ord: "le (xs ! a) (xs ! b)" if "a \<le> b" "b < hi" for a b
      using sorted_wrt_nth_less [OF less.prems(1), of a b] that less.prems(2,3) by (cases "a = b") auto
    have split: "[lo..<hi] = [lo..<k] @ [k..<hi]" if "lo \<le> k" "k \<le> hi" for k
      using that upt_add_eq_append [of lo k "hi - k"] by simp
    have step: "binary_search (cmp p) xs lo hi =
        (if cmp p (xs ! mid) > 0 then binary_search (cmp p) xs (mid + 1) hi
         else if cmp p (xs ! mid) < 0 then binary_search (cmp p) xs lo mid
         else if hi - lo = 1 then Some mid else binary_search (cmp p) xs lo (mid + 1))"
      using lt by (subst binary_search.simps) (simp add: Let_def mid_def)
    consider "cmp p (xs ! mid) > 0" | "cmp p (xs ! mid) < 0" | "cmp p (xs ! mid) = 0" "hi - lo = 1"
      | "cmp p (xs ! mid) = 0" "hi - lo \<noteq> 1" by linarith
    then show ?thesis
    proof cases
      case 1
      have "find ?P [lo..<mid + 1] = None"
      proof (rule find_none)
        fix k
        assume "k \<in> set [lo..<mid + 1]"
        then have "k \<le> mid" by auto
        then have "le (xs ! k) (xs ! mid)" using ord m(2) by simp
        from above [OF 1 this] show "cmp p (xs ! k) \<noteq> 0" by simp
      qed
      then have "find ?P [lo..<hi] = find ?P [mid + 1..<hi]"
        using split [of "mid + 1"] m by (simp add: find_append del: upt_Suc)
      with 1 step less.hyps [of hi "mid + 1"] m less.prems show ?thesis by simp
    next
      case 2
      have "find ?P [mid..<hi] = None"
      proof (rule find_none)
        fix k
        assume "k \<in> set [mid..<hi]"
        then have "le (xs ! mid) (xs ! k)" using ord by simp
        from below [OF 2 this] show "cmp p (xs ! k) \<noteq> 0" by simp
      qed
      then have "find ?P [lo..<hi] = find ?P [lo..<mid]"
        using split [of mid] m by (simp add: find_append split: option.split)
      with 2 step less.hyps [of mid lo] m less.prems show ?thesis by simp
    next
      case 3
      then have "mid = lo" "[lo..<hi] = [lo]" using lt by (simp_all add: mid_def upt_rec)
      with 3 step show ?thesis by simp
    next
      case 4
      have "mid \<in> set [lo..<mid + 1]" using m(1) by simp
      then have "find ?P [lo..<mid + 1] \<noteq> None" using 4(1) unfolding find_None_iff by blast
      then have "find ?P [lo..<hi] = find ?P [lo..<mid + 1]"
        using split [of "mid + 1"] m by (auto simp: find_append simp del: upt_Suc)
      with 4 step less.hyps [of "mid + 1" lo] m less.prems show ?thesis by simp
    qed
  qed
qed

end

end
