(* ===== verification/Cbb_Steps.thy ===== *)
theory Cbb_Steps
  imports Cbb_Writers Heap_Sort "HOL-Library.List_Lexorder" "HOL-Library.Multiset"
begin

unbundle bit_operations_syntax

text \<open>
  SET OF reordering, and the builder as a state machine: every sequence of calls keeps the
  memory invariant, and the error state is permanent.
\<close>

section \<open>SET OF\<close>

lemma compare_Cons:
  "compare_set_of_element (x # a) (y # b) =
     (if x \<noteq> y then uint x - uint y else compare_set_of_element a b)"
  by (auto simp: compare_set_of_element_def CBS_len_def Let_def word_uint_eq_iff)

lemma compare_le: "compare_set_of_element a b \<le> 0 \<longleftrightarrow> a \<le> b"
proof (induction a arbitrary: b)
  case Nil
  then show ?case by (auto simp: compare_set_of_element_def CBS_len_def Let_def)
next
  case (Cons x a)
  show ?case
  proof (cases b)
    case Nil
    then show ?thesis by (simp add: compare_set_of_element_def CBS_len_def Let_def)
  next
    case b: (Cons y b')
    show ?thesis unfolding b compare_Cons using Cons.IH [of b']
      by (auto simp: word_less_def word_le_def word_uint_eq_iff)
  qed
qed

lemma compare_less: "compare_set_of_element a b < 0 \<longleftrightarrow> a < b"
proof (induction a arbitrary: b)
  case Nil
  then show ?case by (cases b) (auto simp: compare_set_of_element_def CBS_len_def Let_def)
next
  case (Cons x a)
  show ?case
  proof (cases b)
    case Nil
    then show ?thesis by (simp add: compare_set_of_element_def CBS_len_def Let_def)
  next
    case b: (Cons y b')
    show ?thesis unfolding b compare_Cons using Cons.IH [of b']
      by (auto simp: word_less_def word_uint_eq_iff)
  qed
qed

interpretation set_of: comparison compare_set_of_element
proof unfold_locales
  show "compare_set_of_element a b < 0 \<longleftrightarrow> 0 < compare_set_of_element b a" for a b
    using compare_le [of b a] compare_less [of a b] by (auto simp: not_le [symmetric])
  show "compare_set_of_element a b \<le> 0 \<Longrightarrow> compare_set_of_element b c \<le> 0 \<Longrightarrow>
      compare_set_of_element a c \<le> 0" for a b c
    by (simp add: compare_le)
qed

lemma insert_child_insort: "insert_child x ys = insort x ys"
  by (induction ys) (simp_all add: compare_le)

lemma sort_children_sort: "sort_children cs = sort cs"
proof -
  have "insert_child = insort" by (intro ext) (rule insert_child_insort)
  then show ?thesis by (simp add: sort_children_def sort_key_def)
qed

text \<open>The elements of a SET OF.\<close>

definition is_element :: "byte list \<Rightarrow> bool" where
  "is_element x \<longleftrightarrow> (\<exists>tag contents. valid_tag tag \<and> length contents < 2 ^ 32 \<and> x = asn1_element_bytes tag contents)"

lemma element_nonempty: "is_element x \<Longrightarrow> x \<noteq> []"
  by (auto simp: is_element_def asn1_element_bytes_def asn1_header_def asn1_len_bytes_def)

lemma set_of_children_iff:
  "set_of_children cbs = Some es \<longleftrightarrow> cbs = concat es \<and> (\<forall>x \<in> set es. is_element x)"
proof (induction cbs arbitrary: es rule: set_of_children.induct)
  case (1 cbs)
  show ?case
  proof (cases "cbs = []")
    case True
    then show ?thesis
      using element_nonempty by (cases es) (auto simp: set_of_children.simps [of "[]"] CBS_len_def)
  next
    case False
    then have l: "CBS_len cbs \<noteq> 0" by (simp add: CBS_len_def)
    show ?thesis
    proof
      assume s: "set_of_children cbs = Some es"
      then obtain e c es' where e: "CBS_get_any_asn1_element cbs = (Some e, c)"
          and es: "set_of_children c = Some es'" "es = element e # es'"
        using l by (subst (asm) set_of_children.simps) (auto split: prod.splits option.splits)
      from "1.IH" [OF l e [symmetric] refl] es(1)
      have "c = concat es'" "\<forall>x \<in> set es'. is_element x" by auto
      moreover have "cbs = element e @ c" "is_element (element e)"
        using e unfolding get_any_asn1_element_iff is_element_def by fastforce+
      ultimately show "cbs = concat es \<and> (\<forall>x \<in> set es. is_element x)" using es(2) by simp
    next
      assume a: "cbs = concat es \<and> (\<forall>x \<in> set es. is_element x)"
      with False obtain x es' where x: "es = x # es'" by (cases es) auto
      from a x have "is_element x" by simp
      then obtain tag contents where t: "valid_tag tag" "length contents < 2 ^ 32"
          "x = asn1_element_bytes tag contents" by (auto simp: is_element_def)
      note e = get_any_asn1_element_complete [OF t(1,2), of "concat es'"]
      have e': "CBS_get_any_asn1_element cbs = (Some \<lparr>element = x, out_tag = tag,
         out_header_len = length (asn1_header tag (length contents)),
         out_ber_found = False, out_indefinite = False\<rparr>, concat es')"
        using a x t(3) e by simp
      from "1.IH" [OF l e' [symmetric] refl, of es'] a x
      have "set_of_children (concat es') = Some es'" by simp
      with e' l x show "set_of_children cbs = Some es" by (subst set_of_children.simps) simp
    qed
  qed
qed

lemma sort_children_elements:
  assumes "set_of_children cbs = Some es"
  shows "set_of_children (concat (sort es)) = Some (sort es)" and "length (concat (sort es)) = length cbs"
proof -
  show "set_of_children (concat (sort es)) = Some (sort es)"
    using assms by (simp add: set_of_children_iff)
  have "mset (concat (sort es)) = mset (concat es)"
    by (simp add: mset_concat  mset_map [symmetric] del: mset_map)
      (simp add: sum_mset_sum_list [symmetric])
  then have "size (mset (concat (sort es))) = size (mset (concat es))" by simp
  then show "length (concat (sort es)) = length cbs" using assms by (simp add: set_of_children_iff)
qed


lemma data_suffix:
  "take (length (buf st) - length (CBB_data d st)) (buf st) @ CBB_data d st = buf st"
proof -
  have "take (length b - length (drop m b)) b @ drop m b = b" for m and b :: "byte list"
    by (cases "m \<le> length b") simp_all
  then show ?thesis unfolding CBB_data_def Let_def by simp
qed

text \<open>
  C22 (functional). SET OF: once the pending children are flushed, \<^verbatim>\<open>CBB_flush_asn1_set_of\<close>
  succeeds exactly when the contents are a sequence of DER elements and, if there are two or
  more, both scratch allocations succeed. It then replaces the contents by the same elements in
  ascending order under \<^verbatim>\<open>compare_set_of_element\<close> and changes nothing else; when it fails, it
  changes nothing. There is only one such order, so the result depends neither on the order of
  the writes nor on the sorting algorithm behind \<^verbatim>\<open>qsort\<close>.
\<close>

theorem set_of_sorted:
  assumes "CBB_flush al d st = (True, st1)" and "CBB_flush_asn1_set_of al copy_al array_al d st = (ok, st')"
  shows "(ok \<longleftrightarrow> (\<exists>es. CBB_data d st1 = concat es \<and> (\<forall>x \<in> set es. is_element x) \<and>
      (length es < 2 \<or> OPENSSL_memdup copy_al (CBB_data d st1) \<noteq> None \<and>
        OPENSSL_calloc array_al (of_nat (length es)) 16 \<noteq> None))) \<and>
    (if ok
     then \<exists>es es'. CBB_data d st1 = concat es \<and> (\<forall>x \<in> set es. is_element x) \<and> mset es' = mset es \<and>
       sorted_wrt (\<lambda>x y. compare_set_of_element x y \<le> 0) es' \<and>
       st' = st1\<lparr>buf := take (length (buf st1) - length (CBB_data d st1)) (buf st1) @ concat es'\<rparr> \<and>
       (\<forall>ys. mset ys = mset es \<and> sorted_wrt (\<lambda>x y. compare_set_of_element x y \<le> 0) ys \<longrightarrow> ys = es')
     else st' = st1)"
proof (cases "set_of_children (CBB_data d st1)")
  case None
  then have "\<not> (CBB_data d st1 = concat es \<and> (\<forall>x \<in> set es. is_element x))" for es
    unfolding set_of_children_iff [symmetric] by simp
  moreover have "ok = False" "st' = st1" using None assms by (simp_all add: CBB_flush_asn1_set_of_def)
  ultimately show ?thesis by auto
next
  case c: (Some es)
  have es: "CBB_data d st1 = concat es" "\<forall>x \<in> set es. is_element x"
    using c by (simp_all add: set_of_children_iff)
  have only: "CBB_data d st1 = concat ys \<and> (\<forall>x \<in> set ys. is_element x) \<longleftrightarrow> ys = es" for ys
    unfolding set_of_children_iff [symmetric] using c by auto
  let ?st = "st1\<lparr>buf := take (length (buf st1) - length (CBB_data d st1)) (buf st1) @ concat (sort es)\<rparr>"
  let ?served = "OPENSSL_memdup copy_al (CBB_data d st1) \<noteq> None \<and> OPENSSL_calloc array_al (of_nat (length es)) 16 \<noteq> None"
  have run: "(ok, st') = (if length es < 2 then (True, st1) else if ?served then (True, ?st) else (False, st1))"
    unfolding assms(2) [symmetric] CBB_flush_asn1_set_of_def assms(1) by (simp add: c sort_children_sort)
  have short: "?st = st1" if "length es < 2"
  proof -
    have "sort es = es"
    proof (cases es)
      case (Cons x xs)
      with that show ?thesis by simp
    qed simp
    then have "take (length (buf st1) - length (CBB_data d st1)) (buf st1) @ concat (sort es) = buf st1"
      using data_suffix [of st1 d] es(1) by simp
    then show ?thesis by simp
  qed
  then have r: "ok \<longleftrightarrow> length es < 2 \<or> ?served" "st' = (if ok then ?st else st1)"
    using run by (auto split: if_splits)
  have served: "(\<exists>ys. CBB_data d st1 = concat ys \<and> (\<forall>x \<in> set ys. is_element x) \<and>
      (length ys < 2 \<or> OPENSSL_memdup copy_al (CBB_data d st1) \<noteq> None \<and>
        OPENSSL_calloc array_al (of_nat (length ys)) 16 \<noteq> None)) \<longleftrightarrow> length es < 2 \<or> ?served"
    unfolding conj_assoc [symmetric] only by blast
  have u: "\<forall>ys. mset ys = mset es \<and> sorted_wrt (\<lambda>x y. compare_set_of_element x y \<le> 0) ys \<longrightarrow> ys = sort es"
    unfolding compare_le using properties_for_sort by metis
  have o: "sorted_wrt (\<lambda>x y. compare_set_of_element x y \<le> 0) (sort es)"
    unfolding compare_le by simp
  have st: "ok \<Longrightarrow> st' = ?st" using r(2) by simp
  have "\<exists>es es'. CBB_data d st1 = concat es \<and> (\<forall>x \<in> set es. is_element x) \<and> mset es' = mset es \<and>
       sorted_wrt (\<lambda>x y. compare_set_of_element x y \<le> 0) es' \<and>
       st' = st1\<lparr>buf := take (length (buf st1) - length (CBB_data d st1)) (buf st1) @ concat es'\<rparr> \<and>
       (\<forall>ys. mset ys = mset es \<and> sorted_wrt (\<lambda>x y. compare_set_of_element x y \<le> 0) ys \<longrightarrow> ys = es')" if ok
    by (rule exI [of _ es], rule exI [of _ "sort es"]) (intro conjI es mset_sort o u st [OF that])
  moreover have "st' = st1" if "\<not> ok" using r(2) that by simp
  moreover have "ok \<longleftrightarrow> (\<exists>es. CBB_data d st1 = concat es \<and> (\<forall>x \<in> set es. is_element x) \<and>
      (length es < 2 \<or> OPENSSL_memdup copy_al (CBB_data d st1) \<noteq> None \<and>
        OPENSSL_calloc array_al (of_nat (length es)) 16 \<noteq> None))" by (simp only: r(1) served)
  ultimately show ?thesis by (cases ok) (simp_all only: if_True if_False simp_thms)
qed

theorem set_of_sorted_witness:
  "let st = \<lparr>buf = [2, 1, 7, 2, 1, 5], cap = 16, can_resize = False, error = False, children = []\<rparr>
   in CBB_flush_asn1_set_of (\<lambda>_. True) (\<lambda>_. True) (\<lambda>_. True) 0 st = (True, st\<lparr>buf := [2, 1, 5, 2, 1, 7]\<rparr>) \<and>
     (\<exists>es. concat es = [2, 1, 5, 2, 1, 7] \<and> sorted_wrt (\<lambda>x y. compare_set_of_element x y \<le> 0) es)"
proof -
  let ?st = "\<lparr>buf = [2, 1, 7, 2, 1, 5], cap = 16, can_resize = False, error = False, children = []\<rparr>"
  have f: "CBB_flush (\<lambda>_. True) 0 ?st = (True, ?st)" by code_simp
  have r: "CBB_flush_asn1_set_of (\<lambda>_. True) (\<lambda>_. True) (\<lambda>_. True) 0 ?st = (True, ?st\<lparr>buf := [2, 1, 5, 2, 1, 7]\<rparr>)"
    by code_simp
  have d: "CBB_data 0 ?st = buf ?st" by (simp add: CBB_data_def)
  from set_of_sorted [OF f r] obtain es where e: "?st\<lparr>buf := [2, 1, 5, 2, 1, 7]\<rparr> = ?st\<lparr>buf := concat es\<rparr>"
      and s: "sorted_wrt (\<lambda>x y. compare_set_of_element x y \<le> 0) es"
    unfolding d by auto
  from e have "concat es = [2, 1, 5, 2, 1, 7]" by simp
  with r s show ?thesis unfolding Let_def by blast
qed

section \<open>Sequences of operations\<close>

text \<open>
  A property of the state that the primitive steps of the builder keep. All writers are
  composed of these steps, so they keep it as well; the lemmas below are proved once and
  used for the memory invariant and for the permanence of errors.
\<close>

locale cbb_invariant =
  fixes inv :: "CBB \<Rightarrow> bool"
  assumes flush_inv: "inv st \<Longrightarrow> inv (snd (CBB_flush al d st))"
    and reserve_inv: "inv st \<Longrightarrow> inv (snd (cbb_buffer_reserve al len st))"
    and add_inv: "inv st \<Longrightarrow> length data < 2 ^ 64 \<Longrightarrow> inv (snd (cbb_buffer_add al data st))"
    and child_inv: "inv st \<Longrightarrow> \<not> is_asn1 \<or> len_len = 1 \<Longrightarrow> inv (snd (cbb_add_child al d len_len is_asn1 st))"
    and error_inv: "inv st \<Longrightarrow> inv (cbb_on_error d st)"
    and did_write_inv: "inv st \<Longrightarrow> length data < 2 ^ 64 \<Longrightarrow> inv (snd (CBB_did_write d data st))"
    and discard_inv: "inv st \<Longrightarrow> inv (CBB_discard_child d st)"
    and same_length_inv: "inv st \<Longrightarrow> length b = length (buf st) \<Longrightarrow> inv (st\<lparr>buf := b\<rparr>)"
begin

definition maintains :: "(CBB \<Rightarrow> bool \<times> CBB) \<Rightarrow> bool" where
  "maintains e \<longleftrightarrow> (\<forall>st. inv st \<longrightarrow> inv (snd (e st)))"

lemma maintainsD: "maintains e \<Longrightarrow> inv st \<Longrightarrow> inv (snd (e st))"
  by (simp add: maintains_def)

lemma maintains_ok: "maintains (\<lambda>st. (True, st))"
  by (simp add: maintains_def)

lemma maintains_seq:
  assumes "maintains e1" and "maintains e2"
    and "\<And>st. e st = (case e1 st of (False, st1) \<Rightarrow> (False, st1) | (True, st1) \<Rightarrow> e2 st1)"
  shows "maintains e"
  unfolding maintains_def
proof (intro allI impI)
  fix st
  assume "inv st"
  then show "inv (snd (e st))"
    using maintainsD [OF assms(1)] maintainsD [OF assms(2)]
    by (cases "e1 st") (fastforce simp: assms(3) split: bool.splits)
qed

lemma maintains_and_then: "maintains e1 \<Longrightarrow> maintains e2 \<Longrightarrow> maintains (and_then e1 e2)"
  by (erule maintains_seq) (auto simp: and_then_def)

lemma maintains_or_error:
  assumes "maintains e1" and "maintains e2"
    and "\<And>st. e st = (case e1 st of (False, st1) \<Rightarrow> (False, cbb_on_error d st1) | (True, st1) \<Rightarrow> e2 st1)"
  shows "maintains e"
  unfolding maintains_def
proof (intro allI impI)
  fix st
  assume "inv st"
  then show "inv (snd (e st))"
    using maintainsD [OF assms(1)] maintainsD [OF assms(2)] error_inv
    by (cases "e1 st") (fastforce simp: assms(3) split: bool.splits)
qed

lemma maintains_flush: "maintains (CBB_flush al d)"
  by (simp add: maintains_def flush_inv)

lemma maintains_reserve: "maintains (CBB_reserve al d len)"
  using maintains_flush by (rule maintains_seq) (auto simp: maintains_def reserve_inv CBB_reserve_def)

lemma maintains_space: "length data < 2 ^ 64 \<Longrightarrow> maintains (CBB_add_space al d data)"
  by (rule maintains_seq [OF maintains_flush]) (auto simp: maintains_def add_inv CBB_add_space_def)

lemma maintains_bytes: "length data < 2 ^ 64 \<Longrightarrow> maintains (CBB_add_bytes al d data)"
  using maintains_space by (simp add: CBB_add_bytes_def [abs_def])

lemma maintains_zeros: "len < 2 ^ 64 \<Longrightarrow> maintains (CBB_add_zeros al d len)"
  using maintains_space [of "replicate len 0"] by (simp add: CBB_add_zeros_def [abs_def])

lemma maintains_add_u: "k \<le> 8 \<Longrightarrow> maintains (cbb_add_u al d v k)"
  unfolding maintains_def
proof (intro allI impI)
  fix st
  assume "k \<le> 8" and "inv st"
  then have "inv (snd (CBB_add_space al d (be_bytes k v) st))"
    by (intro maintainsD [OF maintains_space]) auto
  then show "inv (snd (cbb_add_u al d v k st))"
    by (auto simp: cbb_add_u_def be_store_eq error_inv split: prod.splits bool.splits)
qed

lemma maintains_u:
  "maintains (CBB_add_u8 al d v8)" "maintains (CBB_add_u16 al d v16)" "maintains (CBB_add_u16le al d v16)"
  "maintains (CBB_add_u24 al d v32)" "maintains (CBB_add_u32 al d v32)" "maintains (CBB_add_u32le al d v32)"
  "maintains (CBB_add_u64 al d v64)" "maintains (CBB_add_u64le al d v64)"
  by (simp_all add: maintains_add_u CBB_add_u8_def CBB_add_u16_def CBB_add_u16le_def CBB_add_u24_def
      CBB_add_u32_def CBB_add_u32le_def CBB_add_u64_def CBB_add_u64le_def)

lemma maintains_child: "\<not> is_asn1 \<or> len_len = 1 \<Longrightarrow> maintains (cbb_add_child al d len_len is_asn1)"
  by (simp add: maintains_def child_inv)

lemma maintains_length_prefixed: "maintains (cbb_add_length_prefixed al d len_len)"
  by (rule maintains_seq [OF maintains_flush maintains_child]) (auto simp: cbb_add_length_prefixed_def)

lemma maintains_length_prefixes:
  "maintains (CBB_add_u8_length_prefixed al d)" "maintains (CBB_add_u16_length_prefixed al d)"
  "maintains (CBB_add_u24_length_prefixed al d)"
  by (simp_all add: maintains_length_prefixed CBB_add_u8_length_prefixed_def
      CBB_add_u16_length_prefixed_def CBB_add_u24_length_prefixed_def)

lemma maintains_base128_loop: "maintains (base128_add_loop al d v n)"
proof (induction n)
  case 0
  have "base128_add_loop al d v 0 = (\<lambda>st. (True, st))" by (rule ext) simp
  then show ?case by (simp add: maintains_ok)
next
  case (Suc i)
  show ?case by (rule maintains_seq [OF maintains_u(1) Suc]) (simp only: base128_add_loop.simps Let_def)
qed

lemma maintains_base128: "maintains (add_base128_integer al d v)"
  using maintains_base128_loop by (simp add: add_base128_integer_def [abs_def] Let_def)

lemma maintains_add_asn1: "maintains (CBB_add_asn1 al d tag)"
proof (rule maintains_seq [OF maintains_flush maintains_and_then [OF _ maintains_child]])
  let ?tag = "ucast (drop_bit 24 tag AND 0xe0) :: byte" and ?n = "tag AND CBS_ASN1_TAG_NUMBER_MASK"
  let ?e = "if ?n \<ge> 0x1f then and_then (CBB_add_u8 al d (?tag OR 0x1f)) (add_base128_integer al d (ucast ?n))
      else CBB_add_u8 al d (?tag OR ucast ?n)"
  show "maintains ?e" by (simp add: maintains_and_then maintains_u maintains_base128)
  show "\<not> True \<or> (1 :: byte) = 1" by simp
  show "CBB_add_asn1 al d tag st = (case CBB_flush al d st of (False, st1) \<Rightarrow> (False, st1)
      | (True, st1) \<Rightarrow> and_then ?e (cbb_add_child al d 1 True) st1)" for st
    by (auto simp: CBB_add_asn1_def and_then_def Let_def split: prod.splits bool.splits)
qed

lemma maintains_uint64_contents: "maintains (uint64_contents al d v is started)"
proof (induction "is" arbitrary: started)
  case Nil
  show ?case
    using maintainsD [OF maintains_u(1)] by (simp add: maintains_def)
next
  case (Cons i "is")
  show ?case
    unfolding maintains_def
  proof (intro allI impI)
    fix st
    assume inv: "inv st"
    let ?b = "ucast (drop_bit (8 * (7 - i)) v AND 0xff) :: byte"
    have u: "inv (snd (CBB_add_u8 al d b s))" if "inv s" for b s
      using maintainsD [OF maintains_u(1) that] .
    have step: "inv (snd (case CBB_add_u8 al d ?b s of (False, s2) \<Rightarrow> (False, s2)
        | (True, s2) \<Rightarrow> uint64_contents al d v is True s2))" if "inv s" for s
      using u [OF that, of ?b] maintainsD [OF Cons] by (auto split: prod.splits bool.splits)
    obtain k s where z: "CBB_add_u8 al d 0 st = (k, s)" by fastforce
    then have "inv s" using u [OF inv, of 0] by simp
    with inv step [of st] step [of s] maintainsD [OF Cons [of False]] z
    show "inv (snd (uint64_contents al d v (i # is) started st))" by (simp add: Let_def)
  qed
qed

lemma maintains_each: "maintains (add_each al d bs)"
proof (induction bs)
  case Nil
  have "add_each al d [] = (\<lambda>st. (True, st))" by (rule ext) simp
  then show ?case by (simp add: maintains_ok)
next
  case (Cons b bs)
  show ?case by (rule maintains_seq [OF maintains_u(1) Cons]) simp
qed

lemma maintains_asn1_uint64: "maintains (CBB_add_asn1_uint64_with_tag al d v tag)"
  by (rule maintains_or_error [OF maintains_and_then [OF maintains_add_asn1 maintains_uint64_contents] maintains_flush])
    (simp add: CBB_add_asn1_uint64_with_tag_def)

lemma maintains_asn1_int64: "maintains (CBB_add_asn1_int64_with_tag al d v tag)"
proof (cases "sint v \<ge> 0")
  case True
  then have "CBB_add_asn1_int64_with_tag al d v tag = CBB_add_asn1_uint64_with_tag al d v tag"
    by (intro ext) (simp add: CBB_add_asn1_int64_with_tag_def)
  then show ?thesis by (simp add: maintains_asn1_uint64)
next
  case False
  then show ?thesis
    by (intro maintains_or_error [OF maintains_and_then [OF maintains_add_asn1 maintains_each] maintains_flush])
      (simp add: CBB_add_asn1_int64_with_tag_def Let_def)
qed

lemma maintains_octet_string: "length data < 2 ^ 64 \<Longrightarrow> maintains (CBB_add_asn1_octet_string al d data)"
  by (rule maintains_or_error [OF maintains_and_then [OF maintains_add_asn1
        maintains_and_then [OF maintains_bytes maintains_flush]] maintains_ok])
    (simp_all add: CBB_add_asn1_octet_string_def)

lemma maintains_bool: "maintains (CBB_add_asn1_bool al d b)"
  by (rule maintains_or_error [OF maintains_and_then [OF maintains_add_asn1
        maintains_and_then [OF maintains_u(1) maintains_flush]] maintains_ok])
    (simp add: CBB_add_asn1_bool_def)

lemma maintains_oid_components: "inv st \<Longrightarrow> inv (snd (oid_components al d cbs st))"
proof (induction al d cbs st rule: oid_components.induct)
  case (1 al d cbs st)
  show ?case
  proof (cases "CBS_len cbs > 0")
    case True
    show ?thesis
    proof (cases "parse_dotted_decimal cbs")
      case (Pair r c)
      show ?thesis
      proof (cases r)
        case None
        with Pair "1.prems" True show ?thesis by (simp add: oid_components.simps [of _ _ cbs])
      next
        case (Some a)
        obtain k s where add: "add_base128_integer al d a st = (k, s)" by fastforce
        then have "inv s" using maintainsD [OF maintains_base128 "1.prems", of al d a] by simp
        with "1.IH" [OF True Pair [symmetric] Some add [symmetric]] Pair Some True add show ?thesis
          by (cases k) (simp_all add: oid_components.simps [of _ _ cbs])
      qed
    qed
  next
    case False
    with "1.prems" show ?thesis by (simp add: oid_components.simps [of _ _ cbs])
  qed
qed

lemma maintains_oid: "maintains (CBB_add_asn1_oid_from_text al d txt)"
  unfolding maintains_def
proof (intro allI impI)
  fix st
  assume "inv st"
  then have f: "inv (snd (CBB_flush al d st))" by (rule flush_inv)
  have "inv (snd (case add_base128_integer al d v s of (False, st2) \<Rightarrow> (False, st2)
      | (True, st2) \<Rightarrow> oid_components al d c st2))" if "inv s" for v s c
    using maintainsD [OF maintains_base128 that, of al d v]
    by (cases "add_base128_integer al d v s") (auto simp: maintains_oid_components split: bool.splits)
  note run = this
  obtain k s1 where f1: "CBB_flush al d st = (k, s1)" by fastforce
  obtain a c b c1 where p: "parse_dotted_decimal txt = (a, c)" "parse_dotted_decimal c = (b, c1)" by fastforce
  have "inv s1" using f f1 by simp
  with run [of s1] f1 p show "inv (snd (CBB_add_asn1_oid_from_text al d txt st))"
    unfolding CBB_add_asn1_oid_from_text_def by (cases k; cases a; cases b) simp_all
qed

lemma maintains_set_of: "maintains (CBB_flush_asn1_set_of al copy_al array_al d)"
  unfolding maintains_def
proof (intro allI impI)
  fix st
  assume "inv st"
  then have f: "inv (snd (CBB_flush al d st))" by (rule flush_inv)
  have "inv (s\<lparr>buf := take (length (buf s) - length (CBB_data d s)) (buf s) @ concat (sort_children es)\<rparr>)"
    if "inv s" "set_of_children (CBB_data d s) = Some es" for s es
  proof (rule same_length_inv [OF that(1)])
    have "length (take (length (buf s) - length (CBB_data d s)) (buf s) @ CBB_data d s) = length (buf s)"
      unfolding data_suffix ..
    with sort_children_elements(2) [OF that(2)]
    show "length (take (length (buf s) - length (CBB_data d s)) (buf s) @ concat (sort_children es)) =
        length (buf s)"
      by (simp add: sort_children_sort)
  qed
  with f show "inv (snd (CBB_flush_asn1_set_of al copy_al array_al d st))"
    by (cases "CBB_flush al d st") (auto simp: CBB_flush_asn1_set_of_def split: bool.splits option.splits)
qed

end

interpretation memory: cbb_invariant cbb_ok
proof unfold_locales
  fix st and b :: "byte list"
  assume "cbb_ok st" and "length b = length (buf st)"
  then show "cbb_ok (st\<lparr>buf := b\<rparr>)" by (simp add: cbb_ok_def cbb_bounded_def)
qed (use keeps_flush keeps_reserve keeps_add keeps_add_child keeps_did_write in
    \<open>auto simp: keeps_def on_error_ok discard_ok\<close>)

lemma error_flush: "error st \<Longrightarrow> CBB_flush al d st = (False, st)"
  by (simp add: CBB_flush.simps)

interpretation failed: cbb_invariant CBB.error
proof unfold_locales
  fix st :: CBB and al len d is_asn1 len_len and data :: "byte list"
  assume e: "CBB.error st"
  show "CBB.error (snd (cbb_buffer_reserve al len st))"
    using e by (auto simp: cbb_buffer_reserve_def Let_def)
  show a: "CBB.error (snd (cbb_buffer_add al data st))" for data
    using e buffer_add_frame(4) [of al data st] by (metis prod.collapse)
  show "CBB.error (snd (cbb_add_child al d len_len is_asn1 st))"
    using a [of "replicate (unat len_len) 0"] by (auto simp: cbb_add_child_def split: prod.splits bool.splits)
  show "CBB.error (snd (CBB_did_write d data st))" using e by (auto simp: CBB_did_write_def Let_def)
qed (auto simp: error_flush cbb_on_error_def CBB_discard_child_def)

text \<open>
  The calls that a client can make on a live \<^verbatim>\<open>CBB\<close> (the top-level object or a pending
  descendant), whatever they return.
\<close>

inductive cbb_step :: "(size_t \<Rightarrow> bool) \<Rightarrow> CBB \<Rightarrow> CBB \<Rightarrow> bool" for al where
  flush: "cbb_get_base d st \<Longrightarrow> cbb_step al st (snd (CBB_flush al d st))"
| add_space: "cbb_get_base d st \<Longrightarrow> length data < 2 ^ 64 \<Longrightarrow> cbb_step al st (snd (CBB_add_space al d data st))"
| add_bytes: "cbb_get_base d st \<Longrightarrow> length data < 2 ^ 64 \<Longrightarrow> cbb_step al st (snd (CBB_add_bytes al d data st))"
| add_zeros: "cbb_get_base d st \<Longrightarrow> len < 2 ^ 64 \<Longrightarrow> cbb_step al st (snd (CBB_add_zeros al d len st))"
| reserve: "cbb_get_base d st \<Longrightarrow> cbb_step al st (snd (CBB_reserve al d sz st))"
| did_write: "cbb_get_base d st \<Longrightarrow> length data < 2 ^ 64 \<Longrightarrow> cbb_step al st (snd (CBB_did_write d data st))"
| add_u8: "cbb_get_base d st \<Longrightarrow> cbb_step al st (snd (CBB_add_u8 al d v8 st))"
| add_u16: "cbb_get_base d st \<Longrightarrow> cbb_step al st (snd (CBB_add_u16 al d v16 st))"
| add_u16le: "cbb_get_base d st \<Longrightarrow> cbb_step al st (snd (CBB_add_u16le al d v16 st))"
| add_u24: "cbb_get_base d st \<Longrightarrow> cbb_step al st (snd (CBB_add_u24 al d v32 st))"
| add_u32: "cbb_get_base d st \<Longrightarrow> cbb_step al st (snd (CBB_add_u32 al d v32 st))"
| add_u32le: "cbb_get_base d st \<Longrightarrow> cbb_step al st (snd (CBB_add_u32le al d v32 st))"
| add_u64: "cbb_get_base d st \<Longrightarrow> cbb_step al st (snd (CBB_add_u64 al d v64 st))"
| add_u64le: "cbb_get_base d st \<Longrightarrow> cbb_step al st (snd (CBB_add_u64le al d v64 st))"
| u8_prefixed: "cbb_get_base d st \<Longrightarrow> cbb_step al st (snd (CBB_add_u8_length_prefixed al d st))"
| u16_prefixed: "cbb_get_base d st \<Longrightarrow> cbb_step al st (snd (CBB_add_u16_length_prefixed al d st))"
| u24_prefixed: "cbb_get_base d st \<Longrightarrow> cbb_step al st (snd (CBB_add_u24_length_prefixed al d st))"
| add_asn1: "cbb_get_base d st \<Longrightarrow> cbb_step al st (snd (CBB_add_asn1 al d tag st))"
| add_uint64: "cbb_get_base d st \<Longrightarrow> cbb_step al st (snd (CBB_add_asn1_uint64_with_tag al d v64 tag st))"
| add_int64: "cbb_get_base d st \<Longrightarrow> cbb_step al st (snd (CBB_add_asn1_int64_with_tag al d v64 tag st))"
| octet_string: "cbb_get_base d st \<Longrightarrow> length data < 2 ^ 64 \<Longrightarrow>
    cbb_step al st (snd (CBB_add_asn1_octet_string al d data st))"
| add_bool: "cbb_get_base d st \<Longrightarrow> cbb_step al st (snd (CBB_add_asn1_bool al d b st))"
| oid_text: "cbb_get_base d st \<Longrightarrow> cbb_step al st (snd (CBB_add_asn1_oid_from_text al d txt st))"
| set_of: "cbb_get_base d st \<Longrightarrow> cbb_step al st (snd (CBB_flush_asn1_set_of al copy_al array_al d st))"
| discard: "cbb_get_base d st \<Longrightarrow> cbb_step al st (CBB_discard_child d st)"

context cbb_invariant
begin

lemmas maintains_ops = maintains_flush maintains_space maintains_bytes maintains_zeros maintains_reserve
  maintains_u maintains_length_prefixes maintains_add_asn1 maintains_asn1_uint64 maintains_asn1_int64
  maintains_octet_string maintains_bool maintains_oid maintains_set_of

lemma step_inv: "cbb_step al st st' \<Longrightarrow> inv st \<Longrightarrow> inv st'"
  by (induction rule: cbb_step.induct) (simp_all add: maintains_ops maintainsD did_write_inv discard_inv)

lemma steps_inv: "(cbb_step al)\<^sup>*\<^sup>* st st' \<Longrightarrow> inv st \<Longrightarrow> inv st'"
  by (induction rule: rtranclp_induct) (auto intro: step_inv)

end

text \<open>A fresh builder.\<close>

definition cbb_fresh :: "(size_t \<Rightarrow> bool) \<Rightarrow> CBB \<Rightarrow> bool" where
  "cbb_fresh al st \<longleftrightarrow> st = CBB_init_fixed (cap st) \<or> CBB_init al (cap st) = Some st"

text \<open>
  C18 (invariant). Memory safety of the builder: after any sequence of calls on a fresh
  builder, failing ones included, the valid bytes lie inside the buffer, and the pending
  children form a chain of prefixes that lie one behind the other inside the valid bytes.
\<close>

theorem cbb_memory_safe:
  assumes "cbb_fresh al st0" and "(cbb_step al)\<^sup>*\<^sup>* st0 st"
  shows "length (buf st) \<le> unat (cap st) \<and> chain_ok 0 (children st) (length (buf st))"
proof -
  have "cbb_ok st0"
    using assms(1) by (cases st0) (auto simp: cbb_fresh_def CBB_init_def CBB_init_fixed_def cbb_init_def cbb_ok_def
        cbb_bounded_def split: if_splits)
  from memory.steps_inv [OF assms(2) this] show ?thesis by (simp add: cbb_ok_def cbb_bounded_def)
qed

theorem cbb_memory_safe_witness:
  "let al = (\<lambda>_. True);
       st = snd (CBB_add_u8 al 1 7 (snd (CBB_add_asn1 al 0 0x20000010 (CBB_init_fixed 3))))
   in length (buf st) \<le> unat (cap st) \<and> chain_ok 0 (children st) (length (buf st)) \<and> buf st = [48, 0, 7]"
proof -
  let ?al = "\<lambda>_ :: size_t. True"
  let ?s1 = "snd (CBB_add_asn1 ?al 0 0x20000010 (CBB_init_fixed 3))"
  let ?s2 = "snd (CBB_add_u8 ?al 1 7 ?s1)"
  have g: "cbb_get_base 0 (CBB_init_fixed 3)" "cbb_get_base 1 ?s1" by code_simp+
  have b: "buf ?s2 = [48, 0, 7]" by code_simp
  have "(cbb_step ?al)\<^sup>*\<^sup>* (CBB_init_fixed 3) ?s2"
    using cbb_step.add_asn1 [OF g(1)] cbb_step.add_u8 [OF g(2)]
    by (rule converse_rtranclp_into_rtranclp [OF _ r_into_rtranclp])
  moreover have "cbb_fresh ?al (CBB_init_fixed 3)" by (simp add: cbb_fresh_def CBB_init_fixed_def cbb_init_def)
  ultimately have "length (buf ?s2) \<le> unat (cap ?s2) \<and> chain_ok 0 (children ?s2) (length (buf ?s2))"
    by (intro cbb_memory_safe)
  with b show ?thesis unfolding Let_def by blast
qed

text \<open>
  C19 (safety). Errors are permanent: once a call has put the builder in the error state, no
  sequence of later calls (discarding children included) clears it, and \<^verbatim>\<open>CBB_finish\<close> never
  hands out the buffer.
\<close>

theorem cbb_error_permanent:
  assumes "error st" and "(cbb_step al)\<^sup>*\<^sup>* st st'"
  shows "error st' \<and> fst (CBB_finish al d want_out st') = None"
  using failed.steps_inv [OF assms(2,1)] by (simp add: CBB_finish_def error_flush)

theorem cbb_error_permanent_witness:
  "let al = (\<lambda>_. False);
       st = snd (CBB_add_u16 al 0 7 (CBB_init_fixed 1));
       st' = snd (CBB_add_u8 al 0 7 st)
   in error st \<and> fst (CBB_finish al 0 True st') = None"
proof -
  let ?al = "\<lambda>_ :: size_t. False"
  let ?st = "snd (CBB_add_u16 ?al 0 7 (CBB_init_fixed 1))"
  have e: "error ?st" "cbb_get_base 0 ?st" by code_simp+
  from cbb_error_permanent [OF e(1) r_into_rtranclp [of "cbb_step ?al", OF cbb_step.add_u8 [OF e(2)]]] e(1)
  show ?thesis by (simp add: Let_def)
qed

end
