(* ===== verification/Unicode.thy ===== *)
theory Unicode
  imports Cbb_Writers
begin

unbundle bit_operations_syntax

text \<open>
  Code points in text encodings (\<^verbatim>\<open>crypto/bytestring/unicode.c\<close>): readers and writers of UTF-8,
  Latin-1, UCS-2 and UTF-32. The specification \<open>utf8_bytes\<close> is the table of the Unicode
  standard on natural numbers; the reader is shown to accept exactly its image on the code
  points the library admits, which excludes overlong forms and surrogates, and the writers to
  be inverse to the readers.
\<close>

section \<open>Code points and masks\<close>

definition is_valid_code_point :: "u32 \<Rightarrow> bool" where
  "is_valid_code_point v =
     (if v > 0x10ffff \<or> v AND 0xfffe = 0xfffe \<or> (v \<ge> 0xfdd0 \<and> v \<le> 0xfdef) \<or>
        (v \<ge> 0xd800 \<and> v \<le> 0xdfff)
      then False else True)"

definition BOTTOM_BITS :: "nat \<Rightarrow> byte" where
  "BOTTOM_BITS n = ucast (push_bit n (1 :: u32) - 1)"

definition TOP_BITS :: "nat \<Rightarrow> byte" where
  "TOP_BITS n = NOT (BOTTOM_BITS (8 - n))"

section \<open>Readers\<close>

text \<open>What the lead byte says: its payload, the number of bytes to follow, the least value.\<close>

definition utf8_lead :: "byte \<Rightarrow> (u32 \<times> nat \<times> u32) option" where
  "utf8_lead c =
     (if c AND TOP_BITS 3 = TOP_BITS 2 then Some (ucast (c AND BOTTOM_BITS 5), 1, 0x80)
      else if c AND TOP_BITS 4 = TOP_BITS 3 then Some (ucast (c AND BOTTOM_BITS 4), 2, 0x800)
      else if c AND TOP_BITS 5 = TOP_BITS 4 then Some (ucast (c AND BOTTOM_BITS 3), 3, 0x10000)
      else None)"

fun utf8_tail :: "nat \<Rightarrow> u32 \<Rightarrow> CBS \<Rightarrow> u32 cbs_result" where
  "utf8_tail 0 v cbs = (Some v, cbs)"
| "utf8_tail (Suc i) v cbs =
     (case CBS_get_u8 cbs of
        (None, cbs1) \<Rightarrow> (None, cbs1)
      | (Some c, cbs1) \<Rightarrow>
          if c AND TOP_BITS 2 \<noteq> TOP_BITS 1 then (None, cbs1)
          else utf8_tail i (push_bit 6 v OR ucast (c AND BOTTOM_BITS 6)) cbs1)"

definition CBS_get_utf8 :: "CBS \<Rightarrow> u32 cbs_result" where
  "CBS_get_utf8 cbs =
     (case CBS_get_u8 cbs of
        (None, cbs1) \<Rightarrow> (None, cbs1)
      | (Some c, cbs1) \<Rightarrow>
          if c \<le> 0x7f then (Some (ucast c), cbs1)
          else case utf8_lead c of
            None \<Rightarrow> (None, cbs1)
          | Some (v0, len, lower_bound) \<Rightarrow>
              (case utf8_tail len v0 cbs1 of
                 (None, cbs2) \<Rightarrow> (None, cbs2)
               | (Some v, cbs2) \<Rightarrow>
                   if \<not> is_valid_code_point v \<or> v < lower_bound then (None, cbs2)
                   else (Some v, cbs2)))"

definition CBS_get_latin1 :: "CBS \<Rightarrow> u32 cbs_result" where
  "CBS_get_latin1 cbs =
     (case CBS_get_u8 cbs of (None, c) \<Rightarrow> (None, c) | (Some b, c) \<Rightarrow> (Some (ucast b), c))"

definition CBS_get_ucs2_be :: "CBS \<Rightarrow> u32 cbs_result" where
  "CBS_get_ucs2_be cbs =
     (case CBS_get_u16 cbs of
        (None, c) \<Rightarrow> (None, c)
      | (Some v, c) \<Rightarrow> if \<not> is_valid_code_point (ucast v) then (None, c) else (Some (ucast v), c))"

definition CBS_get_utf32_be :: "CBS \<Rightarrow> u32 cbs_result" where
  "CBS_get_utf32_be cbs =
     (case CBS_get_u32 cbs of
        (None, c) \<Rightarrow> (None, c)
      | (Some v, c) \<Rightarrow> if is_valid_code_point v then (Some v, c) else (None, c))"

section \<open>Writers\<close>

definition CBB_get_utf8_len :: "u32 \<Rightarrow> size_t" where
  "CBB_get_utf8_len u =
     (if u \<le> 0x7f then 1 else if u \<le> 0x7ff then 2 else if u \<le> 0xffff then 3 else 4)"

definition CBB_add_utf8 :: "(size_t \<Rightarrow> bool) \<Rightarrow> nat \<Rightarrow> u32 \<Rightarrow> CBB \<Rightarrow> bool \<times> CBB" where
  "CBB_add_utf8 al d u st =
     (if \<not> is_valid_code_point u then (False, st)
      else if u \<le> 0x7f then CBB_add_u8 al d (ucast u) st
      else if u \<le> 0x7ff then
        and_then (CBB_add_u8 al d (ucast (ucast (TOP_BITS 2) OR drop_bit 6 u)))
          (CBB_add_u8 al d (ucast (ucast (TOP_BITS 1) OR (u AND ucast (BOTTOM_BITS 6))))) st
      else if u \<le> 0xffff then
        and_then (CBB_add_u8 al d (ucast (ucast (TOP_BITS 3) OR drop_bit 12 u)))
          (and_then
            (CBB_add_u8 al d (ucast (ucast (TOP_BITS 1) OR (drop_bit 6 u AND ucast (BOTTOM_BITS 6)))))
            (CBB_add_u8 al d (ucast (ucast (TOP_BITS 1) OR (u AND ucast (BOTTOM_BITS 6)))))) st
      else if u \<le> 0x10ffff then
        and_then (CBB_add_u8 al d (ucast (ucast (TOP_BITS 4) OR drop_bit 18 u)))
          (and_then
            (CBB_add_u8 al d (ucast (ucast (TOP_BITS 1) OR (drop_bit 12 u AND ucast (BOTTOM_BITS 6)))))
            (and_then
              (CBB_add_u8 al d (ucast (ucast (TOP_BITS 1) OR (drop_bit 6 u AND ucast (BOTTOM_BITS 6)))))
              (CBB_add_u8 al d (ucast (ucast (TOP_BITS 1) OR (u AND ucast (BOTTOM_BITS 6))))))) st
      else (False, st))"

definition CBB_add_latin1 :: "(size_t \<Rightarrow> bool) \<Rightarrow> nat \<Rightarrow> u32 \<Rightarrow> CBB \<Rightarrow> bool \<times> CBB" where
  "CBB_add_latin1 al d u st = (if u \<le> 0xff then CBB_add_u8 al d (ucast u) st else (False, st))"

definition CBB_add_ucs2_be :: "(size_t \<Rightarrow> bool) \<Rightarrow> nat \<Rightarrow> u32 \<Rightarrow> CBB \<Rightarrow> bool \<times> CBB" where
  "CBB_add_ucs2_be al d u st =
     (if u \<le> 0xffff \<and> is_valid_code_point u then CBB_add_u16 al d (ucast u) st else (False, st))"

definition CBB_add_utf32_be :: "(size_t \<Rightarrow> bool) \<Rightarrow> nat \<Rightarrow> u32 \<Rightarrow> CBB \<Rightarrow> bool \<times> CBB" where
  "CBB_add_utf32_be al d u st =
     (if is_valid_code_point u then CBB_add_u32 al d u st else (False, st))"

section \<open>The encoding on natural numbers\<close>

fun utf8_conts :: "nat \<Rightarrow> nat \<Rightarrow> byte list" where
  "utf8_conts 0 n = []"
| "utf8_conts (Suc i) n = utf8_conts i (n div 64) @ [of_nat (128 + n mod 64)]"

definition utf8_bytes :: "nat \<Rightarrow> byte list" where
  "utf8_bytes n =
     (if n < 0x80 then [of_nat n]
      else if n < 0x800 then of_nat (192 + n div 64) # utf8_conts 1 n
      else if n < 0x10000 then of_nat (224 + n div 64 ^ 2) # utf8_conts 2 n
      else of_nat (240 + n div 64 ^ 3) # utf8_conts 3 n)"

text \<open>The code points: no surrogates, none of the permanently reserved values.\<close>

definition code_point :: "nat \<Rightarrow> bool" where
  "code_point n \<longleftrightarrow> n \<le> 0x10ffff \<and> n mod 0x10000 < 0xfffe \<and>
     n \<notin> {0xfdd0..0xfdef} \<and> n \<notin> {0xd800..0xdfff}"

lemma and_mask_nat: "unat ((v :: 'a::len word) AND mask n) = unat v mod 2 ^ n"
  by (simp only: take_bit_eq_mask [symmetric] unsigned_take_bit_eq take_bit_nat_def)

lemma bit_FFFE [byte_simps]: "bit (0xFFFE :: int) n \<longleftrightarrow> 1 \<le> n \<and> n < 16"
proof -
  have "(0xFFFE :: int) = push_bit 1 (mask 15)" by (simp add: mask_eq_exp_minus_1)
  then show ?thesis by (simp only: bit_push_bit_iff bit_mask_iff) auto
qed

lemma and_fffe: "(v :: u32) AND 0xfffe = 0xfffe \<longleftrightarrow> 0xfffe \<le> unat v mod 0x10000"
proof -
  have e: "v AND 0xfffe = push_bit 1 (drop_bit 1 (v AND mask 16))"
    by (rule bit_word_eqI, simp only: bit_and_iff bit_push_bit_iff bit_drop_bit_eq bit_mask_iff o_def)
      (auto simp: bit_simps byte_simps)
  let ?m = "unat v mod 0x10000"
  have d: "unat (drop_bit 1 (v AND mask 16)) = ?m div 2"
    unfolding unat_drop_bit and_mask_nat by simp
  have "unat (push_bit 1 (drop_bit 1 (v AND mask 16))) = ?m div 2 * 2"
    using unat_push_bit [of "drop_bit 1 (v AND mask 16)" 1] d by simp
  moreover have "?m div 2 * 2 = 0xfffe \<longleftrightarrow> 0xfffe \<le> ?m"
  proof -
    have m: "?m < 0x10000" "?m div 2 * 2 \<le> ?m" by simp_all
    have "0xfffe \<le> ?m \<Longrightarrow> ?m div 2 = 0x7fff"
      using m(1) by (intro div_nat_eqI) simp_all
    with m(2) show ?thesis by auto
  qed
  ultimately show ?thesis unfolding e word_unat_eq_iff by simp
qed

lemma valid_code_point_iff: "is_valid_code_point v \<longleftrightarrow> code_point (unat v)"
  by (auto simp: is_valid_code_point_def code_point_def and_fffe word_le_nat_alt word_less_nat_alt)

lemma masks [byte_simps]:
  "BOTTOM_BITS 3 = 0x07" "BOTTOM_BITS 4 = 0x0f" "BOTTOM_BITS 5 = 0x1f" "BOTTOM_BITS 6 = 0x3f"
  "TOP_BITS 1 = 0x80" "TOP_BITS (Suc 0) = 0x80" "TOP_BITS 2 = 0xc0" "TOP_BITS 3 = 0xe0" "TOP_BITS 4 = 0xf0" "TOP_BITS 5 = 0xf8"
  by code_simp+

lemma byte_all: "(\<forall>n\<in>set [0..<256]. P (of_nat n :: byte)) \<Longrightarrow> P b"
  using unat_less_8 [of b] by (auto dest!: bspec [of _ _ "unat b"])

lemma cont_iff: "(c :: byte) AND 0xc0 = 0x80 \<longleftrightarrow> 128 \<le> unat c \<and> unat c < 192"
  by (rule byte_all [of _ c]) code_simp

lemma low_6: "unat ((c :: byte) AND 0x3f) = unat c mod 64"
  by (rule byte_all [of _ c]) code_simp

lemma lead_2: "(c :: byte) AND 0xe0 = 0xc0 \<longleftrightarrow> 192 \<le> unat c \<and> unat c < 224"
  by (rule byte_all [of _ c]) code_simp

lemma lead_3: "(c :: byte) AND 0xf0 = 0xe0 \<longleftrightarrow> 224 \<le> unat c \<and> unat c < 240"
  by (rule byte_all [of _ c]) code_simp

lemma lead_4: "(c :: byte) AND 0xf8 = 0xf0 \<longleftrightarrow> 240 \<le> unat c \<and> unat c < 248"
  by (rule byte_all [of _ c]) code_simp

lemma low_lead:
  "unat ((c :: byte) AND 0x1f) = unat c mod 32" "unat (c AND 0x0f) = unat c mod 16"
  "unat (c AND 0x07) = unat c mod 8"
  using and_mask_nat [of c 5] and_mask_nat [of c 4] and_mask_nat [of c 3]
  by (simp_all add: mask_eq_exp_minus_1)

section \<open>The reader accepts exactly the encodings\<close>

lemma utf8_conts_length [simp]: "length (utf8_conts i n) = i"
  by (induction i arbitrary: n) simp_all

lemma utf8_conts_front: "utf8_conts (Suc i) n = of_nat (128 + n div 64 ^ i mod 64) # utf8_conts i n"
proof (induction i arbitrary: n)
  case (Suc i)
  have "utf8_conts (Suc (Suc i)) n = utf8_conts (Suc i) (n div 64) @ [of_nat (128 + n mod 64)]" by simp
  also have "\<dots> = (of_nat (128 + n div 64 div 64 ^ i mod 64) # utf8_conts i (n div 64)) @
      [of_nat (128 + n mod 64)]"
    by (simp only: Suc.IH)
  also have "\<dots> = of_nat (128 + n div 64 div 64 ^ i mod 64) # utf8_conts (Suc i) n" by simp
  finally show ?case by (simp only: div_mult2_eq [symmetric] power_Suc mult.commute)
qed (simp del: of_nat_add)

lemma add_6_bits:
  fixes v :: u32 and c :: byte
  assumes "unat v < 2 ^ 26"
  shows "unat (push_bit 6 v OR ucast (c AND 0x3f)) = unat v * 64 + unat c mod 64"
proof -
  have c: "unat (ucast (c AND 0x3f) :: u32) = unat c mod 64"
    by (simp add: unsigned_ucast_eq take_bit_nat_eq_self low_6 less_trans [of _ 64])
  have v: "unat (push_bit 6 v) = unat v * 64" using assms by (simp add: unat_push_bit)
  have "push_bit 6 v OR ucast (c AND 0x3f) = push_bit 6 v + ucast (c AND 0x3f)"
    by (rule or_push_eq_add) (simp add: c)
  moreover have "unat (push_bit 6 v) + unat (ucast (c AND 0x3f) :: u32) < 2 ^ 32"
    unfolding c v using assms by simp
  ultimately show ?thesis by (simp add: unat_word_ariths c v)
qed

lemma byte_of_nat: "n < 256 \<Longrightarrow> unat (of_nat n :: byte) = n"
  by (simp add: unat_of_nat)

lemma mod_128_64: "j < 64 \<Longrightarrow> (128 + j) mod 64 = (j :: nat)"
  using mod_mult_self1 [of j 2 64] by (simp add: add.commute)

lemma digit_64: "r < 64 \<Longrightarrow> v * 64 + r = q \<longleftrightarrow> r = q mod 64 \<and> v = q div (64 :: nat)"
  by auto

lemma cont_byte_iff:
  "128 \<le> unat (c :: byte) \<and> unat c < 192 \<and> unat c mod 64 = k \<longleftrightarrow> k < 64 \<and> c = of_nat (128 + k)"
proof
  assume h: "128 \<le> unat c \<and> unat c < 192 \<and> unat c mod 64 = k"
  then obtain j where j: "unat c = 128 + j" "j < 64" by (auto simp: le_iff_add)
  have "(128 + j) mod 64 = j" using j(2) by (rule mod_128_64)
  then show "k < 64 \<and> c = of_nat (128 + k)"
    using h j by (simp add: word_unat_eq_iff byte_of_nat del: of_nat_add)
next
  assume k: "k < 64 \<and> c = of_nat (128 + k)"
  then have "unat c = 128 + k" using byte_of_nat [of "128 + k"] by simp
  moreover have "(128 + k) mod 64 = k" using k by (intro mod_128_64) simp
  ultimately show "128 \<le> unat c \<and> unat c < 192 \<and> unat c mod 64 = k" using k by simp
qed

lemma utf8_tail_iff:
  assumes "Suc (unat v) * 64 ^ i \<le> 2 ^ 32"
  shows "utf8_tail i v cbs = (Some u, rest) \<longleftrightarrow>
    cbs = utf8_conts i (unat u) @ rest \<and> unat v = unat u div 64 ^ i"
  using assms
proof (induction i arbitrary: v cbs)
  case 0
  then show ?case by (auto simp: word_unat_eq_iff)
next
  case (Suc i)
  show ?case
  proof (cases cbs)
    case Nil
    then show ?thesis by (auto simp: CBS_get_u8_def cbs_get_def)
  next
    case (Cons c cs)
    have get: "CBS_get_u8 cbs = (Some c, cs)" by (simp add: CBS_get_u8_iff Cons)
    let ?w = "push_bit 6 v OR ucast (c AND 0x3f) :: u32"
    have le: "Suc (unat v) * 64 * 64 ^ i \<le> 2 ^ 32" using Suc.prems by (simp only: power_Suc mult.assoc)
    have "Suc (unat v) * 64 \<le> Suc (unat v) * 64 * 64 ^ i" by simp
    then have "Suc (unat v) * 64 \<le> 2 ^ 32" using le by (rule order.trans)
    then have "unat v < 2 ^ 26" by simp
    then have w: "unat ?w = unat v * 64 + unat c mod 64" by (rule add_6_bits)
    have "Suc (unat ?w) \<le> Suc (unat v) * 64" unfolding w using mod_less_divisor [of 64 "unat c"] by simp
    then have "Suc (unat ?w) * 64 ^ i \<le> Suc (unat v) * 64 * 64 ^ i" by (rule mult_right_mono) simp
    then have "Suc (unat ?w) * 64 ^ i \<le> 2 ^ 32" using le by (rule order.trans)
    then have ih: "utf8_tail i ?w cs = (Some u, rest) \<longleftrightarrow>
        cs = utf8_conts i (unat u) @ rest \<and> unat ?w = unat u div 64 ^ i"
      by (rule Suc.IH)
    let ?q = "unat u div 64 ^ i"
    have "unat v * 64 + unat c mod 64 = ?q \<longleftrightarrow> unat c mod 64 = ?q mod 64 \<and> unat v = ?q div 64"
      by (rule digit_64) simp
    moreover have "unat u div 64 ^ Suc i = ?q div 64"
      by (simp only: power_Suc mult.commute [of 64] div_mult2_eq)
    ultimately have "utf8_tail (Suc i) v cbs = (Some u, rest) \<longleftrightarrow>
        (128 \<le> unat c \<and> unat c < 192 \<and> unat c mod 64 = ?q mod 64) \<and> unat v = unat u div 64 ^ Suc i \<and>
        cs = utf8_conts i (unat u) @ rest"
      using ih by (auto simp: get byte_simps cont_iff w)
    also have "\<dots> \<longleftrightarrow> c = of_nat (128 + ?q mod 64) \<and> unat v = unat u div 64 ^ Suc i \<and>
        cs = utf8_conts i (unat u) @ rest"
      unfolding cont_byte_iff by auto
    also have "\<dots> \<longleftrightarrow> cbs = utf8_conts (Suc i) (unat u) @ rest \<and> unat v = unat u div 64 ^ Suc i"
      unfolding utf8_conts_front Cons by auto
    finally show ?thesis .
  qed
qed

lemma mod_sub: "base \<le> n \<Longrightarrow> n < base + k \<Longrightarrow> k dvd base \<Longrightarrow> n mod k = n - (base :: nat)"
proof -
  assume "base \<le> n" "n < base + k" and d: "k dvd base"
  then obtain j where "n = base + j" "j < k" by (auto simp: le_iff_add)
  then show ?thesis using d by (auto elim: dvdE)
qed

lemma utf8_lead_eq:
  "utf8_lead c =
     (if 192 \<le> unat c \<and> unat c < 224 then Some (of_nat (unat c - 192), 1, 0x80)
      else if 224 \<le> unat c \<and> unat c < 240 then Some (of_nat (unat c - 224), 2, 0x800)
      else if 240 \<le> unat c \<and> unat c < 248 then Some (of_nat (unat c - 240), 3, 0x10000)
      else None)"
proof -
  have low: "(ucast (c AND m) :: u32) = of_nat (unat (c AND m))" for m by simp
  have r: "192 \<le> n \<Longrightarrow> n < 224 \<Longrightarrow> n mod 32 = n - 192" "224 \<le> n \<Longrightarrow> n < 240 \<Longrightarrow> n mod 16 = n - 224"
    "240 \<le> n \<Longrightarrow> n < 248 \<Longrightarrow> n mod 8 = n - 240" for n :: nat
    by (rule mod_sub; simp)+
  show ?thesis
    unfolding utf8_lead_def byte_simps lead_2 lead_3 lead_4 low low_lead
    by (simp add: r del: of_nat_unat of_nat_diff)
qed

lemma small_u32: "n < 256 \<Longrightarrow> unat (of_nat n :: u32) = n"
  by (simp add: unat_of_nat)

text \<open>What follows a lead byte with the payload \<open>n\<close>.\<close>

definition utf8_rest :: "nat \<Rightarrow> nat \<Rightarrow> nat \<Rightarrow> byte list \<Rightarrow> nat \<Rightarrow> byte list \<Rightarrow> bool" where
  "utf8_rest len lower n cs u rest \<longleftrightarrow>
     cs = utf8_conts len u @ rest \<and> n = u div 64 ^ len \<and> code_point u \<and> lower \<le> u"

lemma utf8_multi_iff:
  assumes "n < 32" and "len \<le> 3"
  shows "(case utf8_tail len (of_nat n) cs of (None, cs2) \<Rightarrow> (None, cs2)
      | (Some v, cs2) \<Rightarrow> if \<not> is_valid_code_point v \<or> v < lower then (None, cs2)
          else (Some v, cs2)) = (Some u, rest) \<longleftrightarrow> utf8_rest len (unat lower) n cs (unat u) rest"
proof -
  have "Suc n * 64 ^ len \<le> 32 * 64 ^ 3"
    using assms power_increasing [of len 3 "64 :: nat"] by (intro mult_mono) simp_all
  then have "Suc (unat (of_nat n :: u32)) * 64 ^ len \<le> 2 ^ 32" using small_u32 [of n] assms(1) by simp
  from utf8_tail_iff [OF this] have tail: "utf8_tail len (of_nat n) cs = (Some v, r) \<longleftrightarrow>
      cs = utf8_conts len (unat v) @ r \<and> n = unat v div 64 ^ len" for v r
    using small_u32 [of n] assms(1) by simp
  obtain res r2 where t: "utf8_tail len (of_nat n) cs = (res, r2)" by (rule prod.exhaust)
  have "(res = Some u \<and> r2 = rest) \<longleftrightarrow> cs = utf8_conts len (unat u) @ rest \<and> n = unat u div 64 ^ len"
    using tail [of u rest] t by simp
  then show ?thesis
    unfolding t utf8_rest_def
    by (cases res) (auto simp: valid_code_point_iff word_less_nat_alt not_less simp del: utf8_conts.simps)
qed

lemma get_utf8_cons:
  "CBS_get_utf8 (c # cs) = (Some u, rest) \<longleftrightarrow>
    (if unat c < 128 then unat u = unat c \<and> cs = rest
     else if unat c < 192 then False
     else if unat c < 224 then utf8_rest 1 0x80 (unat c - 192) cs (unat u) rest
     else if unat c < 240 then utf8_rest 2 0x800 (unat c - 224) cs (unat u) rest
     else if unat c < 248 then utf8_rest 3 0x10000 (unat c - 240) cs (unat u) rest
     else False)"
proof -
  have get: "CBS_get_u8 (c # cs) = (Some c, cs)" by (simp add: CBS_get_u8_iff)
  have low: "(ucast c :: u32) = u \<longleftrightarrow> unat u = unat c"
    by (simp add: word_unat_eq_iff unsigned_ucast_eq take_bit_nat_eq_self less_trans [OF unat_less_8] eq_commute)
  note multi = utf8_multi_iff [where n = "unat c - 192" and len = 1]
    utf8_multi_iff [where n = "unat c - 224" and len = 2] utf8_multi_iff [where n = "unat c - 240" and len = 3]
  consider "unat c < 128" | "128 \<le> unat c" "unat c < 192" | "192 \<le> unat c" "unat c < 224"
    | "224 \<le> unat c" "unat c < 240" | "240 \<le> unat c" "unat c < 248" | "248 \<le> unat c" by linarith
  then show ?thesis
    unfolding CBS_get_utf8_def get
    by cases (simp_all add: utf8_lead_eq word_le_nat_alt low multi
        del: of_nat_unat of_nat_diff One_nat_def utf8_tail.simps)
qed

lemma lead_iff: "base + k \<le> 256 \<Longrightarrow> base \<le> unat c \<and> unat c < base + k \<and> unat c - base = q \<longleftrightarrow>
    q < k \<and> c = (of_nat (base + q) :: byte)"
proof -
  assume le: "base + k \<le> 256"
  have "q < k \<Longrightarrow> unat (of_nat (base + q) :: byte) = base + q" using le by (intro byte_of_nat) simp
  then show ?thesis by (auto simp: word_unat_eq_iff simp del: of_nat_add)
qed

lemma get_utf8_iff:
  "CBS_get_utf8 cbs = (Some u, rest) \<longleftrightarrow>
     code_point (unat u) \<and> cbs = utf8_bytes (unat u) @ rest"
proof (cases cbs)
  case Nil
  then show ?thesis by (simp add: CBS_get_utf8_def CBS_get_u8_def cbs_get_def utf8_bytes_def)
next
  case (Cons c cs)
  let ?n = "unat u"
  have small: "?n < 128 \<Longrightarrow> code_point ?n" by (simp add: code_point_def)
  have top: "code_point ?n \<Longrightarrow> ?n < 0x200000" by (simp add: code_point_def)
  have q: "?n div 64 ^ 1 < 32 \<longleftrightarrow> ?n < 0x800" "?n div 64 ^ 2 < 16 \<longleftrightarrow> ?n < 0x10000"
      "?n div 64 ^ 3 < 8 \<longleftrightarrow> ?n < 0x200000"
    by (simp_all add: div_less_iff_less_mult)
  have one: "unat c < 128 \<and> ?n = unat c \<longleftrightarrow> ?n < 128 \<and> c = of_nat ?n"
    using byte_of_nat [of ?n] by (auto simp: word_unat_eq_iff)
  have lead: "192 \<le> unat c \<and> unat c < 192 + 32 \<and> unat c - 192 = x \<longleftrightarrow> x < 32 \<and> c = of_nat (192 + x)"
      "224 \<le> unat c \<and> unat c < 224 + 16 \<and> unat c - 224 = x \<longleftrightarrow> x < 16 \<and> c = of_nat (224 + x)"
      "240 \<le> unat c \<and> unat c < 240 + 8 \<and> unat c - 240 = x \<longleftrightarrow> x < 8 \<and> c = of_nat (240 + x)" for x
    by (rule lead_iff; simp)+
  have "CBS_get_utf8 (c # cs) = (Some u, rest) \<longleftrightarrow>
      (unat c < 128 \<and> ?n = unat c) \<and> cs = rest \<or>
      (192 \<le> unat c \<and> unat c < 192 + 32 \<and> unat c - 192 = ?n div 64 ^ 1) \<and> 0x80 \<le> ?n \<and>
        code_point ?n \<and> cs = utf8_conts 1 ?n @ rest \<or>
      (224 \<le> unat c \<and> unat c < 224 + 16 \<and> unat c - 224 = ?n div 64 ^ 2) \<and> 0x800 \<le> ?n \<and>
        code_point ?n \<and> cs = utf8_conts 2 ?n @ rest \<or>
      (240 \<le> unat c \<and> unat c < 240 + 8 \<and> unat c - 240 = ?n div 64 ^ 3) \<and> 0x10000 \<le> ?n \<and>
        code_point ?n \<and> cs = utf8_conts 3 ?n @ rest"
    unfolding get_utf8_cons utf8_rest_def by auto
  also have "\<dots> \<longleftrightarrow> code_point ?n \<and> c # cs = utf8_bytes ?n @ rest"
    unfolding lead one q utf8_bytes_def using small top
    by (cases "?n < 0x80"; cases "?n < 0x800"; cases "?n < 0x10000")
      (auto simp del: utf8_conts.simps of_nat_add)
  finally show ?thesis by (simp add: Cons)
qed


section \<open>What the writers append\<close>

lemma utf8_reads_back: "code_point (unat u) \<Longrightarrow> CBS_get_utf8 (utf8_bytes (unat u) @ rest) = (Some u, rest)"
  by (simp add: get_utf8_iff)

lemma be_byte_1: "be_bytes 1 (ucast (b :: byte)) = [b]"
  by (simp, rule bit_word_eqI) (auto simp: bit_simps dest: bit_byte_le)

lemma appends_add_u:
  assumes "drop_bit (8 * k) v = 0"
  shows "cbb_at.appends al cs (cbb_add_u al (length cs) v k) (be_bytes k v)"
proof (rule appends_same)
  show "cbb_at.appends al cs (CBB_add_bytes al (length cs) (be_bytes k v)) (be_bytes k v)"
    by (rule appends_bytes)
qed (use assms in \<open>auto simp: cbb_add_u_def be_store_eq CBB_add_bytes_def\<close>)

lemma appends_u16: "cbb_at.appends al cs (CBB_add_u16 al (length cs) v) (be_bytes 2 (ucast v))"
proof -
  have "drop_bit (8 * 2) (ucast v :: u64) = 0"
    using unat_less_16 [of v] by (simp add: word_unat_eq_iff unat_drop_bit unsigned_ucast_eq take_bit_nat_eq_self)
  from appends_add_u [OF this] show ?thesis by (simp only: CBB_add_u16_def [abs_def])
qed

lemma appends_u32: "cbb_at.appends al cs (CBB_add_u32 al (length cs) v) (be_bytes 4 (ucast v))"
proof -
  have "drop_bit (8 * 4) (ucast v :: u64) = 0"
    using unat_less_32 [of v] by (simp add: word_unat_eq_iff unat_drop_bit unsigned_ucast_eq take_bit_nat_eq_self)
  from appends_add_u [OF this] show ?thesis by (simp only: CBB_add_u32_def [abs_def])
qed

text \<open>The bytes that \<^verbatim>\<open>CBB_add_utf8\<close> computes: a lead byte and continuation bytes.\<close>

lemma or_top:
  fixes w :: u32
  assumes w: "unat w < 2 ^ k" and t: "t = push_bit k a" and b: "unat t + 2 ^ k \<le> 256"
  shows "(ucast (t OR w) :: byte) = of_nat (unat t + unat w)"
proof -
  have "t OR w = t + w" unfolding t by (rule or_push_eq_add [OF w])
  moreover have lt: "unat t + unat w < 256" using w b by simp
  ultimately have u: "unat (t OR w) = unat t + unat w" by (simp add: unat_word_ariths)
  have "unat (ucast (t OR w) :: byte) = take_bit 8 (unat (t OR w))" by (simp add: unsigned_ucast_eq)
  then show ?thesis
    unfolding word_unat_eq_iff byte_of_nat [OF lt] using u lt by (simp add: take_bit_nat_eq_self)
qed

lemma ucast_masks:
  "(ucast (TOP_BITS 1) :: u32) = push_bit 7 1" "(ucast (TOP_BITS 2) :: u32) = push_bit 6 3"
  "(ucast (TOP_BITS 3) :: u32) = push_bit 5 7" "(ucast (TOP_BITS 4) :: u32) = push_bit 4 15"
  "(ucast (BOTTOM_BITS 6) :: u32) = mask 6"
  by code_simp+

lemma cont_byte_eq: "(ucast (ucast (TOP_BITS 1) OR (w AND ucast (BOTTOM_BITS 6))) :: byte) = of_nat (128 + unat (w :: u32) mod 64)"
proof -
  have "unat (w AND mask 6) = unat w mod 64" by (simp add: and_mask_nat)
  then show ?thesis
    unfolding ucast_masks using or_top [of "w AND mask 6" 7 "push_bit 7 1" 1] by (simp add: less_trans [of _ 64])
qed

lemma lead_byte_eq:
  "unat u < 0x800 \<Longrightarrow> (ucast (ucast (TOP_BITS 2) OR drop_bit 6 u) :: byte) = of_nat (192 + unat u div 64)"
  "unat u < 0x10000 \<Longrightarrow> (ucast (ucast (TOP_BITS 3) OR drop_bit 12 u) :: byte) = of_nat (224 + unat u div 64 ^ 2)"
  "unat u < 0x110000 \<Longrightarrow> (ucast (ucast (TOP_BITS 4) OR drop_bit 18 u) :: byte) = of_nat (240 + unat u div 64 ^ 3)"
  for u :: u32
  unfolding ucast_masks
  using or_top [of "drop_bit 6 u" 6 "push_bit 6 3" 3] or_top [of "drop_bit 12 u" 5 "push_bit 5 7" 7]
    or_top [of "drop_bit 18 u" 4 "push_bit 4 15" 15]
  by (simp_all add: unat_drop_bit div_less_iff_less_mult)

lemma conts_eq:
  "utf8_conts 1 (unat u) = [ucast (ucast (TOP_BITS 1) OR (u AND ucast (BOTTOM_BITS 6)))]"
  "utf8_conts 2 (unat u) = ucast (ucast (TOP_BITS 1) OR (drop_bit 6 u AND ucast (BOTTOM_BITS 6))) # utf8_conts 1 (unat u)"
  "utf8_conts 3 (unat u) = ucast (ucast (TOP_BITS 1) OR (drop_bit 12 u AND ucast (BOTTOM_BITS 6))) # utf8_conts 2 (unat u)"
  for u :: u32
  unfolding cont_byte_eq unat_drop_bit using utf8_conts_front [of 0 "unat u"] utf8_conts_front [of 1 "unat u"] utf8_conts_front [of 2 "unat u"]
  by (simp_all add: numeral_2_eq_2 [symmetric] numeral_3_eq_3 [symmetric] del: of_nat_add utf8_conts.simps(2))

lemma appends_utf8:
  assumes "code_point (unat u)"
  shows "cbb_at.appends al cs (CBB_add_utf8 al (length cs) u) (utf8_bytes (unat u))"
proof -
  have valid: "is_valid_code_point u" using assms by (simp add: valid_code_point_iff)
  have top: "unat u < 0x110000" using assms by (simp add: code_point_def)
  note le = word_le_nat_alt word_less_nat_alt
  consider (1) "unat u < 0x80" | (2) "0x80 \<le> unat u" "unat u < 0x800"
    | (3) "0x800 \<le> unat u" "unat u < 0x10000" | (4) "0x10000 \<le> unat u"
    by linarith
  then show ?thesis
  proof cases
    case 1
    then have "CBB_add_utf8 al (length cs) u = CBB_add_u8 al (length cs) (ucast u)"
      using valid by (intro ext) (simp add: CBB_add_utf8_def le)
    moreover have "utf8_bytes (unat u) = [ucast u]" using 1 by (simp add: utf8_bytes_def)
    ultimately show ?thesis by (simp only: appends_u8)
  next
    case 2
    then have e: "CBB_add_utf8 al (length cs) u =
        and_then (CBB_add_u8 al (length cs) (ucast (ucast (TOP_BITS 2) OR drop_bit 6 u)))
          (CBB_add_u8 al (length cs) (ucast (ucast (TOP_BITS 1) OR (u AND ucast (BOTTOM_BITS 6)))))"
      using valid by (intro ext) (simp add: CBB_add_utf8_def le)
    have b: "utf8_bytes (unat u) = [ucast (ucast (TOP_BITS 2) OR drop_bit 6 u)] @
        [ucast (ucast (TOP_BITS 1) OR (u AND ucast (BOTTOM_BITS 6)))]"
      using 2 by (simp add: utf8_bytes_def lead_byte_eq conts_eq del: of_nat_add utf8_conts.simps One_nat_def)
    show ?thesis unfolding e b by (intro appends_then appends_u8)
  next
    case 3
    then have e: "CBB_add_utf8 al (length cs) u =
        and_then (CBB_add_u8 al (length cs) (ucast (ucast (TOP_BITS 3) OR drop_bit 12 u)))
          (and_then
            (CBB_add_u8 al (length cs) (ucast (ucast (TOP_BITS 1) OR (drop_bit 6 u AND ucast (BOTTOM_BITS 6)))))
            (CBB_add_u8 al (length cs) (ucast (ucast (TOP_BITS 1) OR (u AND ucast (BOTTOM_BITS 6))))))"
      using valid by (intro ext) (simp add: CBB_add_utf8_def le)
    have b: "utf8_bytes (unat u) = [ucast (ucast (TOP_BITS 3) OR drop_bit 12 u)] @
        [ucast (ucast (TOP_BITS 1) OR (drop_bit 6 u AND ucast (BOTTOM_BITS 6)))] @
        [ucast (ucast (TOP_BITS 1) OR (u AND ucast (BOTTOM_BITS 6)))]"
      using 3 by (simp add: utf8_bytes_def lead_byte_eq conts_eq del: of_nat_add utf8_conts.simps One_nat_def)
    show ?thesis unfolding e b by (intro appends_then appends_u8)
  next
    case 4
    then have e: "CBB_add_utf8 al (length cs) u =
        and_then (CBB_add_u8 al (length cs) (ucast (ucast (TOP_BITS 4) OR drop_bit 18 u)))
          (and_then
            (CBB_add_u8 al (length cs) (ucast (ucast (TOP_BITS 1) OR (drop_bit 12 u AND ucast (BOTTOM_BITS 6)))))
            (and_then
              (CBB_add_u8 al (length cs) (ucast (ucast (TOP_BITS 1) OR (drop_bit 6 u AND ucast (BOTTOM_BITS 6)))))
              (CBB_add_u8 al (length cs) (ucast (ucast (TOP_BITS 1) OR (u AND ucast (BOTTOM_BITS 6)))))))"
      using valid top by (intro ext) (simp add: CBB_add_utf8_def le)
    have b: "utf8_bytes (unat u) = [ucast (ucast (TOP_BITS 4) OR drop_bit 18 u)] @
        [ucast (ucast (TOP_BITS 1) OR (drop_bit 12 u AND ucast (BOTTOM_BITS 6)))] @
        [ucast (ucast (TOP_BITS 1) OR (drop_bit 6 u AND ucast (BOTTOM_BITS 6)))] @
        [ucast (ucast (TOP_BITS 1) OR (u AND ucast (BOTTOM_BITS 6)))]"
      using 4 top by (simp add: utf8_bytes_def lead_byte_eq conts_eq del: of_nat_add utf8_conts.simps One_nat_def)
    show ?thesis unfolding e b by (intro appends_then appends_u8)
  qed
qed

text \<open>A pair of writer and reader that are inverse on the admitted values; others are refused.\<close>

definition text_codec ::
  "(CBB \<Rightarrow> bool) \<Rightarrow> (u32 \<Rightarrow> CBB \<Rightarrow> bool \<times> CBB) \<Rightarrow> (CBS \<Rightarrow> u32 cbs_result) \<Rightarrow> (u32 \<Rightarrow> bool) \<Rightarrow> bool" where
  "text_codec ready add get ok \<longleftrightarrow> (\<forall>u st. ready st \<longrightarrow>
     (if ok u then \<exists>st' bs. add u st = (True, st') \<and> buf st' = buf st @ bs \<and>
        children st' = children st \<and> (\<forall>rest. get (bs @ rest) = (Some u, rest))
      else add u st = (False, st)))"

lemma text_codecI:
  assumes "\<And>u. ok u \<Longrightarrow> cbb_at.appends al cs (add u) (enc u)" and "\<And>u. length (enc u) \<le> n"
    and "\<And>u rest. ok u \<Longrightarrow> get (enc u @ rest) = (Some u, rest)"
    and "\<And>u st. \<not> ok u \<Longrightarrow> add u st = (False, st)"
  shows "text_codec (cbb_ready al cs n) add get ok"
  unfolding text_codec_def
proof (intro allI impI)
  fix u st assume r: "cbb_ready al cs n st"
  then have c: "children st = cs" by (simp add: cbb_ready_def)
  show "if ok u then \<exists>st' bs. add u st = (True, st') \<and> buf st' = buf st @ bs \<and>
        children st' = children st \<and> (\<forall>rest. get (bs @ rest) = (Some u, rest))
      else add u st = (False, st)"
    using appends_result [OF assms(1) r assms(2), of u] assms(3,4) c by (cases "ok u") (simp_all, blast)
qed

lemma utf8_length: "length (utf8_bytes n) \<le> 4"
  by (simp add: utf8_bytes_def del: utf8_conts.simps)

lemma get_u16_bytes: "CBS_get_u16 (be_bytes 2 (ucast v) @ rest) = (Some v, rest)"
proof -
  have "cbs_get_u 2 (be_bytes 2 (ucast v) @ rest) = (Some (ucast v), rest)"
    using unat_less_16 [of v] by (simp add: cbs_get_u_iff unsigned_ucast_eq take_bit_nat_eq_self)
  moreover have "ucast (ucast v :: u64) = v" by (rule bit_word_eqI) (simp add: bit_simps)
  ultimately show ?thesis by (simp add: CBS_get_u16_def)
qed

lemma get_u32_bytes: "CBS_get_u32 (be_bytes 4 (ucast v) @ rest) = (Some v, rest)"
proof -
  have "cbs_get_u 4 (be_bytes 4 (ucast v) @ rest) = (Some (ucast v), rest)"
    using unat_less_32 [of v] by (simp add: cbs_get_u_iff unsigned_ucast_eq take_bit_nat_eq_self)
  then show ?thesis by (simp add: CBS_get_u32_def ucast_u32_u64)
qed

lemma ucast_back:
  "unat (u :: u32) < 2 ^ LENGTH('a::len) \<Longrightarrow> ucast (ucast u :: 'a word) = u"
  by (rule bit_word_eqI) (auto simp: bit_simps dest: high_bits_clear)

section \<open>Properties\<close>

text \<open>
  C9 (equivalence). \<^verbatim>\<open>CBS_get_utf8\<close> accepts an input exactly when it begins with the UTF-8
  encoding of an admissible code point, returns that code point and stops behind its encoding;
  overlong forms, surrogates, reserved values and truncated sequences are all refused.
\<close>

theorem utf8_exact:
  "CBS_get_utf8 cbs = (Some u, rest) \<longleftrightarrow>
     code_point (unat u) \<and> cbs = utf8_bytes (unat u) @ rest"
  by (rule get_utf8_iff)

text \<open>
  C10 (roundtrip). In each of the four encodings the writer succeeds exactly on the values the
  encoding admits, given room for the longest form; what it appends is read back, and a
  refused value leaves the builder untouched.
\<close>

theorem code_point_writers:
  "text_codec (cbb_ready al cs 4) (CBB_add_utf8 al (length cs)) CBS_get_utf8 (\<lambda>u. code_point (unat u)) \<and>
   text_codec (cbb_ready al cs 1) (CBB_add_latin1 al (length cs)) CBS_get_latin1 (\<lambda>u. u < 0x100) \<and>
   text_codec (cbb_ready al cs 2) (CBB_add_ucs2_be al (length cs)) CBS_get_ucs2_be
     (\<lambda>u. u < 0x10000 \<and> code_point (unat u)) \<and>
   text_codec (cbb_ready al cs 4) (CBB_add_utf32_be al (length cs)) CBS_get_utf32_be (\<lambda>u. code_point (unat u))"
proof (intro conjI)
  show "text_codec (cbb_ready al cs 4) (CBB_add_utf8 al (length cs)) CBS_get_utf8 (\<lambda>u. code_point (unat u))"
    by (rule text_codecI [of _ _ _ _ "\<lambda>u. utf8_bytes (unat u)"])
      (auto simp: appends_utf8 utf8_length utf8_reads_back valid_code_point_iff CBB_add_utf8_def)
  show "text_codec (cbb_ready al cs 1) (CBB_add_latin1 al (length cs)) CBS_get_latin1 (\<lambda>u. u < 0x100)"
  proof (rule text_codecI [of _ _ _ _ "\<lambda>u. [ucast u]"])
    fix u :: u32 and rest assume u: "u < 0x100"
    then show "cbb_at.appends al cs (CBB_add_latin1 al (length cs) u) [ucast u]"
      using appends_u8 [of al cs "ucast u"] by (auto elim!: appends_same simp: CBB_add_latin1_def word_le_nat_alt word_less_nat_alt)
    have "ucast (ucast u :: byte) = u"
      using u by (intro ucast_back) (simp_all add: word_less_nat_alt)
    then show "CBS_get_latin1 ([ucast u] @ rest) = (Some u, rest)"
      by (simp add: CBS_get_latin1_def CBS_get_u8_def cbs_get_def)
  qed (auto simp: CBB_add_latin1_def word_le_nat_alt word_less_nat_alt)
  show "text_codec (cbb_ready al cs 2) (CBB_add_ucs2_be al (length cs)) CBS_get_ucs2_be
     (\<lambda>u. u < 0x10000 \<and> code_point (unat u))"
  proof (rule text_codecI [of _ _ _ _ "\<lambda>u. be_bytes 2 (ucast (ucast u :: u16))"])
    fix u :: u32 and rest assume u: "u < 0x10000 \<and> code_point (unat u)"
    then show "cbb_at.appends al cs (CBB_add_ucs2_be al (length cs) u) (be_bytes 2 (ucast (ucast u :: u16)))"
      using appends_u16 [of al cs "ucast u"]
      by (auto elim!: appends_same simp: CBB_add_ucs2_be_def word_le_nat_alt word_less_nat_alt valid_code_point_iff)
    have "ucast (ucast u :: u16) = u"
      using u by (intro ucast_back) (simp_all add: word_less_nat_alt)
    then show "CBS_get_ucs2_be (be_bytes 2 (ucast (ucast u :: u16)) @ rest) = (Some u, rest)"
      using u by (simp only: CBS_get_ucs2_be_def get_u16_bytes) (simp add: valid_code_point_iff)
  qed (auto simp: CBB_add_ucs2_be_def word_le_nat_alt word_less_nat_alt valid_code_point_iff)
  show "text_codec (cbb_ready al cs 4) (CBB_add_utf32_be al (length cs)) CBS_get_utf32_be (\<lambda>u. code_point (unat u))"
  proof (rule text_codecI [of _ _ _ _ "\<lambda>u. be_bytes 4 (ucast u)"])
    fix u :: u32 and rest assume u: "code_point (unat u)"
    then show "cbb_at.appends al cs (CBB_add_utf32_be al (length cs) u) (be_bytes 4 (ucast u))"
      using appends_u32 [of al cs u] by (auto elim!: appends_same simp: CBB_add_utf32_be_def valid_code_point_iff)
    show "CBS_get_utf32_be (be_bytes 4 (ucast u) @ rest) = (Some u, rest)"
      using u by (simp only: CBS_get_utf32_be_def get_u32_bytes) (simp add: valid_code_point_iff)
  qed (auto simp: CBB_add_utf32_be_def valid_code_point_iff)
qed

theorem code_point_writers_witness:
  "\<exists>st' bs. CBB_add_utf8 (\<lambda>_. False) 0 0x20AC (CBB_init_fixed 4) = (True, st') \<and> buf st' = bs \<and>
     CBS_get_utf8 (bs @ [1]) = (Some 0x20AC, [1])"
proof -
  have r: "cbb_ready (\<lambda>_. False) [] 4 (CBB_init_fixed 4)" by (rule init_fixed_ready) simp
  have c: "code_point (unat (0x20AC :: u32))" by (simp add: code_point_def)
  have b: "buf (CBB_init_fixed 4) = []" by (simp add: CBB_init_fixed_def cbb_init_def)
  have "text_codec (cbb_ready (\<lambda>_. False) [] 4) (CBB_add_utf8 (\<lambda>_. False) (length ([] :: cbb_child_st list)))
      CBS_get_utf8 (\<lambda>u. code_point (unat u))"
    using code_point_writers [of "\<lambda>_. False" "[]"] by (rule conjunct1)
  then obtain st' bs where "CBB_add_utf8 (\<lambda>_. False) 0 0x20AC (CBB_init_fixed 4) = (True, st')"
      "buf st' = bs" "\<forall>rest. CBS_get_utf8 (bs @ rest) = (Some 0x20AC, rest)"
    using r c b unfolding text_codec_def by (metis append_Nil list.size(3))
  then show ?thesis by blast
qed

end
