(* ===== verification/Constant_Time.thy ===== *)
theory Constant_Time
  imports Prelude
begin

unbundle bit_operations_syntax

text \<open>
  The branch-free primitives of \<^verbatim>\<open>crypto/internal.h\<close> on the 64-bit \<^verbatim>\<open>crypto_word_t\<close>. A mask is
  all ones for true and zero for false. The value barriers return their argument. The lemmas
  give each primitive the meaning that a branch would have.
\<close>

type_synonym crypto_word_t = "64 word"

section \<open>Definitions\<close>

definition value_barrier_w :: "crypto_word_t \<Rightarrow> crypto_word_t" where
  "value_barrier_w a = a"

definition value_barrier_u32 :: "u32 \<Rightarrow> u32" where
  "value_barrier_u32 a = a"

definition value_barrier_u64 :: "u64 \<Rightarrow> u64" where
  "value_barrier_u64 a = a"

definition constant_time_msb_w :: "crypto_word_t \<Rightarrow> crypto_word_t" where
  "constant_time_msb_w a = 0 - drop_bit 63 a"

definition constant_time_lt_w :: "crypto_word_t \<Rightarrow> crypto_word_t \<Rightarrow> crypto_word_t" where
  "constant_time_lt_w a b = constant_time_msb_w (a XOR ((a XOR b) OR ((a - b) XOR a)))"

definition constant_time_lt_8 :: "crypto_word_t \<Rightarrow> crypto_word_t \<Rightarrow> byte" where
  "constant_time_lt_8 a b = ucast (constant_time_lt_w a b)"

definition constant_time_ge_w :: "crypto_word_t \<Rightarrow> crypto_word_t \<Rightarrow> crypto_word_t" where
  "constant_time_ge_w a b = NOT (constant_time_lt_w a b)"

definition constant_time_ge_8 :: "crypto_word_t \<Rightarrow> crypto_word_t \<Rightarrow> byte" where
  "constant_time_ge_8 a b = ucast (constant_time_ge_w a b)"

definition constant_time_is_zero_w :: "crypto_word_t \<Rightarrow> crypto_word_t" where
  "constant_time_is_zero_w a = constant_time_msb_w (NOT a AND (a - 1))"

definition constant_time_is_zero_8 :: "crypto_word_t \<Rightarrow> byte" where
  "constant_time_is_zero_8 a = ucast (constant_time_is_zero_w a)"

definition constant_time_eq_w :: "crypto_word_t \<Rightarrow> crypto_word_t \<Rightarrow> crypto_word_t" where
  "constant_time_eq_w a b = constant_time_is_zero_w (a XOR b)"

definition constant_time_eq_8 :: "crypto_word_t \<Rightarrow> crypto_word_t \<Rightarrow> byte" where
  "constant_time_eq_8 a b = ucast (constant_time_eq_w a b)"

text \<open>An \<^verbatim>\<open>int\<close> is a signed 32-bit word; the conversion to \<^verbatim>\<open>crypto_word_t\<close> extends the sign.\<close>

definition constant_time_eq_int :: "u32 \<Rightarrow> u32 \<Rightarrow> crypto_word_t" where
  "constant_time_eq_int a b = constant_time_eq_w (scast a) (scast b)"

definition constant_time_eq_int_8 :: "u32 \<Rightarrow> u32 \<Rightarrow> byte" where
  "constant_time_eq_int_8 a b = constant_time_eq_8 (scast a) (scast b)"

definition constant_time_select_w :: "crypto_word_t \<Rightarrow> crypto_word_t \<Rightarrow> crypto_word_t \<Rightarrow> crypto_word_t" where
  "constant_time_select_w mask0 a b =
     (let m = value_barrier_w mask0 in (m AND a) OR (NOT m AND b))"

definition constant_time_select_8 :: "crypto_word_t \<Rightarrow> byte \<Rightarrow> byte \<Rightarrow> byte" where
  "constant_time_select_8 mask0 a b =
     (let m = ucast (value_barrier_w mask0) in (m AND a) OR (NOT m AND b))"

definition constant_time_select_int :: "crypto_word_t \<Rightarrow> u32 \<Rightarrow> u32 \<Rightarrow> u32" where
  "constant_time_select_int mask0 a b = ucast (constant_time_select_w mask0 (scast a) (scast b))"

text \<open>The two loops over a destination and a source of \<open>n\<close> bytes that do not overlap.\<close>

definition constant_time_conditional_memcpy ::
  "byte list \<Rightarrow> byte list \<Rightarrow> nat \<Rightarrow> crypto_word_t \<Rightarrow> byte list" where
  "constant_time_conditional_memcpy dst src n mask0 =
     foldl (\<lambda>d i. d[i := constant_time_select_8 mask0 (src ! i) (d ! i)]) dst [0..<n]"

definition constant_time_conditional_memxor ::
  "byte list \<Rightarrow> byte list \<Rightarrow> nat \<Rightarrow> crypto_word_t \<Rightarrow> byte list" where
  "constant_time_conditional_memxor dst src n mask0 =
     foldl (\<lambda>d i. d[i := d ! i XOR ucast (value_barrier_w mask0 AND ucast (src ! i))]) dst [0..<n]"

text \<open>The masks.\<close>

abbreviation mask_w :: "bool \<Rightarrow> crypto_word_t" where
  "mask_w b \<equiv> (if b then - 1 else 0)"

abbreviation mask_8 :: "bool \<Rightarrow> byte" where
  "mask_8 b \<equiv> (if b then 0xff else 0)"

section \<open>Meaning\<close>

lemma bit_63_iff: "bit (a :: u64) 63 \<longleftrightarrow> 2 ^ 63 \<le> unat a"
proof
  assume "bit a 63"
  then show "2 ^ 63 \<le> unat a" using high_bits_clear [of a 63 63] by (auto simp: not_le [symmetric])
next
  assume le: "2 ^ 63 \<le> unat a"
  show "bit a 63"
  proof (rule ccontr)
    assume n: "\<not> bit a 63"
    have "take_bit 63 a = a"
    proof (rule bit_word_eqI)
      fix n
      assume "n < LENGTH(64)"
      then have "n < 63 \<or> n = 63" by auto
      with n show "bit (take_bit 63 a) n = bit a n" by (auto simp: bit_simps)
    qed
    then have "unat a = take_bit 63 (unat a)" by (metis unsigned_take_bit_eq)
    moreover have "take_bit 63 (unat a) < 2 ^ 63" by (rule take_bit_nat_less_exp)
    ultimately show False using le by simp
  qed
qed

lemma msb_w: "constant_time_msb_w a = mask_w (bit a 63)"
proof -
  have "drop_bit 63 a = (if bit a 63 then 1 else 0)"
  proof (rule bit_word_eqI)
    fix n
    have "bit a (63 + n) \<longleftrightarrow> n = 0 \<and> bit a 63"
      using bit_imp_le_length [of a "63 + n"] by (cases "n = 0") auto
    then show "bit (drop_bit 63 a) n = bit (if bit a 63 then 1 else 0 :: u64) n"
      by (auto simp: bit_simps)
  qed
  then show ?thesis by (simp add: constant_time_msb_w_def)
qed

lemma sub_msb:
  assumes "bit a 63 = bit b 63"
  shows "bit (a - b :: u64) 63 \<longleftrightarrow> a < b"
proof (cases "a < b")
  case True
  then have "unat (a - b) = 2 ^ 64 + unat a - unat b"
    by (simp add: unat_sub_if_size word_size word_less_nat_alt)
  moreover have "unat b \<le> unat a + 2 ^ 63" using assms unat_less_64 [of b] by (auto simp: bit_63_iff)
  ultimately show ?thesis using True by (simp add: bit_63_iff)
next
  case False
  then have "unat (a - b) = unat a - unat b" by (simp add: unat_sub not_less)
  moreover have "unat a - unat b < 2 ^ 63" using assms unat_less_64 [of a] by (auto simp: bit_63_iff)
  ultimately show ?thesis using False by (simp add: bit_63_iff)
qed

lemma lt_w: "constant_time_lt_w a b = mask_w (a < b)"
proof -
  have "bit (a XOR ((a XOR b) OR ((a - b) XOR a))) 63 \<longleftrightarrow> a < b"
  proof (cases "bit a 63 = bit b 63")
    case True
    then show ?thesis using sub_msb [OF True] by (auto simp: bit_simps)
  next
    case False
    then have "a < b \<longleftrightarrow> bit b 63" by (auto simp: bit_63_iff word_less_nat_alt)
    with False show ?thesis by (auto simp: bit_simps)
  qed
  then show ?thesis by (simp add: constant_time_lt_w_def msb_w)
qed

lemma is_zero_w: "constant_time_is_zero_w a = mask_w (a = 0)"
proof (cases "a = 0")
  case False
  then have "unat (a - 1) = unat a - 1" using unat_sub [of 1 a] by (simp add: word_le_nat_alt unat_gt_0 Suc_leI)
  then have "bit (a - 1) 63 \<Longrightarrow> bit a 63" by (simp add: bit_63_iff)
  then have "\<not> bit (NOT a AND (a - 1)) 63" by (auto simp: bit_simps)
  with False show ?thesis by (simp add: constant_time_is_zero_w_def msb_w)
qed (simp add: constant_time_is_zero_w_def msb_w)

lemma eq_w: "constant_time_eq_w a b = mask_w (a = b)"
proof -
  have "a XOR b = 0 \<longleftrightarrow> a = b" by (auto simp: bit_eq_iff bit_simps)
  then show ?thesis by (simp add: constant_time_eq_w_def is_zero_w)
qed

lemma ucast_mask: "(ucast (mask_w b) :: byte) = mask_8 b"
  by (simp add: unsigned_minus_1_eq_mask mask_eq_exp_minus_1) 

lemma eq_8: "constant_time_eq_8 a b = mask_8 (a = b)"
  by (simp add: constant_time_eq_8_def eq_w ucast_mask)

lemma select_w: "constant_time_select_w (mask_w c) a b = (if c then a else b)"
  by (simp add: constant_time_select_w_def value_barrier_w_def)

text \<open>The selector takes a word; a byte mask passed to it is extended with zeros.\<close>

lemma select_8: "constant_time_select_8 (mask_w c) a b = (if c then a else b)"
  and select_8_byte: "constant_time_select_8 (ucast (mask_8 c)) a b = (if c then a else b)"
proof -
  have m: "(ucast (- 1 :: u64) :: byte) = - 1" by (rule bit_word_eqI) (simp add: bit_simps)
  show "constant_time_select_8 (mask_w c) a b = (if c then a else b)"
    by (simp add: constant_time_select_8_def value_barrier_w_def Let_def m)
  have "(ucast (ucast (mask_8 c) :: u64) :: byte) = (if c then - 1 else 0)" by simp
  then show "constant_time_select_8 (ucast (mask_8 c)) a b = (if c then a else b)"
    by (simp only: constant_time_select_8_def value_barrier_w_def Let_def) simp
qed

lemma ucast_scast_int: "(ucast (scast x :: u64) :: u32) = x"
  by (rule bit_word_eqI) (auto simp: bit_simps)

lemma scast_inj: "(scast (a :: u32) :: u64) = scast b \<longleftrightarrow> a = b"
  by (metis ucast_scast_int)

lemma select_int: "constant_time_select_int (mask_w c) a b = (if c then a else b)"
  using ucast_scast_int by (simp only: constant_time_select_int_def select_w) simp

lemma foldl_update:
  "n \<le> length d \<Longrightarrow>
   foldl (\<lambda>d i. d[i := f i (d ! i)]) d [0..<n] = map (\<lambda>i. f i (d ! i)) [0..<n] @ drop n d"
proof (induction n)
  case (Suc n)
  then have "foldl (\<lambda>d i. d[i := f i (d ! i)]) d [0..<n] = map (\<lambda>i. f i (d ! i)) [0..<n] @ drop n d" by simp
  with Suc.prems show ?case by (simp add: list_update_append nth_append Cons_nth_drop_Suc [symmetric])
qed simp

lemma conditional_memcpy:
  assumes "n \<le> length dst" "n \<le> length src"
  shows "constant_time_conditional_memcpy dst src n (mask_w c) = (if c then take n src @ drop n dst else dst)"
proof -
  have "constant_time_conditional_memcpy dst src n (mask_w c) =
      map (\<lambda>i. if c then src ! i else dst ! i) [0..<n] @ drop n dst"
    unfolding constant_time_conditional_memcpy_def select_8
    by (rule foldl_update [OF assms(1), of "\<lambda>i x. if c then src ! i else x"])
  also have "map (\<lambda>i. if c then src ! i else dst ! i) [0..<n] = take n (if c then src else dst)"
    using assms by (auto intro: nth_equalityI)
  finally show ?thesis by simp
qed

lemma conditional_memxor:
  assumes "n \<le> length dst" "n \<le> length src"
  shows "constant_time_conditional_memxor dst src n (mask_w c) =
    (if c then map2 (XOR) (take n dst) (take n src) @ drop n dst else dst)"
proof -
  have m: "(ucast (value_barrier_w (mask_w c) AND ucast (x :: byte)) :: byte) = (if c then x else 0)" for x
    by (simp add: value_barrier_w_def) (rule impI, rule bit_word_eqI, simp add: bit_simps)
  have "constant_time_conditional_memxor dst src n (mask_w c) =
      map (\<lambda>i. dst ! i XOR (if c then src ! i else 0)) [0..<n] @ drop n dst"
    unfolding constant_time_conditional_memxor_def m
    by (rule foldl_update [OF assms(1), of "\<lambda>i x. x XOR (if c then src ! i else 0)"])
  also have "map (\<lambda>i. dst ! i XOR (if c then src ! i else 0)) [0..<n] =
      (if c then map2 (XOR) (take n dst) (take n src) else take n dst)"
    using assms by (auto intro: nth_equalityI)
  finally show ?thesis by simp
qed

text \<open>
  C29 (equivalence). Every branch-free primitive computes what the branching expression would:
  the comparisons give the all-ones mask exactly when they hold, on all 64-bit values (where
  the difference of the operands wraps as well), and the selectors, the conditional copy and the
  conditional exclusive or follow the mask.
\<close>

theorem constant_time_meaning:
  assumes "n \<le> length dst" and "n \<le> length src"
  shows "constant_time_lt_w a b = mask_w (a < b) \<and> constant_time_ge_w a b = mask_w (a \<ge> b) \<and>
    constant_time_is_zero_w a = mask_w (a = 0) \<and> constant_time_eq_w a b = mask_w (a = b) \<and>
    constant_time_eq_int i j = mask_w (i = j) \<and>
    constant_time_lt_8 a b = mask_8 (a < b) \<and> constant_time_ge_8 a b = mask_8 (a \<ge> b) \<and>
    constant_time_is_zero_8 a = mask_8 (a = 0) \<and> constant_time_eq_int_8 i j = mask_8 (i = j) \<and>
    constant_time_select_w (mask_w c) a b = (if c then a else b) \<and>
    constant_time_select_8 (mask_w c) x y = (if c then x else y) \<and>
    constant_time_select_int (mask_w c) i j = (if c then i else j) \<and>
    constant_time_conditional_memcpy dst src n (mask_w c) = (if c then take n src @ drop n dst else dst) \<and>
    constant_time_conditional_memxor dst src n (mask_w c) =
      (if c then map2 (XOR) (take n dst) (take n src) @ drop n dst else dst)"
proof -
  have ge: "constant_time_ge_w a b = mask_w (a \<ge> b)"
    by (auto simp: constant_time_ge_w_def lt_w not_less)
  have "constant_time_ge_8 a b = mask_8 (a \<ge> b)" unfolding constant_time_ge_8_def ge by (rule ucast_mask)
  moreover have "constant_time_lt_8 a b = mask_8 (a < b)"
    unfolding constant_time_lt_8_def lt_w by (rule ucast_mask)
  moreover have "constant_time_is_zero_8 a = mask_8 (a = 0)"
    unfolding constant_time_is_zero_8_def is_zero_w by (rule ucast_mask)
  moreover have "constant_time_eq_int i j = mask_w (i = j)" "constant_time_eq_int_8 i j = mask_8 (i = j)"
    by (simp_all add: constant_time_eq_int_def constant_time_eq_int_8_def eq_w eq_8 scast_inj)
  ultimately show ?thesis
    using assms ge lt_w is_zero_w eq_w select_w select_8 select_int conditional_memcpy conditional_memxor
    by (intro conjI) blast+
qed

theorem constant_time_meaning_witness:
  "constant_time_conditional_memcpy [1, 2, 3] [7, 8] 2 (- 1) = [7, 8, 3] \<and>
   constant_time_lt_w (- 1) 0 = 0"
  using constant_time_meaning [of 2 "[1, 2, 3]" "[7, 8]" "- 1" 0 0 0 True] by simp

end
