(* ===== verification/Base64.thy ===== *)
theory Base64
  imports Constant_Time Mem
begin

unbundle bit_operations_syntax

text \<open>
  BoringSSL's base64 codec (\<^verbatim>\<open>crypto/base64/base64.c\<close>): the one-shot encoder and decoders and
  the streaming encoder and decoder with their 48-byte context. An output buffer is the list
  of the bytes that were stored in it, the zero byte behind the text included.
\<close>

section \<open>Encoding\<close>

definition constant_time_lt_args_8 :: "byte \<Rightarrow> byte \<Rightarrow> byte" where
  "constant_time_lt_args_8 a b =
     (let aw = ucast a :: crypto_word_t; bw = ucast b in ucast (constant_time_msb_w (aw - bw)))"

definition constant_time_in_range_8 :: "byte \<Rightarrow> byte \<Rightarrow> byte \<Rightarrow> byte" where
  "constant_time_in_range_8 a mn mx = constant_time_lt_args_8 (a - mn) (mx - mn + 1)"

definition conv_bin2ascii :: "byte \<Rightarrow> byte" where
  "conv_bin2ascii a0 =
     (let a = a0 AND 0x3f;
          ret = constant_time_select_8 (ucast (constant_time_eq_8 (ucast a) 62)) 43 47;
          ret = constant_time_select_8 (ucast (constant_time_lt_args_8 a 62)) (a - 52 + 48) ret;
          ret = constant_time_select_8 (ucast (constant_time_lt_args_8 a 52)) (a - 26 + 97) ret
      in constant_time_select_8 (ucast (constant_time_lt_args_8 a 26)) (a + 65) ret)"

definition EVP_EncodedLength :: "size_t \<Rightarrow> size_t option" where
  "EVP_EncodedLength len0 =
     (if len0 + 2 < len0 then None
      else let len = (len0 + 2) div 3 in
        if drop_bit 2 (push_bit 2 len) \<noteq> len then None
        else let len = push_bit 2 len in
          if len + 1 < len then None else Some (len + 1))"

record EVP_ENCODE_CTX =
  data_used :: u32
  data :: "byte list"
  eof_seen :: bool
  error_encountered :: bool

definition zero_ctx :: EVP_ENCODE_CTX where
  "zero_ctx = \<lparr>data_used = 0, data = replicate 48 0, eof_seen = False, error_encountered = False\<rparr>"

text \<open>\<open>sizeof(EVP_ENCODE_CTX)\<close> is 56: the counter, the data, two characters and padding.\<close>

definition EVP_ENCODE_CTX_new :: "(size_t \<Rightarrow> bool) \<Rightarrow> EVP_ENCODE_CTX option" where
  "EVP_ENCODE_CTX_new al = (if OPENSSL_zalloc al 56 = None then None else Some zero_ctx)"

definition EVP_EncodeInit :: "EVP_ENCODE_CTX \<Rightarrow> EVP_ENCODE_CTX" where
  "EVP_EncodeInit ctx = zero_ctx"

text \<open>
  The loop of \<^verbatim>\<open>EVP_EncodeBlock\<close>: the characters, and the count that it returns.
\<close>

fun encode_loop :: "byte list \<Rightarrow> size_t \<Rightarrow> byte list \<times> size_t" where
  "encode_loop [] ret = ([], ret)"
| "encode_loop [s0] ret =
     (let l = push_bit 16 (ucast s0) :: u32
      in ([conv_bin2ascii (ucast (drop_bit 18 l)), conv_bin2ascii (ucast (drop_bit 12 l)), 61, 61], ret + 4))"
| "encode_loop [s0, s1] ret =
     (let l = push_bit 16 (ucast s0) OR push_bit 8 (ucast s1) :: u32
      in ([conv_bin2ascii (ucast (drop_bit 18 l)), conv_bin2ascii (ucast (drop_bit 12 l)),
           conv_bin2ascii (ucast (drop_bit 6 l)), 61], ret + 4))"
| "encode_loop (s0 # s1 # s2 # src) ret =
     (let l = push_bit 16 (ucast s0) OR push_bit 8 (ucast s1) OR ucast s2 :: u32;
          (dst, r) = encode_loop src (ret + 4)
      in ([conv_bin2ascii (ucast (drop_bit 18 l)), conv_bin2ascii (ucast (drop_bit 12 l)),
           conv_bin2ascii (ucast (drop_bit 6 l)), conv_bin2ascii (ucast l)] @ dst, r))"

definition EVP_EncodeBlock :: "byte list \<Rightarrow> byte list \<times> size_t" where
  "EVP_EncodeBlock src = (case encode_loop src 0 of (dst, ret) \<Rightarrow> (dst @ [0], ret))"

text \<open>
  One line: the encoding of 48 bytes and a newline behind what has been written so far. The
  zero byte that follows it is overwritten by the next line.
\<close>

definition put_line :: "byte list \<Rightarrow> byte list \<Rightarrow> byte list" where
  "put_line out bs = (case EVP_EncodeBlock bs of (dst, encoded) \<Rightarrow> out @ take (unat encoded) dst @ [10])"

text \<open>
  The loop over full lines. \<open>tot\<close> (the source's \<^verbatim>\<open>total\<close>) is a 64-bit count of what was written; the last component
  tells whether it overflowed.
\<close>

function encode_lines :: "byte list \<Rightarrow> byte list \<Rightarrow> size_t \<Rightarrow> byte list \<times> byte list \<times> size_t \<times> bool" where
  "encode_lines inp out tot =
     (if length inp \<ge> 48 then
        let encoded = snd (EVP_EncodeBlock (take 48 inp)); out' = put_line out (take 48 inp)
        in if tot + encoded + 1 < tot then (drop 48 inp, out', tot, True)
           else encode_lines (drop 48 inp) out' (tot + (encoded + 1))
      else (inp, out, tot, False))"
  by pat_completeness auto
termination
  by (relation "measure (\<lambda>(inp, _, _). length inp)") auto

declare encode_lines.simps [simp del]

text \<open>What is in the output buffer: a zero byte follows the last line, if there was one.\<close>

definition terminated :: "byte list \<Rightarrow> byte list" where
  "terminated out = (if out = [] then [] else out @ [0])"

text \<open>
  \<^verbatim>\<open>EVP_EncodeUpdate\<close> gives the context, the bytes stored and \<open>*out_len\<close>; \<open>None\<close> is a failed
  assertion.
\<close>

definition EVP_EncodeUpdate ::
  "EVP_ENCODE_CTX \<Rightarrow> byte list \<Rightarrow> (EVP_ENCODE_CTX \<times> byte list \<times> int) option" where
  "EVP_EncodeUpdate ctx inp =
     (if inp = [] then Some (ctx, [], 0)
      else let used = unat (data_used ctx) in
        if \<not> used < 48 then None
        else if 48 - used > length inp then
          Some (ctx\<lparr>data := store_at used inp (data ctx),
                    data_used := data_used ctx + of_nat (length inp)\<rparr>, [], 0)
        else
          let (ctx1, inp1, out1, total1) =
                (if used \<noteq> 0 then
                   let todo = 48 - used;
                       d = store_at used (take todo inp) (data ctx)
                   in (ctx\<lparr>data := d, data_used := 0\<rparr>, drop todo inp, put_line [] d,
                       snd (EVP_EncodeBlock d) + 1)
                 else (ctx, inp, [], 0))
          in case encode_lines inp1 out1 total1 of
               (inp2, out2, total2, overflow) \<Rightarrow>
                 if overflow then Some (ctx1, terminated out2, 0)
                 else
                   let ctx2 = (if inp2 \<noteq> [] then ctx1\<lparr>data := store_at 0 inp2 (data ctx1)\<rparr> else ctx1)
                                \<lparr>data_used := of_nat (length inp2)\<rparr>
                   in Some (ctx2, terminated out2, if total2 > 2147483647 then 0 else uint total2))"

definition EVP_EncodeFinal :: "EVP_ENCODE_CTX \<Rightarrow> EVP_ENCODE_CTX \<times> byte list \<times> int" where
  "EVP_EncodeFinal ctx =
     (if data_used ctx = 0 then (ctx, [], 0)
      else let out = put_line [] (take (unat (data_used ctx)) (data ctx))
           in (ctx\<lparr>data_used := 0\<rparr>, terminated out, int (length out)))"

section \<open>Decoding\<close>

definition EVP_DecodedLength :: "size_t \<Rightarrow> size_t option" where
  "EVP_DecodedLength len = (if len mod 4 \<noteq> 0 then None else Some ((len div 4) * 3))"

definition EVP_DecodeInit :: "EVP_ENCODE_CTX \<Rightarrow> EVP_ENCODE_CTX" where
  "EVP_DecodeInit ctx = zero_ctx"

definition base64_ascii_to_bin :: "byte \<Rightarrow> byte" where
  "base64_ascii_to_bin a =
     (let is_upper = constant_time_in_range_8 a 65 90;
          is_lower = constant_time_in_range_8 a 97 122;
          is_digit = constant_time_in_range_8 a 48 57;
          is_plus = constant_time_eq_8 (ucast a) 43;
          is_slash = constant_time_eq_8 (ucast a) 47;
          is_equals = constant_time_eq_8 (ucast a) 61;
          ret = (is_upper AND (a - 65)) OR (is_lower AND (a - 97 + 26)) OR (is_digit AND (a - 48 + 52)) OR
                (is_plus AND 62) OR (is_slash AND 63);
          is_valid = is_upper OR is_lower OR is_digit OR is_plus OR is_slash OR is_equals
      in ret OR NOT is_valid)"

text \<open>The bytes that a quad stands for.\<close>

definition base64_decode_quad :: "byte \<Rightarrow> byte \<Rightarrow> byte \<Rightarrow> byte \<Rightarrow> byte list option" where
  "base64_decode_quad i0 i1 i2 i3 =
     (let a = base64_ascii_to_bin i0; b = base64_ascii_to_bin i1;
          c = base64_ascii_to_bin i2; d = base64_ascii_to_bin i3
      in if a = 0xff \<or> b = 0xff \<or> c = 0xff \<or> d = 0xff then None
         else
           let v = push_bit 18 (ucast a) OR push_bit 12 (ucast b) OR push_bit 6 (ucast c) OR ucast d :: u32;
               padding_pattern = push_bit 3 (of_bool (i0 = 61)) OR push_bit 2 (of_bool (i1 = 61)) OR
                                 push_bit 1 (of_bool (i2 = 61)) OR of_bool (i3 = 61) :: u32
           in if padding_pattern = 0 then Some [ucast (drop_bit 16 v), ucast (drop_bit 8 v), ucast v]
              else if padding_pattern = 1 then Some [ucast (drop_bit 16 v), ucast (drop_bit 8 v)]
              else if padding_pattern = 3 then Some [ucast (drop_bit 16 v)]
              else None)"

definition is_space :: "byte \<Rightarrow> bool" where
  "is_space c \<longleftrightarrow> c = 32 \<or> c = 9 \<or> c = 13 \<or> c = 10"

text \<open>
  The loop of \<^verbatim>\<open>EVP_DecodeUpdate\<close>: the bytes stored so far, whether it returned an error, and
  the context.
\<close>

fun decode_update_loop :: "EVP_ENCODE_CTX \<Rightarrow> byte list \<Rightarrow> byte list \<Rightarrow> byte list \<times> bool \<times> EVP_ENCODE_CTX" where
  "decode_update_loop ctx out [] = (out, False, ctx)"
| "decode_update_loop ctx out (c # inp) =
     (if is_space c then decode_update_loop ctx out inp
      else if eof_seen ctx then (out, True, ctx\<lparr>error_encountered := True\<rparr>)
      else
        let ctx1 = ctx\<lparr>data := (data ctx)[unat (data_used ctx) := c], data_used := data_used ctx + 1\<rparr>
        in if data_used ctx1 = 4 then
             (case base64_decode_quad (data ctx1 ! 0) (data ctx1 ! 1) (data ctx1 ! 2) (data ctx1 ! 3) of
                None \<Rightarrow> (out, True, ctx1\<lparr>error_encountered := True\<rparr>)
              | Some bs \<Rightarrow>
                  let ctx2 = ctx1\<lparr>data_used := 0\<rparr>;
                      ctx3 = (if length bs < 3 then ctx2\<lparr>eof_seen := True\<rparr> else ctx2)
                  in decode_update_loop ctx3 (out @ bs) inp)
           else decode_update_loop ctx1 out inp)"

text \<open>The result, \<open>*out_len\<close>, the bytes stored, and the context.\<close>

definition EVP_DecodeUpdate :: "EVP_ENCODE_CTX \<Rightarrow> byte list \<Rightarrow> int \<times> int \<times> byte list \<times> EVP_ENCODE_CTX" where
  "EVP_DecodeUpdate ctx inp =
     (if error_encountered ctx then (- 1, 0, [], ctx)
      else case decode_update_loop ctx [] inp of
        (out, failed, ctx1) \<Rightarrow>
          if failed then (- 1, 0, out, ctx1)
          else let bytes_out = of_nat (length out) :: size_t in
            if bytes_out > 2147483647 then (- 1, 0, out, ctx1\<lparr>error_encountered := True\<rparr>)
            else (if eof_seen ctx1 then 0 else 1, uint bytes_out, out, ctx1))"

definition EVP_DecodeFinal :: "EVP_ENCODE_CTX \<Rightarrow> int" where
  "EVP_DecodeFinal ctx = (if error_encountered ctx \<or> data_used ctx \<noteq> 0 then - 1 else 1)"

text \<open>
  The loop of \<^verbatim>\<open>EVP_DecodeBase64\<close>; padding is allowed in the last quad only. The length is a
  multiple of four when it runs.
\<close>

fun decode_quads :: "byte list \<Rightarrow> byte list \<Rightarrow> byte list option" where
  "decode_quads out (i0 # i1 # i2 # i3 # inp) =
     (case base64_decode_quad i0 i1 i2 i3 of
        None \<Rightarrow> None
      | Some bs \<Rightarrow> if length bs \<noteq> 3 \<and> inp \<noteq> [] then None else decode_quads (out @ bs) inp)"
| "decode_quads out _ = Some out"

definition EVP_DecodeBase64 :: "size_t \<Rightarrow> byte list \<Rightarrow> byte list option" where
  "EVP_DecodeBase64 max_out inp =
     (let in_len = of_nat (length inp) :: size_t in
      if in_len mod 4 \<noteq> 0 then None
      else case EVP_DecodedLength in_len of
        None \<Rightarrow> None
      | Some max_len \<Rightarrow> if max_out < max_len then None else decode_quads [] inp)"

function pad_zeros :: "byte list \<Rightarrow> byte list" where
  "pad_zeros dst = (if length dst mod 3 \<noteq> 0 then pad_zeros (dst @ [0]) else dst)"
  by pat_completeness auto
termination
proof (relation "measure (\<lambda>dst. (3 - length dst mod 3) mod 3)")
  fix dst :: "byte list"
  assume "length dst mod 3 \<noteq> 0"
  then have "length dst mod 3 = 1 \<or> length dst mod 3 = 2" by linarith
  then show "(dst @ [0], dst) \<in> measure (\<lambda>dst. (3 - length dst mod 3) mod 3)"
    by (auto simp: mod_Suc)
qed simp

declare pad_zeros.simps [simp del]

definition trim :: "byte list \<Rightarrow> byte list" where
  "trim src = rev (dropWhile is_space (rev (dropWhile (\<lambda>c. c = 32 \<or> c = 9) src)))"

text \<open>The bytes stored on success; the C function returns their number.\<close>

definition EVP_DecodeBlock :: "byte list \<Rightarrow> byte list option" where
  "EVP_DecodeBlock src0 =
     (let src = trim src0 in
      case EVP_DecodedLength (of_nat (length src)) of
        None \<Rightarrow> None
      | Some dst_len \<Rightarrow>
          if dst_len > 2147483647 then None
          else map_option pad_zeros (EVP_DecodeBase64 dst_len src))"

section \<open>The alphabet\<close>

definition b64_char :: "byte \<Rightarrow> byte" where
  "b64_char x = (if x < 26 then x + 65 else if x < 52 then x - 26 + 97
     else if x < 62 then x - 52 + 48 else if x = 62 then 43 else 47)"

lemma lt_args_8: "constant_time_lt_args_8 a b = mask_8 (a < b)"
proof -
  have "\<not> bit (ucast x :: u64) 63" for x :: byte
    using bit_byte_le [of x 63] by (auto simp: bit_simps)
  then have "bit (ucast a - ucast b :: u64) 63 \<longleftrightarrow> a < b"
    by (subst sub_msb) (simp_all add: word_less_nat_alt unat_ucast_byte)
  then show ?thesis by (simp add: constant_time_lt_args_8_def msb_w ucast_mask)
qed

lemma ucast_eq_byte: "(ucast (a :: byte) :: u64) = ucast b \<longleftrightarrow> a = b"
proof
  assume "(ucast a :: u64) = ucast b"
  then have "unat (ucast a :: u64) = unat (ucast b :: u64)" by simp
  then show "a = b" by (simp add: unat_ucast_byte word_unat_eq_iff)
qed simp

lemma unat_bin: "unat (a AND 0x3f :: byte) < 64"
proof -
  have "a AND 0x3f = take_bit 6 a" by (simp add: take_bit_eq_mask mask_eq_exp_minus_1)
  moreover have "unat (take_bit 6 a) < 2 ^ 6" unfolding unsigned_take_bit_eq by (rule take_bit_nat_less_exp)
  ultimately show ?thesis by simp
qed

lemma conv_bin2ascii_char: "conv_bin2ascii a = b64_char (a AND 0x3f)"
proof -
  have "constant_time_eq_8 (ucast (a AND 0x3f)) 62 = mask_8 (a AND 0x3f = 62)"
    using ucast_eq_byte [of "a AND 0x3f" 62] by (simp add: eq_8)
  then show ?thesis
    unfolding conv_bin2ascii_def Let_def lt_args_8 by (simp only: select_8_byte b64_char_def)
qed

lemma in_range_8:
  assumes "mn \<le> mx" "mx - mn \<noteq> - 1"
  shows "constant_time_in_range_8 a mn mx = mask_8 (mn \<le> a \<and> a \<le> mx)"
proof -
  have u: "unat (mx - mn) = unat mx - unat mn" using assms(1) by (rule unat_sub)
  have "unat (mx - mn) \<noteq> 255" using assms(2) by (auto simp: word_unat_eq_iff unsigned_minus_1_eq_mask mask_eq_exp_minus_1)
  then have v: "unat (mx - mn + 1) = unat mx - unat mn + 1"
    using u unat_less_8 [of "mx - mn"] by (simp add: unat_word_ariths)
  have "a - mn < mx - mn + 1 \<longleftrightarrow> mn \<le> a \<and> a \<le> mx"
  proof (cases "mn \<le> a")
    case True
    then have "unat (a - mn) = unat a - unat mn" by (rule unat_sub)
    with True assms(1) v show ?thesis by (auto simp: word_less_nat_alt word_le_nat_alt)
  next
    case False
    then have "unat (a - mn) = 256 + unat a - unat mn"
      by (simp add: unat_sub_if_size word_size word_le_nat_alt)
    with False assms(1) v unat_less_8 [of mx] show ?thesis by (simp add: word_less_nat_alt word_le_nat_alt)
  qed
  then show ?thesis by (simp add: constant_time_in_range_8_def lt_args_8)
qed

definition b64_value :: "byte \<Rightarrow> byte option" where
  "b64_value c = (if 65 \<le> c \<and> c \<le> 90 then Some (c - 65) else if 97 \<le> c \<and> c \<le> 122 then Some (c - 97 + 26)
     else if 48 \<le> c \<and> c \<le> 57 then Some (c - 48 + 52) else if c = 43 then Some 62 else if c = 47 then Some 63
     else if c = 61 then Some 0 else None)"

lemma ascii_to_bin_value:
  "base64_ascii_to_bin c = (case b64_value c of None \<Rightarrow> 0xff | Some v \<Rightarrow> v)"
proof -
  have r: "constant_time_in_range_8 c 65 90 = mask_8 (65 \<le> c \<and> c \<le> 90)"
      "constant_time_in_range_8 c 97 122 = mask_8 (97 \<le> c \<and> c \<le> 122)"
      "constant_time_in_range_8 c 48 57 = mask_8 (48 \<le> c \<and> c \<le> 57)"
    by (rule in_range_8; simp)+
  have e: "constant_time_eq_8 (ucast c) 43 = mask_8 (c = 43)" "constant_time_eq_8 (ucast c) 47 = mask_8 (c = 47)"
      "constant_time_eq_8 (ucast c) 61 = mask_8 (c = 61)"
    using ucast_eq_byte [of c 43] ucast_eq_byte [of c 47] ucast_eq_byte [of c 61] by (simp_all add: eq_8)
  have m: "(255 :: byte) = - 1" by simp
  have d: "c \<le> 90 \<Longrightarrow> \<not> 97 \<le> c" "c \<le> 57 \<Longrightarrow> \<not> 65 \<le> c" "c \<le> 57 \<Longrightarrow> \<not> 97 \<le> c" by (auto simp: word_le_nat_alt)
  have s: "\<not> (48 :: byte) \<le> 43" "\<not> (48 :: byte) \<le> 47" "\<not> (61 :: byte) \<le> 57" by simp_all
  show ?thesis
    unfolding base64_ascii_to_bin_def Let_def r e b64_value_def
    using d by (cases "65 \<le> c \<and> c \<le> 90"; cases "97 \<le> c \<and> c \<le> 122"; cases "48 \<le> c \<and> c \<le> 57")
       (auto simp: m)
qed

lemma b64_char_value:
  assumes "unat x < 64"
  shows "b64_value (b64_char x) = Some x" "b64_char x \<noteq> 61"
proof -
  have "b64_value (b64_char x) = Some x \<and> b64_char x \<noteq> 61"
  proof -
    have "\<forall>n \<in> set [0..<64]. b64_value (b64_char (of_nat n)) = Some (of_nat n) \<and> b64_char (of_nat n) \<noteq> 61"
      by code_simp
    then have "b64_value (b64_char (of_nat (unat x))) = Some (of_nat (unat x)) \<and> b64_char (of_nat (unat x)) \<noteq> 61"
      using assms by (simp del: of_nat_unat)
    then show ?thesis by simp
  qed
  then show "b64_value (b64_char x) = Some x" "b64_char x \<noteq> 61" by auto
qed

lemma conv_roundtrip:
  "base64_ascii_to_bin (conv_bin2ascii a) = a AND 0x3f" "conv_bin2ascii a \<noteq> 61"
  using b64_char_value [OF unat_bin, of a] by (simp_all add: conv_bin2ascii_char ascii_to_bin_value)

section \<open>Quads\<close>

lemma bit_3F [byte_simps]: "bit (0x3F :: int) n \<longleftrightarrow> n < 6"
  using bit_mask_iff [of 6 n, where ?'a = int] by (simp add: mask_eq_exp_minus_1)

lemma sextets:
  fixes l :: u32
  assumes "\<forall>n. bit l n \<longrightarrow> n < 24"
  shows "push_bit 18 (ucast (ucast (drop_bit 18 l) AND 0x3f :: byte)) OR
      push_bit 12 (ucast (ucast (drop_bit 12 l) AND 0x3f :: byte)) OR
      push_bit 6 (ucast (ucast (drop_bit 6 l) AND 0x3f :: byte)) OR
      ucast (ucast l AND 0x3f :: byte) = l" (is "?v = l")
proof (rule bit_word_eqI)
  fix n
  assume "n < LENGTH(32)"
  consider "n < 6" | "6 \<le> n" "n < 12" | "12 \<le> n" "n < 18" | "18 \<le> n" "n < 24" | "24 \<le> n" by linarith
  then show "bit ?v n = bit l n"
    using assms \<open>n < LENGTH(32)\<close> by cases (auto simp: bit_simps byte_simps)
qed

lemma bytes_of_24:
  fixes s0 s1 s2 :: byte
  defines "l \<equiv> push_bit 16 (ucast s0) OR push_bit 8 (ucast s1) OR ucast s2 :: u32"
  shows "\<forall>n. bit l n \<longrightarrow> n < 24" and "ucast (drop_bit 16 l) = s0" and "ucast (drop_bit 8 l) = s1"
    and "ucast l = s2"
proof -
  show "\<forall>n. bit l n \<longrightarrow> n < 24" unfolding l_def by (auto simp: bit_simps dest: bit_byte_le)
  show "ucast (drop_bit 16 l) = s0" "ucast (drop_bit 8 l) = s1" "ucast l = s2"
    unfolding l_def by (rule bit_word_eqI; auto simp: bit_simps dest: bit_byte_le)+
qed

lemma bin_not_ff: "a AND 0x3f \<noteq> (0xff :: byte)"
proof
  assume "a AND 0x3f = (0xff :: byte)"
  with unat_bin [of a] show False by simp
qed

lemma equals_bin: "base64_ascii_to_bin 61 = 0"
  by (simp add: ascii_to_bin_value b64_value_def)

lemma decode_quad_eq:
  assumes "base64_ascii_to_bin i0 = a" "base64_ascii_to_bin i1 = b" "base64_ascii_to_bin i2 = c"
    "base64_ascii_to_bin i3 = d" and "a \<noteq> 0xff" "b \<noteq> 0xff" "c \<noteq> 0xff" "d \<noteq> 0xff"
    and "push_bit 18 (ucast a) OR push_bit 12 (ucast b) OR push_bit 6 (ucast c) OR ucast d = (v :: u32)"
    and "i0 \<noteq> 61" "i1 \<noteq> 61"
  shows "base64_decode_quad i0 i1 i2 i3 =
    (if i3 \<noteq> 61 then if i2 \<noteq> 61 then Some [ucast (drop_bit 16 v), ucast (drop_bit 8 v), ucast v] else None
     else if i2 \<noteq> 61 then Some [ucast (drop_bit 16 v), ucast (drop_bit 8 v)]
     else Some [ucast (drop_bit 16 v)])"
  using assms(5-8,10,11) unfolding base64_decode_quad_def Let_def assms(1-4,9) by simp

lemma quad_3:
  fixes s0 s1 s2 :: byte
  defines "l \<equiv> push_bit 16 (ucast s0) OR push_bit 8 (ucast s1) OR ucast s2 :: u32"
  shows "base64_decode_quad (conv_bin2ascii (ucast (drop_bit 18 l))) (conv_bin2ascii (ucast (drop_bit 12 l)))
    (conv_bin2ascii (ucast (drop_bit 6 l))) (conv_bin2ascii (ucast l)) = Some [s0, s1, s2]"
proof -
  note b = bytes_of_24 [of s0 s1 s2, folded l_def]
  show ?thesis
    by (subst decode_quad_eq [OF conv_roundtrip(1) conv_roundtrip(1) conv_roundtrip(1) conv_roundtrip(1)
          bin_not_ff bin_not_ff bin_not_ff bin_not_ff sextets [OF b(1)] conv_roundtrip(2) conv_roundtrip(2)])
      (simp_all add: b conv_roundtrip)
qed

lemma quad_2:
  fixes s0 s1 :: byte
  defines "l \<equiv> push_bit 16 (ucast s0) OR push_bit 8 (ucast s1) :: u32"
  shows "base64_decode_quad (conv_bin2ascii (ucast (drop_bit 18 l))) (conv_bin2ascii (ucast (drop_bit 12 l)))
    (conv_bin2ascii (ucast (drop_bit 6 l))) 61 = Some [s0, s1]"
proof -
  have l: "push_bit 16 (ucast s0) OR push_bit 8 (ucast s1) OR ucast (0 :: byte) = l" by (simp add: l_def)
  note b = bytes_of_24 [of s0 s1 0, unfolded l]
  have "(ucast (ucast l AND 0x3f :: byte) :: u32) = ucast (0 :: byte)" unfolding b(4) by simp
  note v = sextets [OF b(1), unfolded this]
  show ?thesis
    by (subst decode_quad_eq [OF conv_roundtrip(1) conv_roundtrip(1) conv_roundtrip(1) equals_bin
          bin_not_ff bin_not_ff bin_not_ff _ v conv_roundtrip(2) conv_roundtrip(2)])
      (simp_all add: b conv_roundtrip)
qed

lemma quad_1:
  fixes s0 :: byte
  defines "l \<equiv> push_bit 16 (ucast s0) :: u32"
  shows "base64_decode_quad (conv_bin2ascii (ucast (drop_bit 18 l))) (conv_bin2ascii (ucast (drop_bit 12 l)))
    61 61 = Some [s0]"
proof -
  have l: "push_bit 16 (ucast s0) OR push_bit 8 (ucast (0 :: byte)) OR ucast (0 :: byte) = l" by (simp add: l_def)
  note b = bytes_of_24 [of s0 0 0, unfolded l]
  have z: "(ucast (drop_bit 6 l) AND 0x3f :: byte) = 0"
    unfolding l_def by (rule bit_word_eqI) (auto simp: bit_simps byte_simps)
  have "(ucast (ucast l AND 0x3f :: byte) :: u32) = ucast (0 :: byte)" unfolding b(4) by simp
  note v = sextets [OF b(1), unfolded this z]
  show ?thesis
    by (subst decode_quad_eq [OF conv_roundtrip(1) conv_roundtrip(1) equals_bin equals_bin
          bin_not_ff bin_not_ff _ _ v conv_roundtrip(2) conv_roundtrip(2)])
      (simp_all add: b)
qed

section \<open>The one-shot codec\<close>

text \<open>The text of a byte string.\<close>

abbreviation b64_text :: "byte list \<Rightarrow> byte list" where
  "b64_text src \<equiv> fst (encode_loop src 0)"

lemma encode_loop_fst: "fst (encode_loop src ret) = fst (encode_loop src ret')"
proof (induction src ret arbitrary: ret' rule: encode_loop.induct)
  case (4 s0 s1 s2 src ret)
  show ?case using "4.IH" [OF refl, of "ret' + 4"] by (simp add: Let_def case_prod_unfold)
qed (simp_all add: Let_def)

lemma encode_loop_snd: "snd (encode_loop src ret) = ret + of_nat (length (b64_text src))"
proof (induction src ret rule: encode_loop.induct)
  case (4 s0 s1 s2 src ret)
  show ?case using "4.IH" [OF refl] encode_loop_fst [of src 4 0] by (simp add: Let_def case_prod_unfold)
qed (simp_all add: Let_def)

lemma EncodeBlock_eq: "EVP_EncodeBlock src = (b64_text src @ [0], of_nat (length (b64_text src)))"
  using encode_loop_snd [of src 0] by (simp add: EVP_EncodeBlock_def case_prod_unfold)

lemma b64_text_Cons:
  "b64_text (s0 # s1 # s2 # src) =
     (let l = push_bit 16 (ucast s0) OR push_bit 8 (ucast s1) OR ucast s2 :: u32
      in [conv_bin2ascii (ucast (drop_bit 18 l)), conv_bin2ascii (ucast (drop_bit 12 l)),
          conv_bin2ascii (ucast (drop_bit 6 l)), conv_bin2ascii (ucast l)]) @ b64_text src"
  using encode_loop_fst [of src 4 0] by (simp add: Let_def case_prod_unfold)

lemma triple_induct [case_names Nil one two Cons]:
  assumes "P []" and "\<And>a. P [a]" and "\<And>a b. P [a, b]" and "\<And>a b c xs. P xs \<Longrightarrow> P (a # b # c # xs)"
  shows "P (xs :: byte list)"
  using assms encode_loop.induct [of "\<lambda>s r. P s" xs] by metis

lemma length_b64_text: "length (b64_text src) = 4 * ((length src + 2) div 3)"
proof (induction src rule: triple_induct)
  case (Cons a b c xs)
  have "length (b64_text (a # b # c # xs)) = 4 + length (b64_text xs)"
    unfolding b64_text_Cons by (simp add: Let_def)
  moreover have "(length (a # b # c # xs) + 2) div 3 = 1 + (length xs + 2) div 3" by simp
  ultimately show ?case using Cons by simp
qed (simp_all add: Let_def)

lemma decode_quads_text: "decode_quads out (b64_text src) = Some (out @ src)"
proof (induction src arbitrary: out rule: triple_induct)
  case (Cons a b c xs)
  show ?case unfolding b64_text_Cons using Cons by (simp add: Let_def quad_3 del: encode_loop.simps drop_bit_or)
qed (simp_all add: Let_def quad_1 quad_2 del: drop_bit_or)

lemma EncodedLength_eq:
  "EVP_EncodedLength len =
     (if 4 * ((unat len + 2) div 3) + 1 < 2 ^ 64 then Some (of_nat (4 * ((unat len + 2) div 3) + 1)) else None)"
proof (cases "unat len + 2 < 2 ^ 64")
  case False
  then have "len + 2 < len"
    using unat_plus_simple [of len 2] unat_less_64 [of "len + 2"] by (auto simp: not_less [symmetric])
  moreover have "\<not> 4 * ((unat len + 2) div 3) + 1 < 2 ^ 64"
    using False div_le_mono [of "2 ^ 64" "unat len + 2" 3] by simp
  ultimately show ?thesis by (simp add: EVP_EncodedLength_def)
next
  case True
  define k where "k = (unat len + 2) div 3"
  have u: "unat (len + 2) = unat len + 2" using True by (simp add: unat_word_ariths)
  have d: "unat ((len + 2) div 3) = k" by (simp add: unat_div u k_def)
  have k: "k < 2 ^ 63" using True by (simp add: k_def)
  let ?d = "(len + 2) div 3"
  have "unat (push_bit 2 w) = (4 * unat w) mod 2 ^ 64" for w :: u64
    by (simp add: push_bit_eq_mult unat_word_ariths mult.commute)
  then have p: "unat (push_bit 2 ?d) = (4 * k) mod 2 ^ 64" by (simp only: d)
  show ?thesis
  proof (cases "4 * k < 2 ^ 64")
    case ok: True
    then have p: "unat (push_bit 2 ?d) = 4 * k" using p by simp
    then have c2: "\<not> drop_bit 2 (push_bit 2 ?d) \<noteq> ?d"
      by (simp only: word_unat_eq_iff unat_drop_bit d) simp
    have "k < 2 ^ 62" using ok by simp
    then have fits: "4 * k + 1 < 2 ^ 64" by simp
    then have q: "unat (push_bit 2 ?d + 1) = 4 * k + 1" using p by (simp add: unat_word_ariths)
    then have r: "push_bit 2 ?d + 1 = of_nat (4 * k + 1)" unfolding q [symmetric] by simp
    have c1: "\<not> len + 2 < len" and c3: "\<not> push_bit 2 ?d + 1 < push_bit 2 ?d"
      using u p q by (simp_all add: word_less_nat_alt)
    show ?thesis
      unfolding EVP_EncodedLength_def Let_def k_def [symmetric] if_not_P [OF c1] if_not_P [OF c2]
        if_not_P [OF c3] if_P [OF fits] unfolding r ..
  next
    case False
    have "(4 * k) mod 2 ^ 64 div 4 \<noteq> k"
    proof -
      have "(4 * k) mod 2 ^ 64 < 2 ^ 62 * 4" using mod_less_divisor [of "2 ^ 64" "4 * k"] by simp
      then have "(4 * k) mod 2 ^ 64 div 4 < 2 ^ 62" by (rule less_mult_imp_div_less)
      moreover have "2 ^ 62 \<le> k" using False by simp
      ultimately show ?thesis by simp
    qed
    then have "drop_bit 2 (push_bit 2 ?d) \<noteq> ?d"
      using p by (simp only: word_unat_eq_iff unat_drop_bit d) simp
    moreover have "\<not> len + 2 < len" using u by (simp add: word_less_nat_alt)
    moreover have "\<not> 4 * k + 1 < 2 ^ 64" using False by simp
    ultimately show ?thesis
      unfolding EVP_EncodedLength_def Let_def k_def [symmetric] by (simp only: if_True if_False simp_thms)
  qed
qed

text \<open>
  C30 (roundtrip). Base64: the text that \<^verbatim>\<open>EVP_EncodeBlock\<close> writes for any byte string decodes
  with \<^verbatim>\<open>EVP_DecodeBase64\<close> to the same bytes whenever the output buffer has the size that
  \<^verbatim>\<open>EVP_DecodedLength\<close> reports for the text.
\<close>

theorem base64_roundtrip:
  assumes "length (b64_text src) < 2 ^ 64"
    and "EVP_DecodedLength (of_nat (length (b64_text src))) = Some m" and "m \<le> max_out"
  shows "EVP_DecodeBase64 max_out (butlast (fst (EVP_EncodeBlock src))) = Some src"
proof -
  have "unat ((of_nat (length (b64_text src)) :: size_t) mod 4) = 0"
    using assms(1) by (simp add: unat_mod unat_of_nat length_b64_text del: of_nat_mult)
  then have "(of_nat (length (b64_text src)) :: size_t) mod 4 = 0" by (simp add: word_unat_eq_iff)
  with assms(2,3) show ?thesis
    by (simp add: EncodeBlock_eq EVP_DecodeBase64_def Let_def decode_quads_text not_less)
qed

theorem base64_roundtrip_witness:
  "EVP_DecodedLength (of_nat (length (b64_text [1, 2, 3, 4]))) = Some 6 \<and>
   EVP_DecodeBase64 6 (butlast (fst (EVP_EncodeBlock [1, 2, 3, 4]))) = Some [1, 2, 3, 4]"
proof -
  have l: "length (b64_text [1, 2, 3, 4]) = 8" by (simp only: length_b64_text) simp
  have d: "EVP_DecodedLength (of_nat (length (b64_text [1, 2, 3, 4]))) = Some 6"
    unfolding l by (simp add: EVP_DecodedLength_def)
  from base64_roundtrip [OF _ d order_refl] d show ?thesis by (simp add: l)
qed

text \<open>
  \<^verbatim>\<open>EVP_EncodedLength\<close> is exact: it reports the number of bytes that
  \<^verbatim>\<open>EVP_EncodeBlock\<close> stores, the final zero byte included, and fails for the lengths whose
  result does not fit in 64 bits and for no others. None of its intermediate overflow checks is
  missing or superfluous.
\<close>

theorem base64_length_exact:
  assumes "length src < 2 ^ 64"
  shows "EVP_EncodedLength (of_nat (length src)) =
    (if length (fst (EVP_EncodeBlock src)) < 2 ^ 64
     then Some (of_nat (length (fst (EVP_EncodeBlock src)))) else None)"
proof -
  have "unat (of_nat (length src) :: size_t) = length src" using assms by (simp add: unat_of_nat)
  then show ?thesis by (simp only: EncodedLength_eq EncodeBlock_eq fst_conv length_append length_b64_text) simp
qed

theorem base64_length_exact_witness:
  "EVP_EncodedLength (of_nat (length [1 :: byte, 2, 3, 4])) = Some 9"
  using base64_length_exact [of "[1, 2, 3, 4]"]
  by (simp only: EncodeBlock_eq fst_conv length_append length_b64_text) simp

end
