(* ===== verification/Base64_Stream.thy ===== *)
theory Base64_Stream
  imports Base64
begin

unbundle bit_operations_syntax

text \<open>
  The streaming encoder and decoder of \<^verbatim>\<open>base64.c\<close>: the encoder refines a format of lines of 48
  bytes for every way to cut the input, the decoder inverts it for every way to cut the text,
  and the trimming one-shot decoder pads with zero bytes.
\<close>

section \<open>The streaming encoder\<close>

text \<open>
  The specification: complete lines of 48 bytes are written out, the rest is pending; the
  final call writes the rest as a short line.
\<close>

fun split_lines :: "byte list \<Rightarrow> byte list \<times> byte list" where
  "split_lines xs =
     (if length xs \<ge> 48 then
        case split_lines (drop 48 xs) of (o', r) \<Rightarrow> (b64_text (take 48 xs) @ [10] @ o', r)
      else ([], xs))"

declare split_lines.simps [simp del]

definition last_line :: "byte list \<Rightarrow> byte list" where
  "last_line r = (if r = [] then [] else b64_text r @ [10])"

definition pem_lines :: "byte list \<Rightarrow> byte list" where
  "pem_lines xs = fst (split_lines xs) @ last_line (snd (split_lines xs))"

definition ctx_ok :: "EVP_ENCODE_CTX \<Rightarrow> bool" where
  "ctx_ok ctx \<longleftrightarrow> length (data ctx) = 48 \<and> unat (data_used ctx) < 48"

definition pending :: "EVP_ENCODE_CTX \<Rightarrow> byte list" where
  "pending ctx = take (unat (data_used ctx)) (data ctx)"

lemma split_short: "length xs < 48 \<Longrightarrow> split_lines xs = ([], xs)"
  by (subst split_lines.simps) simp

lemma split_long:
  "length xs \<ge> 48 \<Longrightarrow> split_lines xs = (b64_text (take 48 xs) @ [10] @ fst (split_lines (drop 48 xs)),
     snd (split_lines (drop 48 xs)))"
  by (subst split_lines.simps) (simp add: case_prod_unfold)

lemma split_rest: "length (snd (split_lines xs)) < 48"
  by (induction xs rule: split_lines.induct) (subst split_lines.simps, simp add: case_prod_unfold)

lemma split_append:
  "split_lines (xs @ ys) =
     (fst (split_lines xs) @ fst (split_lines (snd (split_lines xs) @ ys)),
      snd (split_lines (snd (split_lines xs) @ ys)))"
proof (induction xs rule: split_lines.induct)
  case (1 xs)
  show ?case
  proof (cases "length xs \<ge> 48")
    case True
    then have "length (xs @ ys) \<ge> 48" by simp
    note l = split_long [OF True] split_long [OF this]
    from 1 [OF True] True show ?thesis unfolding l by simp
  next
    case False
    then show ?thesis by (simp add: split_short)
  qed
qed

lemma split_length: "length (fst (split_lines xs)) = 65 * (length xs div 48)"
proof (induction xs rule: split_lines.induct)
  case (1 xs)
  show ?case
  proof (cases "length xs \<ge> 48")
    case True
    have "length (b64_text (take 48 xs)) = 64" using True by (simp add: length_b64_text)
    moreover have "length xs div 48 = 1 + (length xs - 48) div 48" using True by (simp add: div_if)
    ultimately show ?thesis using 1 [OF True] split_long [OF True] by simp
  qed (simp add: split_short)
qed

lemma put_line_eq: "length bs \<le> 48 \<Longrightarrow> put_line out bs = out @ b64_text bs @ [10]"
  by (simp add: put_line_def EncodeBlock_eq unat_of_nat length_b64_text del: of_nat_mult)

lemma encode_lines_eq:
  "unat tot + length (fst (split_lines inp)) < 2 ^ 64 \<Longrightarrow>
   encode_lines inp out tot =
     (snd (split_lines inp), out @ fst (split_lines inp), tot + of_nat (length (fst (split_lines inp))), False)"
proof (induction inp out tot rule: encode_lines.induct)
  case (1 inp out tot)
  show ?case
  proof (cases "length inp \<ge> 48")
    case True
    let ?r = "split_lines (drop 48 inp)"
    have t: "length (b64_text (take 48 inp)) = 64" using True by (simp add: length_b64_text)
    then have e: "snd (EVP_EncodeBlock (take 48 inp)) = 64" by (simp add: EncodeBlock_eq)
    have le: "unat tot + 65 + length (fst ?r) < 2 ^ 64"
      using "1.prems" split_long [OF True] t by simp
    then have u: "unat (tot + 65) = unat tot + 65" by (simp add: unat_word_ariths)
    then have o: "\<not> tot + 64 + 1 < tot" by (simp add: word_less_nat_alt add.assoc)
    have "encode_lines inp out tot = encode_lines (drop 48 inp) (put_line out (take 48 inp)) (tot + 65)"
      using True o by (subst encode_lines.simps) (simp add: e)
    also have "\<dots> = (snd ?r, put_line out (take 48 inp) @ fst ?r, tot + 65 + of_nat (length (fst ?r)), False)"
      using "1.IH" [OF True refl refl] o le u by (simp add: e)
    finally show ?thesis using split_long [OF True] t by (simp add: put_line_eq)
  next
    case False
    then show ?thesis by (subst encode_lines.simps) (simp add: split_short)
  qed
qed

text \<open>
  The first part of an update that completes a line: the data of that line, the input that is
  left, and the output (nothing when no data was pending).
\<close>

definition fill :: "EVP_ENCODE_CTX \<Rightarrow> byte list \<Rightarrow> byte list" where
  "fill ctx inp = (let u = unat (data_used ctx) in
     if u \<noteq> 0 then store_at u (take (48 - u) inp) (data ctx) else data ctx)"

definition rest_in :: "EVP_ENCODE_CTX \<Rightarrow> byte list \<Rightarrow> byte list" where
  "rest_in ctx inp = (let u = unat (data_used ctx) in if u \<noteq> 0 then drop (48 - u) inp else inp)"

definition line_out :: "EVP_ENCODE_CTX \<Rightarrow> byte list \<Rightarrow> byte list" where
  "line_out ctx inp = (if unat (data_used ctx) \<noteq> 0 then b64_text (fill ctx inp) @ [10] else [])"

lemma first_line:
  assumes "ctx_ok ctx" and "48 - unat (data_used ctx) \<le> length inp"
  shows "length (fill ctx inp) = 48"
    and "length (line_out ctx inp) = (if unat (data_used ctx) \<noteq> 0 then 65 else 0)"
    and "split_lines (pending ctx @ inp) =
      (line_out ctx inp @ fst (split_lines (rest_in ctx inp)), snd (split_lines (rest_in ctx inp)))"
proof -
  let ?u = "unat (data_used ctx)"
  have c: "length (data ctx) = 48" "?u < 48" using assms(1) by (simp_all add: ctx_ok_def)
  have pl: "length (pending ctx) = ?u" using c by (simp add: pending_def)
  show dl: "length (fill ctx inp) = 48" using c assms(2) by (simp add: fill_def Let_def)
  then show "length (line_out ctx inp) = (if ?u \<noteq> 0 then 65 else 0)"
    by (simp add: line_out_def length_b64_text)
  show "split_lines (pending ctx @ inp) =
      (line_out ctx inp @ fst (split_lines (rest_in ctx inp)), snd (split_lines (rest_in ctx inp)))"
  proof (cases "?u = 0")
    case True
    then show ?thesis by (simp add: pending_def line_out_def rest_in_def)
  next
    case nz: False
    have "pending ctx @ take (48 - ?u) inp = fill ctx inp"
      using nz c assms(2) store_at_take [of ?u "data ctx" "take (48 - ?u) inp"] dl
      by (simp add: fill_def pending_def Let_def)
    then have "take 48 (pending ctx @ inp) = fill ctx inp" "drop 48 (pending ctx @ inp) = drop (48 - ?u) inp"
      using pl c by simp_all
    moreover have "length (pending ctx @ inp) \<ge> 48" using pl assms(2) c by simp
    ultimately show ?thesis using nz split_long by (simp add: line_out_def rest_in_def)
  qed
qed

lemma update_first:
  assumes "ctx_ok ctx" and "48 - unat (data_used ctx) \<le> length inp"
  shows "(if unat (data_used ctx) \<noteq> 0 then
        let td = 48 - unat (data_used ctx); d = store_at (unat (data_used ctx)) (take td inp) (data ctx)
        in (ctx\<lparr>data := d, data_used := 0\<rparr>, drop td inp, put_line [] d, snd (EVP_EncodeBlock d) + 1)
      else (ctx, inp, [], 0)) =
    (ctx\<lparr>data := fill ctx inp, data_used := 0\<rparr>, rest_in ctx inp, line_out ctx inp, of_nat (length (line_out ctx inp)))"
proof (cases "unat (data_used ctx) = 0")
  case True
  then have "data_used ctx = 0" by (simp add: word_unat_eq_iff)
  then show ?thesis by (simp add: fill_def rest_in_def line_out_def)
next
  case False
  note l = first_line [OF assms]
  have "put_line [] (fill ctx inp) = b64_text (fill ctx inp) @ [10]"
      "snd (EVP_EncodeBlock (fill ctx inp)) + 1 = 65"
    using l(1) by (simp_all add: put_line_eq EncodeBlock_eq length_b64_text)
  with False l(2) show ?thesis by (simp add: fill_def rest_in_def line_out_def Let_def)
qed

lemma update_lines:
  assumes "ctx_ok ctx" and "length inp < 2 ^ 30" and "48 - unat (data_used ctx) \<le> length inp"
    and "(out, r) = split_lines (pending ctx @ inp)"
  shows "EVP_EncodeUpdate ctx inp =
    Some (ctx\<lparr>data := if r \<noteq> [] then store_at 0 r (fill ctx inp) else fill ctx inp,
            data_used := of_nat (length r)\<rparr>, terminated out, int (length out))"
proof -
  let ?s = "split_lines (rest_in ctx inp)" and ?o = "line_out ctx inp"
  let ?tot = "of_nat (length ?o) :: size_t"
  note l = first_line [OF assms(1,3)]
  have out: "out = ?o @ fst ?s" "r = snd ?s" using l(3) assms(4) by simp_all
  have "length (rest_in ctx inp) \<le> 2 ^ 30" using assms(2) by (auto simp: rest_in_def Let_def)
  then have "length (rest_in ctx inp) div 48 \<le> 22369621"
    using div_le_mono [of "length (rest_in ctx inp)" "2 ^ 30" 48] by simp
  then have len: "length (fst ?s) \<le> 1454025365" by (simp add: split_length)
  have "unat ?tot = length ?o" using l(2) by (simp add: unat_of_nat)
  then have el: "encode_lines (rest_in ctx inp) ?o ?tot = (r, out, of_nat (length out), False)"
    using len l(2) encode_lines_eq [of ?tot "rest_in ctx inp" ?o] by (simp add: out)
  have "length out \<le> 2147483647" using len l(2) by (simp add: out)
  then have n: "\<not> (of_nat (length out) :: size_t) > 2147483647"
      "uint (of_nat (length out) :: size_t) = int (length out)"
    by (simp_all add: word_less_nat_alt unat_of_nat uint_nat)
  have "inp \<noteq> []" "unat (data_used ctx) < 48" using assms(1,3) by (auto simp: ctx_ok_def)
  moreover have "\<not> 48 - unat (data_used ctx) > length inp" using assms(3) by simp
  ultimately show ?thesis using n
    unfolding EVP_EncodeUpdate_def Let_def [of "unat (data_used ctx)"] update_first [OF assms(1,3)]
    by (simp add: el Let_def)
qed

text \<open>One update, with an input for which no length overflows an \<^verbatim>\<open>int\<close>.\<close>

lemma EncodeUpdate_spec:
  assumes "ctx_ok ctx" and "length inp < 2 ^ 30"
  shows "\<exists>ctx' out. EVP_EncodeUpdate ctx inp = Some (ctx', terminated out, int (length out)) \<and> ctx_ok ctx' \<and>
    split_lines (pending ctx @ inp) = (out, pending ctx')"
proof -
  let ?u = "unat (data_used ctx)"
  have c: "length (data ctx) = 48" "?u < 48" using assms(1) by (simp_all add: ctx_ok_def)
  have pl: "length (pending ctx) = ?u" using c by (simp add: pending_def)
  consider "inp = []" | "inp \<noteq> []" "48 - ?u > length inp" | "48 - ?u \<le> length inp" by linarith
  then show ?thesis
  proof cases
    case 1
    then show ?thesis using assms(1) pl c by (simp add: EVP_EncodeUpdate_def terminated_def split_short)
  next
    case 2
    let ?c = "ctx\<lparr>data := store_at ?u inp (data ctx), data_used := data_used ctx + of_nat (length inp)\<rparr>"
    have u: "unat (data_used ctx + of_nat (length inp)) = ?u + length inp"
      using 2 by (simp add: unat_word_ariths unat_of_nat)
    have "pending ?c = pending ctx @ inp" using c by (simp add: pending_def u store_at_take)
    moreover have "ctx_ok ?c" using 2 c by (simp add: ctx_ok_def u)
    moreover have "split_lines (pending ctx @ inp) = ([], pending ctx @ inp)"
      using 2 pl by (simp add: split_short)
    ultimately show ?thesis using 2 c by (simp add: EVP_EncodeUpdate_def terminated_def)
  next
    case 3
    obtain out r where s: "split_lines (pending ctx @ inp) = (out, r)" by fastforce
    have r: "length r < 48" using split_rest [of "pending ctx @ inp"] s by simp
    then have "unat (of_nat (length r) :: u32) = length r" by (simp add: unat_of_nat)
    with r first_line(1) [OF assms(1) 3] update_lines [OF assms 3 s [symmetric]] s show ?thesis
      by (auto simp: pending_def ctx_ok_def store_at_take [of 0, simplified])
  qed
qed

text \<open>A whole stream: the text is what the calls report as written.\<close>

fun encode_stream :: "EVP_ENCODE_CTX \<Rightarrow> byte list list \<Rightarrow> byte list option" where
  "encode_stream ctx [] = (case EVP_EncodeFinal ctx of (_, out, out_len) \<Rightarrow> Some (take (nat out_len) out))"
| "encode_stream ctx (x # xs) =
     (case EVP_EncodeUpdate ctx x of
        None \<Rightarrow> None
      | Some (ctx', out, out_len) \<Rightarrow> map_option ((@) (take (nat out_len) out)) (encode_stream ctx' xs))"

lemma take_terminated: "take (length out) (terminated out) = out"
  by (simp add: terminated_def)

lemma encode_stream_spec:
  "ctx_ok ctx \<Longrightarrow> \<forall>x \<in> set xs. length x < 2 ^ 30 \<Longrightarrow>
   encode_stream ctx xs = Some (pem_lines (pending ctx @ concat xs))"
proof (induction xs arbitrary: ctx)
  case Nil
  then have c: "length (data ctx) = 48" "unat (data_used ctx) < 48" by (simp_all add: ctx_ok_def)
  have "pending ctx = [] \<longleftrightarrow> data_used ctx = 0"
    using c by (auto simp: pending_def word_unat_eq_iff)
  with c show ?case
    by (simp add: EVP_EncodeFinal_def pem_lines_def split_short pending_def last_line_def Let_def
        put_line_eq terminated_def nat_add_distrib)
next
  case (Cons x xs)
  then obtain ctx' out where u: "EVP_EncodeUpdate ctx x = Some (ctx', terminated out, int (length out))"
      "ctx_ok ctx'" "split_lines (pending ctx @ x) = (out, pending ctx')"
    using EncodeUpdate_spec [of ctx x] by auto
  have "pem_lines (pending ctx @ x @ concat xs) = out @ pem_lines (pending ctx' @ concat xs)"
    using split_append [of "pending ctx @ x" "concat xs"] u(3) by (simp add: pem_lines_def)
  with u Cons.IH [OF u(2)] Cons.prems(2) show ?case by (simp add: take_terminated)
qed

section \<open>The streaming decoder\<close>

lemma decode_loop_append:
  "decode_update_loop ctx out (xs @ ys) =
     (case decode_update_loop ctx out xs of
        (o', True, c) \<Rightarrow> (o', True, c) | (o', False, c) \<Rightarrow> decode_update_loop c o' ys)"
proof (induction ctx out xs rule: decode_update_loop.induct)
  case (2 ctx out c inp)
  show ?case
  proof (cases "is_space c \<or> eof_seen ctx")
    case True
    then show ?thesis using 2(1) by auto
  next
    case False
    let ?c1 = "ctx\<lparr>data := (data ctx)[unat (data_used ctx) := c], data_used := data_used ctx + 1\<rparr>"
    show ?thesis
    proof (cases "base64_decode_quad (data ?c1 ! 0) (data ?c1 ! 1) (data ?c1 ! 2) (data ?c1 ! 3)")
      case None
      with False 2 show ?thesis by (auto simp: Let_def)
    next
      case (Some bs)
      with False 2 show ?thesis by (auto simp: Let_def)
    qed
  qed
qed simp

lemma decode_loop_out:
  "decode_update_loop ctx out xs =
     (case decode_update_loop ctx [] xs of (o', failed, c) \<Rightarrow> (out @ o', failed, c))"
proof (induction xs arbitrary: ctx out)
  case (Cons c xs)
  have IH: "decode_update_loop ctx o2 xs =
      (case decode_update_loop ctx [] xs of (o', failed, c) \<Rightarrow> (o2 @ o', failed, c))" for ctx o2
    using Cons by blast
  let ?c1 = "ctx\<lparr>data := (data ctx)[unat (data_used ctx) := c], data_used := data_used ctx + 1\<rparr>"
  show ?case
  proof (cases "base64_decode_quad (data ?c1 ! 0) (data ?c1 ! 1) (data ?c1 ! 2) (data ?c1 ! 3)")
    case None
    then show ?thesis using IH [of _ out] by (auto simp: Let_def)
  next
    case (Some bs)
    then show ?thesis using IH [of _ out] IH [of _ bs] IH [of _ "out @ bs"]
      by (auto simp: Let_def split: prod.splits)
  qed
qed simp

text \<open>A context between two quads.\<close>

definition at_quad :: "EVP_ENCODE_CTX \<Rightarrow> bool" where
  "at_quad ctx \<longleftrightarrow> length (data ctx) = 48 \<and> data_used ctx = 0 \<and> \<not> eof_seen ctx \<and> \<not> error_encountered ctx"

lemma conv_not_space: "\<not> is_space (conv_bin2ascii a)" "\<not> is_space 61"
proof -
  have "b64_value (conv_bin2ascii a) \<noteq> None"
    using b64_char_value [OF unat_bin, of a] by (simp add: conv_bin2ascii_char)
  then show "\<not> is_space (conv_bin2ascii a)" by (auto simp: is_space_def b64_value_def)
qed (simp add: is_space_def)

lemma decode_one_quad:
  assumes "at_quad ctx" and "base64_decode_quad q0 q1 q2 q3 = Some bs"
    and "\<not> is_space q0" "\<not> is_space q1" "\<not> is_space q2" "\<not> is_space q3"
  shows "\<exists>ctx'. decode_update_loop ctx out (q0 # q1 # q2 # q3 # rest) = decode_update_loop ctx' (out @ bs) rest \<and>
    length (data ctx') = 48 \<and> data_used ctx' = 0 \<and> \<not> error_encountered ctx' \<and> (eof_seen ctx' \<longleftrightarrow> length bs < 3)"
proof -
  have "data_used ctx = 0" "length (data ctx) = 48" using assms(1) by (simp_all add: at_quad_def)
  with assms show ?thesis by (auto simp: at_quad_def Let_def)
qed

lemma decode_text:
  assumes "at_quad ctx"
  shows "\<exists>ctx'. decode_update_loop ctx out (b64_text src @ rest) = decode_update_loop ctx' (out @ src) rest \<and>
    length (data ctx') = 48 \<and> data_used ctx' = 0 \<and> \<not> error_encountered ctx' \<and>
    (eof_seen ctx' \<longleftrightarrow> length src mod 3 \<noteq> 0)"
  using assms
proof (induction src arbitrary: ctx out rule: triple_induct)
  case Nil
  then show ?case by (auto simp: at_quad_def)
next
  case (one a)
  from decode_one_quad [OF one quad_1 conv_not_space(1) conv_not_space(1) conv_not_space(2) conv_not_space(2), of out a rest]
  show ?case by (simp add: Let_def del: drop_bit_or decode_update_loop.simps)
next
  case (two a b)
  from decode_one_quad [OF two quad_2 conv_not_space(1) conv_not_space(1) conv_not_space(1) conv_not_space(2), of out a b rest]
  show ?case by (simp add: Let_def del: drop_bit_or decode_update_loop.simps)
next
  case (Cons a b c xs)
  from decode_one_quad [OF Cons.prems quad_3 conv_not_space(1) conv_not_space(1) conv_not_space(1) conv_not_space(1),
      of out a b c "b64_text xs @ rest"]
  obtain c1 where c1: "decode_update_loop ctx out (b64_text (a # b # c # xs) @ rest) =
      decode_update_loop c1 (out @ [a, b, c]) (b64_text xs @ rest)" "at_quad c1"
    unfolding b64_text_Cons by (auto simp: Let_def at_quad_def simp del: drop_bit_or decode_update_loop.simps encode_loop.simps)
  from Cons.IH [OF c1(2), of "out @ [a, b, c]"] show ?case
    unfolding c1(1) by (simp del: decode_update_loop.simps encode_loop.simps)
qed

lemma decode_newline: "decode_update_loop ctx out (10 # rest) = decode_update_loop ctx out rest"
  by (simp add: is_space_def)

lemma decode_pem:
  assumes "at_quad ctx"
  shows "\<exists>ctx'. decode_update_loop ctx out (pem_lines xs) = (out @ xs, False, ctx') \<and>
    data_used ctx' = 0 \<and> \<not> error_encountered ctx'"
  using assms
proof (induction xs arbitrary: ctx out rule: split_lines.induct)
  case (1 xs)
  show ?case
  proof (cases "length xs \<ge> 48")
    case True
    from decode_text [OF "1.prems", of out "take 48 xs" "10 # pem_lines (drop 48 xs)"] True
    obtain c1 where c1: "decode_update_loop ctx out (b64_text (take 48 xs) @ 10 # pem_lines (drop 48 xs)) =
        decode_update_loop c1 (out @ take 48 xs) (pem_lines (drop 48 xs))" "at_quad c1"
      unfolding decode_newline by (auto simp: at_quad_def)
    have "pem_lines xs = b64_text (take 48 xs) @ 10 # pem_lines (drop 48 xs)"
      using split_long [OF True] by (simp add: pem_lines_def)
    with c1 "1.IH" [OF True c1(2), of "out @ take 48 xs"] show ?thesis by simp
  next
    case False
    then have s: "pem_lines xs = last_line xs" by (simp add: pem_lines_def split_short)
    show ?thesis
    proof (cases "xs = []")
      case True
      with s "1.prems" show ?thesis by (simp add: last_line_def at_quad_def)
    next
      case False
      from decode_text [OF "1.prems", of out xs "[10]"] False show ?thesis
        unfolding decode_newline s last_line_def by auto
    qed
  qed
qed

text \<open>A whole stream, decoded by a client that stops at the first error.\<close>

fun decode_stream :: "EVP_ENCODE_CTX \<Rightarrow> byte list list \<Rightarrow> byte list option" where
  "decode_stream ctx [] = (if EVP_DecodeFinal ctx = 1 then Some [] else None)"
| "decode_stream ctx (x # xs) =
     (case EVP_DecodeUpdate ctx x of
        (ret, out_len, out, ctx') \<Rightarrow>
          if ret = - 1 then None
          else map_option ((@) (take (nat out_len) out)) (decode_stream ctx' xs))"

lemma decode_quad_length: "base64_decode_quad q0 q1 q2 q3 = Some bs \<Longrightarrow> length bs \<le> 3"
  by (auto simp: base64_decode_quad_def Let_def split: if_splits)

lemma decode_loop_frame:
  "decode_update_loop ctx out xs = (o', False, c) \<Longrightarrow>
   length o' \<le> length out + 3 * length xs \<and> error_encountered c = error_encountered ctx"
proof (induction xs arbitrary: ctx out)
  case (Cons x xs)
  let ?c1 = "ctx\<lparr>data := (data ctx)[unat (data_used ctx) := x], data_used := data_used ctx + 1\<rparr>"
  show ?case
  proof (cases "base64_decode_quad (data ?c1 ! 0) (data ?c1 ! 1) (data ?c1 ! 2) (data ?c1 ! 3)")
    case None
    then show ?thesis using Cons by (fastforce simp: Let_def split: if_splits)
  next
    case (Some bs)
    from Some Cons show ?thesis using decode_quad_length [OF Some]
      by (fastforce simp: Let_def split: if_splits)
  qed
qed simp

lemma decode_stream_spec:
  assumes "decode_update_loop ctx [] (concat xs) = (out, False, ctx')" and "\<not> error_encountered ctx"
    and "\<forall>x \<in> set xs. length x < 2 ^ 29"
  shows "decode_stream ctx xs = (if EVP_DecodeFinal ctx' = 1 then Some out else None)"
  using assms
proof (induction xs arbitrary: ctx out)
  case (Cons x xs)
  from Cons.prems(1) obtain o1 c1 where o1: "decode_update_loop ctx [] x = (o1, False, c1)"
      and rest: "decode_update_loop c1 o1 (concat xs) = (out, False, ctx')"
    by (auto simp: decode_loop_append split: prod.splits bool.splits)
  obtain o2 where o2: "decode_update_loop c1 [] (concat xs) = (o2, False, ctx')" "out = o1 @ o2"
    using rest decode_loop_out [of c1 o1] by (auto split: prod.splits)
  note fr = decode_loop_frame [OF o1]
  have "length o1 \<le> 2147483647" using fr Cons.prems(3) by simp
  then have "\<not> (of_nat (length o1) :: size_t) > 2147483647"
      "uint (of_nat (length o1) :: size_t) = int (length o1)"
    by (simp_all add: word_less_nat_alt unat_of_nat uint_nat)
  then have "EVP_DecodeUpdate ctx x = (if eof_seen c1 then 0 else 1, int (length o1), o1, c1)"
    using Cons.prems(2) o1 by (simp add: EVP_DecodeUpdate_def)
  with Cons.IH [OF o2(1)] o2(2) fr Cons.prems(2,3) show ?case by simp
qed simp

text \<open>
  C31 (refinement). The streaming encoder refines the line format: however the input is cut
  into updates, the text that the calls of \<^verbatim>\<open>EVP_EncodeUpdate\<close> and \<^verbatim>\<open>EVP_EncodeFinal\<close> report
  is the encoding of the whole input in lines of 48 bytes, and no assertion fails. Inputs are
  below \<^verbatim>\<open>2^30\<close> bytes, so that the length of the output of one call fits in an \<^verbatim>\<open>int\<close>.
\<close>

theorem encode_stream_refines:
  assumes "\<forall>x \<in> set xs. length x < 2 ^ 30"
  shows "encode_stream (EVP_EncodeInit ctx) xs = Some (pem_lines (concat xs))"
proof -
  have "ctx_ok zero_ctx" "pending zero_ctx = []" by (simp_all add: ctx_ok_def pending_def zero_ctx_def)
  with encode_stream_spec [of zero_ctx xs] assms show ?thesis by (simp add: EVP_EncodeInit_def)
qed

theorem encode_stream_refines_witness:
  "encode_stream (EVP_EncodeInit zero_ctx) [[1, 2], replicate 60 7, []] = Some (pem_lines (1 # 2 # replicate 60 7))"
  using encode_stream_refines [of "[[1, 2], replicate 60 7, []]" zero_ctx] by simp

text \<open>
  C32 (roundtrip). Streams: text in lines, as the streaming encoder produces it, cut at any
  places into updates of the streaming decoder, decodes to the original bytes, and
  \<^verbatim>\<open>EVP_DecodeFinal\<close> reports success.
\<close>

theorem base64_stream_roundtrip:
  assumes "encode_stream (EVP_EncodeInit ctx) xs = Some text" and "concat ys = text"
    and "\<forall>x \<in> set xs. length x < 2 ^ 30" and "\<forall>y \<in> set ys. length y < 2 ^ 29"
  shows "decode_stream (EVP_DecodeInit ctx) ys = Some (concat xs)"
proof -
  have "ctx_ok zero_ctx" "pending zero_ctx = []" by (simp_all add: ctx_ok_def pending_def zero_ctx_def)
  with encode_stream_spec [of zero_ctx xs] assms(1,2,3) have "concat ys = pem_lines (concat xs)"
    by (simp add: EVP_EncodeInit_def)
  moreover have "at_quad zero_ctx" by (simp add: at_quad_def zero_ctx_def)
  ultimately obtain c where c: "decode_update_loop zero_ctx [] (concat ys) = (concat xs, False, c)"
      "data_used c = 0" "\<not> error_encountered c"
    using decode_pem [of zero_ctx "[]" "concat xs"] by auto
  have "\<not> error_encountered zero_ctx" by (simp add: zero_ctx_def)
  from decode_stream_spec [OF c(1) this assms(4)] c(2,3) show ?thesis
    by (simp add: EVP_DecodeInit_def EVP_DecodeFinal_def)
qed

theorem base64_stream_roundtrip_witness:
  "encode_stream (EVP_EncodeInit zero_ctx) [[77], [97]] = Some [84, 87, 69, 61, 10] \<and>
   decode_stream (EVP_DecodeInit zero_ctx) [[84, 87], [69, 61, 10]] = Some [77, 97]"
proof -
  have e: "encode_stream (EVP_EncodeInit zero_ctx) [[77], [97]] = Some [84, 87, 69, 61, 10]" by code_simp
  from base64_stream_roundtrip [OF e, of "[[84, 87], [69, 61, 10]]"] e show ?thesis by simp
qed

section \<open>Decoding with trimming\<close>

lemma text_not_space: "c \<in> set (b64_text src) \<Longrightarrow> \<not> is_space c"
proof (induction src rule: triple_induct)
  case (Cons a b d xs)
  then show ?case unfolding b64_text_Cons
    by (auto simp: Let_def conv_not_space simp del: encode_loop.simps drop_bit_or)
qed (auto simp: Let_def conv_not_space)

lemma trim_text:
  assumes "\<forall>c \<in> set pre. c = 32 \<or> c = 9" and "\<forall>c \<in> set post. is_space c"
    and "\<forall>c \<in> set t. \<not> is_space c" and "t \<noteq> []"
  shows "trim (pre @ t @ post) = t"
proof -
  obtain x xs where t: "t = x # xs" using assms(4) by (cases t) auto
  have "\<not> (x = 32 \<or> x = 9)" using assms(3) t by (auto simp: is_space_def)
  then have "dropWhile (\<lambda>c. c = 32 \<or> c = 9) (pre @ t @ post) = t @ post"
    using assms(1) t by (simp add: dropWhile_append2)
  moreover have "dropWhile is_space (rev (t @ post)) = rev t"
  proof -
    obtain y ys where "rev t = y # ys" using assms(4) by (cases "rev t") auto
    moreover from this have "y \<in> set t" by (metis list.set_intros(1) set_rev)
    moreover have "dropWhile is_space (rev post @ rev t) = dropWhile is_space (rev t)"
      using assms(2) by (intro dropWhile_append2) simp
    ultimately show ?thesis using assms(3) by simp
  qed
  ultimately show ?thesis by (simp add: trim_def)
qed

lemma pad_zeros_eq: "pad_zeros d = d @ replicate ((3 - length d mod 3) mod 3) 0"
proof (induction d rule: pad_zeros.induct)
  case (1 d)
  show ?case
  proof (cases "length d mod 3 = 0")
    case False
    then have "length d mod 3 = 1 \<or> length d mod 3 = 2" by linarith
    then have "(3 - length d mod 3) mod 3 = Suc ((3 - Suc (length d) mod 3) mod 3)" by (auto simp: mod_Suc)
    with 1 [OF False] False show ?thesis by (simp add: pad_zeros.simps [of d])
  qed (simp add: pad_zeros.simps [of d])
qed

text \<open>
  \<^verbatim>\<open>EVP_DecodeBlock\<close> ignores padding: for a text of fewer than \<^verbatim>\<open>2^31\<close> decoded
  bytes, with spaces and tabs in front and blanks behind, it returns the decoded bytes extended
  with zero bytes to a multiple of three, so that only the caller can tell how many bytes were
  encoded.
\<close>

theorem decode_block_pads:
  assumes "\<forall>c \<in> set pre. c = 32 \<or> c = 9" and "\<forall>c \<in> set post. is_space c"
    and "src \<noteq> []" and "length src < 2 ^ 30"
  shows "EVP_DecodeBlock (pre @ b64_text src @ post) = Some (src @ replicate ((3 - length src mod 3) mod 3) 0)"
proof -
  let ?t = "b64_text src" and ?k = "(length src + 2) div 3"
  have t: "?t \<noteq> []" using assms(3) length_b64_text [of src] by (cases src) auto
  have k: "?k \<le> 357913942" using assms(4) div_le_mono [of "length src + 2" "2 ^ 30 + 1" 3] by simp
  then have u: "unat (of_nat (length ?t) :: size_t) = 4 * ?k" by (simp add: unat_of_nat length_b64_text del: of_nat_mult)
  have m: "(of_nat (length ?t) :: size_t) mod 4 = 0" by (simp only: word_unat_eq_iff unat_mod u) simp
  let ?d = "(of_nat (length ?t) :: size_t) div 4 * 3"
  have "unat ((of_nat (length ?t) :: size_t) div 4) = ?k" by (simp only: unat_div u) simp
  then have "unat ?d = 3 * ?k" using k by (simp only: unat_word_ariths) simp
  then have "\<not> ?d > 2147483647" using k by (simp add: word_less_nat_alt)
  moreover have "EVP_DecodedLength (of_nat (length ?t)) = Some ?d" using m by (simp add: EVP_DecodedLength_def)
  moreover from this have "EVP_DecodeBase64 ?d ?t = Some src"
    using m by (simp add: EVP_DecodeBase64_def Let_def decode_quads_text)
  moreover have "trim (pre @ ?t @ post) = ?t"
    using trim_text [OF assms(1,2) _ t] text_not_space by blast
  ultimately show ?thesis by (simp add: EVP_DecodeBlock_def Let_def pad_zeros_eq)
qed

theorem decode_block_pads_witness:
  "EVP_DecodeBlock ([32] @ b64_text [77] @ [13, 10]) = Some [77, 0, 0]"
proof -
  have "src @ replicate ((3 - length src mod 3) mod 3) 0 = [77, 0, 0]" if "src = [77 :: byte]" for src
    unfolding that by code_simp
  moreover have "\<forall>c \<in> set [13, 10]. is_space c" by (simp add: is_space_def)
  ultimately show ?thesis using decode_block_pads [of "[32]" "[13, 10]" "[77]"]
    by (simp del: encode_loop.simps)
qed

text \<open>
  The header \<^verbatim>\<open>base64.h\<close> says that \<^verbatim>\<open>EVP_DecodeBlock\<close> strips trailing minuses; the
  code does not: a text followed by a minus is rejected, although the text alone and the text
  with trailing blanks are accepted.
\<close>

theorem decode_block_keeps_minus:
  "EVP_DecodeBlock [84, 87, 70, 117, 45] = None \<and> EVP_DecodeBlock [84, 87, 70, 117, 45, 45, 45, 45] = None \<and>
   EVP_DecodeBlock [84, 87, 70, 117, 32, 10] = Some [77, 97, 110]"
  by code_simp

end
