(* ===== verification/Stack.thy ===== *)
theory Stack
  imports Heap_Sort Mem
begin

text \<open>
  BoringSSL's pointer stack (\<^verbatim>\<open>crypto/stack/stack.c\<close>). Pointers are 64-bit addresses with 0 for
  \<^verbatim>\<open>NULL\<close>; \<open>data\<close> has \<open>num_alloc\<close> cells, of which the first \<open>num\<close> are the elements. The
  comparison function is an opaque pointer \<open>comp\<close> that only the wrapper \<open>call_cmp_func\<close> can
  call. A \<^verbatim>\<open>STACK *\<close> argument that may be \<^verbatim>\<open>NULL\<close> is an option. \<open>fresh\<close> is what newly
  allocated cells hold.
\<close>

section \<open>State and definitions\<close>

type_synonym call_cmp = "ptr \<Rightarrow> ptr \<Rightarrow> ptr \<Rightarrow> int"

record OPENSSL_STACK =
  num :: size_t
  data :: "ptr list"
  sorted_flag :: bool
  num_alloc :: size_t
  comp :: ptr

definition kMinSize :: size_t where
  "kMinSize = 4"

text \<open>\<open>sizeof(OPENSSL_STACK)\<close> is 40.\<close>

definition OPENSSL_sk_new :: "(size_t \<Rightarrow> bool) \<Rightarrow> ptr \<Rightarrow> OPENSSL_STACK option" where
  "OPENSSL_sk_new al c =
     (if OPENSSL_zalloc al 40 = None then None
      else if OPENSSL_calloc al kMinSize 8 = None then None
      else Some \<lparr>num = 0, data = replicate (unat kMinSize) 0, sorted_flag = False,
                 num_alloc = kMinSize, comp = c\<rparr>)"

definition OPENSSL_sk_new_null :: "(size_t \<Rightarrow> bool) \<Rightarrow> OPENSSL_STACK option" where
  "OPENSSL_sk_new_null al = OPENSSL_sk_new al 0"

definition OPENSSL_sk_num :: "OPENSSL_STACK option \<Rightarrow> size_t" where
  "OPENSSL_sk_num sk = (case sk of None \<Rightarrow> 0 | Some s \<Rightarrow> num s)"

definition OPENSSL_sk_zero :: "OPENSSL_STACK option \<Rightarrow> OPENSSL_STACK option" where
  "OPENSSL_sk_zero sk =
     (case sk of
        None \<Rightarrow> None
      | Some s \<Rightarrow>
          if num s = 0 then Some s
          else Some (s\<lparr>data := replicate (unat (num s)) 0 @ drop (unat (num s)) (data s),
                       num := 0, sorted_flag := False\<rparr>))"

definition OPENSSL_sk_value :: "OPENSSL_STACK option \<Rightarrow> size_t \<Rightarrow> ptr" where
  "OPENSSL_sk_value sk i =
     (case sk of None \<Rightarrow> 0 | Some s \<Rightarrow> if i \<ge> num s then 0 else data s ! unat i)"

definition OPENSSL_sk_set :: "OPENSSL_STACK option \<Rightarrow> size_t \<Rightarrow> ptr \<Rightarrow> ptr \<times> OPENSSL_STACK option" where
  "OPENSSL_sk_set sk i v =
     (case sk of
        None \<Rightarrow> (0, None)
      | Some s \<Rightarrow> if i \<ge> num s then (0, Some s) else (v, Some (s\<lparr>data := (data s)[unat i := v]\<rparr>)))"

text \<open>The elements that \<^verbatim>\<open>OPENSSL_sk_pop_free_ex\<close> passes to the free function, in order.\<close>

definition OPENSSL_sk_pop_free_ex :: "OPENSSL_STACK option \<Rightarrow> ptr list" where
  "OPENSSL_sk_pop_free_ex sk =
     (case sk of None \<Rightarrow> [] | Some s \<Rightarrow> filter (\<lambda>p. p \<noteq> 0) (take (unat (num s)) (data s)))"

text \<open>The capacity that an insertion asks for, and the growth of the array.\<close>

definition grow_alloc :: "size_t \<Rightarrow> size_t \<times> size_t" where
  "grow_alloc cur =
     (let new_alloc = push_bit 1 cur; alloc_size = new_alloc * 8
      in if new_alloc < cur \<or> alloc_size div 8 \<noteq> new_alloc
         then (cur + 1, (cur + 1) * 8) else (new_alloc, alloc_size))"

definition sk_grow :: "(size_t \<Rightarrow> bool) \<Rightarrow> (nat \<Rightarrow> ptr) \<Rightarrow> OPENSSL_STACK \<Rightarrow> OPENSSL_STACK option" where
  "sk_grow al fresh s =
     (if num_alloc s \<le> num s + 1 then
        (case grow_alloc (num_alloc s) of
           (new_alloc, alloc_size) \<Rightarrow>
             if new_alloc < num_alloc s \<or> alloc_size div 8 \<noteq> new_alloc then None
             else if \<not> OPENSSL_malloc al alloc_size then None
             else Some (s\<lparr>data := data s @ map fresh [length (data s)..<unat new_alloc],
                          num_alloc := new_alloc\<rparr>))
      else Some s)"

definition OPENSSL_sk_insert ::
  "(size_t \<Rightarrow> bool) \<Rightarrow> (nat \<Rightarrow> ptr) \<Rightarrow> OPENSSL_STACK option \<Rightarrow> ptr \<Rightarrow> size_t \<Rightarrow> size_t \<times> OPENSSL_STACK option" where
  "OPENSSL_sk_insert al fresh sk p where0 =
     (case sk of
        None \<Rightarrow> (0, None)
      | Some s \<Rightarrow>
          if num s \<ge> 2147483647 then (0, Some s)
          else case sk_grow al fresh s of
            None \<Rightarrow> (0, Some s)
          | Some s1 \<Rightarrow>
              let n = unat (num s1); w = unat where0;
                  d = (if where0 \<ge> num s1 then (data s1)[n := p]
                       else (take (w + 1) (data s1) @ take (n - w) (drop w (data s1)) @ drop (n + 1) (data s1))[w := p])
              in (num s1 + 1, Some (s1\<lparr>data := d, num := num s1 + 1, sorted_flag := False\<rparr>)))"

definition OPENSSL_sk_delete :: "OPENSSL_STACK option \<Rightarrow> size_t \<Rightarrow> ptr \<times> OPENSSL_STACK option" where
  "OPENSSL_sk_delete sk where0 =
     (case sk of
        None \<Rightarrow> (0, None)
      | Some s \<Rightarrow>
          if where0 \<ge> num s then (0, Some s)
          else
            let n = unat (num s); w = unat where0;
                d = (if where0 \<noteq> num s - 1
                     then take w (data s) @ take (n - w - 1) (drop (w + 1) (data s)) @ drop (n - 1) (data s)
                     else data s)
            in (data s ! w, Some (s\<lparr>data := d, num := num s - 1\<rparr>)))"

text \<open>The first index below \<open>n\<close> whose element satisfies a test: the linear searches.\<close>

definition first_index :: "(ptr \<Rightarrow> bool) \<Rightarrow> OPENSSL_STACK \<Rightarrow> size_t option" where
  "first_index P s = map_option of_nat (find (\<lambda>i. P (data s ! i)) [0..<unat (num s)])"

definition OPENSSL_sk_delete_ptr :: "OPENSSL_STACK option \<Rightarrow> ptr \<Rightarrow> ptr \<times> OPENSSL_STACK option" where
  "OPENSSL_sk_delete_ptr sk p =
     (case sk of
        None \<Rightarrow> (0, None)
      | Some s \<Rightarrow>
          (case first_index (\<lambda>x. x = p) s of
             None \<Rightarrow> (0, Some s) | Some i \<Rightarrow> OPENSSL_sk_delete (Some s) i))"

text \<open>The loop of \<^verbatim>\<open>OPENSSL_sk_delete_if\<close> from index \<open>i\<close>, with \<open>k\<close> steps left.\<close>

fun delete_if_loop :: "(ptr \<Rightarrow> bool) \<Rightarrow> ptr list \<Rightarrow> nat \<Rightarrow> nat \<Rightarrow> nat \<Rightarrow> ptr list \<times> nat" where
  "delete_if_loop func d i new_num 0 = (d, new_num)"
| "delete_if_loop func d i new_num (Suc k) =
     (if \<not> func (d ! i) then delete_if_loop func (d[new_num := d ! i]) (i + 1) (new_num + 1) k
      else delete_if_loop func d (i + 1) new_num k)"

definition OPENSSL_sk_delete_if :: "(ptr \<Rightarrow> bool) \<Rightarrow> OPENSSL_STACK option \<Rightarrow> OPENSSL_STACK option" where
  "OPENSSL_sk_delete_if func sk =
     (case sk of
        None \<Rightarrow> None
      | Some s \<Rightarrow>
          (case delete_if_loop func (data s) 0 0 (unat (num s)) of
             (d, new_num) \<Rightarrow> Some (s\<lparr>data := d, num := of_nat new_num\<rparr>)))"

definition OPENSSL_sk_is_sorted :: "OPENSSL_STACK option \<Rightarrow> bool" where
  "OPENSSL_sk_is_sorted sk =
     (case sk of None \<Rightarrow> True | Some s \<Rightarrow> sorted_flag s \<or> (comp s \<noteq> 0 \<and> num s < 2))"

definition OPENSSL_sk_find :: "call_cmp \<Rightarrow> OPENSSL_STACK option \<Rightarrow> ptr \<Rightarrow> size_t option" where
  "OPENSSL_sk_find call_cmp_func sk p =
     (case sk of
        None \<Rightarrow> None
      | Some s \<Rightarrow>
          if comp s = 0 then first_index (\<lambda>x. x = p) s
          else if p = 0 then None
          else if \<not> OPENSSL_sk_is_sorted sk then first_index (\<lambda>x. call_cmp_func (comp s) p x = 0) s
          else map_option of_nat (binary_search (call_cmp_func (comp s) p) (data s) 0 (unat (num s))))"

definition OPENSSL_sk_shift :: "OPENSSL_STACK option \<Rightarrow> ptr \<times> OPENSSL_STACK option" where
  "OPENSSL_sk_shift sk =
     (case sk of
        None \<Rightarrow> (0, None)
      | Some s \<Rightarrow> if num s = 0 then (0, Some s) else OPENSSL_sk_delete (Some s) 0)"

text \<open>\<^verbatim>\<open>OPENSSL_sk_push\<close> reads \<^verbatim>\<open>sk->num\<close> at once, so its argument is not \<^verbatim>\<open>NULL\<close>.\<close>

definition OPENSSL_sk_push ::
  "(size_t \<Rightarrow> bool) \<Rightarrow> (nat \<Rightarrow> ptr) \<Rightarrow> OPENSSL_STACK \<Rightarrow> ptr \<Rightarrow> size_t \<times> OPENSSL_STACK option" where
  "OPENSSL_sk_push al fresh s p = OPENSSL_sk_insert al fresh (Some s) p (num s)"

definition OPENSSL_sk_pop :: "OPENSSL_STACK option \<Rightarrow> ptr \<times> OPENSSL_STACK option" where
  "OPENSSL_sk_pop sk =
     (case sk of
        None \<Rightarrow> (0, None)
      | Some s \<Rightarrow> if num s = 0 then (0, Some s) else OPENSSL_sk_delete (Some s) (num s - 1))"

definition OPENSSL_sk_dup :: "(size_t \<Rightarrow> bool) \<Rightarrow> OPENSSL_STACK option \<Rightarrow> OPENSSL_STACK option" where
  "OPENSSL_sk_dup al sk =
     (case sk of
        None \<Rightarrow> None
      | Some s \<Rightarrow>
          if OPENSSL_zalloc al 40 = None then None
          else if 8 * num_alloc s = 0 \<or> \<not> OPENSSL_malloc al (8 * num_alloc s) then None
          else Some \<lparr>num = num s, data = data s, sorted_flag = sorted_flag s,
                     num_alloc = num_alloc s, comp = comp s\<rparr>)"

definition OPENSSL_sk_sort :: "call_cmp \<Rightarrow> OPENSSL_STACK option \<Rightarrow> OPENSSL_STACK option" where
  "OPENSSL_sk_sort call_cmp_func sk =
     (case sk of
        None \<Rightarrow> None
      | Some s \<Rightarrow>
          if comp s = 0 \<or> sorted_flag s then Some s
          else if num s \<ge> 2
          then Some (s\<lparr>data := heap_sort (call_cmp_func (comp s)) (data s) (num s), sorted_flag := True\<rparr>)
          else Some (s\<lparr>sorted_flag := True\<rparr>))"

definition OPENSSL_sk_set_cmp_func :: "OPENSSL_STACK \<Rightarrow> ptr \<Rightarrow> ptr \<times> OPENSSL_STACK" where
  "OPENSSL_sk_set_cmp_func s c =
     (comp s, (if comp s \<noteq> c then s\<lparr>sorted_flag := False\<rparr> else s)\<lparr>comp := c\<rparr>)"

text \<open>
  The loop of \<^verbatim>\<open>OPENSSL_sk_deep_copy\<close> from index \<open>i\<close> with \<open>k\<close> steps left: \<open>copy\<close> gives the copy
  of a pointer or 0. On failure the result is the list of copies that are freed.
\<close>

fun deep_copy_loop :: "(ptr \<Rightarrow> ptr) \<Rightarrow> ptr list \<Rightarrow> nat \<Rightarrow> nat \<Rightarrow> ptr list + ptr list" where
  "deep_copy_loop copy d i 0 = Inr d"
| "deep_copy_loop copy d i (Suc k) =
     (if d ! i = 0 then deep_copy_loop copy d (i + 1) k
      else if copy (d ! i) = 0 then Inl (filter (\<lambda>p. p \<noteq> 0) (take i d))
      else deep_copy_loop copy (d[i := copy (d ! i)]) (i + 1) k)"

text \<open>The new stack, or \<open>Inl\<close> with the pointers passed to the free function.\<close>

definition OPENSSL_sk_deep_copy ::
  "(size_t \<Rightarrow> bool) \<Rightarrow> (ptr \<Rightarrow> ptr) \<Rightarrow> OPENSSL_STACK option \<Rightarrow> ptr list + OPENSSL_STACK" where
  "OPENSSL_sk_deep_copy al copy sk =
     (case OPENSSL_sk_dup al sk of
        None \<Rightarrow> Inl []
      | Some ret \<Rightarrow>
          (case deep_copy_loop copy (data ret) 0 (unat (num ret)) of
             Inl freed \<Rightarrow> Inl freed | Inr d \<Rightarrow> Inr (ret\<lparr>data := d\<rparr>)))"

section \<open>Elements and invariant\<close>

definition elements :: "OPENSSL_STACK \<Rightarrow> ptr list" where
  "elements s = take (unat (num s)) (data s)"

text \<open>
  The array has \<open>num_alloc\<close> cells and always a spare one; there are at most \<^verbatim>\<open>INT_MAX\<close> elements.
\<close>

definition sk_ok :: "OPENSSL_STACK \<Rightarrow> bool" where
  "sk_ok s \<longleftrightarrow> length (data s) = unat (num_alloc s) \<and> unat (num s) < unat (num_alloc s) \<and>
     unat (num s) \<le> 2147483647 \<and> unat (num_alloc s) \<le> 2 ^ 32"

lemma length_elements: "sk_ok s \<Longrightarrow> length (elements s) = unat (num s)"
  by (simp add: sk_ok_def elements_def)

lemma new_ok: "OPENSSL_sk_new al c = Some s \<Longrightarrow> sk_ok s \<and> elements s = []"
  by (auto simp: OPENSSL_sk_new_def sk_ok_def elements_def kMinSize_def split: if_splits)

lemma grow_alloc_eq:
  assumes "unat cur \<le> 2 ^ 32"
  shows "grow_alloc cur = (2 * cur, 16 * cur)" and "unat (2 * cur) = 2 * unat cur"
    and "16 * cur div 8 = 2 * cur"
proof -
  have u: "unat (2 * cur) = 2 * unat cur" "unat (16 * cur) = 16 * unat cur"
    using assms by (simp_all add: unat_word_ariths)
  then show "unat (2 * cur) = 2 * unat cur" "16 * cur div 8 = 2 * cur"
    by (simp_all add: word_unat_eq_iff unat_div)
  then show "grow_alloc cur = (2 * cur, 16 * cur)"
    using u by (simp add: grow_alloc_def Let_def push_bit_eq_mult mult.commute [of cur] word_less_nat_alt)
qed

lemma grow_spec:
  assumes "sk_ok s" and "num s < 2147483647"
  shows "sk_grow al fresh s =
    (if unat (num_alloc s) = unat (num s) + 1 then
       if OPENSSL_malloc al (16 * num_alloc s)
       then Some (s\<lparr>data := data s @ map fresh [unat (num_alloc s)..<2 * unat (num_alloc s)],
                    num_alloc := 2 * num_alloc s\<rparr>)
       else None
     else Some s)"
proof -
  have o: "length (data s) = unat (num_alloc s)" "unat (num s) < unat (num_alloc s)" "unat (num_alloc s) \<le> 2 ^ 32"
      "unat (num s) < 2147483647"
    using assms by (simp_all add: sk_ok_def word_less_nat_alt)
  have u: "unat (num s + 1) = unat (num s) + 1" using o(4) by (simp add: unat_word_ariths)
  note g = grow_alloc_eq [OF o(3)]
  have "\<not> 2 * num_alloc s < num_alloc s" using g(2) by (simp add: word_less_nat_alt)
  moreover have "num_alloc s \<le> num s + 1 \<longleftrightarrow> unat (num_alloc s) = unat (num s) + 1"
    using u o(2) by (auto simp: word_le_nat_alt)
  ultimately show ?thesis using g o(1) by (simp add: sk_grow_def)
qed

text \<open>What a successful growth gives: the same elements, and a spare cell behind them.\<close>

lemma grow_ok:
  assumes "sk_ok s" and "num s < 2147483647" and "sk_grow al fresh s = Some s1"
  shows "length (data s1) = unat (num_alloc s1)" and "unat (num s) + 1 < unat (num_alloc s1)"
    and "unat (num_alloc s1) \<le> 2 ^ 32" and "num s1 = num s" and "take (unat (num s)) (data s1) = elements s"
    and "comp s1 = comp s"
proof -
  have o: "length (data s) = unat (num_alloc s)" "unat (num s) < unat (num_alloc s)" "unat (num_alloc s) \<le> 2 ^ 32"
      "unat (num s) < 2147483647"
    using assms(1,2) by (simp_all add: sk_ok_def word_less_nat_alt)
  note g = grow_alloc_eq(2) [OF o(3)]
  show "length (data s1) = unat (num_alloc s1)" "unat (num s) + 1 < unat (num_alloc s1)"
    "unat (num_alloc s1) \<le> 2 ^ 32" "num s1 = num s" "take (unat (num s)) (data s1) = elements s" "comp s1 = comp s"
    using assms(3) o g unfolding grow_spec [OF assms(1,2)]
    by (auto simp: elements_def split: if_splits)
qed

text \<open>An insertion on the array.\<close>

lemma insert_cells:
  assumes "n < length d"
  shows "w < n \<Longrightarrow> take (n + 1) ((take (w + 1) d @ take (n - w) (drop w d) @ drop (n + 1) d)[w := p]) =
      take w d @ p # drop w (take n d)"
    and "take (n + 1) (d[n := p]) = take n d @ [p]"
    and "w < n \<Longrightarrow> length ((take (w + 1) d @ take (n - w) (drop w d) @ drop (n + 1) d)[w := p]) = length d"
proof -
  show "take (n + 1) (d[n := p]) = take n d @ [p]"
    using assms by (simp add: take_Suc_conv_app_nth)
  assume w: "w < n"
  then show l: "length ((take (w + 1) d @ take (n - w) (drop w d) @ drop (n + 1) d)[w := p]) = length d"
    using assms by simp
  have "take (w + 1) d = take w d @ [d ! w]" using w assms by (simp add: take_Suc_conv_app_nth)
  then have "(take (w + 1) d @ take (n - w) (drop w d) @ drop (n + 1) d)[w := p] =
      take w d @ p # take (n - w) (drop w d) @ drop (n + 1) d"
    using w assms by (simp add: list_update_append)
  then show "take (n + 1) ((take (w + 1) d @ take (n - w) (drop w d) @ drop (n + 1) d)[w := p]) =
      take w d @ p # drop w (take n d)"
    using w assms by (simp add: drop_take Suc_diff_le)
qed

lemma insert_spec:
  assumes "sk_ok s" and "OPENSSL_sk_insert al fresh (Some s) p w = (r, Some s')"
  shows "if r = 0 then s' = s
    else sk_ok s' \<and> elements s' = take (unat w) (elements s) @ p # drop (unat w) (elements s) \<and>
      r = num s' \<and> comp s' = comp s \<and> \<not> sorted_flag s'"
proof (cases "num s < 2147483647 \<and> sk_grow al fresh s \<noteq> None")
  case False
  with assms(2) show ?thesis by (auto simp: OPENSSL_sk_insert_def not_less split: if_splits)
next
  case True
  then obtain s1 where g: "sk_grow al fresh s = Some s1" by auto
  have lt: "num s < 2147483647" using True by blast
  note k = grow_ok [OF assms(1) lt g]
  let ?n = "unat (num s)"
  have u: "unat (num s + 1) = ?n + 1" using lt by (simp add: unat_word_ariths word_less_nat_alt)
  then have nz: "num s + 1 \<noteq> 0" by (metis Suc_eq_plus1 nat.simps(3) unat_0)
  have n: "?n < length (data s1)" using k(1,2) by simp
  note c = insert_cells [OF n]
  have e: "elements s = take ?n (data s1)" using k(5) by simp
  have le: "length (elements s) = ?n" by (rule length_elements [OF assms(1)])
  let ?d = "if num s \<le> w then (data s1)[?n := p]
      else (take (unat w + 1) (data s1) @ take (?n - unat w) (drop (unat w) (data s1)) @ drop (?n + 1) (data s1))[unat w := p]"
  have "\<not> num s \<ge> 2147483647" using lt by simp
  then have run: "r = num s + 1" "s' = s1\<lparr>data := ?d, num := num s + 1, sorted_flag := False\<rparr>"
    using assms(2) g k(4) by (auto simp: OPENSSL_sk_insert_def Let_def)
  have d: "length ?d = length (data s1)" "take (?n + 1) ?d = take (unat w) (elements s) @ p # drop (unat w) (elements s)"
  proof -
    show "length ?d = length (data s1)" using c(3) [of "unat w"] by (auto simp: word_le_nat_alt)
    show "take (?n + 1) ?d = take (unat w) (elements s) @ p # drop (unat w) (elements s)"
      using c(1) [of "unat w" p] c(2) [of p] e le by (auto simp: word_le_nat_alt)
  qed
  have "sk_ok s'" using k(1,2,3) d(1) u lt by (simp add: run sk_ok_def word_less_nat_alt)
  moreover have "elements s' = take (unat w) (elements s) @ p # drop (unat w) (elements s)"
    using d(2) u by (simp add: run elements_def)
  ultimately show ?thesis using nz k(6) by (simp add: run)
qed

lemma delete_spec:
  assumes "sk_ok s" and "OPENSSL_sk_delete (Some s) w = (r, Some s')"
  shows "if w \<ge> num s then r = 0 \<and> s' = s
    else r = elements s ! unat w \<and> elements s' = take (unat w) (elements s) @ drop (Suc (unat w)) (elements s) \<and>
      sk_ok s' \<and> comp s' = comp s \<and> sorted_flag s' = sorted_flag s"
proof (cases "w \<ge> num s")
  case True
  with assms(2) show ?thesis by (simp add: OPENSSL_sk_delete_def)
next
  case False
  let ?n = "unat (num s)" and ?w = "unat w" and ?d = "data s"
  have w: "?w < ?n" using False by (simp add: word_less_nat_alt not_le)
  have n: "?n < length ?d" using assms(1) by (simp add: sk_ok_def)
  have n1: "unat (num s - 1) = ?n - 1" using w by (intro unat_minus_one) auto
  let ?e = "if w \<noteq> num s - 1 then take ?w ?d @ take (?n - ?w - 1) (drop (?w + 1) ?d) @ drop (?n - 1) ?d else ?d"
  have run: "r = ?d ! ?w" "s' = s\<lparr>data := ?e, num := num s - 1\<rparr>"
    using assms(2) False by (auto simp: OPENSSL_sk_delete_def Let_def)
  have len: "length ?e = length ?d" using w n by auto
  have "take (?n - 1) ?e = take ?w (take ?n ?d) @ drop (Suc ?w) (take ?n ?d)"
  proof (cases "w = num s - 1")
    case True
    then have "?w = ?n - 1" using n1 by simp
    with w n True show ?thesis by simp
  next
    case ne: False
    then have "?w \<noteq> ?n - 1" using n1 by (auto simp: word_unat_eq_iff)
    with w n ne show ?thesis by (simp add: drop_take)
  qed
  then have "elements s' = take ?w (elements s) @ drop (Suc ?w) (elements s)"
    by (simp add: run elements_def n1)
  moreover have "sk_ok s'"
    using assms(1) len n1 by (simp add: run sk_ok_def del: length_append) linarith
  moreover have "r = elements s ! ?w" using w n by (simp add: run elements_def)
  ultimately show ?thesis using False by (simp add: run)
qed

lemma set_spec:
  assumes "sk_ok s" and "OPENSSL_sk_set (Some s) i v = (r, Some s')"
  shows "sk_ok s'" and "elements s' = (if i \<ge> num s then elements s else (elements s)[unat i := v])"
  using assms by (auto simp: OPENSSL_sk_set_def sk_ok_def elements_def take_update_swap split: if_splits)

lemma delete_if_loop_spec:
  "new \<le> i \<Longrightarrow> i + k \<le> length d \<Longrightarrow> delete_if_loop func d i new k = (d', m) \<Longrightarrow>
   take m d' = take new d @ filter (\<lambda>x. \<not> func x) (take k (drop i d)) \<and> length d' = length d \<and> m \<le> i + k"
proof (induction func d i new k rule: delete_if_loop.induct)
  case (2 func d i new k)
  have h: "take (Suc k) (drop i d) = d ! i # take k (drop (Suc i) d)"
    using 2(4) by (simp add: Cons_nth_drop_Suc [symmetric])
  show ?case
  proof (cases "func (d ! i)")
    case True
    with 2 h show ?thesis by simp
  next
    case False
    let ?d = "d[new := d ! i]"
    have "drop (i + 1) ?d = drop (i + 1) d" using 2(3) by simp
    moreover have "take (new + 1) ?d = take new d @ [d ! i]"
      using 2(3,4) by (simp add: take_Suc_conv_app_nth)
    ultimately show ?thesis using 2(1) [OF False] 2(3-5) False h by simp
  qed
qed simp

lemma delete_if_spec:
  assumes "sk_ok s" and "OPENSSL_sk_delete_if func (Some s) = Some s'"
  shows "sk_ok s'" and "elements s' = filter (\<lambda>x. \<not> func x) (elements s)" and "comp s' = comp s"
    and "sorted_flag s' = sorted_flag s"
proof -
  obtain d m where l: "delete_if_loop func (data s) 0 0 (unat (num s)) = (d, m)" by fastforce
  have n: "unat (num s) \<le> length (data s)" using assms(1) by (simp add: sk_ok_def)
  have d: "take m d = filter (\<lambda>x. \<not> func x) (elements s)" "length d = length (data s)" "m \<le> unat (num s)"
    using delete_if_loop_spec [OF _ _ l] n by (auto simp: elements_def)
  have s': "s' = s\<lparr>data := d, num := of_nat m\<rparr>" using assms(2) l by (simp add: OPENSSL_sk_delete_if_def)
  have "unat (of_nat m :: size_t) = m" using d(3) unat_less_64 [of "num s"] by (simp add: unat_of_nat)
  with d assms(1) show "sk_ok s'" "elements s' = filter (\<lambda>x. \<not> func x) (elements s)" "comp s' = comp s"
    "sorted_flag s' = sorted_flag s"
    by (auto simp: s' sk_ok_def elements_def)
qed

lemma zero_spec:
  assumes "sk_ok s" and "OPENSSL_sk_zero (Some s) = Some s'"
  shows "sk_ok s'" and "elements s' = []" and "comp s' = comp s"
  using assms by (auto simp: OPENSSL_sk_zero_def sk_ok_def elements_def split: if_splits)

text \<open>The comparison functions that a stack may be given.\<close>

definition cmp_ok :: "call_cmp \<Rightarrow> bool" where
  "cmp_ok call_cmp_func \<longleftrightarrow> (\<forall>c. c \<noteq> 0 \<longrightarrow> comparison (call_cmp_func c))"

abbreviation ascending :: "call_cmp \<Rightarrow> ptr \<Rightarrow> ptr list \<Rightarrow> bool" where
  "ascending call_cmp_func c xs \<equiv> sorted_wrt (\<lambda>a b. call_cmp_func c a b \<le> 0) xs"

lemma sort_spec:
  assumes "sk_ok s" and "cmp_ok call_cmp_func" and "OPENSSL_sk_sort call_cmp_func (Some s) = Some s'"
    and "comp s \<noteq> 0"
  shows "sk_ok s'" and "mset (elements s') = mset (elements s)" and "comp s' = comp s" and "sorted_flag s'"
    and "sorted_flag s \<longrightarrow> ascending call_cmp_func (comp s) (elements s) \<Longrightarrow>
      ascending call_cmp_func (comp s) (elements s')"
proof -
  let ?cmp = "call_cmp_func (comp s)" and ?n = "unat (num s)"
  have c: "comparison ?cmp" using assms(2,4) by (simp add: cmp_ok_def)
  have le: "comparison.le ?cmp = (\<lambda>a b. ?cmp a b \<le> 0)" by (intro ext) (rule comparison.le_def [OF c])
  have n: "?n \<le> length (data s)" using assms(1) by (simp add: sk_ok_def)
  consider "sorted_flag s" "s' = s" | "\<not> sorted_flag s" "\<not> num s \<ge> 2" "s' = s\<lparr>sorted_flag := True\<rparr>"
    | "num s \<ge> 2" "s' = s\<lparr>data := heap_sort ?cmp (data s) (num s), sorted_flag := True\<rparr>"
  proof -
    have "s' = (if sorted_flag s then s
        else if num s \<ge> 2 then s\<lparr>data := heap_sort ?cmp (data s) (num s), sorted_flag := True\<rparr>
        else s\<lparr>sorted_flag := True\<rparr>)"
      using assms(3,4) unfolding OPENSSL_sk_sort_def by (cases "sorted_flag s"; cases "num s \<ge> 2") simp_all
    then show ?thesis using that by (cases "sorted_flag s"; cases "num s \<ge> 2") simp_all
  qed
  then have "sk_ok s' \<and> mset (elements s') = mset (elements s) \<and> comp s' = comp s \<and> sorted_flag s' \<and>
      ((sorted_flag s \<longrightarrow> ascending call_cmp_func (comp s) (elements s)) \<longrightarrow>
        ascending call_cmp_func (comp s) (elements s'))"
  proof cases
    case 1
    with assms(1) show ?thesis by simp
  next
    case 2
    then have "?n < 2" by (simp add: word_le_nat_alt)
    then have "length (elements s) \<le> 1" using length_elements [OF assms(1)] by simp
    then have "ascending call_cmp_func (comp s) (elements s)" by (cases "elements s") auto
    with 2 assms(1) show ?thesis by (simp add: sk_ok_def elements_def)
  next
    case 3
    then have "2 \<le> ?n" by (simp add: word_le_nat_alt)
    note h = comparison.heap_sort_spec [OF c this n, unfolded le]
    from 3 h assms(1) show ?thesis by (simp add: sk_ok_def elements_def)
  qed
  then show "sk_ok s'" "mset (elements s') = mset (elements s)" "comp s' = comp s" "sorted_flag s'"
    "sorted_flag s \<longrightarrow> ascending call_cmp_func (comp s) (elements s) \<Longrightarrow>
      ascending call_cmp_func (comp s) (elements s')"
    by blast+
qed

lemma first_index_eq:
  assumes "sk_ok s"
  shows "first_index P s = map_option of_nat (find (\<lambda>i. P (elements s ! i)) [0..<length (elements s)])"
proof -
  have "find (\<lambda>i. P (data s ! i)) [0..<unat (num s)] = find (\<lambda>i. P (elements s ! i)) [0..<unat (num s)]"
    by (rule find_cong) (auto simp: elements_def)
  then show ?thesis by (simp add: first_index_def length_elements [OF assms])
qed

text \<open>
  The flag tells the truth: the elements are in ascending order, as the comment at the field
  says. All operations but \<^verbatim>\<open>OPENSSL_sk_set\<close> keep this.
\<close>

definition flag_true :: "call_cmp \<Rightarrow> OPENSSL_STACK \<Rightarrow> bool" where
  "flag_true call_cmp_func s \<longleftrightarrow> (sorted_flag s \<longrightarrow> comp s \<noteq> 0 \<and> ascending call_cmp_func (comp s) (elements s))"

lemma find_spec:
  assumes "sk_ok s" and "cmp_ok call_cmp_func" and "flag_true call_cmp_func s"
  shows "OPENSSL_sk_find call_cmp_func (Some s) p =
    (if comp s \<noteq> 0 \<and> p = 0 then None
     else first_index (\<lambda>x. if comp s = 0 then x = p else call_cmp_func (comp s) p x = 0) s)"
proof (cases "comp s = 0 \<or> p = 0 \<or> \<not> OPENSSL_sk_is_sorted (Some s)")
  case True
  then show ?thesis by (auto simp: OPENSSL_sk_find_def)
next
  case False
  let ?cmp = "call_cmp_func (comp s)" and ?n = "unat (num s)"
  have c: "comparison ?cmp" using assms(2) False by (simp add: cmp_ok_def)
  have le: "comparison.le ?cmp = (\<lambda>a b. ?cmp a b \<le> 0)" by (intro ext) (rule comparison.le_def [OF c])
  have "sorted_flag s \<or> length (elements s) \<le> 1"
    using False length_elements [OF assms(1)] by (auto simp: OPENSSL_sk_is_sorted_def word_less_nat_alt)
  then have "sorted_wrt (\<lambda>a b. ?cmp a b \<le> 0) (take ?n (data s))"
  proof
    assume "length (elements s) \<le> 1"
    then have "sorted_wrt (\<lambda>a b. ?cmp a b \<le> 0) (elements s)" by (cases "elements s") auto
    then show ?thesis by (simp add: elements_def)
  qed (use assms(3) in \<open>simp add: flag_true_def elements_def\<close>)
  moreover have "?n \<le> length (data s)" using assms(1) by (simp add: sk_ok_def)
  ultimately have "binary_search (?cmp p) (data s) 0 ?n = find (\<lambda>k. ?cmp p (data s ! k) = 0) [0..<?n]"
    using comparison.binary_search_linear [OF c, unfolded le] by blast
  with False show ?thesis by (simp add: OPENSSL_sk_find_def first_index_def)
qed

end
