(* ===== verification/Stack_Steps.thy ===== *)
theory Stack_Steps
  imports Stack
begin

text \<open>
  The pointer stack as a state machine, and its properties: memory safety, the refinement of
  lists, sorting, searching, the flag that \<^verbatim>\<open>OPENSSL_sk_set\<close> leaves stale, and deep copies.
\<close>

section \<open>Sequences of operations\<close>

text \<open>
  The calls on a stack; a copy is used in place of the original. \<open>with_set\<close> tells whether the
  calls that replace elements and keep the flag, \<^verbatim>\<open>OPENSSL_sk_set\<close> and \<^verbatim>\<open>OPENSSL_sk_deep_copy\<close>,
  are among them.
\<close>

inductive sk_step :: "bool \<Rightarrow> call_cmp \<Rightarrow> OPENSSL_STACK \<Rightarrow> OPENSSL_STACK \<Rightarrow> bool" for with_set call_cmp_func where
  insert: "OPENSSL_sk_insert al fresh (Some s) p w = (r, Some s') \<Longrightarrow> sk_step with_set call_cmp_func s s'"
| push: "OPENSSL_sk_push al fresh s p = (r, Some s') \<Longrightarrow> sk_step with_set call_cmp_func s s'"
| delete: "OPENSSL_sk_delete (Some s) w = (q, Some s') \<Longrightarrow> sk_step with_set call_cmp_func s s'"
| delete_ptr: "OPENSSL_sk_delete_ptr (Some s) p = (q, Some s') \<Longrightarrow> sk_step with_set call_cmp_func s s'"
| shift: "OPENSSL_sk_shift (Some s) = (q, Some s') \<Longrightarrow> sk_step with_set call_cmp_func s s'"
| pop: "OPENSSL_sk_pop (Some s) = (q, Some s') \<Longrightarrow> sk_step with_set call_cmp_func s s'"
| delete_if: "OPENSSL_sk_delete_if func (Some s) = Some s' \<Longrightarrow> sk_step with_set call_cmp_func s s'"
| zero: "OPENSSL_sk_zero (Some s) = Some s' \<Longrightarrow> sk_step with_set call_cmp_func s s'"
| sort: "OPENSSL_sk_sort call_cmp_func (Some s) = Some s' \<Longrightarrow> sk_step with_set call_cmp_func s s'"
| set_cmp: "OPENSSL_sk_set_cmp_func s c = (old, s') \<Longrightarrow> sk_step with_set call_cmp_func s s'"
| dup: "OPENSSL_sk_dup al (Some s) = Some s' \<Longrightarrow> sk_step with_set call_cmp_func s s'"
| deep_copy: "with_set \<Longrightarrow> OPENSSL_sk_deep_copy al copy (Some s) = Inr s' \<Longrightarrow> sk_step with_set call_cmp_func s s'"
| set: "with_set \<Longrightarrow> OPENSSL_sk_set (Some s) i v = (q, Some s') \<Longrightarrow> sk_step with_set call_cmp_func s s'"

lemma delete_flag:
  assumes "sk_ok s" and "flag_true call_cmp_func s" and "OPENSSL_sk_delete (Some s) w = (r, Some s')"
  shows "sk_ok s' \<and> flag_true call_cmp_func s'"
proof -
  note d = delete_spec [OF assms(1,3)]
  have sub: "sorted_wrt P (take k xs @ drop (Suc k) xs)" if "sorted_wrt P xs" for P k and xs :: "ptr list"
  proof (cases "k < length xs")
    case True
    then have "sorted_wrt P (take k xs @ xs ! k # drop (Suc k) xs)"
      using that by (simp add: id_take_nth_drop [symmetric])
    then show ?thesis by (simp add: sorted_wrt_append)
  qed (use that in simp)
  from d assms(1,2) sub show ?thesis by (auto simp: flag_true_def split: if_splits)
qed

lemma insert_flag:
  assumes "sk_ok s" and "flag_true call_cmp_func s" and "OPENSSL_sk_insert al fresh (Some s) p w = (r, Some s')"
  shows "sk_ok s' \<and> flag_true call_cmp_func s'"
  using insert_spec [OF assms(1,3)] assms(1,2) by (auto simp: flag_true_def split: if_splits)

lemma insert_ok: "sk_ok s \<Longrightarrow> OPENSSL_sk_insert al fresh (Some s) p w = (r, Some s') \<Longrightarrow> sk_ok s'"
  using insert_spec [of s al fresh p w r s'] by (auto split: if_splits)

lemma delete_ok: "sk_ok s \<Longrightarrow> OPENSSL_sk_delete (Some s) w = (r, Some s') \<Longrightarrow> sk_ok s'"
  using delete_spec [of s w r s'] by (auto split: if_splits)

lemma deep_copy_length: "deep_copy_loop copy d i k = Inr d' \<Longrightarrow> length d' = length d"
  by (induction copy d i k rule: deep_copy_loop.induct) (auto split: if_splits)

lemma deep_copy_ok: "sk_ok s \<Longrightarrow> OPENSSL_sk_deep_copy al copy (Some s) = Inr s' \<Longrightarrow> sk_ok s'"
  by (auto simp: OPENSSL_sk_deep_copy_def OPENSSL_sk_dup_def sk_ok_def deep_copy_length split: if_splits sum.splits)

text \<open>The derived operations are insertions, deletions, or nothing.\<close>

lemma step_kinds:
  assumes "sk_step with_set call_cmp_func s s'"
  obtains (same) "s' = s"
    | (insert) al fresh p w r where "OPENSSL_sk_insert al fresh (Some s) p w = (r, Some s')"
    | (delete) w r where "OPENSSL_sk_delete (Some s) w = (r, Some s')"
    | (delete_if) func where "OPENSSL_sk_delete_if func (Some s) = Some s'"
    | (zero) "OPENSSL_sk_zero (Some s) = Some s'"
    | (sort) "OPENSSL_sk_sort call_cmp_func (Some s) = Some s'"
    | (set_cmp) c old where "OPENSSL_sk_set_cmp_func s c = (old, s')"
    | (deep_copy) al copy where "with_set" "OPENSSL_sk_deep_copy al copy (Some s) = Inr s'"
    | (set) i v q where "with_set" "OPENSSL_sk_set (Some s) i v = (q, Some s')"
  using assms
proof cases
  case push
  then show ?thesis using insert unfolding OPENSSL_sk_push_def by blast
next
  case delete_ptr
  then show ?thesis using same delete by (auto simp: OPENSSL_sk_delete_ptr_def split: option.splits)
next
  case shift
  then show ?thesis using same delete by (auto simp: OPENSSL_sk_shift_def split: if_splits)
next
  case pop
  then show ?thesis using same delete by (auto simp: OPENSSL_sk_pop_def split: if_splits)
next
  case dup
  then show ?thesis using same by (auto simp: OPENSSL_sk_dup_def split: if_splits)
qed (use insert delete delete_if zero sort set_cmp deep_copy set in blast)+

lemma step_flag:
  assumes "sk_step False call_cmp_func s s'" and "cmp_ok call_cmp_func"
    and "sk_ok s" and "flag_true call_cmp_func s"
  shows "sk_ok s' \<and> flag_true call_cmp_func s'"
  using assms(1)
proof (cases rule: step_kinds)
  case delete_if
  then show ?thesis
    using delete_if_spec [OF assms(3)] assms(4) by (auto simp: flag_true_def sorted_wrt_filter)
next
  case zero
  then show ?thesis using zero_spec [OF assms(3)] assms(4)
    by (auto simp: flag_true_def OPENSSL_sk_zero_def split: if_splits)
next
  case sort
  then show ?thesis
    using sort_spec [OF assms(3,2) sort] assms(3,4)
    by (cases "comp s = 0") (simp_all add: flag_true_def OPENSSL_sk_sort_def)
next
  case set_cmp
  then show ?thesis using assms(3,4)
    by (auto simp: OPENSSL_sk_set_cmp_func_def flag_true_def sk_ok_def elements_def split: if_splits)
qed (use insert_flag [OF assms(3,4)] delete_flag [OF assms(3,4)] assms(3,4) in auto)

lemma step_ok:
  assumes "sk_step with_set call_cmp_func s s'" and "cmp_ok call_cmp_func" and "sk_ok s"
  shows "sk_ok s'"
  using assms(1)
proof (cases rule: step_kinds)
  case sort
  then show ?thesis using sort_spec(1) [OF assms(3,2) sort] assms(3)
    by (cases "comp s = 0") (simp_all add: OPENSSL_sk_sort_def)
next
  case set_cmp
  then show ?thesis using assms(3) by (auto simp: OPENSSL_sk_set_cmp_func_def sk_ok_def split: if_splits)
next
  case insert
  with assms(3) show ?thesis by (rule insert_ok)
next
  case delete
  with assms(3) show ?thesis by (rule delete_ok)
next
  case delete_if
  with assms(3) show ?thesis by (rule delete_if_spec(1))
next
  case zero
  with assms(3) show ?thesis by (rule zero_spec(1))
next
  case set
  from assms(3) set(2) show ?thesis by (rule set_spec(1))
next
  case deep_copy
  from assms(3) deep_copy(2) show ?thesis by (rule deep_copy_ok)
qed (use assms(3) in simp)

section \<open>Deep copies\<close>

abbreviation copy_or_null :: "(ptr \<Rightarrow> ptr) \<Rightarrow> ptr \<Rightarrow> ptr" where
  "copy_or_null copy p \<equiv> (if p = 0 then 0 else copy p)"

lemma deep_copy_loop_spec:
  "i + k \<le> length d \<Longrightarrow>
   (case deep_copy_loop copy d i k of
      Inr d' \<Rightarrow> take (i + k) d' = take i d @ map (copy_or_null copy) (take k (drop i d)) \<and>
        length d' = length d \<and> (\<forall>p \<in> set (take k (drop i d)). p \<noteq> 0 \<longrightarrow> copy p \<noteq> 0)
    | Inl freed \<Rightarrow> \<exists>m < k. drop i d ! m \<noteq> 0 \<and> copy (drop i d ! m) = 0 \<and>
        freed = filter (\<lambda>p. p \<noteq> 0) (take i d @ map (copy_or_null copy) (take m (drop i d))))"
proof (induction copy d i k rule: deep_copy_loop.induct)
  case (2 copy d i k)
  have h2: "drop i d = d ! i # drop (Suc i) d" using 2(3) by (simp add: Cons_nth_drop_Suc)
  then have h: "take (Suc k) (drop i d) = d ! i # take k (drop (Suc i) d)" "drop i d = d ! i # drop (Suc i) d"
    by simp_all
  have t: "take (Suc i) (d[i := x]) = take i d @ [x]" for x using 2(3) by (simp add: take_Suc_conv_app_nth)
  have t0: "take (Suc i) d = take i d @ [d ! i]" using 2(3) by (simp add: take_Suc_conv_app_nth)
  have lift: "case deep_copy_loop copy d i (Suc k) of
      Inr d' \<Rightarrow> take (i + Suc k) d' = take i d @ map (copy_or_null copy) (take (Suc k) (drop i d)) \<and>
        length d' = length d \<and> (\<forall>p \<in> set (take (Suc k) (drop i d)). p \<noteq> 0 \<longrightarrow> copy p \<noteq> 0)
    | Inl freed \<Rightarrow> \<exists>m < Suc k. drop i d ! m \<noteq> 0 \<and> copy (drop i d ! m) = 0 \<and>
        freed = filter (\<lambda>p. p \<noteq> 0) (take i d @ map (copy_or_null copy) (take m (drop i d)))"
    if e: "deep_copy_loop copy d i (Suc k) = deep_copy_loop copy e (i + 1) k"
      and x: "take (Suc i) e = take i d @ [copy_or_null copy (d ! i)]" "drop (Suc i) e = drop (Suc i) d"
        "length e = length d" "d ! i \<noteq> 0 \<longrightarrow> copy (d ! i) \<noteq> 0"
      and IH: "case deep_copy_loop copy e (i + 1) k of
      Inr d' \<Rightarrow> take (i + 1 + k) d' = take (i + 1) e @ map (copy_or_null copy) (take k (drop (i + 1) e)) \<and>
        length d' = length e \<and> (\<forall>p \<in> set (take k (drop (i + 1) e)). p \<noteq> 0 \<longrightarrow> copy p \<noteq> 0)
    | Inl freed \<Rightarrow> \<exists>m < k. drop (i + 1) e ! m \<noteq> 0 \<and> copy (drop (i + 1) e ! m) = 0 \<and>
        freed = filter (\<lambda>p. p \<noteq> 0) (take (i + 1) e @ map (copy_or_null copy) (take m (drop (i + 1) e)))" for e
  proof (cases "deep_copy_loop copy e (i + 1) k")
    case (Inr d')
    with IH x show ?thesis unfolding e h(1) by simp
  next
    case (Inl fr)
    with IH obtain m where "m < k" "drop (Suc i) d ! m \<noteq> 0" "copy (drop (Suc i) d ! m) = 0"
        "fr = filter (\<lambda>p. p \<noteq> 0) (take (Suc i) e @ map (copy_or_null copy) (take m (drop (Suc i) d)))"
      using x(2) by auto
    then have "Suc m < Suc k \<and> drop i d ! Suc m \<noteq> 0 \<and> copy (drop i d ! Suc m) = 0 \<and>
        fr = filter (\<lambda>p. p \<noteq> 0) (take i d @ map (copy_or_null copy) (take (Suc m) (drop i d)))"
      unfolding h2 x(1) by simp
    then show ?thesis unfolding e Inl sum.case by blast
  qed
  consider "d ! i = 0" | "d ! i \<noteq> 0" "copy (d ! i) = 0" | "d ! i \<noteq> 0" "copy (d ! i) \<noteq> 0" by blast
  then show ?case
  proof cases
    case 1
    then show ?thesis using 2(1) [OF 1] 2(3) t0 by (intro lift [of d]) simp_all
  next
    case 2
    then show ?thesis using h2 by (auto intro!: exI [of _ 0])
  next
    case 3
    then show ?thesis using 2(2) [OF 3] 2(3) t by (intro lift [of "d[i := copy (d ! i)]"]) simp_all
  qed
qed simp

section \<open>Properties\<close>

text \<open>
  C25 (invariant). However a new stack is used, it never has more than \<^verbatim>\<open>INT_MAX\<close> elements (as
  the header promises), the elements lie inside the allocated array, which has a spare cell, and
  the capacity computation stays far below an overflow.
\<close>

theorem stack_memory_safe:
  assumes "OPENSSL_sk_new al c = Some s0" and "cmp_ok call_cmp_func" and "(sk_step True call_cmp_func)\<^sup>*\<^sup>* s0 s"
  shows "unat (OPENSSL_sk_num (Some s)) \<le> 2147483647 \<and> unat (num s) < length (data s) \<and>
    length (data s) = unat (num_alloc s) \<and> unat (num_alloc s) \<le> 2 ^ 32"
proof -
  from assms(3) have "sk_ok s"
    by (induction rule: rtranclp_induct) (use new_ok [OF assms(1)] step_ok assms(2) in blast)+
  then show ?thesis by (simp add: sk_ok_def OPENSSL_sk_num_def)
qed

lemma max_word_unat: "unat (- 1 :: size_t) = 18446744073709551615"
  by (simp add: unsigned_minus_1_eq_mask mask_eq_exp_minus_1)

lemma address_order: "cmp_ok (\<lambda>c a b. uint a - uint b)"
  unfolding cmp_ok_def by (intro allI impI comparison.intro) auto

text \<open>A new stack, and the stack after one push.\<close>

abbreviation sample_new :: OPENSSL_STACK where
  "sample_new \<equiv> \<lparr>num = 0, data = [0, 0, 0, 0], sorted_flag = False, num_alloc = 4, comp = 1\<rparr>"

abbreviation sample_pushed :: OPENSSL_STACK where
  "sample_pushed \<equiv> \<lparr>num = 1, data = [7, 0, 0, 0], sorted_flag = False, num_alloc = 4, comp = 1\<rparr>"

lemma sample_new: "OPENSSL_sk_new (\<lambda>_. True) 1 = Some sample_new"
proof -
  have z: "OPENSSL_zalloc (\<lambda>_. True) 40 \<noteq> None" by (simp add: OPENSSL_zalloc_def OPENSSL_malloc_def)
  have "\<not> 4 > (- 1 :: size_t) div 8" by (simp add: word_less_nat_alt unat_div max_word_unat)
  then have "OPENSSL_calloc (\<lambda>_. True) 4 8 = OPENSSL_zalloc (\<lambda>_. True) (4 * 8)"
    unfolding OPENSSL_calloc_def by (simp only: if_False simp_thms)
  then have c: "OPENSSL_calloc (\<lambda>_. True) 4 8 \<noteq> None" by (simp add: OPENSSL_zalloc_def OPENSSL_malloc_def)
  have "unat (4 :: size_t) = Suc (Suc (Suc (Suc 0)))" by simp
  then have "replicate (unat (4 :: size_t)) (0 :: ptr) = [0, 0, 0, 0]" by (simp only: replicate.simps)
  then show ?thesis
    unfolding OPENSSL_sk_new_def kMinSize_def if_not_P [OF z] if_not_P [OF c] by (simp only:)
qed

lemma sample_push: "OPENSSL_sk_push (\<lambda>_. True) (\<lambda>_. 0) sample_new 7 = (1, Some sample_pushed)"
  by (simp add: OPENSSL_sk_push_def OPENSSL_sk_insert_def sk_grow_def word_le_nat_alt)

lemma sample_step: "(sk_step b call_cmp_func)\<^sup>*\<^sup>* sample_new sample_pushed"
  by (rule r_into_rtranclp) (rule sk_step.push [OF sample_push])

theorem stack_memory_safe_witness:
  "\<exists>s0 s. OPENSSL_sk_new (\<lambda>_. True) 1 = Some s0 \<and>
    OPENSSL_sk_push (\<lambda>_. True) (\<lambda>_. 0) s0 7 = (1, Some s) \<and> unat (num s) < length (data s)"
  using stack_memory_safe [OF sample_new address_order sample_step] sample_new sample_push by blast

text \<open>
  C26 (refinement). On the list of elements, a successful insertion at any index inserts
  there (at the end when the index is too large) and returns the new length; a failed one,
  which returns zero, changes nothing. A deletion returns and removes one element, or returns
  \<^verbatim>\<open>NULL\<close> and changes nothing when the index is out of range; \<^verbatim>\<open>OPENSSL_sk_delete_if\<close> keeps
  the other elements in order.
\<close>

theorem stack_refines_list:
  assumes "sk_ok s" and "OPENSSL_sk_insert al fresh (Some s) p w = (r, Some s1)"
    and "OPENSSL_sk_delete (Some s) w = (q, Some s2)" and "OPENSSL_sk_delete_if func (Some s) = Some s3"
  shows "(if r = 0 then s1 = s
      else elements s1 = take (unat w) (elements s) @ p # drop (unat w) (elements s) \<and>
        unat r = length (elements s) + 1) \<and>
    (if unat w < length (elements s)
      then q = elements s ! unat w \<and> elements s2 = take (unat w) (elements s) @ drop (Suc (unat w)) (elements s)
      else q = 0 \<and> s2 = s) \<and>
    elements s3 = filter (\<lambda>x. \<not> func x) (elements s)"
proof (intro conjI)
  show "if r = 0 then s1 = s else elements s1 = take (unat w) (elements s) @ p # drop (unat w) (elements s) \<and>
      unat r = length (elements s) + 1"
  proof (cases "r = 0")
    case False
    with insert_spec [OF assms(1,2)] have i: "sk_ok s1" "r = num s1"
        "elements s1 = take (unat w) (elements s) @ p # drop (unat w) (elements s)" by simp_all
    have "unat r = length (elements s1)" using length_elements [OF i(1)] i(2) by (simp only:)
    moreover have "length (elements s1) = length (elements s) + 1" using i(3) by (simp add: min_def)
    ultimately have "unat r = length (elements s) + 1" by linarith
    with False i(3) show ?thesis by (simp only: if_False simp_thms)
  qed (use insert_spec [OF assms(1,2)] in simp)
  show "if unat w < length (elements s)
      then q = elements s ! unat w \<and> elements s2 = take (unat w) (elements s) @ drop (Suc (unat w)) (elements s)
      else q = 0 \<and> s2 = s"
    using delete_spec [OF assms(1,3)] length_elements [OF assms(1)] by (auto simp: word_le_nat_alt split: if_splits)
  show "elements s3 = filter (\<lambda>x. \<not> func x) (elements s)" by (rule delete_if_spec [OF assms(1,4)])
qed

theorem stack_refines_list_witness:
  "let s = \<lparr>num = 2, data = [5, 6, 0, 0], sorted_flag = True, num_alloc = 4, comp = 1\<rparr> in
   sk_ok s \<and> elements (the (snd (OPENSSL_sk_insert (\<lambda>_. True) (\<lambda>_. 0) (Some s) 9 1))) = [5, 9, 6]"
proof -
  let ?s = "\<lparr>num = 2, data = [5, 6, 0, 0], sorted_flag = True, num_alloc = 4, comp = 1\<rparr>"
  have ok: "sk_ok ?s" by (simp add: sk_ok_def)
  have i: "OPENSSL_sk_insert (\<lambda>_. True) (\<lambda>_. 0) (Some ?s) 9 1 =
      (3, Some \<lparr>num = 3, data = [5, 9, 6, 0], sorted_flag = False, num_alloc = 4, comp = 1\<rparr>)"
    by (simp add: OPENSSL_sk_insert_def sk_grow_def word_le_nat_alt)
  have d: "OPENSSL_sk_delete (Some ?s) 1 =
      (6, Some \<lparr>num = 1, data = [5, 6, 0, 0], sorted_flag = True, num_alloc = 4, comp = 1\<rparr>)"
    by (simp add: OPENSSL_sk_delete_def word_le_nat_alt)
  have f: "OPENSSL_sk_delete_if (\<lambda>x. x = 5) (Some ?s) =
      Some \<lparr>num = 1, data = [6, 6, 0, 0], sorted_flag = True, num_alloc = 4, comp = 1\<rparr>"
  proof -
    have "delete_if_loop (\<lambda>x. x = 5) [5, 6, 0, 0] 0 0 (Suc (Suc 0)) = ([6, 6, 0, 0], 1)" by simp
    then show ?thesis by (simp add: OPENSSL_sk_delete_if_def numeral_2_eq_2 [symmetric])
  qed
  from stack_refines_list [OF ok i d f] ok i show ?thesis by (simp add: elements_def)
qed

text \<open>
  C23 (functional). \<^verbatim>\<open>OPENSSL_sk_sort\<close>: for every comparison function whose signs form a total
  preorder, the heap sort puts the elements of a stack with a truthful flag in ascending order,
  neither loses nor invents an element, and sets the flag.
\<close>

theorem stack_sort_correct:
  assumes "sk_ok s" and "cmp_ok call_cmp_func" and "flag_true call_cmp_func s" and "comp s \<noteq> 0"
  shows "\<exists>s'. OPENSSL_sk_sort call_cmp_func (Some s) = Some s' \<and> mset (elements s') = mset (elements s) \<and>
    sorted_wrt (\<lambda>a b. call_cmp_func (comp s) a b \<le> 0) (elements s') \<and> OPENSSL_sk_is_sorted (Some s')"
proof -
  have "OPENSSL_sk_sort call_cmp_func (Some s) \<noteq> None" by (simp add: OPENSSL_sk_sort_def)
  then obtain s' where s: "OPENSSL_sk_sort call_cmp_func (Some s) = Some s'" by blast
  from sort_spec [OF assms(1,2) s assms(4)] assms(3) s show ?thesis
    by (simp add: flag_true_def OPENSSL_sk_is_sorted_def)
qed

theorem stack_sort_correct_witness:
  "let s = \<lparr>num = 3, data = [9, 4, 6, 0], sorted_flag = False, num_alloc = 4, comp = 1\<rparr>;
       call = (\<lambda>c a b. uint a - uint b)
   in \<exists>s'. OPENSSL_sk_sort call (Some s) = Some s' \<and> mset (elements s') = {#9, 4, 6#} \<and>
     sorted_wrt (\<lambda>a b. uint a - uint b \<le> 0) (elements s')"
proof -
  let ?s = "\<lparr>num = 3, data = [9, 4, 6, 0], sorted_flag = False, num_alloc = 4, comp = 1\<rparr>"
  have ok: "sk_ok ?s" and e: "elements ?s = [9, 4, 6]" by (simp_all add: sk_ok_def elements_def)
  have f: "flag_true (\<lambda>c a b. uint a - uint b) ?s" by (simp add: flag_true_def)
  from stack_sort_correct [OF ok address_order f] show ?thesis unfolding Let_def e by auto
qed

text \<open>
  C24 (equivalence). \<^verbatim>\<open>OPENSSL_sk_find\<close>: on a stack reached from a new one without
  \<^verbatim>\<open>OPENSSL_sk_set\<close> and \<^verbatim>\<open>OPENSSL_sk_deep_copy\<close>, the search, which is binary when the flag is set, returns the same index
  as the linear search for the first match.
\<close>

theorem stack_find_first:
  assumes "OPENSSL_sk_new al c = Some s0" and "cmp_ok call_cmp_func" and "(sk_step False call_cmp_func)\<^sup>*\<^sup>* s0 s"
  shows "OPENSSL_sk_find call_cmp_func (Some s) p =
    (if comp s \<noteq> 0 \<and> p = 0 then None
     else map_option of_nat
       (find (\<lambda>i. if comp s = 0 then elements s ! i = p else call_cmp_func (comp s) p (elements s ! i) = 0)
         [0..<length (elements s)]))"
proof -
  have "sk_ok s0 \<and> flag_true call_cmp_func s0"
    using new_ok [OF assms(1)] assms(1) by (auto simp: flag_true_def OPENSSL_sk_new_def split: if_splits)
  from assms(3) this have "sk_ok s \<and> flag_true call_cmp_func s"
    by (induction rule: rtranclp_induct) (use step_flag assms(2) in blast)+
  then show ?thesis using find_spec [OF _ assms(2)] first_index_eq [of s] by simp
qed

theorem stack_find_first_witness:
  "OPENSSL_sk_find (\<lambda>c a b. uint a - uint b) (Some sample_pushed) 7 = Some 0"
proof -
  have "elements sample_pushed = [7]" by (simp add: elements_def)
  then show ?thesis
    using stack_find_first [OF sample_new address_order sample_step, of 7] by simp
qed

text \<open>A binary search that always turns left does not look at the last cell.\<close>

lemma binary_search_left:
  assumes "\<And>k. k < hi \<Longrightarrow> r (xs ! k) < 0"
  shows "binary_search r xs 0 hi = None"
  using assms
proof (induction hi rule: less_induct)
  case (less hi)
  show ?case
  proof (cases "hi = 0")
    case False
    then have m: "(hi - 1) div 2 < hi" by linarith
    then have "r (xs ! ((hi - 1) div 2)) < 0" "binary_search r xs 0 ((hi - 1) div 2) = None"
      using less.prems less.IH by simp_all
    with False show ?thesis by (subst binary_search.simps) (simp add: Let_def)
  qed (subst binary_search.simps, simp)
qed

lemma binary_search_misses_last:
  assumes "1 < hi" and "\<And>k. k < hi - 1 \<Longrightarrow> r (xs ! k) < 0"
  shows "binary_search r xs 0 hi = None"
proof -
  have m: "(hi - 1) div 2 < hi - 1" using assms(1) by linarith
  have l: "binary_search r xs 0 ((hi - 1) div 2) = None"
    by (rule binary_search_left) (use m assms(2) in simp)
  from assms(2) [OF m] l assms(1) show ?thesis by (subst binary_search.simps) (simp add: Let_def)
qed

text \<open>
  C27 (error). \<^verbatim>\<open>OPENSSL_sk_set\<close> leaves the flag set. Take any stack of two or more elements that
  is sorted and marked so, and an element below its first one: when this element replaces the
  last one, \<^verbatim>\<open>OPENSSL_sk_is_sorted\<close> still answers yes although the elements are not in order,
  and the binary search does not find the new element, which is there and equal to itself.
\<close>

theorem stack_set_stale_flag:
  assumes "sk_ok s" and "cmp_ok call_cmp_func" and "flag_true call_cmp_func s" and "sorted_flag s"
    and "comp s \<noteq> 0" and "1 < num s" and "p \<noteq> 0" and "call_cmp_func (comp s) p (elements s ! 0) < 0"
  shows "\<exists>s'. OPENSSL_sk_set (Some s) (num s - 1) p = (p, Some s') \<and>
    elements s' = butlast (elements s) @ [p] \<and> OPENSSL_sk_is_sorted (Some s') \<and>
    \<not> sorted_wrt (\<lambda>a b. call_cmp_func (comp s') a b \<le> 0) (elements s') \<and>
    call_cmp_func (comp s') p p = 0 \<and> OPENSSL_sk_find call_cmp_func (Some s') p = None"
proof -
  let ?n = "unat (num s)" let ?c = "call_cmp_func (comp s)"
  let ?s = "s\<lparr>data := (data s)[?n - 1 := p]\<rparr>"
  have c: "comparison ?c" using assms(2,5) by (simp add: cmp_ok_def)
  note sym = comparison.cmp_sym [OF c] and tr = comparison.cmp_trans [OF c]
  have n: "1 < ?n" "?n \<le> length (data s)" "length (elements s) = ?n"
    using assms(1,6) length_elements [OF assms(1)] by (simp_all add: sk_ok_def word_less_nat_alt)
  have asc: "sorted_wrt (\<lambda>a b. ?c a b \<le> 0) (elements s)" using assms(3,4) by (simp add: flag_true_def)
  have low: "?c p (data s ! k) < 0" if "k < ?n" for k
  proof -
    have "?c (elements s ! 0) (elements s ! k) \<le> 0"
      using sorted_wrt_nth_less [OF asc, of 0 k] that n(3) sym [of "elements s ! 0" "elements s ! 0"] by (cases "k = 0") auto
    then have "?c p (elements s ! k) < 0" using tr [of "elements s ! 0" "elements s ! k" p] assms(8) sym by force
    then show ?thesis using that n by (simp add: elements_def)
  qed
  have i: "unat (num s - 1) = ?n - 1" using n(1) by (simp add: unat_sub word_le_nat_alt)
  have set: "OPENSSL_sk_set (Some s) (num s - 1) p = (p, Some ?s)"
  proof -
    have "\<not> num s - 1 \<ge> num s" using n(1) by (simp add: word_le_nat_alt i)
    then show ?thesis by (simp add: OPENSSL_sk_set_def i)
  qed
  have e: "elements ?s = butlast (elements s) @ [p]"
  proof -
    have "elements ?s = (elements s)[?n - 1 := p]" by (simp add: elements_def take_update_swap)
    moreover have "elements s \<noteq> []" using n(1,3) by auto
    then have "elements s = butlast (elements s) @ [last (elements s)]" by simp
    moreover have "length (butlast (elements s)) = ?n - 1" using n(3) by simp
    ultimately show ?thesis by (metis list_update_length)
  qed
  have out: "\<not> sorted_wrt (\<lambda>a b. ?c a b \<le> 0) (elements ?s)"
  proof
    assume s: "sorted_wrt (\<lambda>a b. ?c a b \<le> 0) (elements ?s)"
    have "butlast (elements s) ! 0 = elements s ! 0" "0 < length (butlast (elements s))" using n by (simp_all add: nth_butlast)
    then have "elements s ! 0 \<in> set (butlast (elements s))" by (metis nth_mem)
    then have "?c (elements s ! 0) p \<le> 0" using s [unfolded e] by (simp add: sorted_wrt_append)
    then show False using assms(8) sym by force
  qed
  have "binary_search (?c p) (data ?s) 0 ?n = None"
    by (rule binary_search_misses_last [OF n(1)]) (use low in simp)
  moreover have "OPENSSL_sk_is_sorted (Some ?s)" using assms(4) by (simp add: OPENSSL_sk_is_sorted_def)
  ultimately have "OPENSSL_sk_find call_cmp_func (Some ?s) p = None" "OPENSSL_sk_is_sorted (Some ?s)"
    using assms(5,7) by (simp_all add: OPENSSL_sk_find_def)
  moreover have "?c p p = 0" using sym [of p p] by linarith
  ultimately show ?thesis using set e out by (intro exI [of _ ?s]) simp
qed

theorem stack_set_stale_flag_witness:
  "let call = (\<lambda>c a b. uint a - uint b);
       s = \<lparr>num = 3, data = [2, 4, 6, 0], sorted_flag = True, num_alloc = 4, comp = 1\<rparr>
   in \<exists>s'. OPENSSL_sk_set (Some s) 2 1 = (1, Some s') \<and> elements s' = [2, 4, 1] \<and>
     OPENSSL_sk_is_sorted (Some s') \<and> OPENSSL_sk_find call (Some s') 1 = None"
proof -
  let ?s = "\<lparr>num = 3, data = [2, 4, 6, 0], sorted_flag = True, num_alloc = 4, comp = 1\<rparr>"
  have e: "elements ?s = [2, 4, 6]" and n: "num ?s - 1 = 2" by (simp_all add: elements_def)
  have "sk_ok ?s" "flag_true (\<lambda>c a b. uint a - uint b) ?s" "sorted_flag ?s" "comp ?s \<noteq> 0" "1 < num ?s"
      "(1 :: ptr) \<noteq> 0" "uint (1 :: ptr) - uint (elements ?s ! 0) < 0"
    by (simp_all add: sk_ok_def flag_true_def e)
  from stack_set_stale_flag [OF this(1) address_order this(2-7)] show ?thesis
    unfolding Let_def n e by auto
qed

text \<open>
  C28 (functional). \<^verbatim>\<open>OPENSSL_sk_deep_copy\<close>: on success the copy has the same shape with every
  non-null element copied; on failure the pointers it frees are exactly the copies made before
  the first one that failed, so nothing leaks and no element of the original is freed.
\<close>

theorem stack_deep_copy:
  assumes "sk_ok s" and "OPENSSL_sk_dup al (Some s) \<noteq> None"
  shows "case OPENSSL_sk_deep_copy al copy (Some s) of
      Inr s' \<Rightarrow> elements s' = map (\<lambda>p. if p = 0 then 0 else copy p) (elements s) \<and>
        (\<forall>p \<in> set (elements s). p \<noteq> 0 \<longrightarrow> copy p \<noteq> 0)
    | Inl freed \<Rightarrow> \<exists>m < length (elements s). elements s ! m \<noteq> 0 \<and> copy (elements s ! m) = 0 \<and>
        freed = filter (\<lambda>p. p \<noteq> 0) (map (\<lambda>p. if p = 0 then 0 else copy p) (take m (elements s)))"
proof -
  have dup: "OPENSSL_sk_dup al (Some s) = Some s" using assms(2) by (auto simp: OPENSSL_sk_dup_def split: if_splits)
  have n: "unat (num s) \<le> length (data s)" using assms(1) by (simp add: sk_ok_def)
  have l: "length (elements s) = unat (num s)" by (rule length_elements [OF assms(1)])
  note spec = deep_copy_loop_spec [of 0 "unat (num s)" "data s" copy]
  show ?thesis
  proof (cases "deep_copy_loop copy (data s) 0 (unat (num s))")
    case (Inr d)
    with spec n dup show ?thesis by (simp add: OPENSSL_sk_deep_copy_def elements_def)
  next
    case (Inl fr)
    with spec n obtain m where "m < unat (num s)" "data s ! m \<noteq> 0" "copy (data s ! m) = 0"
        "fr = filter (\<lambda>p. p \<noteq> 0) (map (copy_or_null copy) (take m (data s)))" by auto
    with Inl dup l show ?thesis
      by (auto simp: OPENSSL_sk_deep_copy_def elements_def min_def intro!: exI [of _ m])
  qed
qed

theorem stack_deep_copy_witness:
  "let s = \<lparr>num = 3, data = [5, 0, 6, 0], sorted_flag = False, num_alloc = 4, comp = 0\<rparr>
   in OPENSSL_sk_deep_copy (\<lambda>_. True) (\<lambda>p. if p = 6 then 0 else p + 100) (Some s) = Inl [105] \<and>
     (\<exists>m < 3. elements s ! m \<noteq> 0 \<and> (if elements s ! m = 6 then 0 else elements s ! m + 100) = 0)"
proof -
  let ?s = "\<lparr>num = 3, data = [5, 0, 6, 0], sorted_flag = False, num_alloc = 4, comp = 0\<rparr>"
  let ?c = "\<lambda>p :: ptr. if p = 6 then 0 else p + 100"
  have ok: "sk_ok ?s" and d: "OPENSSL_sk_dup (\<lambda>_. True) (Some ?s) \<noteq> None"
    and l: "length (elements ?s) = 3"
    by (simp_all add: sk_ok_def elements_def OPENSSL_sk_dup_def OPENSSL_zalloc_def OPENSSL_malloc_def)
  have r: "OPENSSL_sk_deep_copy (\<lambda>_. True) ?c (Some ?s) = Inl [105]"
  proof -
    have "OPENSSL_sk_dup (\<lambda>_. True) (Some ?s) = Some ?s"
      by (simp add: OPENSSL_sk_dup_def OPENSSL_zalloc_def OPENSSL_malloc_def)
    moreover have "deep_copy_loop ?c [5, 0, 6, 0] 0 (Suc (Suc (Suc 0))) = Inl [105]" by simp
    then have "deep_copy_loop ?c [5, 0, 6, 0] 0 3 = Inl [105]" by (simp only: numeral_3_eq_3)
    ultimately show ?thesis by (simp add: OPENSSL_sk_deep_copy_def)
  qed
  from stack_deep_copy [OF ok d, of ?c] show ?thesis unfolding r l by (auto simp: Let_def r)
qed

end
