(* ===== verification/Calls.thy ===== *)
theory Calls
  imports Mem
begin

text \<open>
  Sequences of calls on a component: how they run, and that a component which refines a
  specification call by call does so for every sequence.
\<close>

text \<open>
  A machine runs a list of calls and collects their results. A machine refines another when
  one call does, as long as the environment plays by the rules of \<open>allowed\<close>.
\<close>

fun run_calls :: "('c \<Rightarrow> 't \<Rightarrow> 'o \<times> 't) \<Rightarrow> 'c list \<Rightarrow> 't \<Rightarrow> 'o list \<times> 't" where
  "run_calls exec [] t = ([], t)"
| "run_calls exec (c # cs) t =
     (case exec c t of (out, t1) \<Rightarrow> (case run_calls exec cs t1 of (outs, t2) \<Rightarrow> (out # outs, t2)))"

fun calls_allowed :: "('c \<Rightarrow> 't \<Rightarrow> bool) \<Rightarrow> ('c \<Rightarrow> 't \<Rightarrow> 'o \<times> 't) \<Rightarrow> 'c list \<Rightarrow> 't \<Rightarrow> bool" where
  "calls_allowed allowed exec [] t = True"
| "calls_allowed allowed exec (c # cs) t = (allowed c t \<and> calls_allowed allowed exec cs (snd (exec c t)))"

lemma snd_run_calls:
  "snd (run_calls exec (c # cs) t) = snd (run_calls exec cs (snd (exec c t)))"
  by (simp split: prod.splits)

locale refined_machine =
  fixes good :: "'t \<Rightarrow> bool" and abs :: "'t \<Rightarrow> 'a" and allowed :: "'c \<Rightarrow> 't \<Rightarrow> bool"
    and exec :: "'c \<Rightarrow> 't \<Rightarrow> 'o \<times> 't" and spec :: "'c \<Rightarrow> 'a \<Rightarrow> 'o \<times> 'a"
  assumes call_good: "good t \<Longrightarrow> allowed c t \<Longrightarrow> good (snd (exec c t))"
    and call_refines: "good t \<Longrightarrow> allowed c t \<Longrightarrow> spec c (abs t) = (fst (exec c t), abs (snd (exec c t)))"
begin

lemma run_good: "good t \<Longrightarrow> calls_allowed allowed exec cs t \<Longrightarrow> good (snd (run_calls exec cs t))"
  by (induction cs arbitrary: t) (auto dest: call_good split: prod.splits, metis call_good snd_conv)

lemma run_refines:
  "good t \<Longrightarrow> calls_allowed allowed exec cs t \<Longrightarrow>
   run_calls spec cs (abs t) = (fst (run_calls exec cs t), abs (snd (run_calls exec cs t)))"
proof (induction cs arbitrary: t)
  case (Cons c cs)
  then have "good (snd (exec c t))" "spec c (abs t) = (fst (exec c t), abs (snd (exec c t)))"
    using call_good call_refines by simp_all
  with Cons show ?case by (simp split: prod.splits)
qed simp

end


section \<open>An allocator that never fails\<close>

definition serves :: "(size_t \<Rightarrow> bool) \<Rightarrow> bool" where
  "serves al \<longleftrightarrow> (\<forall>sz. al sz)"

lemma serves_malloc: "serves al \<Longrightarrow> unat sz < 2 ^ 63 \<Longrightarrow> OPENSSL_malloc al sz"
proof -
  assume "serves al" "unat sz < 2 ^ 63"
  then have "unat (sz + 8) = unat sz + 8" by (simp add: unat_word_ariths)
  then have "\<not> sz + 8 < sz" by (simp add: word_less_nat_alt)
  with \<open>serves al\<close> show ?thesis by (simp add: OPENSSL_malloc_def serves_def)
qed

end
