(* ===== verification/Ber.thy ===== *)
theory Ber
  imports Cbb_Writers Calls
begin

unbundle bit_operations_syntax

text \<open>
  Conversion from BER to DER (\<^verbatim>\<open>crypto/bytestring/ber.c\<close>): the walk that looks for BER forms, the
  recursive conversion from a \<^verbatim>\<open>CBS\<close> into a \<^verbatim>\<open>CBB\<close>, and implicitly tagged strings. A \<^verbatim>\<open>CBS *\<close>
  argument is returned as it is left, a \<^verbatim>\<open>CBB *\<close> is a depth in the builder. Loops are recursion
  on the remaining input.
\<close>

section \<open>Definitions\<close>

definition kMaxDepth :: nat where "kMaxDepth = 128"

definition CBS_ASN1_UTF8STRING :: CBS_ASN1_TAG where "CBS_ASN1_UTF8STRING = 0xc"
definition CBS_ASN1_NUMERICSTRING :: CBS_ASN1_TAG where "CBS_ASN1_NUMERICSTRING = 0x12"
definition CBS_ASN1_PRINTABLESTRING :: CBS_ASN1_TAG where "CBS_ASN1_PRINTABLESTRING = 0x13"
definition CBS_ASN1_T61STRING :: CBS_ASN1_TAG where "CBS_ASN1_T61STRING = 0x14"
definition CBS_ASN1_VIDEOTEXSTRING :: CBS_ASN1_TAG where "CBS_ASN1_VIDEOTEXSTRING = 0x15"
definition CBS_ASN1_IA5STRING :: CBS_ASN1_TAG where "CBS_ASN1_IA5STRING = 0x16"
definition CBS_ASN1_GRAPHICSTRING :: CBS_ASN1_TAG where "CBS_ASN1_GRAPHICSTRING = 0x19"
definition CBS_ASN1_VISIBLESTRING :: CBS_ASN1_TAG where "CBS_ASN1_VISIBLESTRING = 0x1a"
definition CBS_ASN1_GENERALSTRING :: CBS_ASN1_TAG where "CBS_ASN1_GENERALSTRING = 0x1b"
definition CBS_ASN1_UNIVERSALSTRING :: CBS_ASN1_TAG where "CBS_ASN1_UNIVERSALSTRING = 0x1c"
definition CBS_ASN1_BMPSTRING :: CBS_ASN1_TAG where "CBS_ASN1_BMPSTRING = 0x1e"

lemmas string_tag_defs = CBS_ASN1_OCTETSTRING_def CBS_ASN1_UTF8STRING_def CBS_ASN1_NUMERICSTRING_def
  CBS_ASN1_PRINTABLESTRING_def CBS_ASN1_T61STRING_def CBS_ASN1_VIDEOTEXSTRING_def CBS_ASN1_IA5STRING_def
  CBS_ASN1_GRAPHICSTRING_def CBS_ASN1_VISIBLESTRING_def CBS_ASN1_GENERALSTRING_def
  CBS_ASN1_UNIVERSALSTRING_def CBS_ASN1_BMPSTRING_def

definition is_string_type :: "CBS_ASN1_TAG \<Rightarrow> bool" where
  "is_string_type tag =
     (tag AND NOT CBS_ASN1_CONSTRUCTED \<in>
       {CBS_ASN1_OCTETSTRING, CBS_ASN1_UTF8STRING, CBS_ASN1_NUMERICSTRING, CBS_ASN1_PRINTABLESTRING,
        CBS_ASN1_T61STRING, CBS_ASN1_VIDEOTEXSTRING, CBS_ASN1_IA5STRING, CBS_ASN1_GRAPHICSTRING,
        CBS_ASN1_VISIBLESTRING, CBS_ASN1_GENERALSTRING, CBS_ASN1_UNIVERSALSTRING, CBS_ASN1_BMPSTRING})"

definition constructed :: "CBS_ASN1_TAG \<Rightarrow> bool" where
  "constructed tag \<longleftrightarrow> tag AND CBS_ASN1_CONSTRUCTED \<noteq> 0"

section \<open>What the BER element reader accepts\<close>

text \<open>The length bytes of BER, not necessarily the shortest.\<close>

definition ber_len :: "nat \<Rightarrow> byte list \<Rightarrow> bool" where
  "ber_len n l \<longleftrightarrow> (n \<le> 0x7f \<and> l = [of_nat n]) \<or>
     (\<exists>k. 1 \<le> k \<and> k \<le> 4 \<and> n < 256 ^ k \<and> l = (0x80 OR of_nat k) # be_bytes k (of_nat n))"

lemma split_element:
  assumes "cbs = h @ t" and "cbs = el @ rest" and "length el = n + length h"
  obtains c where "el = h @ c" and "length c = n" and "t = c @ rest"
proof
  have "take (length h) el = h" using assms by (metis append_eq_append_conv_if le_add2 append_eq_conv_conj take_append take_all_iff)
  then show el: "el = h @ drop (length h) el" by (metis append_take_drop_id)
  show "length (drop (length h) el) = n" using assms(3) by simp
  show "t = drop (length h) el @ rest" using assms(1,2) el by (metis append.assoc same_append_eq)
qed

lemma ber_long_total:
  fixes v :: u64
  assumes "unat v < 256 ^ j" "j \<le> 4" "hl \<le> 12"
  shows "unat (v + of_nat hl + of_nat j) = unat v + hl + j" and "\<not> v + of_nat hl + of_nat j < v"
proof -
  have "(256 :: nat) ^ j \<le> 256 ^ 4" using assms(2) by (intro power_increasing) simp_all
  then have "unat v < 2 ^ 32" using assms(1) by simp
  then show u: "unat (v + of_nat hl + of_nat j) = unat v + hl + j"
    using assms(2,3) by (simp add: unat_word_ariths unat_of_nat)
  then show "\<not> v + of_nat hl + of_nat j < v" by (simp add: word_less_nat_alt del: of_nat_add)
qed

lemma get_element_fields:
  assumes "get_element tag hl bf ind n cbs = (Some e, rest)"
  shows "cbs = element e @ rest" "length (element e) = n" "out_tag e = tag" "out_header_len e = hl"
    "out_ber_found e = bf" "out_indefinite e = ind"
  using assms by (auto simp: get_element_def CBS_get_bytes_iff split: prod.splits option.splits)

text \<open>The two shapes of an element, after its tag.\<close>

definition definite_at :: "CBS_ASN1_TAG \<Rightarrow> byte list \<Rightarrow> byte list \<Rightarrow> asn1_element \<Rightarrow> bool" where
  "definite_at tag l contents e \<longleftrightarrow> ber_len (length contents) l \<and> out_tag e = tag \<and>
     element e = asn1_tag_bytes tag @ l @ contents \<and>
     out_header_len e = length (asn1_tag_bytes tag @ l) \<and> \<not> out_indefinite e"

definition indefinite_at :: "CBS_ASN1_TAG \<Rightarrow> asn1_element \<Rightarrow> bool" where
  "indefinite_at tag e \<longleftrightarrow> constructed tag \<and> out_tag e = tag \<and> element e = asn1_tag_bytes tag @ [0x80] \<and>
     out_header_len e = length (asn1_tag_bytes tag) + 1 \<and> out_indefinite e \<and> out_ber_found e"

lemma short_len_ber: "(b :: byte) AND 0x80 = 0 \<Longrightarrow> ber_len (unat b) [b]"
  using short_len_byte [of b] by (simp add: ber_len_def)

lemma ber_element_sound:
  assumes "CBS_get_any_ber_asn1_element cbs = (Some e, rest)"
  obtains (definite) tag l contents where "valid_tag tag" and "definite_at tag l contents e"
      and "cbs = asn1_tag_bytes tag @ l @ contents @ rest"
    | (indefinite) tag where "valid_tag tag" and "indefinite_at tag e" and "cbs = asn1_tag_bytes tag @ 0x80 # rest"
proof -
  obtain tag header where p: "parse_asn1_tag cbs = (Some tag, header)"
    using assms by (auto simp: CBS_get_any_ber_asn1_element_def cbs_get_any_asn1_element_def
        split: prod.splits option.splits)
  obtain b h where h: "header = b # h"
    using assms p by (cases header) (auto simp: CBS_get_any_ber_asn1_element_def cbs_get_any_asn1_element_def)
  have t: "valid_tag tag" "cbs = asn1_tag_bytes tag @ b # h" using p h by (simp_all add: parse_asn1_tag_iff)
  have hl: "length cbs - length h = length (asn1_tag_bytes tag) + 1" using t(2) by simp
  note defs = CBS_get_any_ber_asn1_element_def cbs_get_any_asn1_element_def CBS_len_def
  show thesis
  proof (cases "b AND 0x80 = 0")
    case True
    then have "get_element tag (length (asn1_tag_bytes tag) + 1) False False
        (unat b + length (asn1_tag_bytes tag @ [b])) cbs = (Some e, rest)"
      using assms p h hl by (simp add: defs Let_def)
    note e = get_element_fields [OF this]
    have "cbs = (asn1_tag_bytes tag @ [b]) @ h" by (simp add: t(2))
    from split_element [OF this e(1,2)] obtain c where c: "element e = (asn1_tag_bytes tag @ [b]) @ c"
        "length c = unat b" "h = c @ rest" by blast
    have "definite_at tag [b] c e"
      using c e(3-6) short_len_ber [OF True] by (simp add: definite_at_def)
    with t c show thesis by (intro definite [of tag "[b]" c]) simp_all
  next
    case long: False
    define j where "j = unat (b AND 0x7f)"
    show thesis
    proof (cases "constructed tag \<and> j = 0")
      case True
      then have "get_element tag (length (asn1_tag_bytes tag) + 1) True True
          (0 + length (asn1_tag_bytes tag @ [b])) cbs = (Some e, rest)"
        using assms p h hl long by (simp add: defs Let_def j_def constructed_def)
      note e = get_element_fields [OF this]
      have "cbs = (asn1_tag_bytes tag @ [b]) @ h" by (simp add: t(2))
      from split_element [OF this e(1,2)] have c: "element e = asn1_tag_bytes tag @ [b]" "h = rest" by auto
      have "b AND 0x7f = 0" using True by (simp add: j_def unat_eq_zero)
      then have b: "b = 0x80" using byte_high_bit [OF long] by simp
      have "indefinite_at tag e" using True c e(3-6) b by (simp add: indefinite_at_def)
      with t c b show thesis by (intro indefinite [of tag]) simp_all
    next
      case False
      then have j: "1 \<le> j" "j \<le> 4" and "fst (cbs_get_u j h) \<noteq> None"
        using assms p h hl long by (auto simp: defs Let_def j_def constructed_def split: if_splits option.splits prod.splits)
      then obtain v h2 where v: "cbs_get_u j h = (Some v, h2)" by (cases "cbs_get_u j h") auto
      have hb: "h = be_bytes j v @ h2" and lt: "unat v < 256 ^ j" using v j by (simp_all add: cbs_get_u_iff)
      have "length (asn1_tag_bytes tag) + 1 \<le> 12" using asn1_tag_bytes_length [of tag] by simp
      note tot = ber_long_total [OF lt j(2) this]
      obtain bf where "get_element tag (length (asn1_tag_bytes tag) + 1 + j) bf False
          (unat v + (length (asn1_tag_bytes tag) + 1) + j) cbs = (Some e, rest)"
        using assms p h hl long False j v tot
        by (auto simp: defs Let_def j_def [symmetric] constructed_def split: if_splits simp del: of_nat_add of_nat_Suc)
      note e = get_element_fields [OF this]
      have el: "length (element e) = unat v + length (asn1_tag_bytes tag @ b # be_bytes j v)" using e(2) by simp
      have "cbs = (asn1_tag_bytes tag @ b # be_bytes j v) @ h2" by (simp add: t(2) hb)
      from split_element [OF this e(1) el] obtain c where c: "element e = (asn1_tag_bytes tag @ b # be_bytes j v) @ c"
          "length c = unat v" "h2 = c @ rest" by blast
      have "b = 0x80 OR of_nat j" using byte_high_bit [OF long] by (simp add: j_def or.commute)
      then have "ber_len (length c) (b # be_bytes j v)" using j lt c(2) by (auto simp: ber_len_def)
      then have "definite_at tag (b # be_bytes j v) c e"
        using c(1) e(3-6) by (simp add: definite_at_def)
      with t c hb show thesis by (intro definite [of tag "b # be_bytes j v" c]) simp_all
    qed
  qed
qed


lemma get_element_ok:
  assumes "cbs = el @ rest" and "n = length el"
  shows "get_element tag hl bf ind n cbs =
    (Some \<lparr>element = el, out_tag = tag, out_header_len = hl, out_ber_found = bf, out_indefinite = ind\<rparr>, rest)"
  using assms by (simp add: get_element_iff)

lemma parse_tag_complete: "valid_tag tag \<Longrightarrow> parse_asn1_tag (asn1_tag_bytes tag @ h) = (Some tag, h)"
  by (simp add: parse_asn1_tag_iff)

lemma definite_read:
  assumes "CBS_get_any_ber_asn1_element (asn1_tag_bytes tag @ l @ c @ rest) =
      get_element tag (length (asn1_tag_bytes tag @ l)) bf False (length (asn1_tag_bytes tag @ l @ c))
        (asn1_tag_bytes tag @ l @ c @ rest)" and "ber_len (length c) l"
  shows "\<exists>e. CBS_get_any_ber_asn1_element (asn1_tag_bytes tag @ l @ c @ rest) = (Some e, rest) \<and> definite_at tag l c e"
proof -
  note assms(1)
  also have "get_element tag (length (asn1_tag_bytes tag @ l)) bf False (length (asn1_tag_bytes tag @ l @ c))
        (asn1_tag_bytes tag @ l @ c @ rest) = (Some \<lparr>element = asn1_tag_bytes tag @ l @ c, out_tag = tag,
        out_header_len = length (asn1_tag_bytes tag @ l), out_ber_found = bf, out_indefinite = False\<rparr>, rest)"
    by (rule get_element_ok) simp_all
  finally show ?thesis using assms(2) by (simp add: definite_at_def)
qed

lemma ber_definite_complete:
  assumes tag: "valid_tag tag" and l: "ber_len (length c) l"
  shows "\<exists>e. CBS_get_any_ber_asn1_element (asn1_tag_bytes tag @ l @ c @ rest) = (Some e, rest) \<and> definite_at tag l c e"
proof -
  let ?t = "asn1_tag_bytes tag" and ?cbs = "asn1_tag_bytes tag @ l @ c @ rest"
  note defs = CBS_get_any_ber_asn1_element_def cbs_get_any_asn1_element_def CBS_len_def
  note p = parse_tag_complete [OF tag]
  have n: "length ?t + 1 \<le> 12" using asn1_tag_bytes_length [of tag] by simp
  from l consider (short) "length c \<le> 0x7f" "l = [of_nat (length c)]"
    | (long) k where "1 \<le> k" "k \<le> 4" "length c < 256 ^ k" "l = (0x80 OR of_nat k) # be_bytes k (of_nat (length c))"
    by (auto simp: ber_len_def)
  then show ?thesis
  proof cases
    case short
    then have u: "unat (of_nat (length c) :: byte) = length c" by (simp add: unat_of_nat)
    then have "(of_nat (length c) :: byte) AND 0x80 = 0"
      using short high_bits_clear [of "of_nat (length c) :: byte" 7 7] by (auto simp: byte_bit_80)
    then have "CBS_get_any_ber_asn1_element ?cbs =
        get_element tag (length (?t @ l)) False False (length (?t @ l @ c)) ?cbs"
      using short u p by (simp add: defs Let_def add.commute)
    then show ?thesis by (rule definite_read [OF _ l])
  next
    case (long k)
    let ?b = "0x80 OR of_nat k :: byte" and ?v = "of_nat (length c) :: u64"
    have "k = 1 \<or> k = 2 \<or> k = 3 \<or> k = 4" using long by linarith
    then have b: "?b AND 0x80 \<noteq> 0" "unat (?b AND 0x7f) = k" by auto
    have "(256 :: nat) ^ k \<le> 256 ^ 4" using long(2) by (intro power_increasing) simp_all
    then have v: "unat ?v = length c" using long(3) by (simp add: unat_of_nat)
    have g: "cbs_get_u k (be_bytes k ?v @ c @ rest) = (Some ?v, c @ rest)"
      using long v by (simp add: cbs_get_u_iff)
    have "unat ?v < 256 ^ k" using long(3) v by simp
    note tot = ber_long_total [OF this long(2) n]
    have "unat (?v + of_nat (length ?t + 1) + of_nat k) = length (?t @ l @ c)"
      using tot(1) v long(4) by simp
    then obtain bf where "CBS_get_any_ber_asn1_element ?cbs =
        get_element tag (length (?t @ l)) bf False (length (?t @ l @ c)) ?cbs"
      using long b g p tot by (auto simp: defs Let_def simp del: of_nat_add of_nat_Suc)
    then show ?thesis by (rule definite_read [OF _ l])
  qed
qed

lemma ber_indefinite_complete:
  assumes "valid_tag tag" and "constructed tag"
  shows "\<exists>e. CBS_get_any_ber_asn1_element (asn1_tag_bytes tag @ 0x80 # rest) = (Some e, rest) \<and> indefinite_at tag e"
proof -
  let ?t = "asn1_tag_bytes tag"
  have "CBS_get_any_ber_asn1_element (?t @ 0x80 # rest) =
      get_element tag (length ?t + 1) True True (length (?t @ [0x80])) (?t @ 0x80 # rest)"
    using assms by (simp add: CBS_get_any_ber_asn1_element_def cbs_get_any_asn1_element_def CBS_len_def Let_def
        parse_tag_complete constructed_def)
  also have "\<dots> = (Some \<lparr>element = ?t @ [0x80], out_tag = tag, out_header_len = length ?t + 1,
      out_ber_found = True, out_indefinite = True\<rparr>, rest)" by (rule get_element_ok) simp_all
  finally show ?thesis using assms(2) by (simp add: indefinite_at_def)
qed

lemma ber_element_shorter:
  assumes "CBS_get_any_ber_asn1_element cbs = (Some e, rest)"
  shows "length rest < length cbs" and "CBS_skip n (element e) = (Some u, c) \<Longrightarrow> 0 < n \<Longrightarrow> length c < length cbs"
    and "0 < out_header_len e"
proof -
  have "cbs = element e @ rest \<and> element e \<noteq> [] \<and> 0 < out_header_len e"
    using assms by (rule ber_element_sound) (auto simp: definite_at_def indefinite_at_def ber_len_def)
  then show "length rest < length cbs" "CBS_skip n (element e) = (Some u, c) \<Longrightarrow> 0 < n \<Longrightarrow> length c < length cbs"
      "0 < out_header_len e"
    by (auto simp: CBS_skip_iff)
qed

lemma ber_rest_shorter: "(Some e, rest) = CBS_get_any_ber_asn1_element cbs \<Longrightarrow> length rest < length cbs"
  and ber_contents_shorter: "(Some e, rest) = CBS_get_any_ber_asn1_element cbs \<Longrightarrow>
    (Some u, c) = CBS_skip (out_header_len e) (element e) \<Longrightarrow> length c < length cbs"
  using ber_element_shorter [OF sym] by (blast, metis)

section \<open>The walk and the conversion\<close>

text \<open>\<open>*ber_found\<close> on success; \<open>find_ber_loop\<close> is the loop of \<^verbatim>\<open>cbs_find_ber\<close>.\<close>

function (sequential) cbs_find_ber :: "CBS \<Rightarrow> nat \<Rightarrow> bool option"
  and find_ber_loop :: "CBS \<Rightarrow> nat \<Rightarrow> bool option" where
  "cbs_find_ber orig_in depth = (if depth > kMaxDepth then None else find_ber_loop orig_in depth)"
| "find_ber_loop inp depth =
     (if \<not> CBS_len inp > 0 then Some False
      else case CBS_get_any_ber_asn1_element inp of
        (None, _) \<Rightarrow> None
      | (Some e, inp1) \<Rightarrow>
          if out_ber_found e then Some True
          else if constructed (out_tag e) then
            (if is_string_type (out_tag e) then Some True
             else case CBS_skip (out_header_len e) (element e) of
               (None, _) \<Rightarrow> None
             | (Some _, contents) \<Rightarrow>
                 (case cbs_find_ber contents (depth + 1) of
                    None \<Rightarrow> None
                  | Some found \<Rightarrow> if found then Some True else find_ber_loop inp1 depth))
          else find_ber_loop inp1 depth)"
  by pat_completeness auto
termination
  by (relation "measures [case_sum (\<lambda>(i, d). length i) (\<lambda>(i, d). length i), case_sum (\<lambda>_. 1) (\<lambda>_. 0)]")
    (auto dest: ber_rest_shorter ber_contents_shorter)

declare cbs_find_ber.simps [simp del] find_ber_loop.simps [simp del]


definition cbs_get_eoc :: "CBS \<Rightarrow> unit cbs_result" where
  "cbs_get_eoc cbs =
     (if CBS_len cbs \<ge> 2 \<and> CBS_data cbs ! 0 = 0 \<and> CBS_data cbs ! 1 = 0 then CBS_skip 2 cbs else (None, cbs))"

text \<open>
  Where the contents of the next element go: the depth of \<open>out_contents\<close> in the builder and
  \<open>child_string_tag\<close>, after the child has been opened.
\<close>

definition open_target ::
  "(size_t \<Rightarrow> bool) \<Rightarrow> nat \<Rightarrow> CBS_ASN1_TAG \<Rightarrow> CBS_ASN1_TAG \<Rightarrow> CBB \<Rightarrow> (nat \<times> CBS_ASN1_TAG) option \<times> CBB" where
  "open_target al out string_tag tag st =
     (if string_tag \<noteq> 0 then
        (if tag AND NOT CBS_ASN1_CONSTRUCTED \<noteq> string_tag then (None, st) else (Some (out, string_tag), st))
      else
        let (out_tag, child_string_tag) =
              (if constructed tag \<and> is_string_type tag
               then (tag AND NOT CBS_ASN1_CONSTRUCTED, tag AND NOT CBS_ASN1_CONSTRUCTED)
               else (tag, string_tag))
        in case CBB_add_asn1 al out out_tag st of
             (False, st1) \<Rightarrow> (None, st1)
           | (True, st1) \<Rightarrow> (Some (out + 1, child_string_tag), st1))"

text \<open>
  The result, the input that is left and the builder. Going round the loop is a call with
  the same depth, whose check has been passed already; \<open>None\<close> would be not returning.
\<close>

definition flush_then :: "(size_t \<Rightarrow> bool) \<Rightarrow> nat \<Rightarrow> CBS \<Rightarrow> CBB \<Rightarrow> (bool \<times> CBS \<times> CBB) + CBB" where
  "flush_then al out inp st =
     (case CBB_flush al out st of (False, st1) \<Rightarrow> Inl (False, inp, st1) | (True, st1) \<Rightarrow> Inr st1)"

partial_function (option) cbs_convert_ber ::
  "(size_t \<Rightarrow> bool) \<Rightarrow> CBS \<Rightarrow> nat \<Rightarrow> CBS_ASN1_TAG \<Rightarrow> bool \<Rightarrow> nat \<Rightarrow> CBB \<Rightarrow> (bool \<times> CBS \<times> CBB) option" where
  "cbs_convert_ber al inp out string_tag looking_for_eoc depth st =
     (if depth > kMaxDepth then Some (False, inp, st)
      else if \<not> CBS_len inp > 0 then Some (\<not> looking_for_eoc, inp, st)
      else if looking_for_eoc \<and> fst (cbs_get_eoc inp) \<noteq> None then Some (True, snd (cbs_get_eoc inp), st)
      else case CBS_get_any_ber_asn1_element inp of
        (None, inp1) \<Rightarrow> Some (False, inp1, st)
      | (Some e, inp1) \<Rightarrow>
          (case open_target al out string_tag (out_tag e) st of
             (None, st1) \<Rightarrow> Some (False, inp1, st1)
           | (Some (out_contents, child_string_tag), st1) \<Rightarrow>
               if out_indefinite e then
                 Option.bind (cbs_convert_ber al inp1 out_contents child_string_tag True (depth + 1) st1)
                   (\<lambda>(ok, inp2, st2).
                      if \<not> ok then Some (False, inp2, st2)
                      else case flush_then al out inp2 st2 of
                        Inl r \<Rightarrow> Some r
                      | Inr st3 \<Rightarrow> cbs_convert_ber al inp2 out string_tag looking_for_eoc depth st3)
               else case CBS_skip (out_header_len e) (element e) of
                 (None, _) \<Rightarrow> Some (False, inp1, st1)
               | (Some _, contents) \<Rightarrow>
                   Option.bind
                     (if constructed (out_tag e)
                      then Option.bind (cbs_convert_ber al contents out_contents child_string_tag False (depth + 1) st1)
                             (\<lambda>(ok, _, st2). Some (ok, st2))
                      else Some (CBB_add_bytes al out_contents (CBS_data contents) st1))
                     (\<lambda>(ok, st2).
                        if \<not> ok then Some (False, inp1, st2)
                        else case flush_then al out inp1 st2 of
                          Inl r \<Rightarrow> Some r
                        | Inr st3 \<Rightarrow> cbs_convert_ber al inp1 out string_tag looking_for_eoc depth st3)))"

declare cbs_convert_ber.simps [code]

lemma cbs_get_eoc_shorter: "length (snd (cbs_get_eoc cbs)) \<le> length cbs"
  by (simp add: cbs_get_eoc_def CBS_skip_def cbs_get_def)

lemma ber_reader_shorter:
  "CBS_get_any_ber_asn1_element cbs = (r, rest) \<Longrightarrow> length rest \<le> length cbs"
proof (cases r)
  case None
  assume "CBS_get_any_ber_asn1_element cbs = (r, rest)"
  with None show ?thesis
    by (auto simp: CBS_get_any_ber_asn1_element_def cbs_get_any_asn1_element_def get_element_def CBS_get_bytes_def
        cbs_get_def Let_def split: prod.splits option.splits if_splits)
qed (auto dest: ber_element_shorter)


section \<open>What a BER encoding means\<close>

datatype asn1 =
    Primitive CBS_ASN1_TAG "byte list"
  | Constructed CBS_ASN1_TAG "asn1 list"

fun der :: "asn1 \<Rightarrow> byte list" where
  "der (Primitive tag c) = asn1_element_bytes tag c"
| "der (Constructed tag ts) = asn1_element_bytes tag (concat (map der ts))"

abbreviation der_list :: "asn1 list \<Rightarrow> byte list" where
  "der_list ts \<equiv> concat (map der ts)"

text \<open>One element with a given tag and body, of definite or indefinite length.\<close>

definition ber_frame :: "CBS_ASN1_TAG \<Rightarrow> byte list \<Rightarrow> byte list \<Rightarrow> bool" where
  "ber_frame tag body enc \<longleftrightarrow> valid_tag tag \<and>
     ((\<exists>l. ber_len (length body) l \<and> enc = asn1_tag_bytes tag @ l @ body) \<or>
      (constructed tag \<and> enc = asn1_tag_bytes tag @ 0x80 # body @ [0, 0]))"

abbreviation base_tag :: "CBS_ASN1_TAG \<Rightarrow> CBS_ASN1_TAG" where
  "base_tag tag \<equiv> tag AND NOT CBS_ASN1_CONSTRUCTED"

text \<open>The fragments of a string with a given tag, nested to at most \<open>k\<close> levels, and what they join to.\<close>

inductive ber_string :: "nat \<Rightarrow> CBS_ASN1_TAG \<Rightarrow> byte list \<Rightarrow> byte list \<Rightarrow> bool" where
  none: "ber_string k s [] []"
| piece: "\<not> constructed s \<Longrightarrow> ber_frame s c enc \<Longrightarrow> ber_string k s bs d \<Longrightarrow> ber_string k s (enc @ bs) (c @ d)"
| nested: "constructed tag \<Longrightarrow> base_tag tag = s \<Longrightarrow> ber_string k s body c \<Longrightarrow> ber_frame tag body enc \<Longrightarrow>
    ber_string (Suc k) s bs d \<Longrightarrow> ber_string (Suc k) s (enc @ bs) (c @ d)"

text \<open>A sequence of BER elements, nested to at most \<open>k\<close> levels, and the values it encodes.\<close>

inductive ber_values :: "nat \<Rightarrow> byte list \<Rightarrow> asn1 list \<Rightarrow> bool" where
  empty: "ber_values k [] []"
| primitive: "\<not> constructed tag \<Longrightarrow> ber_frame tag c enc \<Longrightarrow> ber_values k bs ts \<Longrightarrow>
    ber_values k (enc @ bs) (Primitive tag c # ts)"
| constructed: "constructed tag \<Longrightarrow> \<not> is_string_type tag \<Longrightarrow> ber_values k body us \<Longrightarrow> ber_frame tag body enc \<Longrightarrow>
    ber_values (Suc k) bs ts \<Longrightarrow> ber_values (Suc k) (enc @ bs) (Constructed tag us # ts)"
| string: "constructed tag \<Longrightarrow> is_string_type tag \<Longrightarrow> ber_string k (base_tag tag) body c \<Longrightarrow> ber_frame tag body enc \<Longrightarrow>
    ber_values (Suc k) bs ts \<Longrightarrow> ber_values (Suc k) (enc @ bs) (Primitive (base_tag tag) c # ts)"

section \<open>The conversion of a valid encoding\<close>

lemma tag_bytes_Cons: "valid_tag tag \<Longrightarrow> \<exists>b bs. asn1_tag_bytes tag = b # bs \<and> b \<noteq> 0"
proof -
  assume "valid_tag tag"
  then have p: "parse_asn1_tag (asn1_tag_bytes tag @ []) = (Some tag, [])" by (rule parse_tag_complete)
  obtain b bs where b: "asn1_tag_bytes tag = b # bs"
    by (cases "asn1_tag_bytes tag") (auto simp: asn1_tag_bytes_def split: if_splits)
  have "b \<noteq> 0"
  proof
    assume "b = 0"
    then have "fst (parse_asn1_tag (asn1_tag_bytes tag @ [])) = None"
      by (simp add: b parse_asn1_tag_def finish_tag_def CBS_ASN1_CONSTRUCTED_def)
    with p show False by simp
  qed
  with b show ?thesis by blast
qed

lemma no_eoc: "valid_tag tag \<Longrightarrow> fst (cbs_get_eoc (asn1_tag_bytes tag @ rest)) = None"
  using tag_bytes_Cons [of tag] by (auto simp: cbs_get_eoc_def CBS_data_def)

lemma eoc_here: "cbs_get_eoc (0 # 0 # rest) = (Some (), rest)"
  by (simp add: cbs_get_eoc_def CBS_len_def CBS_data_def CBS_skip_def cbs_get_def numeral_2_eq_2)

lemma convert_definite:
  assumes "depth \<le> kMaxDepth" and "valid_tag tag" and "ber_len (length body) l"
    and "open_target al out s tag st = (Some (d1, ch), st1)"
  shows "cbs_convert_ber al (asn1_tag_bytes tag @ l @ body @ rest) out s eoc depth st =
    Option.bind
      (if constructed tag then Option.bind (cbs_convert_ber al body d1 ch False (depth + 1) st1) (\<lambda>(ok, _, st2). Some (ok, st2))
       else Some (CBB_add_bytes al d1 body st1))
      (\<lambda>(ok, st2). if \<not> ok then Some (False, rest, st2) else case flush_then al out rest st2 of
          Inl r \<Rightarrow> Some r | Inr st3 \<Rightarrow> cbs_convert_ber al rest out s eoc depth st3)"
proof -
  obtain e where e: "CBS_get_any_ber_asn1_element (asn1_tag_bytes tag @ l @ body @ rest) = (Some e, rest)"
      "definite_at tag l body e" using ber_definite_complete [OF assms(2,3)] by blast
  then have "CBS_skip (out_header_len e) (element e) = (Some (), body)" "\<not> out_indefinite e" "out_tag e = tag"
    by (auto simp: definite_at_def CBS_skip_iff)
  with e(1) assms(1,4) no_eoc [OF assms(2)] tag_bytes_Cons [OF assms(2)] show ?thesis
    by (subst cbs_convert_ber.simps) (auto simp: CBS_len_def CBS_data_def)
qed

lemma convert_indefinite:
  assumes "depth \<le> kMaxDepth" and "valid_tag tag" and "constructed tag"
    and "open_target al out s tag st = (Some (d1, ch), st1)"
  shows "cbs_convert_ber al (asn1_tag_bytes tag @ 0x80 # rest) out s eoc depth st =
    Option.bind (cbs_convert_ber al rest d1 ch True (depth + 1) st1)
      (\<lambda>(ok, inp2, st2). if \<not> ok then Some (False, inp2, st2) else case flush_then al out inp2 st2 of
          Inl r \<Rightarrow> Some r | Inr st3 \<Rightarrow> cbs_convert_ber al inp2 out s eoc depth st3)"
proof -
  obtain e where e: "CBS_get_any_ber_asn1_element (asn1_tag_bytes tag @ 0x80 # rest) = (Some e, rest)"
      "indefinite_at tag e" using ber_indefinite_complete [OF assms(2,3)] by blast
  then have "out_indefinite e" "out_tag e = tag" by (auto simp: indefinite_at_def)
  with e(1) assms(1,4) no_eoc [OF assms(2)] tag_bytes_Cons [OF assms(2)] show ?thesis
    by (subst cbs_convert_ber.simps) (auto simp: CBS_len_def)
qed

text \<open>
  The conversion works its way over \<open>bs\<close> and appends \<open>data\<close>, whatever comes behind \<open>bs\<close>.
\<close>

definition steps_over ::
  "(size_t \<Rightarrow> bool) \<Rightarrow> cbb_child_st list \<Rightarrow> CBS_ASN1_TAG \<Rightarrow> bool \<Rightarrow> nat \<Rightarrow> byte list \<Rightarrow> byte list \<Rightarrow> bool" where
  "steps_over al cs s eoc depth bs data \<longleftrightarrow>
     (\<forall>n tail st. cbb_ready al cs (length data + n) st \<longrightarrow>
        (\<exists>st'. cbb_ready al cs n st' \<and> buf st' = buf st @ data \<and>
           cbs_convert_ber al (bs @ tail) (length cs) s eoc depth st =
           cbs_convert_ber al tail (length cs) s eoc depth st'))"

lemma steps_overE:
  assumes "steps_over al cs s eoc depth bs data" and "cbb_ready al cs (length data + n) st"
  obtains st' where "cbb_ready al cs n st'" and "buf st' = buf st @ data"
    and "cbs_convert_ber al (bs @ tail) (length cs) s eoc depth st = cbs_convert_ber al tail (length cs) s eoc depth st'"
  using assms unfolding steps_over_def by metis

text \<open>A nested call as a writer: it succeeds when it stops where expected.\<close>

definition nested_call ::
  "(size_t \<Rightarrow> bool) \<Rightarrow> CBS \<Rightarrow> CBS \<Rightarrow> nat \<Rightarrow> CBS_ASN1_TAG \<Rightarrow> bool \<Rightarrow> nat \<Rightarrow> CBB \<Rightarrow> bool \<times> CBB" where
  "nested_call al inp rest out s eoc depth st =
     (case cbs_convert_ber al inp out s eoc depth st of
        None \<Rightarrow> (False, st) | Some (ok, inp2, st2) \<Rightarrow> (ok \<and> inp2 = rest, st2))"

lemma convert_end:
  assumes "depth \<le> kMaxDepth"
  shows "cbs_convert_ber al [] out s False depth st = Some (True, [], st)"
    and "cbs_convert_ber al (0 # 0 # rest) out s True depth st = Some (True, rest, st)"
  using assms eoc_here by (simp_all add: cbs_convert_ber.simps CBS_len_def)

lemma nested_call_appends:
  assumes "\<And>eoc. steps_over al cs s eoc depth body data" and "depth \<le> kMaxDepth"
  shows "cbb_at.appends al cs (nested_call al body [] (length cs) s False depth) data"
    and "cbb_at.appends al cs (nested_call al (body @ 0 # 0 # rest) rest (length cs) s True depth) data"
proof -
  have "\<exists>st'. nested_call al (body @ tail) rest' (length cs) s eoc depth st = (True, st') \<and> buf st' = buf st @ data \<and> cbb_ready al cs n st'"
    if "cbb_ready al cs (length data + n) st" and "\<And>st'. cbs_convert_ber al tail (length cs) s eoc depth st' = Some (True, rest', st')"
    for tail rest' eoc st n
  proof -
    note r = that
    obtain st' where "cbb_ready al cs n st'" "buf st' = buf st @ data"
        "cbs_convert_ber al (body @ tail) (length cs) s eoc depth st = cbs_convert_ber al tail (length cs) s eoc depth st'"
      using steps_overE [OF assms(1) [of eoc] r(1)] by blast
    with r(2) show ?thesis by (simp add: nested_call_def)
  qed
  from this [of _ _ "[]" False "[]"] this [of _ _ "0 # 0 # rest" True rest] convert_end [OF assms(2)]
  show "cbb_at.appends al cs (nested_call al body [] (length cs) s False depth) data"
    "cbb_at.appends al cs (nested_call al (body @ 0 # 0 # rest) rest (length cs) s True depth) data"
    by (simp_all add: cbb_at.appends_def)
qed

lemma nested_callD: "nested_call al inp rest out s eoc depth st = (True, st') \<Longrightarrow>
    cbs_convert_ber al inp out s eoc depth st = Some (True, rest, st')"
  by (auto simp: nested_call_def split: option.splits prod.splits)


lemma steps_nil: "steps_over al cs s eoc depth [] []"
  by (auto simp: steps_over_def)

lemma steps_seq:
  assumes "steps_over al cs s eoc depth xs a" and "steps_over al cs s eoc depth ys b"
  shows "steps_over al cs s eoc depth (xs @ ys) (a @ b)"
  unfolding steps_over_def
proof (intro allI impI)
  fix n tail st
  assume "cbb_ready al cs (length (a @ b) + n) st"
  then have "cbb_ready al cs (length a + (length b + n)) st" by (simp add: add.assoc)
  with assms(1) obtain s1 where s1: "cbb_ready al cs (length b + n) s1" "buf s1 = buf st @ a"
      "cbs_convert_ber al (xs @ ys @ tail) (length cs) s eoc depth st = cbs_convert_ber al (ys @ tail) (length cs) s eoc depth s1"
    unfolding steps_over_def by blast
  with assms(2) obtain s2 where "cbb_ready al cs n s2" "buf s2 = buf s1 @ b"
      "cbs_convert_ber al (ys @ tail) (length cs) s eoc depth s1 = cbs_convert_ber al tail (length cs) s eoc depth s2"
    unfolding steps_over_def by blast
  with s1 show "\<exists>st'. cbb_ready al cs n st' \<and> buf st' = buf st @ a @ b \<and>
      cbs_convert_ber al ((xs @ ys) @ tail) (length cs) s eoc depth st = cbs_convert_ber al tail (length cs) s eoc depth st'"
    by (intro exI [of _ s2]) simp
qed

lemma flush_then_ready: "cbb_ready al cs n st \<Longrightarrow> flush_then al (length cs) inp st = Inr st"
  by (simp add: flush_then_def flush_none)

text \<open>A fragment of a string: its body goes to the same place.\<close>

lemma steps_fragment:
  assumes d: "depth \<le> kMaxDepth" and f: "ber_frame tag body enc" and s: "s \<noteq> 0" "base_tag tag = s"
    and p: "\<not> constructed tag \<Longrightarrow> data = body"
    and c: "constructed tag \<Longrightarrow> depth + 1 \<le> kMaxDepth \<and> (\<forall>eoc. steps_over al cs s eoc (depth + 1) body data)"
  shows "steps_over al cs s eoc depth enc data"
  unfolding steps_over_def
proof (intro allI impI)
  fix n tail st
  assume r: "cbb_ready al cs (length data + n) st"
  have o: "open_target al (length cs) s tag st = (Some (length cs, s), st)" using s by (simp add: open_target_def)
  have v: "valid_tag tag" using f by (simp add: ber_frame_def)
  show "\<exists>st'. cbb_ready al cs n st' \<and> buf st' = buf st @ data \<and>
      cbs_convert_ber al (enc @ tail) (length cs) s eoc depth st = cbs_convert_ber al tail (length cs) s eoc depth st'"
  proof (cases "constructed tag")
    case False
    then obtain l where l: "ber_len (length body) l" "enc = asn1_tag_bytes tag @ l @ body"
      using f by (auto simp: ber_frame_def)
    from p [OF False] r obtain s1 where "CBB_add_bytes al (length cs) body st = (True, s1)" "buf s1 = buf st @ body"
        "cbb_ready al cs n s1"
      using cbb_at.appendsE [OF appends_bytes, of al cs body n st] by metis
    with p False l convert_definite [OF d v l(1) o, of tail eoc] show ?thesis
      by (intro exI [of _ s1]) (simp add: flush_then_ready)
  next
    case True
    note c = c [OF True]
    then have so: "\<And>eoc. steps_over al cs s eoc (depth + 1) body data" and d1: "depth + 1 \<le> kMaxDepth" by blast+
    note app = nested_call_appends [OF so d1]
    from f consider (def) l where "ber_len (length body) l" "enc = asn1_tag_bytes tag @ l @ body"
      | (ind) "enc = asn1_tag_bytes tag @ 0x80 # body @ [0, 0]" by (auto simp: ber_frame_def)
    then show ?thesis
    proof cases
      case def
      from app(1) r obtain s1 where s1: "nested_call al body [] (length cs) s False (depth + 1) st = (True, s1)"
          "buf s1 = buf st @ data" "cbb_ready al cs n s1" by (rule cbb_at.appendsE)
      with True def nested_callD [OF s1(1)] convert_definite [OF d v def(1) o, of tail eoc] show ?thesis
        by (intro exI [of _ s1]) (simp add: flush_then_ready)
    next
      case ind
      from app(2) r obtain s1 where s1: "nested_call al (body @ 0 # 0 # tail) tail (length cs) s True (depth + 1) st = (True, s1)"
          "buf s1 = buf st @ data" "cbb_ready al cs n s1" by (rule cbb_at.appendsE)
      with ind nested_callD [OF s1(1)] convert_indefinite [OF d v True o, of "body @ 0 # 0 # tail" eoc] show ?thesis
        by (intro exI [of _ s1]) (simp add: flush_then_ready)
    qed
  qed
qed

text \<open>An element of its own: its body goes to a child, which is flushed behind it.\<close>

lemma steps_element:
  assumes d: "depth \<le> kMaxDepth" and f: "ber_frame tag body enc" and len: "length data \<le> 0xfffffffe"
    and t: "(otag, ch) = (if constructed tag \<and> is_string_type tag then (base_tag tag, base_tag tag) else (tag, 0))"
    and p: "\<not> constructed tag \<Longrightarrow> data = body"
    and c: "constructed tag \<Longrightarrow> depth + 1 \<le> kMaxDepth \<and> (\<forall>cs eoc. steps_over al cs ch eoc (depth + 1) body data)"
  shows "steps_over al cs 0 eoc depth enc (asn1_element_bytes otag data)"
  unfolding steps_over_def
proof (intro allI impI)
  fix n tail st
  assume r: "cbb_ready al cs (length (asn1_element_bytes otag data) + n) st"
  have v: "valid_tag tag" using f by (simp add: ber_frame_def)
  have o: "CBB_add_asn1 al (length cs) otag st = (True, s1) \<Longrightarrow>
      open_target al (length cs) 0 tag st = (Some (length cs + 1, ch), s1)" for s1
    using t by (auto simp: open_target_def split: if_splits)
  have run: "\<exists>s1 s2 s3. CBB_add_asn1 al (length cs) otag st = (True, s1) \<and> e s1 = (True, s2) \<and>
      flush_then al (length cs) x s2 = Inr s3 \<and> buf s3 = buf st @ asn1_element_bytes otag data \<and> cbb_ready al cs n s3"
    if "\<And>c. cbb_at.appends al (cs @ [c]) e data" for e x
  proof -
    have "cbb_at.appends al cs (and_then (CBB_add_asn1 al (length cs) otag) (and_then e (CBB_flush al (length cs))))
        (asn1_element_bytes otag data)" by (rule appends_element [OF that len])
    from this r obtain s3 where "and_then (CBB_add_asn1 al (length cs) otag) (and_then e (CBB_flush al (length cs))) st = (True, s3)"
        "buf s3 = buf st @ asn1_element_bytes otag data" "cbb_ready al cs n s3" by (rule cbb_at.appendsE)
    then show ?thesis by (auto simp: and_then_def flush_then_def split: prod.splits bool.splits)
  qed
  show "\<exists>st'. cbb_ready al cs n st' \<and> buf st' = buf st @ asn1_element_bytes otag data \<and>
      cbs_convert_ber al (enc @ tail) (length cs) 0 eoc depth st = cbs_convert_ber al tail (length cs) 0 eoc depth st'"
  proof (cases "constructed tag")
    case False
    then obtain l where l: "ber_len (length body) l" "enc = asn1_tag_bytes tag @ l @ body"
      using f by (auto simp: ber_frame_def)
    have "cbb_at.appends al (cs @ [c]) (CBB_add_bytes al (length cs + 1) body) data" for c
      using p [OF False] appends_bytes [of al "cs @ [c]" body] by simp
    from run [OF this, of tail] obtain s1 s2 s3 where s: "CBB_add_asn1 al (length cs) otag st = (True, s1)"
        "CBB_add_bytes al (length cs + 1) body s1 = (True, s2)" "flush_then al (length cs) tail s2 = Inr s3"
        "buf s3 = buf st @ asn1_element_bytes otag data" "cbb_ready al cs n s3" by blast
    with False l convert_definite [OF d v l(1) o [OF s(1)], of tail eoc] show ?thesis
      by (intro exI [of _ s3]) simp
  next
    case True
    note c = c [OF True]
    then have so: "\<And>c eoc. steps_over al (cs @ [c]) ch eoc (depth + 1) body data" and d1: "depth + 1 \<le> kMaxDepth" by blast+
    note app = nested_call_appends [OF so d1]
    from f consider (def) l where "ber_len (length body) l" "enc = asn1_tag_bytes tag @ l @ body"
      | (ind) "enc = asn1_tag_bytes tag @ 0x80 # body @ [0, 0]" by (auto simp: ber_frame_def)
    then show ?thesis
    proof cases
      case def
      have "cbb_at.appends al (cs @ [c]) (nested_call al body [] (length cs + 1) ch False (depth + 1)) data" for c
        using app(1) [of c] by simp
      from run [OF this, of tail] obtain s1 s2 s3 where s: "CBB_add_asn1 al (length cs) otag st = (True, s1)"
          "nested_call al body [] (length cs + 1) ch False (depth + 1) s1 = (True, s2)" "flush_then al (length cs) tail s2 = Inr s3"
          "buf s3 = buf st @ asn1_element_bytes otag data" "cbb_ready al cs n s3" by blast
      with True def nested_callD [OF s(2)] convert_definite [OF d v def(1) o [OF s(1)], of tail eoc] show ?thesis
        by (intro exI [of _ s3]) simp
    next
      case ind
      have "cbb_at.appends al (cs @ [c]) (nested_call al (body @ 0 # 0 # tail) tail (length cs + 1) ch True (depth + 1)) data" for c
        using app(2) [of c tail] by simp
      from run [OF this, of tail] obtain s1 s2 s3 where s: "CBB_add_asn1 al (length cs) otag st = (True, s1)"
          "nested_call al (body @ 0 # 0 # tail) tail (length cs + 1) ch True (depth + 1) s1 = (True, s2)"
          "flush_then al (length cs) tail s2 = Inr s3"
          "buf s3 = buf st @ asn1_element_bytes otag data" "cbb_ready al cs n s3" by blast
      with ind nested_callD [OF s(2)] convert_indefinite [OF d v True o [OF s(1)], of "body @ 0 # 0 # tail" eoc] show ?thesis
        by (intro exI [of _ s3]) simp
    qed
  qed
qed


lemma steps_string:
  assumes "ber_string k s bs data" and "k + depth = kMaxDepth" and "s \<noteq> 0" and "base_tag s = s"
  shows "steps_over al cs s eoc depth bs data"
  using assms
proof (induction arbitrary: depth eoc rule: ber_string.induct)
  case (none k s)
  show ?case by (rule steps_nil)
next
  case (piece s c enc k bs d)
  then show ?case by (intro steps_seq steps_fragment [of depth s c enc]) auto
next
  case (nested tag s k body c enc bs d)
  then have "\<forall>eoc. steps_over al cs s eoc (depth + 1) body c" by simp
  with nested show ?case by (intro steps_seq steps_fragment [of depth tag body enc]) auto
qed

lemma base_base: "base_tag (base_tag tag) = base_tag tag"
  by (simp add: and.assoc)

lemma string_tag_nonzero: "is_string_type tag \<Longrightarrow> base_tag tag \<noteq> 0"
  by (auto simp: is_string_type_def string_tag_defs)

lemma steps_values:
  assumes "ber_values k bs ts" and "k + depth = kMaxDepth" and "length (der_list ts) \<le> 0xfffffffe"
  shows "steps_over al cs 0 eoc depth bs (der_list ts)"
  using assms
proof (induction arbitrary: depth eoc cs rule: ber_values.induct)
  case (empty k)
  show ?case by (simp add: steps_nil)
next
  case (primitive tag c enc k bs ts)
  have "length c \<le> 0xfffffffe" using primitive.prems(2) by (simp add: asn1_element_bytes_def)
  then have "steps_over al cs 0 eoc depth enc (asn1_element_bytes tag c)"
    using primitive.prems(1) primitive.hyps by (intro steps_element [of depth tag c enc c tag 0]) auto
  with primitive show ?case by (auto intro!: steps_seq)
next
  case (constructed tag k body us enc bs ts)
  have len: "length (der_list us) \<le> 0xfffffffe" using constructed.prems(2) by (simp add: asn1_element_bytes_def)
  then have "\<forall>cs eoc. steps_over al cs 0 eoc (depth + 1) body (der_list us)"
    using constructed.IH(1) constructed.prems(1) by simp
  then have "steps_over al cs 0 eoc depth enc (asn1_element_bytes tag (der_list us))"
    using constructed.prems(1) constructed.hyps len by (intro steps_element [of depth tag body enc _ tag 0]) auto
  with constructed show ?case by (auto intro!: steps_seq)
next
  case (string tag k body c enc bs ts)
  have len: "length c \<le> 0xfffffffe" using string.prems(2) by (simp add: asn1_element_bytes_def)
  have "steps_over al cs (base_tag tag) eoc (depth + 1) body c" for cs eoc
    using string.prems(1) string.hyps by (intro steps_string [OF string.hyps(3)]) (simp_all add: string_tag_nonzero base_base)
  then have "steps_over al cs 0 eoc depth enc (asn1_element_bytes (base_tag tag) c)"
    using string.prems(1) string.hyps len by (intro steps_element [of depth tag body enc c "base_tag tag" "base_tag tag"]) auto
  with string show ?case by (auto intro!: steps_seq)
qed


section \<open>What the conversion accepts\<close>

lemma base_primitive: "\<not> constructed tag \<Longrightarrow> base_tag tag = tag"
proof -
  assume "\<not> constructed tag"
  then have "tag AND CBS_ASN1_CONSTRUCTED = 0" by (simp add: constructed_def)
  moreover have "tag = (tag AND CBS_ASN1_CONSTRUCTED) OR (tag AND NOT CBS_ASN1_CONSTRUCTED)"
    by (rule bit_word_eqI) (auto simp: bit_simps)
  ultimately show "base_tag tag = tag" by simp
qed

definition decodes :: "nat \<Rightarrow> CBS_ASN1_TAG \<Rightarrow> byte list \<Rightarrow> bool" where
  "decodes k s bs \<longleftrightarrow> (if s = 0 then \<exists>ts. ber_values k bs ts else \<exists>d. ber_string k s bs d)"

lemma decodes_nil: "decodes k s []"
  by (auto simp: decodes_def intro: ber_values.empty ber_string.none)

lemma decodes_step:
  assumes f: "ber_frame tag body enc" and s: "s \<noteq> 0 \<Longrightarrow> base_tag tag = s \<and> ch = s"
    and z: "s = 0 \<Longrightarrow> ch = (if constructed tag \<and> is_string_type tag then base_tag tag else 0)"
    and c: "constructed tag \<Longrightarrow> \<exists>k'. k = Suc k' \<and> decodes k' ch body" and r: "decodes k s bs"
  shows "decodes k s (enc @ bs)"
proof (cases "constructed tag")
  case False
  with f s r base_primitive [OF False] show ?thesis
    by (auto simp: decodes_def intro: ber_values.primitive ber_string.piece split: if_splits)
next
  case True
  then obtain k' where k: "k = Suc k'" "decodes k' ch body" using c by blast
  show ?thesis
  proof (cases "s = 0")
    case s0: True
    then obtain ts where ts: "ber_values (Suc k') bs ts" using r k by (auto simp: decodes_def)
    show ?thesis
    proof (cases "is_string_type tag")
      case True
      then have "ch \<noteq> 0" "ch = base_tag tag" using z s0 \<open>constructed tag\<close> string_tag_nonzero by auto
      with k(2) obtain d where "ber_string k' (base_tag tag) body d" by (auto simp: decodes_def)
      from ber_values.string [OF \<open>constructed tag\<close> True this f ts] s0 k(1) show ?thesis
        by (auto simp: decodes_def)
    next
      case False
      then have "ch = 0" using z s0 by simp
      with k(2) obtain us where "ber_values k' body us" by (auto simp: decodes_def)
      from ber_values.constructed [OF \<open>constructed tag\<close> False this f ts] s0 k(1) show ?thesis
        by (auto simp: decodes_def)
    qed
  next
    case False
    with s k(2) obtain d where d: "ber_string k' s body d" "base_tag tag = s" by (auto simp: decodes_def)
    from False r k(1) obtain d' where "ber_string (Suc k') s bs d'" by (auto simp: decodes_def)
    from ber_string.nested [OF True d(2,1) f this] False k(1) show ?thesis by (auto simp: decodes_def)
  qed
qed

text \<open>What a call may have accepted when it returns with \<open>r\<close> left.\<close>

definition accepted :: "nat \<Rightarrow> CBS_ASN1_TAG \<Rightarrow> bool \<Rightarrow> byte list \<Rightarrow> byte list \<Rightarrow> bool" where
  "accepted depth s eoc inp r \<longleftrightarrow> depth \<le> kMaxDepth \<and>
     (\<exists>bs. inp = bs @ (if eoc then 0 # 0 # r else []) \<and> (\<not> eoc \<longrightarrow> r = []) \<and> decodes (kMaxDepth - depth) s bs)"

lemma accepted_step:
  assumes f: "ber_frame tag body enc" and s: "s \<noteq> 0 \<Longrightarrow> base_tag tag = s \<and> ch = s"
    and z: "s = 0 \<Longrightarrow> ch = (if constructed tag \<and> is_string_type tag then base_tag tag else 0)"
    and c: "constructed tag \<Longrightarrow> depth + 1 \<le> kMaxDepth \<and> decodes (kMaxDepth - (depth + 1)) ch body"
    and r: "accepted depth s eoc inp r"
  shows "accepted depth s eoc (enc @ inp) r"
proof -
  obtain bs where bs: "inp = bs @ (if eoc then 0 # 0 # r else [])" "\<not> eoc \<longrightarrow> r = []" "decodes (kMaxDepth - depth) s bs"
      "depth \<le> kMaxDepth" using r by (auto simp: accepted_def)
  have "constructed tag \<Longrightarrow> \<exists>k'. kMaxDepth - depth = Suc k' \<and> decodes k' ch body"
    using c by (intro exI [of _ "kMaxDepth - (depth + 1)"]) auto
  from decodes_step [OF f s z this bs(3)] bs show ?thesis
    by (auto simp: accepted_def intro!: exI [of _ "enc @ bs"])
qed

lemma open_target_tags:
  assumes "open_target al out s tag st = (Some (d1, ch), st1)"
  shows "s \<noteq> 0 \<Longrightarrow> base_tag tag = s \<and> ch = s"
    and "s = 0 \<Longrightarrow> ch = (if constructed tag \<and> is_string_type tag then base_tag tag else 0)"
  using assms by (auto simp: open_target_def split: if_splits prod.splits bool.splits)

lemma eoc_iff: "fst (cbs_get_eoc inp) \<noteq> None \<longleftrightarrow> inp = 0 # 0 # snd (cbs_get_eoc inp)"
proof
  assume a: "fst (cbs_get_eoc inp) \<noteq> None"
  then obtain x y r where "inp = x # y # r" "x = 0" "y = 0"
    by (cases inp; cases "tl inp") (auto simp: cbs_get_eoc_def CBS_len_def CBS_data_def split: if_splits)
  then show "inp = 0 # 0 # snd (cbs_get_eoc inp)" by (simp add: eoc_here)
next
  assume "inp = 0 # 0 # snd (cbs_get_eoc inp)"
  then show "fst (cbs_get_eoc inp) \<noteq> None" by (metis eoc_here fst_conv option.distinct(1))
qed

text \<open>
  Every call returns, leaves no more than it got, and on success has accepted a valid encoding:
  by induction on the levels left and the input.
\<close>

lemma convert_total:
  "\<exists>ok r st'. cbs_convert_ber al inp out s eoc depth st = Some (ok, r, st') \<and> length r \<le> length inp \<and>
     (ok \<longrightarrow> accepted depth s eoc inp r)"
proof (induction "(Suc kMaxDepth - depth, length inp)" arbitrary: inp out s eoc depth st
    rule: wf_induct_rule [OF wf_lex_prod [OF wf_less_than wf_less_than]])
  case 1
  let ?run = "cbs_convert_ber al inp out s eoc depth st"
  have deeper: "\<exists>ok r st'. cbs_convert_ber al inp' out' s' eoc' (depth + 1) st'' = Some (ok, r, st') \<and>
      length r \<le> length inp' \<and> (ok \<longrightarrow> accepted (depth + 1) s' eoc' inp' r)" if "depth \<le> kMaxDepth" for inp' out' s' eoc' st''
    using that by (intro 1) (simp add: Suc_diff_le)
  have later: "\<exists>ok r st'. cbs_convert_ber al inp' out s eoc depth st'' = Some (ok, r, st') \<and>
      length r \<le> length inp' \<and> (ok \<longrightarrow> accepted depth s eoc inp' r)" if "length inp' < length inp" for inp' st''
    using that by (intro 1) (simp add: Suc_diff_le)
  show ?case
  proof (cases "depth > kMaxDepth \<or> inp = [] \<or> (eoc \<and> fst (cbs_get_eoc inp) \<noteq> None)")
    case True
    then show ?thesis
      using cbs_get_eoc_shorter [of inp] eoc_iff [of inp]
      by (subst cbs_convert_ber.simps) (auto simp: CBS_len_def accepted_def decodes_nil intro!: exI [of _ "[]"])
  next
    case False
    then have d: "depth \<le> kMaxDepth" and ne: "CBS_len inp > 0" "\<not> (eoc \<and> fst (cbs_get_eoc inp) \<noteq> None)"
      by (auto simp: CBS_len_def)
    obtain r inp1 where g: "CBS_get_any_ber_asn1_element inp = (r, inp1)" by fastforce
    note le = ber_reader_shorter [OF g]
    show ?thesis
    proof (cases r)
      case None
      with d ne g le show ?thesis by (subst cbs_convert_ber.simps) auto
    next
      case (Some e)
      with g have ge: "CBS_get_any_ber_asn1_element inp = (Some e, inp1)" by simp
      note lt = ber_element_shorter(1) [OF ge]
      obtain o1 st1 where o: "open_target al out s (out_tag e) st = (o1, st1)" by fastforce
      show ?thesis
      proof (cases o1)
        case None
        with d ne ge le o show ?thesis by (subst cbs_convert_ber.simps) auto
      next
        case (Some p)
        then obtain d1 ch where o: "open_target al out s (out_tag e) st = (Some (d1, ch), st1)" using o by (cases p) auto
        note ot = open_target_tags [OF o]
        from ge show ?thesis
        proof (cases rule: ber_element_sound)
          case (definite tag l body)
          have t: "out_tag e = tag" using definite(2) by (simp add: definite_at_def)
          have f: "ber_frame tag body (asn1_tag_bytes tag @ l @ body)"
            using definite by (auto simp: ber_frame_def definite_at_def)
          note run = convert_definite [OF d definite(1) _ o [unfolded t], of body l inp1 eoc]
          have l: "ber_len (length body) l" using definite(2) by (simp add: definite_at_def)
          define nested where "nested = (if constructed tag
              then Option.bind (cbs_convert_ber al body d1 ch False (depth + 1) st1) (\<lambda>(ok, _, st2). Some (ok, st2))
              else Some (CBB_add_bytes al d1 body st1))"
          obtain ok1 r1 s1 where dd: "cbs_convert_ber al body d1 ch False (depth + 1) st1 = Some (ok1, r1, s1)"
              "ok1 \<longrightarrow> accepted (depth + 1) ch False body r1"
            using deeper [OF d, of body d1 ch False st1] by blast
          define ok where "ok = (if constructed tag then ok1 else fst (CBB_add_bytes al d1 body st1))"
          define st2 where "st2 = (if constructed tag then s1 else snd (CBB_add_bytes al d1 body st1))"
          have n: "nested = Some (ok, st2)"
            unfolding nested_def ok_def st2_def dd(1) by simp
          have acc: "depth + 1 \<le> kMaxDepth \<and> decodes (kMaxDepth - (depth + 1)) ch body" if "ok" "constructed tag"
            using dd(2) that by (auto simp: ok_def accepted_def)
          have eq: "?run = (if \<not> ok then Some (False, inp1, st2) else case flush_then al out inp1 st2 of
              Inl r \<Rightarrow> Some r | Inr st3 \<Rightarrow> cbs_convert_ber al inp1 out s eoc depth st3)"
            using run [OF l] n definite(3) by (simp add: nested_def)
          show ?thesis
          proof (cases "ok \<and> fst (CBB_flush al out st2)")
            case True
            then obtain st3 where "flush_then al out inp1 st2 = Inr st3"
              by (cases "CBB_flush al out st2") (auto simp: flush_then_def)
            with eq True have eq: "?run = cbs_convert_ber al inp1 out s eoc depth st3" by simp
            have "accepted depth s eoc inp r" if "accepted depth s eoc inp1 r" for r
              using accepted_step [OF f ot [unfolded t] _ that] acc True definite(3) by simp
            with later [OF lt, of st3] lt show ?thesis unfolding eq by fastforce
          next
            case False
            then show ?thesis using eq le by (cases "CBB_flush al out st2") (auto simp: flush_then_def)
          qed
        next
          case (indefinite tag)
          have t: "out_tag e = tag" "constructed tag" using indefinite(2) by (simp_all add: indefinite_at_def)
          obtain ok inp2 st2 where n: "cbs_convert_ber al inp1 d1 ch True (depth + 1) st1 = Some (ok, inp2, st2)"
              "length inp2 \<le> length inp1" "ok \<Longrightarrow> accepted (depth + 1) ch True inp1 inp2"
            using deeper [OF d, of inp1 d1 ch True st1] by blast
          have eq: "?run = (if \<not> ok then Some (False, inp2, st2) else case flush_then al out inp2 st2 of
              Inl r \<Rightarrow> Some r | Inr st3 \<Rightarrow> cbs_convert_ber al inp2 out s eoc depth st3)"
            using convert_indefinite [OF d indefinite(1) t(2) o [unfolded t], of inp1 eoc] n(1) indefinite(3) by simp
          have lt2: "length inp2 < length inp" using n(2) lt by simp
          show ?thesis
          proof (cases "ok \<and> fst (CBB_flush al out st2)")
            case True
            then obtain st3 where "flush_then al out inp2 st2 = Inr st3"
              by (cases "CBB_flush al out st2") (auto simp: flush_then_def)
            with eq True have eq: "?run = cbs_convert_ber al inp2 out s eoc depth st3" by simp
            obtain body where b: "inp1 = body @ 0 # 0 # inp2" "depth + 1 \<le> kMaxDepth"
                "decodes (kMaxDepth - (depth + 1)) ch body"
              using n(3) True by (auto simp: accepted_def)
            have f: "ber_frame tag body (asn1_tag_bytes tag @ 0x80 # body @ [0, 0])"
              using indefinite(1) t(2) by (simp add: ber_frame_def)
            have "accepted depth s eoc inp r" if "accepted depth s eoc inp2 r" for r
              using accepted_step [OF f ot [unfolded t] _ that] b indefinite(3) by simp
            with later [OF lt2, of st3] lt2 show ?thesis unfolding eq by fastforce
          next
            case False
            then show ?thesis using eq lt2 by (cases "CBB_flush al out st2") (auto simp: flush_then_def)
          qed
        qed
      qed
    qed
  qed
qed


section \<open>The walk\<close>

text \<open>Values whose DER encoding the walk passes over: valid tags, no constructed strings, bounded lengths and nesting.\<close>

fun plain :: "nat \<Rightarrow> asn1 \<Rightarrow> bool" where
  "plain k (Primitive tag c) \<longleftrightarrow> valid_tag tag \<and> \<not> constructed tag \<and> length c < 2 ^ 32"
| "plain 0 (Constructed tag ts) \<longleftrightarrow> False"
| "plain (Suc k) (Constructed tag ts) \<longleftrightarrow> valid_tag tag \<and> constructed tag \<and> \<not> is_string_type tag \<and>
     length (der_list ts) < 2 ^ 32 \<and> (\<forall>t \<in> set ts. plain k t)"

lemma element_bytes_nonempty: "asn1_element_bytes tag c \<noteq> []"
  by (simp add: asn1_element_bytes_def asn1_header_def asn1_len_bytes_def)

text \<open>The BER reader on the encoding of an element in DER, and what it means not to find BER.\<close>

lemma ber_reads_der:
  assumes "valid_tag tag" and "length c < 2 ^ 32"
  obtains e where "CBS_get_any_ber_asn1_element (asn1_element_bytes tag c @ rest) = (Some e, rest)"
    and "\<not> out_ber_found e" and "out_tag e = tag" and "CBS_skip (out_header_len e) (element e) = (Some (), c)"
proof -
  let ?e = "\<lparr>element = asn1_element_bytes tag c, out_tag = tag, out_header_len = length (asn1_header tag (length c)),
       out_ber_found = False, out_indefinite = False\<rparr>"
  have "CBS_get_any_ber_asn1_element (asn1_element_bytes tag c @ rest) = (Some ?e, rest) \<and> \<not> out_ber_found ?e"
    unfolding ber_reader_extends_der using get_any_asn1_element_complete [OF assms] by simp
  then show thesis by (intro that [of ?e]) (simp_all add: skip_header)
qed

lemma ber_not_found_der:
  assumes "CBS_get_any_ber_asn1_element inp = (Some e, rest)" and "\<not> out_ber_found e"
  obtains c where "valid_tag (out_tag e)" and "length c < 2 ^ 32" and "inp = asn1_element_bytes (out_tag e) c @ rest"
    and "CBS_skip (out_header_len e) (element e) = (Some (), c)"
proof -
  have "CBS_get_any_asn1_element inp = (Some e, rest)" using assms ber_reader_extends_der by blast
  then show thesis using that by (auto simp: get_any_asn1_element_iff skip_header)
qed

lemma find_ber_plain:
  "\<forall>t \<in> set ts. plain k t \<Longrightarrow> k + depth = kMaxDepth \<Longrightarrow> find_ber_loop (der_list ts) depth = Some False"
proof (induction "length (der_list ts)" arbitrary: ts k depth rule: less_induct)
  case less
  show ?case
  proof (cases ts)
    case Nil
    then show ?thesis by (simp add: find_ber_loop.simps CBS_len_def)
  next
    case (Cons t us)
    have pu: "\<forall>t \<in> set us. plain k t" using less.prems Cons by simp
    show ?thesis
    proof (cases t)
      case (Primitive tag c)
      then have "valid_tag tag" "\<not> constructed tag" "length c < 2 ^ 32" using less.prems Cons by auto
      moreover from ber_reads_der [OF this(1,3), of "der_list us"] obtain e where
        "CBS_get_any_ber_asn1_element (asn1_element_bytes tag c @ der_list us) = (Some e, der_list us)"
        "\<not> out_ber_found e" "out_tag e = tag" by metis
      moreover have "find_ber_loop (der_list us) depth = Some False"
        using pu less.prems by (intro less.hyps) (auto simp: Cons Primitive element_bytes_nonempty)
      ultimately show ?thesis
        by (simp add: Cons Primitive find_ber_loop.simps [of "asn1_element_bytes tag c @ der_list us"] CBS_len_def
            element_bytes_nonempty)
    next
      case (Constructed tag vs)
      then obtain k' where k: "k = Suc k'" using less.prems Cons by (cases k) auto
      then have p: "valid_tag tag" "constructed tag" "\<not> is_string_type tag" "length (der_list vs) < 2 ^ 32"
          "\<forall>t \<in> set vs. plain k' t"
        using less.prems Cons Constructed by auto
      from ber_reads_der [OF p(1,4), of "der_list us"] obtain e where e:
        "CBS_get_any_ber_asn1_element (asn1_element_bytes tag (der_list vs) @ der_list us) = (Some e, der_list us)"
        "\<not> out_ber_found e" "out_tag e = tag" "CBS_skip (out_header_len e) (element e) = (Some (), der_list vs)" by metis
      have "find_ber_loop (der_list us) depth = Some False"
        using pu less.prems by (intro less.hyps) (auto simp: Cons Constructed element_bytes_nonempty)
      moreover have "find_ber_loop (der_list vs) (depth + 1) = Some False"
        using p(5) less.prems k by (intro less.hyps) (auto simp: Cons Constructed asn1_element_bytes_def asn1_header_def asn1_len_bytes_def)
      then have "cbs_find_ber (der_list vs) (depth + 1) = Some False"
        using less.prems k by (simp add: cbs_find_ber.simps)
      ultimately show ?thesis using e p(2,3)
        by (simp add: Cons Constructed find_ber_loop.simps [of "asn1_element_bytes tag (der_list vs) @ der_list us"]
            CBS_len_def element_bytes_nonempty)
    qed
  qed
qed

lemma plain_found:
  "cbs_find_ber inp depth = Some False \<Longrightarrow> depth \<le> kMaxDepth \<and> (\<exists>ts. inp = der_list ts \<and> (\<forall>t \<in> set ts. plain (kMaxDepth - depth) t))"
  "depth \<le> kMaxDepth \<Longrightarrow> find_ber_loop inp depth = Some False \<Longrightarrow>
    \<exists>ts. inp = der_list ts \<and> (\<forall>t \<in> set ts. plain (kMaxDepth - depth) t)"
proof (induction inp depth and inp depth rule: cbs_find_ber_find_ber_loop.induct)
  case (1 inp depth)
  then show ?case by (simp add: cbs_find_ber.simps split: if_splits)
next
  case (2 inp depth)
  show ?case
  proof (cases "CBS_len inp > 0")
    case False
    then show ?thesis by (intro exI [of _ "[]"]) (simp add: CBS_len_def)
  next
    case True
    obtain r inp1 where g: "CBS_get_any_ber_asn1_element inp = (r, inp1)" by fastforce
    then obtain e where r: "r = Some e" using "2.prems"(2) True by (cases r) (auto simp: find_ber_loop.simps [of inp])
    then have nf: "\<not> out_ber_found e" using "2.prems"(2) True g by (auto simp: find_ber_loop.simps [of inp])
    from ber_not_found_der [OF g [unfolded r] nf] obtain c where
      c: "valid_tag (out_tag e)" "length c < 2 ^ 32" "inp = asn1_element_bytes (out_tag e) c @ inp1"
        "CBS_skip (out_header_len e) (element e) = (Some (), c)" by blast
    show ?thesis
    proof (cases "constructed (out_tag e)")
      case False
      then have "find_ber_loop inp1 depth = Some False" using "2.prems"(2) True g r nf by (simp add: find_ber_loop.simps [of inp])
      then obtain ts where "inp1 = der_list ts" "\<forall>t \<in> set ts. plain (kMaxDepth - depth) t"
        using "2.IH"(3) [OF _ g [symmetric] r nf False "2.prems"(1)] True by auto
      with c False show ?thesis by (intro exI [of _ "Primitive (out_tag e) c # ts"]) simp
    next
      case con: True
      have str: "\<not> is_string_type (out_tag e)" using "2.prems"(2) True g r nf con by (auto simp: find_ber_loop.simps [of inp])
      have fc: "cbs_find_ber c (depth + 1) = Some False" and fl: "find_ber_loop inp1 depth = Some False"
        using "2.prems"(2) True g r nf con str c(4) by (auto simp: find_ber_loop.simps [of inp] split: option.splits if_splits)
      obtain us where us: "depth + 1 \<le> kMaxDepth" "c = der_list us" "\<forall>t \<in> set us. plain (kMaxDepth - (depth + 1)) t"
        using "2.IH"(1) [OF _ g [symmetric] r nf con str c(4) [symmetric]] True fc by auto
      obtain ts where ts: "inp1 = der_list ts" "\<forall>t \<in> set ts. plain (kMaxDepth - depth) t"
        using "2.IH"(2) [OF _ g [symmetric] r nf con str c(4) [symmetric]] True fc fl "2.prems"(1) by auto
      have "kMaxDepth - depth = Suc (kMaxDepth - (depth + 1))" using us(1) by simp
      with c con str us ts show ?thesis by (intro exI [of _ "Constructed (out_tag e) us # ts"]) simp
    qed
  qed
qed

end
