(* ===== verification/Ber_To_Der.thy ===== *)
theory Ber_To_Der
  imports Ber
begin

unbundle bit_operations_syntax

text \<open>
  The two entry points of \<^verbatim>\<open>crypto/bytestring/ber.c\<close> and what they compute: DER from BER, and the
  contents of an implicitly tagged string that may come in fragments.
\<close>

section \<open>Definitions\<close>

text \<open>
  \<^verbatim>\<open>*out\<close> with \<^verbatim>\<open>*out_storage\<close> (\<open>None\<close> for \<^verbatim>\<open>NULL\<close>), and the input that is left. The outer
  option is that of the conversion and is never \<open>None\<close>.
\<close>

definition CBS_asn1_ber_to_der ::
  "(size_t \<Rightarrow> bool) \<Rightarrow> CBS \<Rightarrow> (CBS \<times> byte list option) cbs_result option" where
  "CBS_asn1_ber_to_der al inp =
     (case cbs_find_ber inp 0 of
        None \<Rightarrow> Some (None, inp)
      | Some conversion_needed \<Rightarrow>
          if \<not> conversion_needed then
            (case CBS_get_any_asn1_element inp of
               (None, c) \<Rightarrow> Some (None, c) | (Some e, c) \<Rightarrow> Some (Some (element e, None), c))
          else case CBB_init al (of_nat (CBS_len inp)) of
              None \<Rightarrow> Some (None, inp)
            | Some cbb \<Rightarrow>
                Option.bind (cbs_convert_ber al inp 0 0 False 0 cbb)
                  (\<lambda>(ok, inp1, cbb1).
                     if \<not> ok then Some (None, inp1)
                     else case CBB_finish al 0 True cbb1 of
                         (None, _) \<Rightarrow> Some (None, inp1)
                       | (Some storage, _) \<Rightarrow>
                           Some (Some (CBS_init storage (length storage), Some storage), inp1)))"

text \<open>The loop over the fragments.\<close>

function implicit_chunks :: "(size_t \<Rightarrow> bool) \<Rightarrow> CBS_ASN1_TAG \<Rightarrow> CBS \<Rightarrow> CBB \<Rightarrow> bool \<times> CBB" where
  "implicit_chunks al inner_tag child st =
     (if CBS_len child > 0 then
        (case CBS_get_asn1 inner_tag child of
           (None, _) \<Rightarrow> (False, st)
         | (Some chunk, child1) \<Rightarrow>
             (case CBB_add_bytes al 0 (CBS_data chunk) st of
                (False, st1) \<Rightarrow> (False, st1)
              | (True, st1) \<Rightarrow> implicit_chunks al inner_tag child1 st1))
      else (True, st))"
  by pat_completeness auto
termination
  by (relation "measure (\<lambda>(_, _, child, _). length child)")
    (auto dest!: sym [of "(Some _, _)"] simp: get_asn1_iff element_bytes_nonempty)

declare implicit_chunks.simps [simp del]

definition CBS_get_asn1_implicit_string ::
  "(size_t \<Rightarrow> bool) \<Rightarrow> CBS_ASN1_TAG \<Rightarrow> CBS_ASN1_TAG \<Rightarrow> CBS \<Rightarrow> (CBS \<times> byte list option) cbs_result" where
  "CBS_get_asn1_implicit_string al outer_tag inner_tag inp =
     (if CBS_peek_asn1_tag outer_tag inp then
        (case CBS_get_asn1 outer_tag inp of (None, c) \<Rightarrow> (None, c) | (Some out, c) \<Rightarrow> (Some (out, None), c))
      else case CBB_init al (of_nat (CBS_len inp)) of
          None \<Rightarrow> (None, inp)
        | Some cbb \<Rightarrow>
            (case CBS_get_asn1 (outer_tag OR CBS_ASN1_CONSTRUCTED) inp of
               (None, c) \<Rightarrow> (None, c)
             | (Some child, c) \<Rightarrow>
                 (case implicit_chunks al inner_tag child cbb of
                    (False, _) \<Rightarrow> (None, c)
                  | (True, cbb1) \<Rightarrow>
                      (case CBB_finish al 0 True cbb1 of
                         (None, _) \<Rightarrow> (None, c)
                       | (Some d, _) \<Rightarrow> (Some (CBS_init d (length d), Some d), c)))))"

section \<open>Sizes\<close>

lemma base_tag_number: "tag_number (base_tag tag) = tag_number tag"
proof (rule bit_word_eqI)
  fix n
  have eq: "CBS_ASN1_CONSTRUCTED = push_bit 29 1" by (simp add: CBS_ASN1_CONSTRUCTED_def)
  have c: "bit CBS_ASN1_CONSTRUCTED n \<longleftrightarrow> n = 29" if "n < 32"
    using that unfolding eq bit_push_bit_iff by (auto simp: bit_1_iff)
  assume "n < LENGTH(32)"
  then show "bit (tag_number (base_tag tag)) n = bit (tag_number tag) n"
    using c by (auto simp: tag_number_def bit_simps bit_mask29)
qed

lemma base_tag_length: "length (asn1_tag_bytes (base_tag tag)) = length (asn1_tag_bytes tag)"
  by (simp add: asn1_tag_bytes_def base_tag_number)

lemma len_bytes_length: "length (asn1_len_bytes n) \<le> 5"
  by (simp add: asn1_len_bytes_def len_octets_def)

lemma frame_length: "ber_frame tag body enc \<Longrightarrow> length (asn1_tag_bytes tag) + 1 + length body \<le> length enc"
  by (auto simp: ber_frame_def ber_len_def)

lemma string_length: "ber_string k s bs d \<Longrightarrow> length d \<le> length bs"
  by (induction rule: ber_string.induct) (auto dest!: frame_length)

lemma element_length:
  assumes "ber_frame tag body enc" and "length c \<le> 3 * length body"
    and "length (asn1_tag_bytes otag) = length (asn1_tag_bytes tag)"
  shows "length (asn1_element_bytes otag c) \<le> 3 * length enc"
proof -
  have "1 \<le> length (asn1_tag_bytes tag)" by (simp add: asn1_tag_bytes_def)
  with frame_length [OF assms(1)] len_bytes_length [of "length c"] assms(2,3) show ?thesis
    by (simp add: asn1_element_bytes_def asn1_header_def)
qed

lemma values_length: "ber_values k bs ts \<Longrightarrow> length (der_list ts) \<le> 3 * length bs"
proof (induction rule: ber_values.induct)
  case (primitive tag c enc k bs ts)
  then show ?case using element_length [OF primitive(2), of c tag] by simp
next
  case (constructed tag k body us enc bs ts)
  then show ?case using element_length [OF constructed(4), of "der_list us" tag] by simp
next
  case (string tag k body c enc bs ts)
  then show ?case
    using element_length [OF string(4), of c "base_tag tag"] string_length [OF string(3)] base_tag_length [of tag] by simp
qed simp

text \<open>The values of a BER encoding are values that DER can encode.\<close>

lemma base_not_constructed: "\<not> constructed (base_tag tag)"
  by (simp add: constructed_def and.assoc)

lemma values_plain:
  "ber_values k bs ts \<Longrightarrow> length (der_list ts) < 2 ^ 32 \<Longrightarrow> \<forall>t \<in> set ts. plain k t"
proof (induction rule: ber_values.induct)
  case (primitive tag c enc k bs ts)
  then show ?case by (auto simp: ber_frame_def asn1_element_bytes_def)
next
  case (constructed tag k body us enc bs ts)
  then show ?case by (auto simp: ber_frame_def asn1_element_bytes_def)
next
  case (string tag k body c enc bs ts)
  then show ?case by (auto simp: ber_frame_def asn1_element_bytes_def valid_tag_def base_base base_not_constructed)
qed simp

section \<open>Running the builder\<close>

lemma init_ready:
  assumes "serves al" and "n < 2 ^ 62" and "unat capacity < 2 ^ 63"
  shows "CBB_init al capacity = Some (cbb_init capacity True)" and "cbb_ready al [] n (cbb_init capacity True)"
  using assms by (auto simp: CBB_init_def cbb_init_def cbb_ready_def cbb_bounded_def has_room_def intro!: serves_malloc)

lemma finish_ready:
  assumes "cbb_ready al [] n st"
  shows "fst (CBB_finish al 0 True st) = Some (buf st)"
  using flush_none [OF assms, of al] by (simp add: CBB_finish_def)

lemma init_buf: "buf (cbb_init capacity True) = []"
  by (simp add: cbb_init_def)

text \<open>The conversion of a whole input, with enough memory.\<close>

lemma convert_whole:
  assumes al: "serves al" and len: "length inp < 2 ^ 30" and v: "ber_values kMaxDepth inp ts"
  shows "\<exists>st n. cbs_convert_ber al inp 0 0 False 0 (cbb_init (of_nat (length inp)) True) = Some (True, [], st) \<and>
    cbb_ready al [] n st \<and> buf st = der_list ts"
proof -
  have l: "length (der_list ts) \<le> 0xfffffffe" using values_length [OF v] len by simp
  let ?st = "cbb_init (of_nat (length inp)) True"
  have "unat (of_nat (length inp) :: size_t) < 2 ^ 63" using len by (simp add: unat_of_nat)
  from init_ready(2) [OF al _ this, of "length (der_list ts) + 0"] l
  have "cbb_ready al [] (length (der_list ts) + 0) ?st" by simp
  from steps_overE [OF steps_values [OF v _ l, of 0] this, of "[]" False]
  obtain st' where "cbb_ready al [] 0 st'" "buf st' = buf ?st @ der_list ts"
      "cbs_convert_ber al (inp @ []) (length []) 0 False 0 ?st = cbs_convert_ber al [] (length []) 0 False 0 st'" by auto
  then show ?thesis using convert_end(1) [of 0 al] by (auto simp: init_buf)
qed

lemma ber_to_der_conversion:
  assumes al: "serves al" and len: "length inp < 2 ^ 30" and need: "cbs_find_ber inp 0 = Some True"
  shows "CBS_asn1_ber_to_der al inp = Some (Some (out, storage), rest) \<longleftrightarrow>
    rest = [] \<and> storage = Some out \<and> (\<exists>ts. ber_values kMaxDepth inp ts \<and> out = der_list ts)"
proof -
  let ?st = "cbb_init (of_nat (length inp)) True"
  have "unat (of_nat (length inp) :: size_t) < 2 ^ 63" using len by (simp add: unat_of_nat)
  note i = init_ready(1) [OF al _ this]
  obtain ok r st where run: "cbs_convert_ber al inp 0 0 False 0 ?st = Some (ok, r, st)"
      "ok \<longrightarrow> accepted 0 0 False inp r" using convert_total by blast
  have acc: "\<exists>ts. ber_values kMaxDepth inp ts" if ok using run(2) that by (auto simp: accepted_def decodes_def)
  have conv: "ok \<and> r = [] \<and> fst (CBB_finish al 0 True st) = Some (der_list ts)" if "ber_values kMaxDepth inp ts" for ts
    using convert_whole [OF al len that] run(1) finish_ready by auto
  have eq: "CBS_asn1_ber_to_der al inp = (if \<not> ok then Some (None, r) else case CBB_finish al 0 True st of
      (None, _) \<Rightarrow> Some (None, r) | (Some storage, _) \<Rightarrow> Some (Some (CBS_init storage (length storage), Some storage), r))"
    using need run(1) i [of 0] by (simp add: CBS_asn1_ber_to_der_def CBS_len_def)
  show ?thesis
  proof (cases ok)
    case True
    then obtain ts where ts: "ber_values kMaxDepth inp ts" using acc by blast
    with conv eq True have e: "CBS_asn1_ber_to_der al inp = Some (Some (der_list ts, Some (der_list ts)), [])"
      by (cases "CBB_finish al 0 True st") (auto simp: CBS_init_def)
    have "der_list us = der_list ts" if "ber_values kMaxDepth inp us" for us
      using conv [OF that] conv [OF ts] by simp
    then have "(\<exists>us. ber_values kMaxDepth inp us \<and> out = der_list us) \<longleftrightarrow> out = der_list ts" using ts by metis
    then show ?thesis unfolding e by auto
  next
    case False
    with eq conv show ?thesis by auto
  qed
qed

section \<open>Properties\<close>

text \<open>
  C33 (equivalence). Conversion from BER. When the walk finds a BER form and memory is
  available, \<^verbatim>\<open>CBS_asn1_ber_to_der\<close> succeeds exactly on the BER encodings of sequences of values
  (definite lengths in any form, indefinite lengths, strings in nested fragments; at most 128
  levels), and what it returns is their DER encoding; it consumes the whole input. The
  documentation promises to read one element only.
\<close>

theorem ber_to_der_exact:
  assumes "serves al" and "length inp < 2 ^ 30" and "cbs_find_ber inp 0 = Some True"
  shows "CBS_asn1_ber_to_der al inp = Some (Some (out, storage), rest) \<longleftrightarrow>
    rest = [] \<and> storage = Some out \<and> (\<exists>ts. ber_values kMaxDepth inp ts \<and> out = der_list ts)"
  by (rule ber_to_der_conversion [OF assms])

lemma serves_always: "serves (\<lambda>_. True)"
  by (simp add: serves_def)

text \<open>A SEQUENCE of indefinite length that holds a string in two fragments, and a NULL behind it.\<close>

definition sample_ber :: CBS where
  "sample_ber = [0x30, 0x80, 0x24, 0x06, 0x04, 0x01, 0x61, 0x04, 0x01, 0x62, 0x00, 0x00, 0x05, 0x00]"

theorem ber_to_der_exact_witness:
  "let r = CBS_asn1_ber_to_der (\<lambda>_. True) sample_ber; out = [0x30, 0x04, 0x04, 0x02, 0x61, 0x62, 0x05, 0x00]
   in r = Some (Some (out, Some out), []) \<and> (\<exists>ts. ber_values kMaxDepth sample_ber ts \<and> out = der_list ts)"
proof -
  have r: "CBS_asn1_ber_to_der (\<lambda>_. True) sample_ber =
      Some (Some ([0x30, 0x04, 0x04, 0x02, 0x61, 0x62, 0x05, 0x00], Some [0x30, 0x04, 0x04, 0x02, 0x61, 0x62, 0x05, 0x00]), [])"
    by code_simp
  have "length sample_ber < 2 ^ 30" "cbs_find_ber sample_ber 0 = Some True" by (simp add: sample_ber_def, code_simp)
  from ber_to_der_exact [OF serves_always this] r show ?thesis unfolding Let_def by blast
qed

lemma first_element:
  assumes "plain k t"
  shows "\<exists>e. CBS_get_any_asn1_element (der t @ rest) = (Some e, rest) \<and> element e = der t"
proof (cases t)
  case (Primitive tag c)
  with assms get_any_asn1_element_complete [of tag c rest] show ?thesis by simp
next
  case (Constructed tag us)
  then obtain k' where "k = Suc k'" using assms by (cases k) auto
  with Constructed assms get_any_asn1_element_complete [of tag "der_list us" rest] show ?thesis by simp
qed

lemma unconverted: "CBS_asn1_ber_to_der al inp = Some (Some (out, None), rest) \<Longrightarrow> cbs_find_ber inp 0 = Some False"
  by (auto simp: CBS_asn1_ber_to_der_def bind_eq_Some_conv split: option.splits if_splits prod.splits)

lemma unconverted_first:
  assumes f: "cbs_find_ber inp 0 = Some False" and r: "CBS_asn1_ber_to_der al inp = Some (Some (out, storage), rest)"
  obtains t ts where "\<forall>u \<in> set (t # ts). plain kMaxDepth u" and "inp = der_list (t # ts)" and "out = der t" and "rest = der_list ts"
proof -
  obtain ts where ts: "inp = der_list ts" "\<forall>t \<in> set ts. plain kMaxDepth t" using plain_found(1) [OF f] by auto
  obtain e where e: "CBS_get_any_asn1_element inp = (Some e, rest)" "out = element e"
    using r f by (auto simp: CBS_asn1_ber_to_der_def split: option.splits prod.splits)
  then obtain t us where tu: "ts = t # us" using get_any_element_shorter [OF e(1)] ts(1) by (cases ts) auto
  then have "plain kMaxDepth t" using ts(2) by simp
  from first_element [OF this, of "der_list us"] obtain e' where
    "CBS_get_any_asn1_element inp = (Some e', der_list us)" "element e' = der t" using ts(1) tu by auto
  with e ts tu show thesis by (intro that [of t us]) simp_all
qed

text \<open>
  C34 (equivalence). An input that needs no conversion: \<^verbatim>\<open>CBS_asn1_ber_to_der\<close> returns an
  element in place, without allocating, exactly if the whole input is in DER throughout (the
  encodings of a non-empty sequence of values without constructed strings, nested to at most
  128 levels); it returns the first element as it stands and leaves the others.
\<close>

theorem ber_to_der_unchanged:
  "CBS_asn1_ber_to_der al inp = Some (Some (out, None), rest) \<longleftrightarrow>
   (\<exists>t ts. list_all (plain kMaxDepth) (t # ts) \<and> inp = der_list (t # ts) \<and> out = der t \<and> rest = der_list ts)"
proof
  assume r: "CBS_asn1_ber_to_der al inp = Some (Some (out, None), rest)"
  then have f: "cbs_find_ber inp 0 = Some False" by (rule unconverted)
  obtain t ts where "\<forall>u \<in> set (t # ts). plain kMaxDepth u" "inp = der_list (t # ts)" "out = der t" "rest = der_list ts"
    by (rule unconverted_first [OF f r])
  then show "\<exists>t ts. list_all (plain kMaxDepth) (t # ts) \<and> inp = der_list (t # ts) \<and> out = der t \<and> rest = der_list ts"
    unfolding list_all_iff by blast
next
  assume "\<exists>t ts. list_all (plain kMaxDepth) (t # ts) \<and> inp = der_list (t # ts) \<and> out = der t \<and> rest = der_list ts"
  then obtain t ts where t: "\<forall>u \<in> set (t # ts). plain kMaxDepth u" "inp = der_list (t # ts)" "out = der t" "rest = der_list ts"
    by (auto simp: list_all_iff)
  have "plain kMaxDepth t" using t(1) by simp
  from first_element [OF this] obtain e where "CBS_get_any_asn1_element (der t @ rest) = (Some e, rest)" "element e = der t" by blast
  moreover have "find_ber_loop inp 0 = Some False" using find_ber_plain [OF t(1)] t(2) by simp
  ultimately show "CBS_asn1_ber_to_der al inp = Some (Some (out, None), rest)"
    using t by (simp add: CBS_asn1_ber_to_der_def cbs_find_ber.simps)
qed

text \<open>
  C35 (invariant). What \<^verbatim>\<open>CBS_asn1_ber_to_der\<close> returns is in DER: the walk finds no BER form in
  it, so converting it again would change nothing.
\<close>

theorem ber_output_is_der:
  assumes "serves al" and "length inp < 2 ^ 30" and "CBS_asn1_ber_to_der al inp = Some (Some (out, storage), rest)"
  shows "cbs_find_ber out 0 = Some False"
proof -
  have der: "cbs_find_ber (der_list ts) 0 = Some False" if "\<forall>t \<in> set ts. plain kMaxDepth t" for ts
    using find_ber_plain [OF that, of 0] by (simp add: cbs_find_ber.simps)
  show ?thesis
  proof (cases "cbs_find_ber inp 0 = Some True")
    case True
    with assms ber_to_der_conversion obtain ts where ts: "ber_values kMaxDepth inp ts" "out = der_list ts" by blast
    with values_length [OF ts(1)] values_plain [OF ts(1)] assms(2) show ?thesis by (auto intro: der)
  next
    case False
    then have f: "cbs_find_ber inp 0 = Some False"
      using assms(3) by (cases "cbs_find_ber inp 0") (auto simp: CBS_asn1_ber_to_der_def)
    obtain t ts where "\<forall>u \<in> set (t # ts). plain kMaxDepth u" "out = der t" by (rule unconverted_first [OF f assms(3)])
    then show ?thesis using der [of "[t]"] by simp
  qed
qed

theorem ber_output_is_der_witness:
  "CBS_asn1_ber_to_der (\<lambda>_. True) [0x24, 0x80, 0x04, 0x81, 0x01, 0x61, 0x00, 0x00] =
     Some (Some ([0x04, 0x01, 0x61], Some [0x04, 0x01, 0x61]), []) \<and>
   cbs_find_ber [0x24, 0x80, 0x04, 0x81, 0x01, 0x61, 0x00, 0x00] 0 = Some True \<and>
   cbs_find_ber [0x04, 0x01, 0x61] 0 = Some False"
proof -
  have r: "CBS_asn1_ber_to_der (\<lambda>_. True) [0x24, 0x80, 0x04, 0x81, 0x01, 0x61, 0x00, 0x00] =
      Some (Some ([0x04, 0x01, 0x61], Some [0x04, 0x01, 0x61]), [])" by code_simp
  have "length [0x24, 0x80, 0x04, 0x81, 0x01, 0x61, 0x00, 0x00 :: byte] < 2 ^ 30" by simp
  note ber_output_is_der [OF serves_always this r]
  moreover have "cbs_find_ber [0x24, 0x80, 0x04, 0x81, 0x01, 0x61, 0x00, 0x00] 0 = Some True" by code_simp
  ultimately show ?thesis using r by blast
qed

section \<open>Implicitly tagged strings\<close>

abbreviation chunks_bytes :: "CBS_ASN1_TAG \<Rightarrow> byte list list \<Rightarrow> byte list" where
  "chunks_bytes tag cs \<equiv> concat (map (asn1_element_bytes tag) cs)"

lemma chunks_sound:
  "implicit_chunks al tag child st = (True, st') \<Longrightarrow>
   \<exists>cs. child = chunks_bytes tag cs \<and> list_all (\<lambda>c. length c < 2 ^ 32) cs \<and> (cs = [] \<or> valid_tag tag)"
proof (induction al tag child st rule: implicit_chunks.induct)
  case (1 al tag child st)
  show ?case
  proof (cases "CBS_len child > 0")
    case False
    then show ?thesis by (intro exI [of _ "[]"]) (simp add: CBS_len_def)
  next
    case True
    with "1.prems" obtain chunk child1 st1 where g: "CBS_get_asn1 tag child = (Some chunk, child1)"
        "CBB_add_bytes al 0 (CBS_data chunk) st = (True, st1)" "implicit_chunks al tag child1 st1 = (True, st')"
      by (auto simp: implicit_chunks.simps [of _ _ child] split: option.splits prod.splits bool.splits)
    with "1.IH" [OF True g(1) [symmetric] refl g(2) [symmetric]] obtain cs
      where "child1 = chunks_bytes tag cs" "list_all (\<lambda>c. length c < 2 ^ 32) cs" by auto
    with g(1) show ?thesis by (intro exI [of _ "chunk # cs"]) (auto simp: get_asn1_iff)
  qed
qed

lemma chunks_complete:
  "valid_tag tag \<Longrightarrow> list_all (\<lambda>c. length c < 2 ^ 32) cs \<Longrightarrow> cbb_ready al [] (length (concat cs) + n) st \<Longrightarrow>
   \<exists>st'. implicit_chunks al tag (chunks_bytes tag cs) st = (True, st') \<and> buf st' = buf st @ concat cs \<and> cbb_ready al [] n st'"
proof (induction cs arbitrary: st)
  case Nil
  then show ?case by (simp add: implicit_chunks.simps CBS_len_def)
next
  case (Cons c cs)
  have "cbb_ready al [] (length c + (length (concat cs) + n)) st" using Cons.prems(3) by (simp add: add.assoc)
  with cbb_at.appendsE [OF appends_bytes, of al "[]" c]
  obtain s1 where s1: "CBB_add_bytes al 0 c st = (True, s1)" "buf s1 = buf st @ c"
      "cbb_ready al [] (length (concat cs) + n) s1" by (metis list.size(3))
  with Cons.IH [OF Cons.prems(1) _ s1(3)] Cons.prems(1,2) get_asn1_complete [of tag c "chunks_bytes tag cs"]
  show ?case
    by (auto simp: implicit_chunks.simps [of _ _ "asn1_element_bytes tag c @ chunks_bytes tag cs"] CBS_len_def CBS_data_def
        element_bytes_nonempty)
qed


lemma constructed_differs: "\<not> constructed tag \<Longrightarrow> tag \<noteq> tag OR CBS_ASN1_CONSTRUCTED"
proof
  assume n: "\<not> constructed tag" and e: "tag = tag OR CBS_ASN1_CONSTRUCTED"
  have "(tag OR CBS_ASN1_CONSTRUCTED) AND CBS_ASN1_CONSTRUCTED = CBS_ASN1_CONSTRUCTED"
    by (rule bit_word_eqI) (auto simp: bit_simps)
  with n e show False by (simp add: constructed_def) (simp add: CBS_ASN1_CONSTRUCTED_def)
qed

lemma peek_element: "valid_tag tag \<Longrightarrow> CBS_peek_asn1_tag outer (asn1_element_bytes tag c @ rest) \<longleftrightarrow> outer = tag"
  by (auto simp: CBS_peek_asn1_tag_def asn1_element_bytes_def asn1_header_def parse_tag_complete)

text \<open>
  C36 (equivalence). An implicitly tagged string is read exactly in its two forms: a primitive
  element with the outer tag, whose contents are returned in place, or a constructed one that
  holds primitive fragments with the inner tag, whose contents are joined in new storage.
\<close>

theorem implicit_string_exact:
  assumes "serves al" and "length inp < 2 ^ 60" and "\<not> constructed outer" and "valid_tag outer" and "valid_tag inner"
  shows "CBS_get_asn1_implicit_string al outer inner inp = (Some (out, storage), rest) \<longleftrightarrow>
    storage = None \<and> length out < 2 ^ 32 \<and> inp = asn1_element_bytes outer out @ rest \<or>
    storage = Some out \<and> (\<exists>cs. out = concat cs \<and> list_all (\<lambda>c. length c < 2 ^ 32) cs \<and>
      length (chunks_bytes inner cs) < 2 ^ 32 \<and>
      inp = asn1_element_bytes (outer OR CBS_ASN1_CONSTRUCTED) (chunks_bytes inner cs) @ rest)"
proof -
  let ?ot = "outer OR CBS_ASN1_CONSTRUCTED"
  have vo: "valid_tag ?ot"
    using assms(4) by (simp add: valid_tag_def bit.conj_disj_distrib2)
  note differ = constructed_differs [OF assms(3)]
  let ?st = "cbb_init (of_nat (length inp)) True"
  have cap: "unat (of_nat (length inp) :: size_t) < 2 ^ 63" using assms(2) by (simp add: unat_of_nat)
  note init = init_ready(1) [OF assms(1) _ cap, of 0, simplified]
  show ?thesis
  proof (cases "CBS_peek_asn1_tag outer inp")
    case True
    then have "\<nexists>c. inp = asn1_element_bytes ?ot c @ rest" using peek_element [OF vo, of outer] differ by blast
    then show ?thesis using True assms(4) get_asn1_iff [of outer inp out rest]
      by (auto simp: CBS_get_asn1_implicit_string_def split: option.splits prod.splits)
  next
    case False
    then have no: "inp \<noteq> asn1_element_bytes outer out @ rest" using peek_element [OF assms(4), of outer] by blast
    show ?thesis
    proof
      assume "CBS_get_asn1_implicit_string al outer inner inp = (Some (out, storage), rest)"
      then obtain child cbb1 where c: "CBS_get_asn1 ?ot inp = (Some child, rest)"
          "implicit_chunks al inner child ?st = (True, cbb1)" "fst (CBB_finish al 0 True cbb1) = Some out" "storage = Some out"
        using False init by (auto simp: CBS_get_asn1_implicit_string_def CBS_len_def CBS_init_def
            split: option.splits prod.splits bool.splits)
      obtain cs where cs: "child = chunks_bytes inner cs" "list_all (\<lambda>c. length c < 2 ^ 32) cs" using chunks_sound [OF c(2)] by blast
      have inp: "inp = asn1_element_bytes ?ot child @ rest" "length child < 2 ^ 32" using c(1) by (simp_all add: get_asn1_iff)
      have "length (concat cs) \<le> length child" unfolding cs(1) by (induction cs) (simp_all add: asn1_element_bytes_def)
      then have "length (concat cs) + 0 < 2 ^ 62" using inp(2) by simp
      from chunks_complete [OF assms(5) cs(2) init_ready(2) [OF assms(1) this cap]]
      have "buf cbb1 = concat cs" "cbb_ready al [] 0 cbb1" using c(2) cs(1) by (auto simp: init_buf)
      then have "out = concat cs" using finish_ready c(3) by fastforce
      with c(4) cs inp show "storage = None \<and> length out < 2 ^ 32 \<and> inp = asn1_element_bytes outer out @ rest \<or>
          storage = Some out \<and> (\<exists>cs. out = concat cs \<and> list_all (\<lambda>c. length c < 2 ^ 32) cs \<and>
          length (chunks_bytes inner cs) < 2 ^ 32 \<and> inp = asn1_element_bytes ?ot (chunks_bytes inner cs) @ rest)" by auto
    next
      assume "storage = None \<and> length out < 2 ^ 32 \<and> inp = asn1_element_bytes outer out @ rest \<or>
          storage = Some out \<and> (\<exists>cs. out = concat cs \<and> list_all (\<lambda>c. length c < 2 ^ 32) cs \<and>
          length (chunks_bytes inner cs) < 2 ^ 32 \<and> inp = asn1_element_bytes ?ot (chunks_bytes inner cs) @ rest)"
      with no obtain cs where cs: "storage = Some out" "out = concat cs" "list_all (\<lambda>c. length c < 2 ^ 32) cs"
          "length (chunks_bytes inner cs) < 2 ^ 32" "inp = asn1_element_bytes ?ot (chunks_bytes inner cs) @ rest" by blast
      have "length (concat cs) \<le> length (chunks_bytes inner cs)" by (induction cs) (simp_all add: asn1_element_bytes_def)
      then have "length (concat cs) + 0 < 2 ^ 62" using cs(4) by simp
      from chunks_complete [OF assms(5) cs(3) init_ready(2) [OF assms(1) this cap]]
      obtain cbb1 where b: "implicit_chunks al inner (chunks_bytes inner cs) ?st = (True, cbb1)" "buf cbb1 = concat cs"
          "cbb_ready al [] 0 cbb1" by (auto simp: init_buf)
      have "CBS_get_asn1 ?ot inp = (Some (chunks_bytes inner cs), rest)" using vo cs(4,5) by (simp add: get_asn1_iff)
      with b False init finish_ready [OF b(3)] cs(1,2)
      show "CBS_get_asn1_implicit_string al outer inner inp = (Some (out, storage), rest)"
        by (cases "CBB_finish al 0 True cbb1") (simp add: CBS_get_asn1_implicit_string_def CBS_len_def CBS_init_def)
    qed
  qed
qed

theorem implicit_string_exact_witness:
  "CBS_get_asn1_implicit_string (\<lambda>_. True) 0x80000001 CBS_ASN1_OCTETSTRING [0xa1, 0x06, 0x04, 0x01, 0x61, 0x04, 0x01, 0x62, 0x05] =
     (Some ([0x61, 0x62], Some [0x61, 0x62]), [0x05]) \<and>
   (\<exists>cs. [0x61, 0x62] = concat cs \<and> list_all (\<lambda>c. length c < 2 ^ 32) cs \<and> length (chunks_bytes CBS_ASN1_OCTETSTRING cs) < 2 ^ 32 \<and>
      [0xa1, 0x06, 0x04, 0x01, 0x61, 0x04, 0x01, 0x62, 0x05] =
        asn1_element_bytes (0x80000001 OR CBS_ASN1_CONSTRUCTED) (chunks_bytes CBS_ASN1_OCTETSTRING cs) @ [0x05])"
proof -
  let ?inp = "[0xa1, 0x06, 0x04, 0x01, 0x61, 0x04, 0x01, 0x62, 0x05] :: CBS"
  have r: "CBS_get_asn1_implicit_string (\<lambda>_. True) 0x80000001 CBS_ASN1_OCTETSTRING ?inp =
      (Some ([0x61, 0x62], Some [0x61, 0x62]), [0x05])" by code_simp
  have h: "length ?inp < 2 ^ 60" "\<not> constructed 0x80000001" "valid_tag 0x80000001" "valid_tag CBS_ASN1_OCTETSTRING"
    by (simp, code_simp+)
  from implicit_string_exact [OF serves_always h, of "[0x61, 0x62]" "Some [0x61, 0x62]" "[0x05]"] r show ?thesis by blast
qed

end
