(* ===== verification/Lhash.thy ===== *)
theory Lhash
  imports Calls "HOL-Library.Multiset"
begin

text \<open>
  BoringSSL's hash table (\<^verbatim>\<open>crypto/lhash/lhash.c\<close>): an array of chains that doubles and halves
  with the number of items. Pointers are 64-bit addresses with 0 for \<^verbatim>\<open>NULL\<close>. A chain is the
  list of its items, each with the address of its cell; a pointer to a \<^verbatim>\<open>next\<close> field or to an
  array entry is a position in a chain. The hash and comparison functions are opaque pointers
  that only the wrappers \<open>call_hash_func\<close> and \<open>call_cmp_func\<close> can call. The system allocator
  appears as its answer to a request of a given size and, for the one call that makes an
  item, the address it returns.
\<close>

section \<open>State and definitions\<close>


record LHASH_ITEM =
  item_addr :: ptr
  item_data :: ptr
  item_hash :: u32

record LHASH =
  num_items :: size_t
  buckets :: "LHASH_ITEM list list"
  num_buckets :: size_t
  callback_depth :: u32
  lh_comp :: ptr
  lh_hash :: ptr

type_synonym hash_helper = "ptr \<Rightarrow> ptr \<Rightarrow> u32"
type_synonym cmp_helper = "ptr \<Rightarrow> ptr \<Rightarrow> ptr \<Rightarrow> int"

definition kMinNumBuckets :: size_t where "kMinNumBuckets = 16"
definition kMaxAverageChainLength :: size_t where "kMaxAverageChainLength = 2"
definition kMinAverageChainLength :: size_t where "kMinAverageChainLength = 1"

text \<open>\<open>sizeof(_LHASH)\<close> is 48 and \<open>sizeof(LHASH_ITEM)\<close> 24.\<close>

definition OPENSSL_lh_new :: "(size_t \<Rightarrow> bool) \<Rightarrow> ptr \<Rightarrow> ptr \<Rightarrow> LHASH option" where
  "OPENSSL_lh_new al hash cmp =
     (if OPENSSL_zalloc al 48 = None then None
      else if OPENSSL_calloc al kMinNumBuckets 8 = None then None
      else Some \<lparr>num_items = 0, buckets = replicate (unat kMinNumBuckets) [],
                 num_buckets = kMinNumBuckets, callback_depth = 0, lh_comp = cmp, lh_hash = hash\<rparr>)"

text \<open>The cells that \<^verbatim>\<open>OPENSSL_lh_free\<close> releases, in order, before the array and the table.\<close>

definition OPENSSL_lh_free :: "LHASH option \<Rightarrow> ptr list" where
  "OPENSSL_lh_free lh =
     (case lh of None \<Rightarrow> []
      | Some t \<Rightarrow> concat (map (map item_addr) (take (unat (num_buckets t)) (buckets t))))"

definition OPENSSL_lh_num_items :: "LHASH \<Rightarrow> size_t" where
  "OPENSSL_lh_num_items lh = num_items lh"

text \<open>The chain for a hash value, and the walk along a chain to the first match.\<close>

definition bucket_of :: "size_t \<Rightarrow> u32 \<Rightarrow> nat" where
  "bucket_of n hash = unat (ucast hash mod n)"

fun chain_pos :: "(ptr \<Rightarrow> bool) \<Rightarrow> LHASH_ITEM list \<Rightarrow> nat" where
  "chain_pos match [] = 0"
| "chain_pos match (cur # rest) = (if match (item_data cur) then 0 else Suc (chain_pos match rest))"

definition get_next_ptr_and_hash ::
  "hash_helper \<Rightarrow> cmp_helper \<Rightarrow> LHASH \<Rightarrow> ptr \<Rightarrow> u32 \<times> nat \<times> nat" where
  "get_next_ptr_and_hash call_hash_func call_cmp_func lh d =
     (let hash = call_hash_func (lh_hash lh) d;
          b = bucket_of (num_buckets lh) hash
      in (hash, b, chain_pos (\<lambda>cur. call_cmp_func (lh_comp lh) cur d = 0) (buckets lh ! b)))"

definition get_next_ptr_by_key :: "LHASH \<Rightarrow> 'k \<Rightarrow> u32 \<Rightarrow> ('k \<Rightarrow> ptr \<Rightarrow> int) \<Rightarrow> nat \<times> nat" where
  "get_next_ptr_by_key lh key key_hash cmp_key =
     (let b = bucket_of (num_buckets lh) key_hash
      in (b, chain_pos (\<lambda>cur. cmp_key key cur = 0) (buckets lh ! b)))"

text \<open>\<open>*next_ptr\<close>: the item at a position, \<open>None\<close> behind the end of the chain.\<close>

definition deref :: "LHASH \<Rightarrow> nat \<times> nat \<Rightarrow> LHASH_ITEM option" where
  "deref lh next_ptr =
     (case next_ptr of (b, i) \<Rightarrow>
        if i < length (buckets lh ! b) then Some (buckets lh ! b ! i) else None)"

definition OPENSSL_lh_retrieve :: "hash_helper \<Rightarrow> cmp_helper \<Rightarrow> LHASH \<Rightarrow> ptr \<Rightarrow> ptr" where
  "OPENSSL_lh_retrieve call_hash_func call_cmp_func lh d =
     (case deref lh (snd (get_next_ptr_and_hash call_hash_func call_cmp_func lh d)) of
        None \<Rightarrow> 0 | Some item \<Rightarrow> item_data item)"

definition OPENSSL_lh_retrieve_key :: "LHASH \<Rightarrow> 'k \<Rightarrow> u32 \<Rightarrow> ('k \<Rightarrow> ptr \<Rightarrow> int) \<Rightarrow> ptr" where
  "OPENSSL_lh_retrieve_key lh key key_hash cmp_key =
     (case deref lh (get_next_ptr_by_key lh key key_hash cmp_key) of
        None \<Rightarrow> 0 | Some item \<Rightarrow> item_data item)"

text \<open>One item moves to the head of its new chain.\<close>

definition move_item :: "size_t \<Rightarrow> LHASH_ITEM list list \<Rightarrow> LHASH_ITEM \<Rightarrow> LHASH_ITEM list list" where
  "move_item n new_buckets cur =
     (let b = bucket_of n (item_hash cur) in new_buckets[b := cur # new_buckets ! b])"

definition lh_rebucket :: "(size_t \<Rightarrow> bool) \<Rightarrow> size_t \<Rightarrow> LHASH \<Rightarrow> LHASH" where
  "lh_rebucket al new_num_buckets lh =
     (let alloc_size = 8 * new_num_buckets in
      if alloc_size div 8 \<noteq> new_num_buckets then lh
      else if OPENSSL_zalloc al alloc_size = None then lh
      else lh\<lparr>num_buckets := new_num_buckets,
              buckets := foldl (foldl (move_item new_num_buckets)) (replicate (unat new_num_buckets) [])
                (take (unat (num_buckets lh)) (buckets lh))\<rparr>)"

definition lh_maybe_resize :: "(size_t \<Rightarrow> bool) \<Rightarrow> LHASH \<Rightarrow> LHASH" where
  "lh_maybe_resize al lh =
     (if callback_depth lh > 0 then lh
      else
        let avg_chain_length = num_items lh div num_buckets lh in
        if avg_chain_length > kMaxAverageChainLength then
          let new_num_buckets = num_buckets lh * 2 in
          if new_num_buckets > num_buckets lh then lh_rebucket al new_num_buckets lh else lh
        else if avg_chain_length < kMinAverageChainLength \<and> num_buckets lh > kMinNumBuckets then
          let n = num_buckets lh div 2;
              new_num_buckets = (if n < kMinNumBuckets then kMinNumBuckets else n)
          in lh_rebucket al new_num_buckets lh
        else lh)"

text \<open>
  The result, \<open>*old_data\<close> and the table after \<^verbatim>\<open>OPENSSL_lh_insert\<close>; \<open>cell\<close> is the address of
  the new item if one is allocated.
\<close>

definition OPENSSL_lh_insert ::
  "(size_t \<Rightarrow> bool) \<Rightarrow> ptr \<Rightarrow> hash_helper \<Rightarrow> cmp_helper \<Rightarrow> LHASH \<Rightarrow> ptr \<Rightarrow> bool \<times> ptr \<times> LHASH" where
  "OPENSSL_lh_insert al cell call_hash_func call_cmp_func lh d =
     (case get_next_ptr_and_hash call_hash_func call_cmp_func lh d of
        (hash, b, i) \<Rightarrow>
          (case deref lh (b, i) of
             Some item \<Rightarrow>
               (True, item_data item,
                lh\<lparr>buckets := (buckets lh)[b := (buckets lh ! b)[i := item\<lparr>item_data := d\<rparr>]]\<rparr>)
           | None \<Rightarrow>
               if \<not> OPENSSL_malloc al 24 then (False, 0, lh)
               else
                 let item = \<lparr>item_addr = cell, item_data = d, item_hash = hash\<rparr>;
                     lh1 = lh\<lparr>buckets := (buckets lh)[b := buckets lh ! b @ [item]],
                              num_items := num_items lh + 1\<rparr>
                 in (True, 0, lh_maybe_resize al lh1)))"

definition OPENSSL_lh_delete ::
  "(size_t \<Rightarrow> bool) \<Rightarrow> hash_helper \<Rightarrow> cmp_helper \<Rightarrow> LHASH \<Rightarrow> ptr \<Rightarrow> ptr \<times> LHASH" where
  "OPENSSL_lh_delete al call_hash_func call_cmp_func lh d =
     (case get_next_ptr_and_hash call_hash_func call_cmp_func lh d of
        (hash, b, i) \<Rightarrow>
          (case deref lh (b, i) of
             None \<Rightarrow> (0, lh)
           | Some item \<Rightarrow>
               let lh1 = lh\<lparr>buckets := (buckets lh)[b := take i (buckets lh ! b) @ drop (i + 1) (buckets lh ! b)],
                            num_items := num_items lh - 1\<rparr>
               in (item_data item, lh_maybe_resize al lh1)))"

section \<open>Iteration\<close>

text \<open>
  A read through a pointer to an item: its data and the address of the next item, 0 at the
  end of the chain. \<open>None\<close> is a read of memory that is no item any more.
\<close>

fun chain_at :: "LHASH_ITEM list \<Rightarrow> ptr \<Rightarrow> (ptr \<times> ptr) option" where
  "chain_at [] a = None"
| "chain_at (cur # rest) a =
     (if item_addr cur = a then Some (item_data cur, (case rest of [] \<Rightarrow> 0 | x # _ \<Rightarrow> item_addr x))
      else chain_at rest a)"

fun item_at :: "LHASH_ITEM list list \<Rightarrow> ptr \<Rightarrow> (ptr \<times> ptr) option" where
  "item_at [] a = None"
| "item_at (c # cs) a = (case chain_at c a of None \<Rightarrow> item_at cs a | Some r \<Rightarrow> Some r)"

definition chain_head :: "LHASH_ITEM list \<Rightarrow> ptr" where
  "chain_head c = (case c of [] \<Rightarrow> 0 | x # _ \<Rightarrow> item_addr x)"

text \<open>
  The callback gets the data of an item; it may change its own state, reached through
  \<^verbatim>\<open>arg\<close>, and the table. The walk need not end: a callback can append to the chain for ever.
\<close>

type_synonym 's callback = "ptr \<Rightarrow> 's \<Rightarrow> LHASH \<Rightarrow> 's \<times> LHASH"

partial_function (option) doall_chain :: "'s callback \<Rightarrow> ptr \<Rightarrow> 's \<Rightarrow> LHASH \<Rightarrow> ('s \<times> LHASH) option" where
  "doall_chain func cur s lh =
     (if cur = 0 then Some (s, lh)
      else case item_at (buckets lh) cur of
        None \<Rightarrow> None
      | Some (d, nxt) \<Rightarrow> doall_chain func nxt (fst (func d s lh)) (snd (func d s lh)))"

partial_function (option) doall_buckets :: "'s callback \<Rightarrow> nat \<Rightarrow> 's \<Rightarrow> LHASH \<Rightarrow> ('s \<times> LHASH) option" where
  "doall_buckets func i s lh =
     (if i < unat (num_buckets lh)
      then Option.bind (doall_chain func (chain_head (buckets lh ! i)) s lh)
             (\<lambda>(s1, lh1). doall_buckets func (i + 1) s1 lh1)
      else Some (s, lh))"

declare doall_chain.simps [code] doall_buckets.simps [code]

definition enter_callback :: "LHASH \<Rightarrow> LHASH" where
  "enter_callback lh =
     (if callback_depth lh < 0xffffffff then lh\<lparr>callback_depth := callback_depth lh + 1\<rparr> else lh)"

definition leave_callback :: "(size_t \<Rightarrow> bool) \<Rightarrow> LHASH \<Rightarrow> LHASH" where
  "leave_callback al lh =
     lh_maybe_resize al
       (if callback_depth lh < 0xffffffff then lh\<lparr>callback_depth := callback_depth lh - 1\<rparr> else lh)"

definition OPENSSL_lh_doall_arg ::
  "(size_t \<Rightarrow> bool) \<Rightarrow> LHASH option \<Rightarrow> 's callback \<Rightarrow> 's \<Rightarrow> ('s \<times> LHASH option) option" where
  "OPENSSL_lh_doall_arg al lh func s =
     (case lh of
        None \<Rightarrow> Some (s, None)
      | Some t \<Rightarrow>
          map_option (\<lambda>(s1, t1). (s1, Some (leave_callback al t1)))
            (doall_buckets func 0 s (enter_callback t)))"


section \<open>Well-formed tables\<close>

text \<open>What a table needs of its comparison and hash functions.\<close>

definition hash_ok :: "(ptr \<Rightarrow> u32) \<Rightarrow> (ptr \<Rightarrow> ptr \<Rightarrow> bool) \<Rightarrow> bool" where
  "hash_ok H E \<longleftrightarrow> (\<forall>a. E a a) \<and> (\<forall>a b. E a b \<longrightarrow> E b a) \<and> (\<forall>a b c. E a b \<longrightarrow> E b c \<longrightarrow> E a c) \<and>
     (\<forall>a b. E a b \<longrightarrow> H a = H b)"

abbreviation hash_fun :: "hash_helper \<Rightarrow> LHASH \<Rightarrow> ptr \<Rightarrow> u32" where
  "hash_fun call_hash_func lh \<equiv> call_hash_func (lh_hash lh)"

abbreviation same_elem :: "cmp_helper \<Rightarrow> LHASH \<Rightarrow> ptr \<Rightarrow> ptr \<Rightarrow> bool" where
  "same_elem call_cmp_func lh \<equiv> \<lambda>a b. call_cmp_func (lh_comp lh) a b = 0"

lemma hash_ok_sym: "hash_ok H E \<Longrightarrow> E a b \<Longrightarrow> E b a"
  and hash_ok_trans: "hash_ok H E \<Longrightarrow> E a b \<Longrightarrow> E b c \<Longrightarrow> E a c"
  and hash_ok_hash: "hash_ok H E \<Longrightarrow> E a b \<Longrightarrow> H a = H b"
  by (unfold hash_ok_def, blast+)

text \<open>The items of a table as one list; which of its orders does not matter below.\<close>

abbreviation table_items :: "LHASH \<Rightarrow> LHASH_ITEM list" where
  "table_items lh \<equiv> concat (buckets lh)"

definition placed :: "size_t \<Rightarrow> LHASH_ITEM list list \<Rightarrow> bool" where
  "placed n bs \<longleftrightarrow> length bs = unat n \<and>
     (\<forall>b < length bs. \<forall>it \<in> set (bs ! b). bucket_of n (item_hash it) = b)"

definition items_ok :: "(ptr \<Rightarrow> u32) \<Rightarrow> (ptr \<Rightarrow> ptr \<Rightarrow> bool) \<Rightarrow> LHASH_ITEM list \<Rightarrow> bool" where
  "items_ok H E xs \<longleftrightarrow>
     (\<forall>it \<in> set xs. item_hash it = H (item_data it) \<and> item_addr it \<noteq> 0) \<and>
     distinct (map item_addr xs) \<and>
     (\<forall>x \<in> set xs. \<forall>y \<in> set xs. E (item_data x) (item_data y) \<longrightarrow> x = y)"

definition lh_ok :: "hash_helper \<Rightarrow> cmp_helper \<Rightarrow> LHASH \<Rightarrow> bool" where
  "lh_ok chf ccf lh \<longleftrightarrow>
     hash_ok (hash_fun chf lh) (same_elem ccf lh) \<and> kMinNumBuckets \<le> num_buckets lh \<and>
     placed (num_buckets lh) (buckets lh) \<and> unat (num_items lh) = length (table_items lh) \<and>
     items_ok (hash_fun chf lh) (same_elem ccf lh) (table_items lh)"

lemma items_ok_perm:
  assumes "mset xs = mset ys"
  shows "items_ok H E xs \<longleftrightarrow> items_ok H E ys"
proof -
  have "set xs = set ys" using assms by (rule mset_eq_setD)
  moreover have "distinct (map item_addr xs) = distinct (map item_addr ys)"
    using assms by (intro mset_eq_imp_distinct_iff) simp
  ultimately show ?thesis by (simp only: items_ok_def)
qed

lemma bucket_of_less: "0 < n \<Longrightarrow> bucket_of n h < unat n"
  by (simp add: bucket_of_def unat_mod_distrib unat_gt_0)

lemma buckets_pos: "kMinNumBuckets \<le> n \<Longrightarrow> 0 < n"
  by (simp add: kMinNumBuckets_def word_less_nat_alt word_le_nat_alt)

lemma mset_concat_update:
  "b < length bs \<Longrightarrow> mset (concat (bs[b := c])) + mset (bs ! b) = mset (concat bs) + mset c"
proof (induction bs arbitrary: b)
  case (Cons a bs)
  then show ?case by (cases b) (simp_all add: add_ac)
qed simp

lemma in_concat_iff: "x \<in> set (concat bs) \<longleftrightarrow> (\<exists>b < length bs. x \<in> set (bs ! b))"
  by (simp add: set_conv_nth [of bs]) blast

section \<open>Lookup\<close>

lemma chain_pos_le: "chain_pos P c \<le> length c"
  by (induction c) auto

lemma chain_pos_match: "chain_pos P c < length c \<Longrightarrow> P (item_data (c ! chain_pos P c))"
  by (induction c) (auto split: if_splits)

lemma chain_pos_end: "\<not> chain_pos P c < length c \<longleftrightarrow> (\<forall>it \<in> set c. \<not> P (item_data it))"
  by (induction c) (auto split: if_splits)

text \<open>The place of an element: where a matching item is, or the end of the only chain it could be in.\<close>

lemma next_ptr_cases:
  assumes "lh_ok chf ccf lh" and "get_next_ptr_and_hash chf ccf lh d = (h, b, i)"
  shows "h = hash_fun chf lh d" and "b = bucket_of (num_buckets lh) h" and "b < length (buckets lh)"
    and "deref lh (b, i) = Some it \<Longrightarrow>
      it = buckets lh ! b ! i \<and> i < length (buckets lh ! b) \<and> same_elem ccf lh (item_data it) d"
    and "deref lh (b, i) = None \<Longrightarrow> i = length (buckets lh ! b) \<and>
      (\<forall>it \<in> set (table_items lh). \<not> same_elem ccf lh (item_data it) d)"
proof -
  let ?P = "\<lambda>cur. ccf (lh_comp lh) cur d = 0"
  show h: "h = hash_fun chf lh d" and b: "b = bucket_of (num_buckets lh) h"
    using assms(2) by (auto simp: get_next_ptr_and_hash_def Let_def)
  have i: "i = chain_pos ?P (buckets lh ! b)"
    using assms(2) by (auto simp: get_next_ptr_and_hash_def Let_def)
  show bl: "b < length (buckets lh)"
    using assms(1) bucket_of_less buckets_pos by (auto simp: b lh_ok_def placed_def)
  show "deref lh (b, i) = Some it \<Longrightarrow>
      it = buckets lh ! b ! i \<and> i < length (buckets lh ! b) \<and> same_elem ccf lh (item_data it) d"
    using chain_pos_match [of ?P "buckets lh ! b"] by (auto simp: deref_def i split: if_splits)
  assume "deref lh (b, i) = None"
  then have e: "\<not> i < length (buckets lh ! b)" by (auto simp: deref_def split: if_splits)
  then have "i = length (buckets lh ! b)" using chain_pos_le [of ?P "buckets lh ! b"] i by simp
  moreover have "\<not> same_elem ccf lh (item_data it) d" if it: "it \<in> set (table_items lh)" for it
  proof
    assume s: "same_elem ccf lh (item_data it) d"
    from it obtain b' where b': "b' < length (buckets lh)" "it \<in> set (buckets lh ! b')"
      unfolding in_concat_iff by blast
    with assms(1) it s have "b' = b"
      unfolding b h lh_ok_def placed_def items_ok_def hash_ok_def by metis
    with b'(2) s e show False by (auto simp: i chain_pos_end)
  qed
  ultimately show "i = length (buckets lh ! b) \<and>
      (\<forall>it \<in> set (table_items lh). \<not> same_elem ccf lh (item_data it) d)" by blast
qed

text \<open>What a table holds for an element, as an option.\<close>

definition lh_look :: "hash_helper \<Rightarrow> cmp_helper \<Rightarrow> LHASH \<Rightarrow> ptr \<Rightarrow> ptr option" where
  "lh_look chf ccf lh d = map_option item_data (deref lh (snd (get_next_ptr_and_hash chf ccf lh d)))"

lemma retrieve_look: "OPENSSL_lh_retrieve chf ccf lh d = (case lh_look chf ccf lh d of None \<Rightarrow> 0 | Some x \<Rightarrow> x)"
  by (simp add: OPENSSL_lh_retrieve_def lh_look_def split: option.splits)

lemma look_iff:
  assumes ok: "lh_ok chf ccf lh"
  shows "lh_look chf ccf lh d = Some x \<longleftrightarrow> x \<in> item_data ` set (table_items lh) \<and> same_elem ccf lh x d"
proof -
  obtain h b i where g: "get_next_ptr_and_hash chf ccf lh d = (h, b, i)" by (metis prod_cases3)
  note n = next_ptr_cases [OF ok g]
  have hk: "hash_ok (hash_fun chf lh) (same_elem ccf lh)"
    and io: "items_ok (hash_fun chf lh) (same_elem ccf lh) (table_items lh)"
    using ok by (simp_all add: lh_ok_def)
  show ?thesis
  proof (cases "deref lh (b, i)")
    case None
    with n(5) g show ?thesis by (auto simp: lh_look_def)
  next
    case (Some it)
    with n have it: "it \<in> set (table_items lh)" "same_elem ccf lh (item_data it) d"
      unfolding in_concat_iff by auto
    have "x = item_data it" if "x \<in> item_data ` set (table_items lh)" "same_elem ccf lh x d"
    proof -
      from that obtain y where y: "y \<in> set (table_items lh)" "x = item_data y" by blast
      have "same_elem ccf lh (item_data y) (item_data it)"
        using hk it(2) that(2) y(2) unfolding hash_ok_def by metis
      with io y it(1) show ?thesis unfolding items_ok_def by metis
    qed
    with it have "x = item_data it \<longleftrightarrow> x \<in> item_data ` set (table_items lh) \<and> same_elem ccf lh x d" by blast
    with Some g show ?thesis by (auto simp: lh_look_def)
  qed
qed


lemma table_elements:
  assumes ok: "lh_ok chf ccf t"
  shows "distinct (map item_data (table_items t))"
    and "set (map item_data (table_items t)) = {x. lh_look chf ccf t x = Some x}"
proof -
  have io: "items_ok (hash_fun chf t) (same_elem ccf t) (table_items t)"
    and hk: "hash_ok (hash_fun chf t) (same_elem ccf t)" using ok by (simp_all add: lh_ok_def)
  have r: "same_elem ccf t x x" for x using hk unfolding hash_ok_def by blast
  have "inj_on item_data (set (table_items t))"
  proof (rule inj_onI)
    fix x y
    assume xy: "x \<in> set (table_items t)" "y \<in> set (table_items t)" "item_data x = item_data y"
    with r [of "item_data x"] io show "x = y" unfolding items_ok_def by metis
  qed
  then show "distinct (map item_data (table_items t))" using io by (simp only: distinct_map items_ok_def)
  show "set (map item_data (table_items t)) = {x. lh_look chf ccf t x = Some x}"
    using r by (simp only: look_iff [OF ok] set_map) simp
qed

section \<open>Rebuilding the array\<close>

lemma move_item_placed:
  assumes "0 < n" and "placed n bs"
  shows "placed n (move_item n bs it)" and "mset (concat (move_item n bs it)) = add_mset it (mset (concat bs))"
proof -
  let ?b = "bucket_of n (item_hash it)"
  have b: "?b < length bs" using assms bucket_of_less by (simp add: placed_def)
  show "placed n (move_item n bs it)"
    using assms(2) b by (auto simp: placed_def move_item_def Let_def nth_list_update split: if_splits)
  have "mset (concat (bs[?b := it # bs ! ?b])) + mset (bs ! ?b) = mset (concat bs) + add_mset it (mset (bs ! ?b))"
    using mset_concat_update [OF b] by simp
  then show "mset (concat (move_item n bs it)) = add_mset it (mset (concat bs))"
    by (simp add: move_item_def Let_def)
qed

lemma move_chain_placed:
  assumes "0 < n" and "placed n bs"
  shows "placed n (foldl (move_item n) bs c) \<and>
    mset (concat (foldl (move_item n) bs c)) = mset (concat bs) + mset c"
  using assms(2) by (induction c arbitrary: bs) (simp_all add: move_item_placed [OF assms(1)])

lemma move_all_placed:
  assumes "0 < n" and "placed n bs"
  shows "placed n (foldl (foldl (move_item n)) bs cs) \<and>
    mset (concat (foldl (foldl (move_item n)) bs cs)) = mset (concat bs) + mset (concat cs)"
  using assms(2) by (induction cs arbitrary: bs) (simp_all add: move_chain_placed [OF assms(1)] add.assoc)

text \<open>
  Two tables with the same items, functions and count, each well placed: all that a resize
  changes is the array.
\<close>

definition same_table :: "LHASH \<Rightarrow> LHASH \<Rightarrow> bool" where
  "same_table lh lh' \<longleftrightarrow> mset (table_items lh) = mset (table_items lh') \<and> num_items lh = num_items lh' \<and>
     lh_hash lh = lh_hash lh' \<and> lh_comp lh = lh_comp lh' \<and> callback_depth lh = callback_depth lh'"

lemma same_table_refl: "same_table lh lh"
  by (simp add: same_table_def)

lemma rebucket_same:
  assumes "placed (num_buckets lh) (buckets lh)" and "kMinNumBuckets \<le> num_buckets lh" and "kMinNumBuckets \<le> n"
  shows "same_table lh (lh_rebucket al n lh) \<and> kMinNumBuckets \<le> num_buckets (lh_rebucket al n lh) \<and>
    placed (num_buckets (lh_rebucket al n lh)) (buckets (lh_rebucket al n lh))"
proof -
  have "placed n (replicate (unat n) [])" by (simp add: placed_def)
  note m = move_all_placed [OF buckets_pos [OF assms(3)] this, of "buckets lh"]
  have "take (unat (num_buckets lh)) (buckets lh) = buckets lh" using assms(1) by (simp add: placed_def)
  with m assms show ?thesis by (auto simp: lh_rebucket_def Let_def same_table_def)
qed

lemma maybe_resize_same:
  assumes "placed (num_buckets lh) (buckets lh)" and "kMinNumBuckets \<le> num_buckets lh"
  shows "same_table lh (lh_maybe_resize al lh) \<and> kMinNumBuckets \<le> num_buckets (lh_maybe_resize al lh) \<and>
    placed (num_buckets (lh_maybe_resize al lh)) (buckets (lh_maybe_resize al lh))"
proof -
  have "kMinNumBuckets \<le> num_buckets lh * 2" if "num_buckets lh < num_buckets lh * 2"
    using assms(2) that by (rule order_trans [OF _ less_imp_le])
  with assms rebucket_same [OF assms] show ?thesis
    by (auto simp: lh_maybe_resize_def Let_def same_table_refl not_less)
qed

lemma same_table_ok:
  assumes "same_table lh lh'" and "placed (num_buckets lh') (buckets lh')" and "kMinNumBuckets \<le> num_buckets lh'"
    and "lh_ok chf ccf (lh'\<lparr>buckets := buckets lh, num_buckets := num_buckets lh\<rparr>)"
  shows "lh_ok chf ccf lh'"
proof -
  have m: "mset (table_items lh) = mset (table_items lh')" using assms(1) by (simp add: same_table_def)
  then have "length (table_items lh) = length (table_items lh')" by (rule mset_eq_length)
  with assms items_ok_perm [OF m] show ?thesis by (simp add: lh_ok_def)
qed

lemma maybe_resize_ok: "lh_ok chf ccf lh \<Longrightarrow> lh_ok chf ccf (lh_maybe_resize al lh)"
  using maybe_resize_same [of lh al] same_table_ok [of lh "lh_maybe_resize al lh" chf ccf]
  by (simp add: lh_ok_def same_table_def)

lemma look_same:
  assumes "lh_ok chf ccf lh" and "same_table lh lh'" and "lh_ok chf ccf lh'"
  shows "lh_look chf ccf lh' = lh_look chf ccf lh"
proof
  fix d
  have "set (table_items lh) = set (table_items lh')"
    using assms(2) by (intro mset_eq_setD) (simp add: same_table_def)
  moreover have "lh_comp lh' = lh_comp lh" using assms(2) by (simp add: same_table_def)
  ultimately have "lh_look chf ccf lh' d = Some x \<longleftrightarrow> lh_look chf ccf lh d = Some x" for x
    by (simp only: look_iff [OF assms(1)] look_iff [OF assms(3)])
  then show "lh_look chf ccf lh' d = lh_look chf ccf lh d" by (metis option.exhaust)
qed

lemma maybe_resize_frame:
  "lh_hash (lh_maybe_resize al lh) = lh_hash lh" "lh_comp (lh_maybe_resize al lh) = lh_comp lh"
  "callback_depth (lh_maybe_resize al lh) = callback_depth lh" "num_items (lh_maybe_resize al lh) = num_items lh"
  by (simp_all add: lh_maybe_resize_def lh_rebucket_def Let_def)

lemma maybe_resize_look: "lh_ok chf ccf lh \<Longrightarrow> lh_look chf ccf (lh_maybe_resize al lh) = lh_look chf ccf lh"
  using maybe_resize_same [of lh al] maybe_resize_ok [of chf ccf lh al] by (intro look_same) (auto simp: lh_ok_def)


section \<open>Insertion and deletion\<close>

text \<open>
  An item is added to, or taken out of, the chain it belongs to; the table before the resize.
\<close>

lemma lookup_parts:
  assumes "lh_ok chf ccf lh" and "get_next_ptr_and_hash chf ccf lh d = (h, b, i)" and "deref lh (b, i) = Some it"
  shows "it \<in> set (table_items lh)" and "lh_look chf ccf lh d = Some (item_data it)"
    and "buckets lh ! b = take i (buckets lh ! b) @ it # drop (i + 1) (buckets lh ! b)"
proof -
  note n = next_ptr_cases [OF assms(1,2)]
  from n(4) [OF assms(3)] have it: "it = buckets lh ! b ! i" "i < length (buckets lh ! b)" by simp_all
  with n(3) show "it \<in> set (table_items lh)" unfolding in_concat_iff by (metis nth_mem)
  show "lh_look chf ccf lh d = Some (item_data it)" using assms(2,3) by (simp add: lh_look_def)
  show "buckets lh ! b = take i (buckets lh ! b) @ it # drop (i + 1) (buckets lh ! b)"
    using id_take_nth_drop [OF it(2)] it(1) by simp
qed

lemma look_eqI:
  assumes "\<And>x. lh_look chf ccf lh d = Some x \<longleftrightarrow> r = Some x"
  shows "lh_look chf ccf lh d = r"
  using assms by (metis option.exhaust)

definition replaced :: "LHASH \<Rightarrow> nat \<Rightarrow> nat \<Rightarrow> LHASH_ITEM \<Rightarrow> ptr \<Rightarrow> LHASH" where
  "replaced lh b i it d = lh\<lparr>buckets := (buckets lh)[b := (buckets lh ! b)[i := it\<lparr>item_data := d\<rparr>]]\<rparr>"

lemma mset_replaced:
  assumes "b < length bs" and "bs ! b = p @ it # q"
  shows "\<exists>rest. mset (concat bs) = add_mset it rest \<and> mset (concat (bs[b := p @ it' # q])) = add_mset it' rest \<and>
    mset (concat (bs[b := p @ q])) = rest"
proof -
  have "mset (concat (bs[b := p @ q])) + mset (p @ it # q) = mset (concat bs) + mset (p @ q)"
    and "mset (concat (bs[b := p @ it' # q])) + mset (p @ it # q) = mset (concat bs) + mset (p @ it' # q)"
    using mset_concat_update [OF assms(1)] assms(2) by metis+
  then have m: "add_mset it (mset (concat (bs[b := p @ q]))) = mset (concat bs)"
      "add_mset it (mset (concat (bs[b := p @ it' # q]))) = add_mset it' (mset (concat bs))"
    by simp_all
  then have "mset (concat (bs[b := p @ it' # q])) = add_mset it' (mset (concat (bs[b := p @ q])))"
    by (metis add_mset_commute add_mset_add_mset_same_iff)
  with m show ?thesis by metis
qed

lemma items_ok_Cons:
  "items_ok H E (x # xs) \<longleftrightarrow> items_ok H E xs \<and> item_hash x = H (item_data x) \<and> item_addr x \<noteq> 0 \<and>
     item_addr x \<notin> item_addr ` set xs \<and>
     (\<forall>y \<in> set xs. \<not> E (item_data x) (item_data y) \<and> \<not> E (item_data y) (item_data x))"
  by (auto simp: items_ok_def)

lemma placed_update:
  "placed n bs \<Longrightarrow> (\<And>x. x \<in> set c \<Longrightarrow> bucket_of n (item_hash x) = b) \<Longrightarrow> placed n (bs[b := c])"
  by (cases "b < length bs") (auto simp: placed_def nth_list_update split: if_splits)

lemma concat_chain:
  "lh_ok chf ccf lh \<Longrightarrow> b < length (buckets lh) \<Longrightarrow> x \<in> set (buckets lh ! b) \<Longrightarrow>
   bucket_of (num_buckets lh) (item_hash x) = b"
  by (simp add: lh_ok_def placed_def)


lemma mset_ex_list: "\<exists>rs. M = mset rs"
  by (metis ex_mset)

lemma item_changed:
  assumes ok: "lh_ok chf ccf lh" and g: "get_next_ptr_and_hash chf ccf lh d = (h, b, i)"
    and it: "deref lh (b, i) = Some it"
  shows "lh_ok chf ccf (replaced lh b i it d)"
    and "lh_look chf ccf (replaced lh b i it d) = (\<lambda>x. if same_elem ccf lh d x then Some d else lh_look chf ccf lh x)"
proof -
  let ?bs = "buckets lh" and ?it = "it\<lparr>item_data := d\<rparr>" and ?E = "same_elem ccf lh" and ?H = "hash_fun chf lh"
  note n = next_ptr_cases [OF ok g] and p = lookup_parts [OF ok g it]
  have b: "b < length ?bs" "i < length (?bs ! b)" "?E (item_data it) d" using n it by auto
  have hk: "hash_ok ?H ?E" and io: "items_ok ?H ?E (table_items lh)" using ok by (simp_all add: lh_ok_def)
  have up: "(?bs ! b)[i := ?it] = take i (?bs ! b) @ ?it # drop (i + 1) (?bs ! b)"
    using b(2) by (simp add: upd_conv_take_nth_drop)
  obtain rest where r: "mset (table_items lh) = add_mset it (mset rest)"
      "mset (table_items (replaced lh b i it d)) = add_mset ?it (mset rest)"
    using mset_replaced [OF b(1) p(3), of ?it] mset_ex_list by (auto simp: replaced_def up)
  have io': "items_ok ?H ?E (it # rest)" using io items_ok_perm [of "table_items lh" "it # rest"] r(1) by simp
  have sw: "?E d y \<longleftrightarrow> ?E (item_data it) y" "?E y d \<longleftrightarrow> ?E y (item_data it)" "?H d = ?H (item_data it)" for y
    using hash_ok_trans [OF hk b(3), of y] hash_ok_trans [OF hk hash_ok_sym [OF hk b(3)], of y]
      hash_ok_trans [OF hk _ b(3), of y] hash_ok_trans [OF hk _ hash_ok_sym [OF hk b(3)], of y]
      hash_ok_hash [OF hk b(3)] by argo+
  have "items_ok ?H ?E (?it # rest)" using io' by (auto simp: items_ok_Cons sw)
  then have io2: "items_ok ?H ?E (table_items (replaced lh b i it d))"
    using items_ok_perm [of "table_items (replaced lh b i it d)" "?it # rest"] r(2) by simp
  have len: "length (table_items (replaced lh b i it d)) = length (table_items lh)"
    using r by (metis size_add_mset size_mset)
  have "placed (num_buckets lh) (buckets (replaced lh b i it d))"
    unfolding replaced_def using ok b(1) n(4) [OF it] concat_chain [OF ok b(1)]
    by (auto intro!: placed_update simp: lh_ok_def dest!: set_update_subset_insert [THEN subsetD])
  with ok io2 len show ok2: "lh_ok chf ccf (replaced lh b i it d)"
    by (simp add: lh_ok_def) (simp add: replaced_def)
  have s: "set (table_items lh) = insert it (set rest)" "set (table_items (replaced lh b i it d)) = insert ?it (set rest)"
    using r by (metis mset_eq_setD list.simps(15) mset.simps(2))+
  have "lh_look chf ccf (replaced lh b i it d) x = (if ?E d x then Some d else lh_look chf ccf lh x)" for x
  proof (rule look_eqI)
    fix y
    have "\<not> ?E d x" if "y \<in> item_data ` set rest" "?E y x"
    proof
      assume "?E d x"
      then have "?E d y" using hash_ok_trans [OF hk _ hash_ok_sym [OF hk that(2)]] by blast
      with io' that(1) show False unfolding items_ok_Cons sw(1) by blast
    qed
    moreover have "lh_comp (replaced lh b i it d) = lh_comp lh" by (simp add: replaced_def)
    ultimately show "lh_look chf ccf (replaced lh b i it d) x = Some y \<longleftrightarrow>
        (if ?E d x then Some d else lh_look chf ccf lh x) = Some y"
      using look_iff [OF ok2, of x y] look_iff [OF ok, of x y] sw(1) [of x] unfolding s by auto
  qed
  then show "lh_look chf ccf (replaced lh b i it d) = (\<lambda>x. if ?E d x then Some d else lh_look chf ccf lh x)" ..
qed


lemma item_added:
  assumes ok: "lh_ok chf ccf lh" and g: "get_next_ptr_and_hash chf ccf lh d = (h, b, i)"
    and none: "deref lh (b, i) = None" and cell: "cell \<noteq> 0" "cell \<notin> item_addr ` set (table_items lh)"
    and new: "lh' = lh\<lparr>buckets := (buckets lh)[b := buckets lh ! b @ [\<lparr>item_addr = cell, item_data = d, item_hash = h\<rparr>]],
        num_items := num_items lh + 1\<rparr>"
    and room: "length (table_items lh) + 1 < 2 ^ 64"
  shows "lh_ok chf ccf lh'"
    and "lh_look chf ccf lh' = (\<lambda>x. if same_elem ccf lh d x then Some d else lh_look chf ccf lh x)"
proof -
  let ?bs = "buckets lh" and ?E = "same_elem ccf lh" and ?H = "hash_fun chf lh"
  let ?it = "\<lparr>item_addr = cell, item_data = d, item_hash = h\<rparr>"
  note n = next_ptr_cases [OF ok g]
  have hk: "hash_ok ?H ?E" and io: "items_ok ?H ?E (table_items lh)" using ok by (simp_all add: lh_ok_def)
  have r: "mset (table_items lh') = add_mset ?it (mset (table_items lh))"
    using mset_concat_update [OF n(3), of "?bs ! b @ [?it]"] by (simp add: new)
  have no: "\<not> ?E (item_data y) d \<and> \<not> ?E d (item_data y)" if "y \<in> set (table_items lh)" for y
    using n(5) [OF none] that hash_ok_sym [OF hk, of d "item_data y"] by blast
  have "items_ok ?H ?E (?it # table_items lh)" using io no cell n(1) by (simp add: items_ok_Cons)
  then have io2: "items_ok ?H ?E (table_items lh')"
    using items_ok_perm [of "table_items lh'" "?it # table_items lh"] r by simp
  have len: "length (table_items lh') = length (table_items lh) + 1" using r by (metis Suc_eq_plus1 size_add_mset size_mset)
  have "unat (num_items lh + 1) = unat (num_items lh) + 1"
    using room ok by (simp add: lh_ok_def unat_word_ariths)
  moreover have "placed (num_buckets lh) (buckets lh')"
    unfolding new using ok n(2) concat_chain [OF ok n(3)] by (auto intro!: placed_update simp: lh_ok_def)
  ultimately show ok2: "lh_ok chf ccf lh'" using ok io2 len by (simp add: lh_ok_def) (simp add: new)
  have s: "set (table_items lh') = insert ?it (set (table_items lh))"
    using r by (metis mset_eq_setD list.simps(15) mset.simps(2))
  have "lh_look chf ccf lh' x = (if ?E d x then Some d else lh_look chf ccf lh x)" for x
  proof (rule look_eqI)
    fix y
    have "\<not> ?E d x" if "y \<in> item_data ` set (table_items lh)" "?E y x"
    proof
      assume "?E d x"
      then have "?E d y" using hash_ok_trans [OF hk _ hash_ok_sym [OF hk that(2)]] by blast
      with no that(1) show False by blast
    qed
    moreover have "lh_comp lh' = lh_comp lh" by (simp add: new)
    ultimately show "lh_look chf ccf lh' x = Some y \<longleftrightarrow> (if ?E d x then Some d else lh_look chf ccf lh x) = Some y"
      using look_iff [OF ok2, of x y] look_iff [OF ok, of x y] unfolding s by auto
  qed
  then show "lh_look chf ccf lh' = (\<lambda>x. if ?E d x then Some d else lh_look chf ccf lh x)" ..
qed

lemma item_removed:
  assumes ok: "lh_ok chf ccf lh" and g: "get_next_ptr_and_hash chf ccf lh d = (h, b, i)"
    and it: "deref lh (b, i) = Some it"
    and new: "lh' = lh\<lparr>buckets := (buckets lh)[b := take i (buckets lh ! b) @ drop (i + 1) (buckets lh ! b)],
        num_items := num_items lh - 1\<rparr>"
  shows "lh_ok chf ccf lh'"
    and "lh_look chf ccf lh' = (\<lambda>x. if same_elem ccf lh d x then None else lh_look chf ccf lh x)"
    and "mset (table_items lh) = add_mset it (mset (table_items lh'))"
proof -
  let ?bs = "buckets lh" and ?E = "same_elem ccf lh" and ?H = "hash_fun chf lh"
  note n = next_ptr_cases [OF ok g] and p = lookup_parts [OF ok g it]
  have hk: "hash_ok ?H ?E" and io: "items_ok ?H ?E (table_items lh)" using ok by (simp_all add: lh_ok_def)
  show r: "mset (table_items lh) = add_mset it (mset (table_items lh'))"
    using mset_replaced [OF n(3) p(3)] by (auto simp: new)
  then have io': "items_ok ?H ?E (it # table_items lh')"
    using io items_ok_perm [of "table_items lh" "it # table_items lh'"] by simp
  have len: "length (table_items lh) = length (table_items lh') + 1" using r by (metis Suc_eq_plus1 size_add_mset size_mset)
  then have "num_items lh \<noteq> 0" using ok by (auto simp: lh_ok_def)
  then have "unat (num_items lh - 1) = unat (num_items lh) - 1" by (simp add: unat_minus_one)
  moreover have "placed (num_buckets lh) (buckets lh')"
  proof -
    have "placed (num_buckets lh) (?bs[b := take i (?bs ! b) @ drop (i + 1) (?bs ! b)])"
    proof (rule placed_update)
      show "placed (num_buckets lh) ?bs" using ok by (simp add: lh_ok_def)
      show "bucket_of (num_buckets lh) (item_hash x) = b" if "x \<in> set (take i (?bs ! b) @ drop (i + 1) (?bs ! b))" for x
        using that concat_chain [OF ok n(3)] by (auto dest: in_set_takeD in_set_dropD)
    qed
    then show ?thesis by (simp add: new)
  qed
  ultimately show ok2: "lh_ok chf ccf lh'"
    using ok io' len by (simp add: lh_ok_def items_ok_Cons) (simp add: new)
  have s: "set (table_items lh) = insert it (set (table_items lh'))"
    using r by (metis mset_eq_setD list.simps(15) mset.simps(2))
  have "lh_look chf ccf lh' x = (if ?E d x then None else lh_look chf ccf lh x)" for x
  proof (rule look_eqI)
    fix y
    have e: "?E (item_data it) d" using n(4) [OF it] by blast
    have "\<not> ?E d x" if "y \<in> item_data ` set (table_items lh')" "?E y x"
    proof
      assume "?E d x"
      then have "?E (item_data it) y"
        using hash_ok_trans [OF hk hash_ok_trans [OF hk e] hash_ok_sym [OF hk that(2)]] by blast
      with io' that(1) show False unfolding items_ok_Cons by blast
    qed
    moreover have "?E d x" if "?E (item_data it) x"
      using hash_ok_trans [OF hk hash_ok_sym [OF hk e] that] .
    moreover have "lh_comp lh' = lh_comp lh" by (simp add: new)
    ultimately show "lh_look chf ccf lh' x = Some y \<longleftrightarrow> (if ?E d x then None else lh_look chf ccf lh x) = Some y"
      using look_iff [OF ok2, of x y] look_iff [OF ok, of x y] unfolding s by auto
  qed
  then show "lh_look chf ccf lh' = (\<lambda>x. if ?E d x then None else lh_look chf ccf lh x)" ..
qed

text \<open>The operations, as functions on what the table holds.\<close>

lemma insert_correct:
  assumes ok: "lh_ok chf ccf lh" and cell: "cell \<noteq> 0" "cell \<notin> item_addr ` set (table_items lh)"
    and room: "length (table_items lh) + 1 < 2 ^ 64"
    and r: "OPENSSL_lh_insert al cell chf ccf lh d = (res, old, lh')"
  shows "lh_ok chf ccf lh'" and "res \<longleftrightarrow> lh_look chf ccf lh d \<noteq> None \<or> OPENSSL_malloc al 24"
    and "old = OPENSSL_lh_retrieve chf ccf lh d"
    and "lh_look chf ccf lh' = (if res then (\<lambda>x. if same_elem ccf lh d x then Some d else lh_look chf ccf lh x)
      else lh_look chf ccf lh)"
    and "lh_hash lh' = lh_hash lh" and "lh_comp lh' = lh_comp lh"
proof -
  obtain h b i where g: "get_next_ptr_and_hash chf ccf lh d = (h, b, i)" by (metis prod_cases3)
  let ?new = "lh\<lparr>buckets := (buckets lh)[b := buckets lh ! b @ [\<lparr>item_addr = cell, item_data = d, item_hash = h\<rparr>]],
        num_items := num_items lh + 1\<rparr>"
  have "lh_ok chf ccf lh' \<and> (res \<longleftrightarrow> lh_look chf ccf lh d \<noteq> None \<or> OPENSSL_malloc al 24) \<and>
    old = OPENSSL_lh_retrieve chf ccf lh d \<and>
    lh_look chf ccf lh' = (if res then (\<lambda>x. if same_elem ccf lh d x then Some d else lh_look chf ccf lh x)
      else lh_look chf ccf lh) \<and> lh_hash lh' = lh_hash lh \<and> lh_comp lh' = lh_comp lh"
  proof (cases "deref lh (b, i)")
    case (Some it)
    with r g item_changed [OF ok g Some] lookup_parts(2) [OF ok g Some] show ?thesis
      by (auto simp: OPENSSL_lh_insert_def replaced_def retrieve_look)
  next
    case None
    note a = item_added [OF ok g None cell refl room]
    have l: "lh_look chf ccf lh d = None" using None g by (simp add: lh_look_def)
    show ?thesis
    proof (cases "OPENSSL_malloc al 24")
      case True
      with r g None have "res" "old = 0" "lh' = lh_maybe_resize al ?new"
        by (simp_all add: OPENSSL_lh_insert_def Let_def)
      with True l a maybe_resize_ok [OF a(1)] maybe_resize_look [OF a(1)]
      show ?thesis by (simp add: retrieve_look maybe_resize_frame)
    next
      case False
      with r g None l ok show ?thesis by (simp add: OPENSSL_lh_insert_def retrieve_look)
    qed
  qed
  note main = this
  show "lh_ok chf ccf lh'" and "res \<longleftrightarrow> lh_look chf ccf lh d \<noteq> None \<or> OPENSSL_malloc al 24"
    and "old = OPENSSL_lh_retrieve chf ccf lh d"
    and "lh_look chf ccf lh' = (if res then (\<lambda>x. if same_elem ccf lh d x then Some d else lh_look chf ccf lh x)
      else lh_look chf ccf lh)"
    and "lh_hash lh' = lh_hash lh" and "lh_comp lh' = lh_comp lh"
    using main by simp_all
qed

lemma delete_correct:
  assumes ok: "lh_ok chf ccf lh" and r: "OPENSSL_lh_delete al chf ccf lh d = (ret, lh')"
  shows "lh_ok chf ccf lh'" and "ret = OPENSSL_lh_retrieve chf ccf lh d"
    and "lh_look chf ccf lh' = (\<lambda>x. if same_elem ccf lh d x then None else lh_look chf ccf lh x)"
    and "lh_hash lh' = lh_hash lh" and "lh_comp lh' = lh_comp lh"
proof -
  obtain h b i where g: "get_next_ptr_and_hash chf ccf lh d = (h, b, i)" by (metis prod_cases3)
  let ?new = "lh\<lparr>buckets := (buckets lh)[b := take i (buckets lh ! b) @ drop (i + 1) (buckets lh ! b)],
        num_items := num_items lh - 1\<rparr>"
  have "lh_ok chf ccf lh' \<and> ret = OPENSSL_lh_retrieve chf ccf lh d \<and>
    lh_look chf ccf lh' = (\<lambda>x. if same_elem ccf lh d x then None else lh_look chf ccf lh x) \<and>
    lh_hash lh' = lh_hash lh \<and> lh_comp lh' = lh_comp lh"
  proof (cases "deref lh (b, i)")
    case (Some it)
    note a = item_removed [OF ok g Some refl]
    from Some r g have "ret = item_data it" "lh' = lh_maybe_resize al ?new"
      by (simp_all add: OPENSSL_lh_delete_def Let_def)
    with a maybe_resize_ok [OF a(1)] maybe_resize_look [OF a(1)]
      lookup_parts(2) [OF ok g Some]
    show ?thesis by (simp add: retrieve_look maybe_resize_frame)
  next
    case None
    have l: "lh_look chf ccf lh d = None" using None g by (simp add: lh_look_def)
    have "lh_look chf ccf lh x = None" if "same_elem ccf lh d x" for x
    proof (rule look_eqI)
      fix y
      have "\<not> same_elem ccf lh y d" if "y \<in> item_data ` set (table_items lh)" for y
        using next_ptr_cases(5) [OF ok g None] that by blast
      moreover have "hash_ok (hash_fun chf lh) (same_elem ccf lh)" using ok by (simp add: lh_ok_def)
      then have "same_elem ccf lh y x \<Longrightarrow> same_elem ccf lh y d"
        using that unfolding hash_ok_def by metis
      ultimately show "lh_look chf ccf lh x = Some y \<longleftrightarrow> None = Some y" unfolding look_iff [OF ok] by blast
    qed
    with l r g None ok show ?thesis by (auto simp: OPENSSL_lh_delete_def retrieve_look)
  qed
  note main = this
  show "lh_ok chf ccf lh'" and "ret = OPENSSL_lh_retrieve chf ccf lh d"
    and "lh_look chf ccf lh' = (\<lambda>x. if same_elem ccf lh d x then None else lh_look chf ccf lh x)"
    and "lh_hash lh' = lh_hash lh" and "lh_comp lh' = lh_comp lh"
    using main by simp_all
qed


text \<open>A key of another type finds what an element with the same hash and matches would.\<close>

lemma retrieve_key_correct:
  assumes "key_hash = hash_fun chf lh d" and "\<And>x. cmp_key key x = 0 \<longleftrightarrow> same_elem ccf lh x d"
  shows "OPENSSL_lh_retrieve_key lh key key_hash cmp_key = OPENSSL_lh_retrieve chf ccf lh d"
  using assms by (simp add: OPENSSL_lh_retrieve_key_def OPENSSL_lh_retrieve_def get_next_ptr_by_key_def
      get_next_ptr_and_hash_def Let_def)

section \<open>Sequences of calls\<close>

text \<open>
  The calls on a hash table. \<open>Enter\<close> and \<open>Leave\<close> are the two ends of
  \<^verbatim>\<open>OPENSSL_lh_doall_arg\<close>: the calls between them are those of its callbacks. Every call
  has its own answers of the allocator.
\<close>

datatype lh_call =
    Insert "size_t \<Rightarrow> bool" ptr ptr
  | Delete "size_t \<Rightarrow> bool" ptr
  | Retrieve ptr
  | Enter
  | Leave "size_t \<Rightarrow> bool"

fun lh_exec :: "hash_helper \<Rightarrow> cmp_helper \<Rightarrow> lh_call \<Rightarrow> LHASH \<Rightarrow> (bool \<times> ptr) \<times> LHASH" where
  "lh_exec chf ccf (Insert al cell d) lh =
     (case OPENSSL_lh_insert al cell chf ccf lh d of (ok, old, lh1) \<Rightarrow> ((ok, old), lh1))"
| "lh_exec chf ccf (Delete al d) lh = (case OPENSSL_lh_delete al chf ccf lh d of (r, lh1) \<Rightarrow> ((True, r), lh1))"
| "lh_exec chf ccf (Retrieve d) lh = ((True, OPENSSL_lh_retrieve chf ccf lh d), lh)"
| "lh_exec chf ccf Enter lh = ((True, 0), enter_callback lh)"
| "lh_exec chf ccf (Leave al) lh = ((True, 0), leave_callback al lh)"

text \<open>An allocated cell is not \<^verbatim>\<open>NULL\<close> and not in use.\<close>

fun lh_allowed :: "lh_call \<Rightarrow> LHASH \<Rightarrow> bool" where
  "lh_allowed (Insert al cell d) lh = (cell \<noteq> 0 \<and> cell \<notin> item_addr ` set (table_items lh))"
| "lh_allowed _ lh = True"

text \<open>The specification: a partial map from elements, up to \<open>E\<close>, to the stored pointer.\<close>

definition held :: "ptr option \<Rightarrow> ptr" where
  "held r = (case r of None \<Rightarrow> 0 | Some x \<Rightarrow> x)"

fun map_exec :: "(ptr \<Rightarrow> ptr \<Rightarrow> bool) \<Rightarrow> lh_call \<Rightarrow> (ptr \<Rightarrow> ptr option) \<Rightarrow> (bool \<times> ptr) \<times> (ptr \<Rightarrow> ptr option)" where
  "map_exec E (Insert al cell d) m =
     (if m d \<noteq> None \<or> OPENSSL_malloc al 24 then ((True, held (m d)), \<lambda>x. if E d x then Some d else m x)
      else ((False, held (m d)), m))"
| "map_exec E (Delete al d) m = ((True, held (m d)), \<lambda>x. if E d x then None else m x)"
| "map_exec E (Retrieve d) m = ((True, held (m d)), m)"
| "map_exec E _ m = ((True, 0), m)"

definition lh_good :: "hash_helper \<Rightarrow> cmp_helper \<Rightarrow> ptr \<Rightarrow> ptr \<Rightarrow> LHASH \<Rightarrow> bool" where
  "lh_good chf ccf h c lh \<longleftrightarrow> lh_ok chf ccf lh \<and> lh_hash lh = h \<and> lh_comp lh = c"

lemma addr_room:
  assumes "lh_ok chf ccf lh" and "cell \<noteq> 0" "cell \<notin> item_addr ` set (table_items lh)"
  shows "length (table_items lh) + 1 < 2 ^ 64"
proof -
  let ?as = "0 # cell # map item_addr (table_items lh)"
  have "distinct ?as" using assms by (auto simp: lh_ok_def items_ok_def)
  then have "length ?as = card (set ?as)" by (rule distinct_card [symmetric])
  also have "\<dots> \<le> card (UNIV :: 64 word set)" by (rule card_mono) simp_all
  finally show ?thesis by (simp add: card_word)
qed

lemma depth_ok:
  "lh_ok chf ccf (lh\<lparr>callback_depth := n\<rparr>) = lh_ok chf ccf lh"
  "lh_look chf ccf (lh\<lparr>callback_depth := n\<rparr>) = lh_look chf ccf lh"
  by (auto simp: lh_ok_def lh_look_def get_next_ptr_and_hash_def deref_def Let_def)

lemma lh_exec_correct:
  assumes "lh_good chf ccf h c t" and "lh_allowed call t"
  shows "lh_good chf ccf h c (snd (lh_exec chf ccf call t)) \<and>
    map_exec (\<lambda>a b. ccf c a b = 0) call (lh_look chf ccf t) =
      (fst (lh_exec chf ccf call t), lh_look chf ccf (snd (lh_exec chf ccf call t)))"
proof (cases call)
  case (Insert al cell d)
  obtain ok old t1 where r: "OPENSSL_lh_insert al cell chf ccf t d = (ok, old, t1)" by (metis prod_cases3)
  have "lh_ok chf ccf t" "cell \<noteq> 0" "cell \<notin> item_addr ` set (table_items t)"
    using assms Insert by (auto simp: lh_good_def)
  from insert_correct [OF this addr_room [OF this] r] Insert r assms(1) show ?thesis
    by (auto simp: lh_good_def held_def retrieve_look)
next
  case (Delete al d)
  obtain ret t1 where r: "OPENSSL_lh_delete al chf ccf t d = (ret, t1)" by fastforce
  have "lh_ok chf ccf t" using assms by (simp add: lh_good_def)
  from delete_correct [OF this r] Delete r assms(1) show ?thesis
    by (auto simp: lh_good_def held_def retrieve_look)
next
  case (Retrieve d)
  with assms show ?thesis by (simp add: held_def retrieve_look)
next
  case Enter
  with assms show ?thesis by (simp add: lh_good_def enter_callback_def depth_ok)
next
  case (Leave al)
  with assms show ?thesis
    by (simp add: lh_good_def leave_callback_def depth_ok maybe_resize_ok maybe_resize_look maybe_resize_frame)
qed

interpretation hash_table: refined_machine "lh_good chf ccf h c" "lh_look chf ccf" lh_allowed
    "lh_exec chf ccf" "map_exec (\<lambda>a b. ccf c a b = 0)" for chf ccf h c
  by unfold_locales (use lh_exec_correct in blast)+

lemma lh_new_good:
  assumes "OPENSSL_lh_new al h c = Some t" and "hash_ok (chf h) (\<lambda>a b. ccf c a b = 0)"
  shows "lh_good chf ccf h c t" and "lh_look chf ccf t = (\<lambda>_. None)" and "callback_depth t = 0" and "num_items t = 0"
    and "num_buckets t = kMinNumBuckets"
proof -
  have t: "t = \<lparr>num_items = 0, buckets = replicate (unat kMinNumBuckets) [], num_buckets = kMinNumBuckets,
      callback_depth = 0, lh_comp = c, lh_hash = h\<rparr>"
    using assms(1) by (auto simp: OPENSSL_lh_new_def split: if_splits)
  then show g: "lh_good chf ccf h c t"
    using assms(2) by (auto simp: lh_good_def lh_ok_def placed_def items_ok_def)
  have "lh_look chf ccf t x = None" for x
  proof (rule look_eqI)
    have "lh_ok chf ccf t" using g by (simp add: lh_good_def)
    from look_iff [OF this] show "lh_look chf ccf t x = Some y \<longleftrightarrow> None = Some y" for y by (simp add: t)
  qed
  then show "lh_look chf ccf t = (\<lambda>_. None)" ..
  show "callback_depth t = 0" "num_items t = 0" "num_buckets t = kMinNumBuckets" by (simp_all add: t)
qed


text \<open>
  C37 (refinement). A hash table is a map. Whatever calls are made on a fresh table (with the
  allocator failing at will, the array growing and shrinking, and calls made from inside an
  iteration), every call returns what the partial map of the specification says, and the
  table counts the elements of that map. This needs a comparison that is an equivalence and a
  hash function that respects it.
\<close>

theorem lhash_refines_map:
  assumes "hash_ok (chf h) (\<lambda>a b. ccf c a b = 0)" and "OPENSSL_lh_new al h c = Some t0"
    and "calls_allowed lh_allowed (lh_exec chf ccf) calls t0"
    and "run_calls (lh_exec chf ccf) calls t0 = (outs, t)"
    and "run_calls (map_exec (\<lambda>a b. ccf c a b = 0)) calls (\<lambda>_. None) = (outs', m)"
  shows "outs = outs' \<and> (\<forall>d. OPENSSL_lh_retrieve chf ccf t d = held (m d)) \<and>
    unat (OPENSSL_lh_num_items t) = card {x. m x = Some x}"
proof -
  note n = lh_new_good [of al h c t0 chf ccf, OF assms(2,1)]
  have g: "lh_ok chf ccf t" using hash_table.run_good [OF n(1) assms(3)] assms(4) by (simp add: lh_good_def)
  have r: "outs = outs'" "m = lh_look chf ccf t"
    using hash_table.run_refines [OF n(1) assms(3)] assms(4,5) n(2) by simp_all
  have "card {x. m x = Some x} = length (table_items t)"
    using table_elements [OF g] distinct_card [of "map item_data (table_items t)"] by (simp add: r(2))
  with r g show ?thesis by (simp add: retrieve_look held_def OPENSSL_lh_num_items_def lh_ok_def)
qed

text \<open>
  A table of numbers that are equal when their low bytes are; the hash is a part of it, so
  that the elements below collide.
\<close>

definition sample_hash :: hash_helper where
  "sample_hash f d = ucast ((d AND 0xff) AND 0x0f)"

definition sample_cmp :: cmp_helper where
  "sample_cmp f a b = (if a AND 0xff = b AND 0xff then 0 else 1)"

definition sample_calls :: "lh_call list" where
  "sample_calls = [Insert (\<lambda>_. True) 1 0x105, Insert (\<lambda>_. True) 2 0x125, Retrieve 0x425, Insert (\<lambda>_. True) 3 0x205,
     Delete (\<lambda>_. True) 0x325, Retrieve 0x425, Retrieve 0x405]"

definition sample_table :: LHASH where
  "sample_table = the (OPENSSL_lh_new (\<lambda>_. True) 8 9)"

lemma sample_hash_ok: "hash_ok (sample_hash h) (\<lambda>a b. sample_cmp c a b = 0)"
  by (auto simp: hash_ok_def sample_hash_def sample_cmp_def split: if_splits)

lemma sample_lh_new: "OPENSSL_lh_new (\<lambda>_. True) 8 9 = Some sample_table"
  by (simp add: sample_table_def OPENSSL_lh_new_def OPENSSL_calloc_def OPENSSL_zalloc_def OPENSSL_malloc_def
      kMinNumBuckets_def)

lemma sample_allowed: "calls_allowed lh_allowed (lh_exec sample_hash sample_cmp) sample_calls sample_table"
  by code_simp

lemma sample_run:
  "run_calls (lh_exec sample_hash sample_cmp) sample_calls sample_table =
    (fst (run_calls (lh_exec sample_hash sample_cmp) sample_calls sample_table),
     snd (run_calls (lh_exec sample_hash sample_cmp) sample_calls sample_table))"
  by simp

theorem lhash_refines_map_witness:
  "let r = run_calls (lh_exec sample_hash sample_cmp) sample_calls sample_table;
       r' = run_calls (map_exec (\<lambda>a b. sample_cmp 9 a b = 0)) sample_calls (\<lambda>_. None)
   in fst r = [(True, 0), (True, 0), (True, 0x125), (True, 0x105), (True, 0x125), (True, 0), (True, 0x205)] \<and>
     fst r = fst r' \<and> (\<forall>d. OPENSSL_lh_retrieve sample_hash sample_cmp (snd r) d = held (snd r' d)) \<and>
     unat (OPENSSL_lh_num_items (snd r)) = card {x. snd r' x = Some x}"
proof -
  have "fst (run_calls (lh_exec sample_hash sample_cmp) sample_calls sample_table) =
      [(True, 0), (True, 0), (True, 0x125), (True, 0x105), (True, 0x125), (True, 0), (True, 0x205)]"
    by code_simp
  with lhash_refines_map [of sample_hash 8 sample_cmp 9 "\<lambda>_. True" sample_table sample_calls,
      OF sample_hash_ok sample_lh_new sample_allowed sample_run prod.collapse [symmetric]]
  show ?thesis unfolding Let_def by blast
qed

section \<open>The load of a table\<close>

definition load_ok :: "LHASH \<Rightarrow> bool" where
  "load_ok lh \<longleftrightarrow> unat (num_items lh) < 3 * unat (num_buckets lh) \<and>
     (unat kMinNumBuckets < unat (num_buckets lh) \<longrightarrow> unat (num_buckets lh) \<le> unat (num_items lh))"

lemma serves_zalloc: "serves al \<Longrightarrow> unat sz < 2 ^ 63 \<Longrightarrow> OPENSSL_zalloc al sz \<noteq> None"
  using serves_malloc by (simp add: OPENSSL_zalloc_def)

lemma rebucket_num:
  assumes "serves al" and "unat n < 2 ^ 60"
  shows "num_buckets (lh_rebucket al n lh) = n"
proof -
  have u: "unat (8 * n) = 8 * unat n" using assms(2) by (simp add: unat_word_ariths)
  then have "8 * n div 8 = n" by (simp add: word_unat_eq_iff unat_div)
  moreover obtain y where "OPENSSL_zalloc al (8 * n) = Some y"
    using u serves_zalloc [OF assms(1), of "8 * n"] assms(2) by auto
  ultimately show ?thesis by (simp add: lh_rebucket_def Let_def)
qed

lemma resize_load:
  assumes al: "serves al" and depth: "callback_depth lh = 0" and min: "kMinNumBuckets \<le> num_buckets lh"
    and N: "unat (num_items lh) \<le> 3 * unat (num_buckets lh)" "unat (num_items lh) < 2 ^ 59"
    and n: "unat kMinNumBuckets < unat (num_buckets lh) \<Longrightarrow> unat (num_buckets lh) \<le> unat (num_items lh) + 1"
  shows "load_ok (lh_maybe_resize al lh)"
proof -
  let ?N = "unat (num_items lh)" and ?n = "unat (num_buckets lh)"
  have k: "unat kMinNumBuckets = 16" "16 \<le> ?n" using min by (simp_all add: kMinNumBuckets_def word_le_nat_alt)
  have n60: "?n < 2 ^ 59 + 2" using n N(2) k by (cases "?n = 16") auto
  then have dbl: "unat (num_buckets lh * 2) = ?n * 2" by (simp add: unat_word_ariths)
  have avg: "unat (num_items lh div num_buckets lh) = ?N div ?n" by (simp add: unat_div)
  have half: "unat (num_buckets lh div 2) = ?n div 2" by (simp add: unat_div)
  consider (grow) "2 < ?N div ?n" | (shrink) "\<not> 2 < ?N div ?n" "?N div ?n < 1" "16 < ?n"
    | (stay) "\<not> 2 < ?N div ?n" "\<not> (?N div ?n < 1 \<and> 16 < ?n)" by blast
  then show ?thesis
  proof cases
    case grow
    then have "3 * ?n \<le> ?N" using k(2) less_eq_div_iff_mult_less_eq [of ?n 3 ?N] by simp
    with grow depth dbl avg N rebucket_num [OF al, of "num_buckets lh * 2" lh] k n60 show ?thesis
      by (simp add: load_ok_def lh_maybe_resize_def maybe_resize_frame Let_def word_less_nat_alt
          kMaxAverageChainLength_def lh_rebucket_def)
  next
    case shrink
    define m where "m = (if num_buckets lh div 2 < kMinNumBuckets then kMinNumBuckets else num_buckets lh div 2)"
    have eq: "lh_maybe_resize al lh = lh_rebucket al m lh"
      using shrink depth avg k by (simp add: m_def lh_maybe_resize_def Let_def word_less_nat_alt
          kMaxAverageChainLength_def kMinAverageChainLength_def)
    have um: "unat m = (if ?n div 2 < 16 then 16 else ?n div 2)" using k half by (simp add: m_def word_less_nat_alt)
    then have m60: "unat m < 2 ^ 60" using n60 by (simp split: if_splits)
    have N1: "?N = ?n - 1" using shrink n k by (simp add: div_eq_0_iff)
    have "num_items (lh_rebucket al m lh) = num_items lh" by (simp add: lh_rebucket_def Let_def)
    then show ?thesis
      using N1 um k shrink unfolding load_ok_def eq rebucket_num [OF al m60] by simp linarith?
  next
    case stay
    then have e: "lh_maybe_resize al lh = lh" using avg k
      by (auto simp: lh_maybe_resize_def Let_def word_less_nat_alt kMaxAverageChainLength_def
          kMinAverageChainLength_def)
    have "?N < 3 * ?n" using stay(1) k(2) less_eq_div_iff_mult_less_eq [of ?n 3 ?N] by simp
    moreover have "?n \<le> ?N" if "16 < ?n" using stay(2) that by (simp add: div_eq_0_iff not_less)
    ultimately show ?thesis by (simp add: load_ok_def e k(1))
  qed
qed


text \<open>
  Insertions and deletions are made outside iterations, and their allocations succeed;
  lookups and iterations are free.
\<close>

fun served_call :: "lh_call \<Rightarrow> LHASH \<Rightarrow> bool" where
  "served_call (Insert al cell d) lh = (serves al \<and> callback_depth lh = 0)"
| "served_call (Delete al d) lh = (serves al \<and> callback_depth lh = 0)"
| "served_call _ lh = True"

definition loaded :: "nat \<Rightarrow> LHASH \<Rightarrow> bool" where
  "loaded k lh \<longleftrightarrow> load_ok lh \<and> unat (num_items lh) \<le> k"

lemma load_stays:
  assumes "load_ok lh" and "kMinNumBuckets \<le> num_buckets lh"
  shows "lh_maybe_resize al lh = lh"
proof -
  let ?N = "unat (num_items lh)" and ?n = "unat (num_buckets lh)"
  have k: "16 \<le> ?n" using assms(2) by (simp add: kMinNumBuckets_def word_le_nat_alt)
  have avg: "unat (num_items lh div num_buckets lh) = ?N div ?n" by (simp add: unat_div)
  have "?N < 3 * ?n" using assms(1) by (simp add: load_ok_def)
  then have "\<not> 2 < ?N div ?n" using k less_eq_div_iff_mult_less_eq [of ?n 3 ?N] by simp
  moreover have "\<not> (?N div ?n < 1 \<and> 16 < ?n)"
    using assms(1) by (auto simp: load_ok_def kMinNumBuckets_def div_eq_0_iff)
  ultimately show ?thesis using avg k
    by (auto simp: lh_maybe_resize_def Let_def word_less_nat_alt kMaxAverageChainLength_def
        kMinAverageChainLength_def kMinNumBuckets_def)
qed

lemma loaded_resize:
  assumes "callback_depth lh = 0" and "load_ok lh" and "lh_ok chf ccf lh'" and "callback_depth lh' = 0"
    and "num_buckets lh' = num_buckets lh" and "unat (num_items lh') < 2 ^ 59" and "serves al"
    and "unat (num_items lh') = unat (num_items lh) + 1 \<or> unat (num_items lh') + 1 = unat (num_items lh)"
  shows "load_ok (lh_maybe_resize al lh')"
  using assms by (intro resize_load) (auto simp: load_ok_def lh_ok_def)

lemma loaded_call:
  assumes g: "lh_ok chf ccf t" and l: "loaded k t" and k: "k + 1 < 2 ^ 59"
    and c: "served_call call t" "lh_allowed call t"
  shows "loaded (k + 1) (snd (lh_exec chf ccf call t))"
proof (cases call)
  case (Insert al cell d)
  obtain h b i where n: "get_next_ptr_and_hash chf ccf t d = (h, b, i)" by (metis prod_cases3)
  have cell: "cell \<noteq> 0" "cell \<notin> item_addr ` set (table_items t)" "serves al" "callback_depth t = 0" using c Insert by auto
  let ?new = "t\<lparr>buckets := (buckets t)[b := buckets t ! b @ [\<lparr>item_addr = cell, item_data = d, item_hash = h\<rparr>]],
        num_items := num_items t + 1\<rparr>"
  show ?thesis
  proof (cases "deref t (b, i)")
    case (Some it)
    with l n Insert show ?thesis by (simp add: loaded_def load_ok_def OPENSSL_lh_insert_def)
  next
    case None
    note room = addr_room [OF g cell(1,2)]
    have ok: "lh_ok chf ccf ?new" by (rule item_added(1) [OF g n None cell(1,2) refl room])
    have u: "unat (num_items t + 1) = unat (num_items t) + 1" using room g by (simp add: lh_ok_def unat_word_ariths)
    have "load_ok (lh_maybe_resize al ?new)"
      by (rule loaded_resize [of t, OF _ _ ok]) (use l k u cell(3,4) in \<open>simp_all add: loaded_def\<close>)
    moreover have "OPENSSL_malloc al 24" using cell(3) by (simp add: OPENSSL_malloc_def serves_def)
    ultimately show ?thesis using l n None Insert u
      by (simp add: loaded_def OPENSSL_lh_insert_def Let_def maybe_resize_frame)
  qed
next
  case (Delete al d)
  obtain h b i where n: "get_next_ptr_and_hash chf ccf t d = (h, b, i)" by (metis prod_cases3)
  let ?new = "t\<lparr>buckets := (buckets t)[b := take i (buckets t ! b) @ drop (i + 1) (buckets t ! b)],
        num_items := num_items t - 1\<rparr>"
  show ?thesis
  proof (cases "deref t (b, i)")
    case (Some it)
    note r = item_removed [OF g n Some refl]
    have "unat (num_items t) = length (table_items t)" "unat (num_items t - 1) = length (table_items ?new)"
      using g r(1) by (simp_all add: lh_ok_def)
    moreover have "length (table_items t) = length (table_items ?new) + 1"
      using r(3) by (metis Suc_eq_plus1 size_add_mset size_mset)
    ultimately have u: "unat (num_items t - 1) + 1 = unat (num_items t)" by simp
    have "load_ok (lh_maybe_resize al ?new)"
      by (rule loaded_resize [of t, OF _ _ r(1)]) (use l k u c Delete in \<open>simp_all add: loaded_def\<close>)
    with l n Some Delete u show ?thesis
      by (simp add: loaded_def OPENSSL_lh_delete_def Let_def maybe_resize_frame)
  next
    case None
    with l n Delete show ?thesis by (simp add: loaded_def OPENSSL_lh_delete_def)
  qed
next
  case (Leave al)
  define t1 where "t1 = (if callback_depth t < 0xffffffff then t\<lparr>callback_depth := callback_depth t - 1\<rparr> else t)"
  have t1: "load_ok t1" "kMinNumBuckets \<le> num_buckets t1" "num_items t1 = num_items t"
    using l g by (auto simp: t1_def loaded_def load_ok_def lh_ok_def)
  have "leave_callback al t = t1" unfolding leave_callback_def t1_def [symmetric] by (rule load_stays [OF t1(1,2)])
  with l Leave t1(1,3) show ?thesis by (simp add: loaded_def)
qed (use l c in \<open>simp_all add: loaded_def enter_callback_def load_ok_def\<close>)

lemma loaded_run:
  assumes "lh_good chf ccf h c t" and "loaded k t" and "k + length calls < 2 ^ 59"
    and "calls_allowed served_call (lh_exec chf ccf) calls t" and "calls_allowed lh_allowed (lh_exec chf ccf) calls t"
  shows "loaded (k + length calls) (snd (run_calls (lh_exec chf ccf) calls t))"
  using assms
proof (induction calls arbitrary: t k)
  case (Cons a calls)
  let ?t1 = "snd (lh_exec chf ccf a t)"
  have "loaded (k + 1) ?t1" using Cons.prems by (intro loaded_call) (auto simp: lh_good_def)
  moreover have "lh_good chf ccf h c ?t1" using Cons.prems by (intro hash_table.call_good) auto
  ultimately have "loaded (k + 1 + length calls) (snd (run_calls (lh_exec chf ccf) calls ?t1))"
    using Cons.prems by (intro Cons.IH) auto
  then show ?case by (simp add: snd_run_calls del: run_calls.simps)
qed simp

text \<open>
  C38 (bounds). The chains stay short: after any calls on a new table, iterations and lookups
  among them, a table has fewer than three items per bucket, and at least one per bucket unless
  it has its minimal 16 buckets, as long as no element is inserted or deleted while an iteration
  is under way (the table is not resized then) and the allocations of the insertions and
  deletions succeed.
\<close>

theorem lhash_load:
  assumes "hash_ok (chf h) (\<lambda>a b. ccf c a b = 0)" and "OPENSSL_lh_new al h c = Some t0"
    and "calls_allowed lh_allowed (lh_exec chf ccf) calls t0"
    and "calls_allowed served_call (lh_exec chf ccf) calls t0" and "length calls < 2 ^ 59"
    and "run_calls (lh_exec chf ccf) calls t0 = (outs, t)"
  shows "unat (num_items t) < 3 * unat (num_buckets t) \<and> 16 \<le> unat (num_buckets t) \<and>
    (unat (num_buckets t) = 16 \<or> unat (num_buckets t) \<le> unat (num_items t))"
proof -
  note n = lh_new_good [of al h c t0 chf ccf, OF assms(2,1)]
  have "loaded 0 t0" using n(3-5) by (simp add: loaded_def load_ok_def kMinNumBuckets_def)
  from loaded_run [OF n(1) this _ assms(4,3)] assms(5,6) have "load_ok t" by (simp add: loaded_def)
  moreover have "lh_ok chf ccf t" using hash_table.run_good [OF n(1) assms(3)] assms(6) by (simp add: lh_good_def)
  ultimately show ?thesis by (auto simp: load_ok_def lh_ok_def kMinNumBuckets_def word_le_nat_alt)
qed


abbreviation iterated_calls :: "lh_call list" where
  "iterated_calls \<equiv> sample_calls @ [Enter, Retrieve 0x405, Leave (\<lambda>_. False)]"

theorem lhash_load_witness:
  "let t = snd (run_calls (lh_exec sample_hash sample_cmp) iterated_calls sample_table)
   in unat (num_items t) < 3 * unat (num_buckets t) \<and> 16 \<le> unat (num_buckets t) \<and>
     (unat (num_buckets t) = 16 \<or> unat (num_buckets t) \<le> unat (num_items t))"
proof -
  have run: "run_calls (lh_exec sample_hash sample_cmp) iterated_calls sample_table =
      (fst (run_calls (lh_exec sample_hash sample_cmp) iterated_calls sample_table),
       snd (run_calls (lh_exec sample_hash sample_cmp) iterated_calls sample_table))" by simp
  have "calls_allowed lh_allowed (lh_exec sample_hash sample_cmp) iterated_calls sample_table" by code_simp
  moreover have "calls_allowed served_call (lh_exec sample_hash sample_cmp) iterated_calls sample_table"
  proof -
    have "serves (\<lambda>_. True)" by (simp add: serves_def)
    moreover have "calls_allowed (\<lambda>_ t. callback_depth t = 0) (lh_exec sample_hash sample_cmp) sample_calls sample_table"
      by code_simp
    ultimately show ?thesis by (simp add: sample_calls_def)
  qed
  moreover have "length iterated_calls < 2 ^ 59" by (simp add: sample_calls_def)
  ultimately show ?thesis
    unfolding Let_def by (rule lhash_load [OF sample_hash_ok sample_lh_new _ _ _ run])
qed

section \<open>Iteration over a table\<close>

lemma chain_at_none: "a \<notin> item_addr ` set c \<Longrightarrow> chain_at c a = None"
  by (induction c) auto

lemma chain_at_split:
  "item_addr x \<notin> item_addr ` set p \<Longrightarrow> chain_at (p @ x # r) (item_addr x) = Some (item_data x, chain_head r)"
  by (induction p) (auto simp: chain_head_def)

lemma item_at_split:
  "item_addr x \<notin> item_addr ` (set (concat A) \<union> set p) \<Longrightarrow>
   item_at (A @ (p @ x # r) # B) (item_addr x) = Some (item_data x, chain_head r)"
  by (induction A) (auto simp: chain_at_split chain_at_none image_Un)

lemma delete_visited:
  assumes ok: "lh_ok chf ccf t" and bs: "buckets t = A @ (p @ x # r) # B" and depth: "0 < callback_depth t"
  shows "snd (OPENSSL_lh_delete al chf ccf t (item_data x)) =
    t\<lparr>buckets := A @ (p @ r) # B, num_items := num_items t - 1\<rparr>"
proof -
  let ?E = "same_elem ccf t"
  obtain h b i where g: "get_next_ptr_and_hash chf ccf t (item_data x) = (h, b, i)" by (metis prod_cases3)
  note n = next_ptr_cases [OF ok g]
  have io: "items_ok (hash_fun chf t) ?E (table_items t)" and hk: "hash_ok (hash_fun chf t) ?E"
    and pl: "placed (num_buckets t) (buckets t)" using ok by (simp_all add: lh_ok_def)
  have x: "x \<in> set (table_items t)" by (simp add: bs)
  have "?E (item_data x) (item_data x)" using hk by (simp add: hash_ok_def)
  then obtain it where it: "deref t (b, i) = Some it" using n(5) x by blast
  then have "it = x" using n(4) lookup_parts(1) [OF ok g it] io x unfolding items_ok_def by blast
  with it n(4) have i: "i < length (buckets t ! b)" "buckets t ! b ! i = x" by auto
  have "item_hash x = h" using io x n(1) by (auto simp: items_ok_def)
  moreover have "bucket_of (num_buckets t) (item_hash x) = length A"
    using pl by (simp add: placed_def bs)
  ultimately have b: "b = length A" using n(2) by simp
  have c: "buckets t ! b = p @ x # r" by (simp add: b bs)
  have "distinct (table_items t)" using io by (simp add: items_ok_def distinct_map)
  then have "distinct (concat A @ (p @ x # r) @ concat B)" by (simp add: bs)
  then have "distinct (p @ x # r)" by (simp only: distinct_append)
  then have "i = length p"
    using i nth_eq_iff_index_eq [of "p @ x # r" i "length p"] unfolding c by auto
  with g it depth c b show ?thesis
    by (simp add: OPENSSL_lh_delete_def Let_def lh_maybe_resize_def bs list_update_append)
qed

text \<open>A callback that notes each element and deletes some of them.\<close>

definition visiting :: "(size_t \<Rightarrow> bool) \<Rightarrow> hash_helper \<Rightarrow> cmp_helper \<Rightarrow> (ptr \<Rightarrow> 's \<Rightarrow> 's) \<Rightarrow> (ptr \<Rightarrow> bool) \<Rightarrow> 's callback" where
  "visiting al chf ccf f del d s t = (f d s, if del d then snd (OPENSSL_lh_delete al chf ccf t d) else t)"

text \<open>What an iteration keeps of a table.\<close>

definition iterating :: "hash_helper \<Rightarrow> cmp_helper \<Rightarrow> LHASH \<Rightarrow> LHASH \<Rightarrow> bool" where
  "iterating chf ccf t t' \<longleftrightarrow> lh_ok chf ccf t' \<and> 0 < callback_depth t' \<and> num_buckets t' = num_buckets t \<and>
     lh_hash t' = lh_hash t \<and> lh_comp t' = lh_comp t"

lemma visit_one:
  assumes t: "iterating chf ccf t0 t" and bs: "buckets t = A @ (p @ x # r) # B"
  shows "\<exists>t'. visiting al chf ccf f del (item_data x) s t = (f (item_data x) s, t') \<and> iterating chf ccf t0 t' \<and>
    buckets t' = A @ (p @ filter (\<lambda>x. \<not> del (item_data x)) [x] @ r) # B"
proof (cases "del (item_data x)")
  case True
  let ?t' = "snd (OPENSSL_lh_delete al chf ccf t (item_data x))"
  have ok: "lh_ok chf ccf t" "0 < callback_depth t" using t by (simp_all add: iterating_def)
  note d = delete_visited [OF ok(1) bs ok(2), of al]
  have "lh_ok chf ccf ?t'" using delete_correct(1) [OF ok(1) prod.collapse [symmetric]] .
  with True t d show ?thesis by (simp add: visiting_def iterating_def)
qed (use t bs in \<open>simp add: visiting_def\<close>)

lemma doall_chain_visits:
  assumes "iterating chf ccf t0 t" and "buckets t = A @ (p @ q) # B"
  shows "\<exists>t'. doall_chain (visiting al chf ccf f del) (chain_head q) s t = Some (fold f (map item_data q) s, t') \<and>
    iterating chf ccf t0 t' \<and> buckets t' = A @ (p @ filter (\<lambda>x. \<not> del (item_data x)) q) # B"
  using assms
proof (induction q arbitrary: p s t)
  case Nil
  then show ?case by (simp add: doall_chain.simps chain_head_def)
next
  case (Cons x r)
  have "lh_ok chf ccf t" using Cons.prems(1) by (simp add: iterating_def)
  then have io: "items_ok (hash_fun chf t) (same_elem ccf t) (table_items t)" by (simp only: lh_ok_def)
  then have "\<forall>it \<in> set (table_items t). item_addr it \<noteq> 0" "distinct (map item_addr (table_items t))"
    unfolding items_ok_def by blast+
  then have "item_addr x \<noteq> 0" "item_addr x \<notin> item_addr ` (set (concat A) \<union> set p)"
    by (auto simp: Cons.prems(2))
  then have step: "doall_chain func (chain_head (x # r)) s t =
      doall_chain func (chain_head r) (fst (func (item_data x) s t)) (snd (func (item_data x) s t))" for func :: "'a callback"
    by (simp add: doall_chain.simps [of _ "item_addr x"] chain_head_def [of "x # r"] Cons.prems(2) item_at_split)
  obtain t1 where t1: "visiting al chf ccf f del (item_data x) s t = (f (item_data x) s, t1)" "iterating chf ccf t0 t1"
      "buckets t1 = A @ ((p @ filter (\<lambda>x. \<not> del (item_data x)) [x]) @ r) # B"
    using visit_one [OF Cons.prems] by (metis append.assoc)
  from Cons.IH [OF t1(2,3), of "f (item_data x) s"] t1(1) show ?case
    by (cases "del (item_data x)") (simp_all add: step)
qed

lemma doall_buckets_visits:
  assumes "iterating chf ccf t0 t" and "buckets t = map (filter (\<lambda>x. \<not> del (item_data x))) done @ rest"
    and "i = length done"
  shows "\<exists>t'. doall_buckets (visiting al chf ccf f del) i s t = Some (fold f (map item_data (concat rest)) s, t') \<and>
    iterating chf ccf t0 t' \<and> buckets t' = map (filter (\<lambda>x. \<not> del (item_data x))) (done @ rest)"
  using assms
proof (induction rest arbitrary: "done" s t i)
  case Nil
  then have "\<not> i < unat (num_buckets t)" by (simp add: iterating_def lh_ok_def placed_def)
  with Nil show ?case by (simp add: doall_buckets.simps)
next
  case (Cons c rest)
  then have i: "i < unat (num_buckets t)" "buckets t ! i = c"
    by (auto simp: iterating_def lh_ok_def placed_def nth_append)
  obtain t1 where t1: "doall_chain (visiting al chf ccf f del) (chain_head c) s t = Some (fold f (map item_data c) s, t1)"
      "iterating chf ccf t0 t1"
      "buckets t1 = map (filter (\<lambda>x. \<not> del (item_data x))) (done @ [c]) @ rest"
    using doall_chain_visits [OF Cons.prems(1), of "map (filter (\<lambda>x. \<not> del (item_data x))) done" "[]" c rest al f del s]
      Cons.prems(2) by auto
  have "doall_buckets (visiting al chf ccf f del) i s t =
      doall_buckets (visiting al chf ccf f del) (i + 1) (fold f (map item_data c) s) t1"
    by (subst doall_buckets.simps) (simp add: i t1(1))
  with Cons.IH [OF t1(2,3), of "i + 1" "fold f (map item_data c) s"] Cons.prems(3) show ?case by simp
qed

lemma depth_pos: "(n :: u32) < 0xffffffff \<Longrightarrow> 0 < n + 1" "0xffffffff \<le> (n :: u32) \<Longrightarrow> 0 < n"
proof -
  show "n < 0xffffffff \<Longrightarrow> 0 < n + 1"
  proof -
    assume "n < 0xffffffff"
    then have "unat (n + 1) = unat n + 1" by (simp add: word_less_nat_alt unat_word_ariths)
    then show ?thesis by (simp add: word_less_nat_alt)
  qed
  show "0xffffffff \<le> n \<Longrightarrow> 0 < n" by (simp add: word_less_nat_alt word_le_nat_alt)
qed

text \<open>
  C39 (liveness). An iteration visits every element of the table exactly once, also when
  the callback deletes elements it is called with, and ends with a well-formed table of the
  elements that were not deleted. The walk reads no cell that has been freed (that would
  be \<open>None\<close>).
\<close>

theorem lhash_doall_visits:
  assumes "lh_ok chf ccf t"
  shows "\<exists>ds t'. distinct ds \<and> set ds = {x. lh_look chf ccf t x = Some x} \<and>
    OPENSSL_lh_doall_arg al (Some t) (visiting al chf ccf f del) s = Some (fold f ds s, Some t') \<and>
    lh_ok chf ccf t' \<and>
    (\<forall>x. lh_look chf ccf t' x = (case lh_look chf ccf t x of None \<Rightarrow> None | Some d \<Rightarrow> if del d then None else Some d))"
proof -
  let ?t = "enter_callback t" and ?ds = "map item_data (table_items t)"
  have e: "iterating chf ccf t ?t"
    unfolding iterating_def enter_callback_def using assms depth_pos [of "callback_depth t"]
    by (simp add: depth_ok not_less)
  have "buckets ?t = map (filter (\<lambda>x. \<not> del (item_data x))) [] @ buckets t" by (simp add: enter_callback_def)
  from doall_buckets_visits [OF e this refl, of al f s] obtain t1
    where d: "doall_buckets (visiting al chf ccf f del) 0 s ?t = Some (fold f ?ds s, t1)" "iterating chf ccf t t1"
      "buckets t1 = map (filter (\<lambda>x. \<not> del (item_data x))) (buckets t)"
    by (simp only: append_Nil list.size(3)) blast
  let ?t' = "leave_callback al t1"
  have ok1: "lh_ok chf ccf t1" using d(2) by (simp add: iterating_def)
  have ok: "lh_ok chf ccf ?t'" and l: "lh_look chf ccf ?t' = lh_look chf ccf t1"
    using ok1 by (simp_all add: leave_callback_def depth_ok maybe_resize_ok maybe_resize_look)
  have c: "lh_comp t1 = lh_comp t" using d(2) by (simp add: iterating_def)
  note ds = table_elements [OF assms]
  have s: "item_data ` set (table_items t1) = {x \<in> item_data ` set (table_items t). \<not> del x}" by (auto simp: d(3))
  have "lh_look chf ccf t1 x = (case lh_look chf ccf t x of None \<Rightarrow> None | Some d \<Rightarrow> if del d then None else Some d)" for x
  proof (rule look_eqI)
    fix y
    have "lh_look chf ccf t1 x = Some y \<longleftrightarrow> lh_look chf ccf t x = Some y \<and> \<not> del y"
      unfolding look_iff [OF ok1] look_iff [OF assms] s c mem_Collect_eq by (simp only: conj_ac)
    then show "lh_look chf ccf t1 x = Some y \<longleftrightarrow>
        (case lh_look chf ccf t x of None \<Rightarrow> None | Some d \<Rightarrow> if del d then None else Some d) = Some y"
      by (simp split: option.split) blast
  qed
  note look = this
  have "OPENSSL_lh_doall_arg al (Some t) (visiting al chf ccf f del) s = Some (fold f ?ds s, Some ?t')"
    unfolding OPENSSL_lh_doall_arg_def by (simp only: d(1) option.case option.map prod.case)
  then show ?thesis
    by (intro exI [of _ ?ds] exI [of _ ?t'] conjI allI) (simp_all only: ds ok l look)
qed


theorem lhash_doall_visits_witness:
  "let t = snd (run_calls (lh_exec sample_hash sample_cmp) sample_calls sample_table)
   in \<exists>ds t'. distinct ds \<and> set ds = {x. lh_look sample_hash sample_cmp t x = Some x} \<and>
     OPENSSL_lh_doall_arg (\<lambda>_. True) (Some t)
       (visiting (\<lambda>_. True) sample_hash sample_cmp (\<lambda>d s. s @ [d]) (\<lambda>_. True)) [] =
       Some (fold (\<lambda>d s. s @ [d]) ds [], Some t') \<and>
     lh_ok sample_hash sample_cmp t' \<and>
     (\<forall>x. lh_look sample_hash sample_cmp t' x =
       (case lh_look sample_hash sample_cmp t x of None \<Rightarrow> None | Some d \<Rightarrow> if True then None else Some d))"
proof -
  let ?t = "snd (run_calls (lh_exec sample_hash sample_cmp) sample_calls sample_table)"
  have "lh_good sample_hash sample_cmp 8 9 sample_table" by (rule lh_new_good(1) [OF sample_lh_new sample_hash_ok])
  then have "lh_ok sample_hash sample_cmp ?t"
    using hash_table.run_good [OF _ sample_allowed] by (simp add: lh_good_def)
  from lhash_doall_visits [OF this, of "\<lambda>_. True" "\<lambda>d s. s @ [d]" "\<lambda>_. True" "[]"]
  show ?thesis unfolding Let_def .
qed

end
