(* ===== verification/Buf.thy ===== *)
theory Buf
  imports Calls
begin

text \<open>
  BoringSSL's growing buffer (\<^verbatim>\<open>crypto/buf/buf.c\<close>). The data pointer is an optional block of
  bytes, \<open>None\<close> for \<^verbatim>\<open>NULL\<close>; \<open>fresh\<close> is what newly allocated bytes hold. The string
  functions are the memory utilities under older names.
\<close>

section \<open>State and definitions\<close>

record BUF_MEM =
  buf_length :: size_t
  buf_data :: "byte list option"
  buf_max :: size_t

text \<open>\<open>sizeof(BUF_MEM)\<close> is 24.\<close>

definition BUF_MEM_new :: "(size_t \<Rightarrow> bool) \<Rightarrow> BUF_MEM option" where
  "BUF_MEM_new al =
     (if OPENSSL_zalloc al 24 = None then None
      else Some \<lparr>buf_length = 0, buf_data = None, buf_max = 0\<rparr>)"

text \<open>The block that is released before the buffer itself.\<close>

definition BUF_MEM_free :: "BUF_MEM option \<Rightarrow> byte list option list" where
  "BUF_MEM_free buf = (case buf of None \<Rightarrow> [] | Some b \<Rightarrow> [buf_data b])"

definition BUF_MEM_reserve ::
  "(size_t \<Rightarrow> bool) \<Rightarrow> (nat \<Rightarrow> byte) \<Rightarrow> BUF_MEM \<Rightarrow> size_t \<Rightarrow> bool \<times> BUF_MEM" where
  "BUF_MEM_reserve al fresh buf cap =
     (if buf_max buf \<ge> cap then (True, buf)
      else
        let n0 = cap + 3 in
        if n0 < cap then (False, buf)
        else
          let n = n0 div 3; alloc_size = n * 4 in
          if alloc_size div 4 \<noteq> n then (False, buf)
          else case OPENSSL_realloc al fresh (buf_data buf) alloc_size of
              None \<Rightarrow> (False, buf)
            | Some new_buf \<Rightarrow> (True, buf\<lparr>buf_data := Some new_buf, buf_max := alloc_size\<rparr>))"

definition BUF_MEM_grow ::
  "(size_t \<Rightarrow> bool) \<Rightarrow> (nat \<Rightarrow> byte) \<Rightarrow> BUF_MEM \<Rightarrow> size_t \<Rightarrow> size_t \<times> BUF_MEM" where
  "BUF_MEM_grow al fresh buf len =
     (case BUF_MEM_reserve al fresh buf len of
        (False, buf1) \<Rightarrow> (0, buf1)
      | (True, buf1) \<Rightarrow>
          let buf2 = (if buf_length buf1 < len
                then buf1\<lparr>buf_data := map_option (store_at (unat (buf_length buf1))
                       (replicate (unat (len - buf_length buf1)) 0)) (buf_data buf1)\<rparr>
                else buf1)
          in (len, buf2\<lparr>buf_length := len\<rparr>))"

definition BUF_MEM_grow_clean ::
  "(size_t \<Rightarrow> bool) \<Rightarrow> (nat \<Rightarrow> byte) \<Rightarrow> BUF_MEM \<Rightarrow> size_t \<Rightarrow> size_t \<times> BUF_MEM" where
  "BUF_MEM_grow_clean al fresh buf len = BUF_MEM_grow al fresh buf len"

text \<open>\<open>xs\<close> is the input, whose length is a \<^verbatim>\<open>size_t\<close>.\<close>

definition BUF_MEM_append ::
  "(size_t \<Rightarrow> bool) \<Rightarrow> (nat \<Rightarrow> byte) \<Rightarrow> BUF_MEM \<Rightarrow> byte list \<Rightarrow> bool \<times> BUF_MEM" where
  "BUF_MEM_append al fresh buf xs =
     (let len = of_nat (length xs) :: size_t in
      if len = 0 then (True, buf)
      else
        let new_len = buf_length buf + len in
        if new_len < len then (False, buf)
        else case BUF_MEM_reserve al fresh buf new_len of
            (False, buf1) \<Rightarrow> (False, buf1)
          | (True, buf1) \<Rightarrow>
              (True, buf1\<lparr>buf_data := map_option (store_at (unat (buf_length buf1)) xs) (buf_data buf1),
                          buf_length := new_len\<rparr>))"

definition BUF_strdup :: "(size_t \<Rightarrow> bool) \<Rightarrow> byte list option \<Rightarrow> byte list option" where
  "BUF_strdup al str = OPENSSL_strdup al str"

definition BUF_strnlen :: "byte list \<Rightarrow> nat \<Rightarrow> nat" where
  "BUF_strnlen str max_len = OPENSSL_strnlen str max_len"

definition BUF_strndup :: "(size_t \<Rightarrow> bool) \<Rightarrow> byte list \<Rightarrow> nat \<Rightarrow> byte list option" where
  "BUF_strndup al str sz = OPENSSL_strndup al str sz"

definition BUF_strlcpy :: "byte list \<Rightarrow> nat \<Rightarrow> byte list \<times> nat" where
  "BUF_strlcpy src dst_size = OPENSSL_strlcpy src dst_size"

definition BUF_strlcat :: "byte list \<Rightarrow> byte list \<Rightarrow> nat \<Rightarrow> byte list \<times> nat" where
  "BUF_strlcat dst src dst_size = OPENSSL_strlcat dst src dst_size"

definition BUF_memdup :: "(size_t \<Rightarrow> bool) \<Rightarrow> byte list \<Rightarrow> byte list option" where
  "BUF_memdup al d = OPENSSL_memdup al d"

section \<open>Well-formed buffers and their contents\<close>

definition buf_ok :: "BUF_MEM \<Rightarrow> bool" where
  "buf_ok buf \<longleftrightarrow> buf_length buf \<le> buf_max buf \<and>
     (case buf_data buf of None \<Rightarrow> buf_max buf = 0 | Some d \<Rightarrow> length d = unat (buf_max buf))"

definition contents :: "BUF_MEM \<Rightarrow> byte list" where
  "contents buf = (case buf_data buf of None \<Rightarrow> [] | Some d \<Rightarrow> take (unat (buf_length buf)) d)"

lemma contents_length: "buf_ok buf \<Longrightarrow> length (contents buf) = unat (buf_length buf)"
  by (auto simp: buf_ok_def contents_def word_le_nat_alt split: option.splits)

lemma realloc_block:
  assumes "OPENSSL_realloc al fresh orig n = Some d"
  shows "length d = unat n"
    and "orig = Some old \<Longrightarrow> length old \<le> unat n \<Longrightarrow> take (length old) d = old"
  using assms by (auto simp: OPENSSL_realloc_def Let_def split: if_splits option.splits)

text \<open>Reserving keeps the contents; on success the capacity is there.\<close>

lemma buf_reserve_ok:
  assumes ok: "buf_ok buf" and r: "BUF_MEM_reserve al fresh buf cap = (res, buf')"
  shows "buf_ok buf'" and "contents buf' = contents buf" and "buf_length buf' = buf_length buf"
    and "\<not> res \<Longrightarrow> buf' = buf" and "res \<Longrightarrow> cap \<le> buf_max buf'"
    and "res \<Longrightarrow> 0 < cap \<Longrightarrow> \<exists>d. buf_data buf' = Some d"
proof -
  let ?n = "(cap + 3) div 3"
  have "buf_ok buf' \<and> contents buf' = contents buf \<and> buf_length buf' = buf_length buf \<and> (\<not> res \<longrightarrow> buf' = buf) \<and>
      (res \<longrightarrow> cap \<le> buf_max buf') \<and> (res \<longrightarrow> 0 < cap \<longrightarrow> (\<exists>d. buf_data buf' = Some d))"
  proof (cases "buf_max buf \<ge> cap \<or> \<not> res")
    case True
    with ok r show ?thesis
      by (auto simp: BUF_MEM_reserve_def Let_def buf_ok_def split: if_splits option.splits)
  next
    case False
    with r obtain d where d: "OPENSSL_realloc al fresh (buf_data buf) (?n * 4) = Some d" "\<not> cap + 3 < cap"
        "?n * 4 div 4 = ?n" "buf' = buf\<lparr>buf_data := Some d, buf_max := ?n * 4\<rparr>" "buf_max buf < cap" res
      by (auto simp: BUF_MEM_reserve_def Let_def split: if_splits option.splits)
    have "unat (cap + 3) = unat cap + 3" using d(2) unat_plus_simple [of cap 3] by (simp add: not_less)
    then have n: "unat ?n = (unat cap + 3) div 3" by (simp add: unat_div)
    have "unat (?n * 4) div 4 = unat ?n" using arg_cong [OF d(3), of unat] by (simp add: unat_div)
    then have cap: "unat cap \<le> unat (?n * 4)" using n by linarith
    with d(5) have max: "buf_max buf \<le> ?n * 4" by (simp add: word_le_nat_alt word_less_nat_alt)
    have "contents buf' = contents buf"
    proof (cases "buf_data buf")
      case None
      then have "unat (buf_length buf) \<le> unat (0 :: size_t)" using ok by (auto simp: buf_ok_def word_le_nat_alt)
      with None d(4) show ?thesis by (simp add: contents_def)
    next
      case (Some old)
      with ok max have l: "length old \<le> unat (?n * 4)" "unat (buf_length buf) \<le> length old"
        by (simp_all add: buf_ok_def word_le_nat_alt)
      have "take (unat (buf_length buf)) d = take (unat (buf_length buf)) (take (length old) d)" using l(2) by simp
      with realloc_block(2) [OF d(1) Some l(1)] Some d(4) show ?thesis by (simp add: contents_def)
    qed
    with ok d realloc_block(1) [OF d(1)] cap max show ?thesis
      by (auto simp: buf_ok_def word_le_nat_alt)
  qed
  then show "buf_ok buf'" and "contents buf' = contents buf" and "buf_length buf' = buf_length buf"
    and "\<not> res \<Longrightarrow> buf' = buf" and "res \<Longrightarrow> cap \<le> buf_max buf'"
    and "res \<Longrightarrow> 0 < cap \<Longrightarrow> \<exists>d. buf_data buf' = Some d" by simp_all
qed

text \<open>Appending and growing, on the contents.\<close>

lemma grow_correct:
  assumes ok: "buf_ok buf" and r: "BUF_MEM_grow al fresh buf len = (ret, buf')"
  shows "buf_ok buf' \<and> (ret = len \<and> contents buf' = take (unat len) (contents buf @ replicate (unat len) 0) \<or>
    ret = 0 \<and> len \<noteq> 0 \<and> buf' = buf)"
proof -
  obtain res buf1 where b: "BUF_MEM_reserve al fresh buf len = (res, buf1)" by fastforce
  note v = buf_reserve_ok [OF ok b]
  show ?thesis
  proof (cases res)
    case False
    then have "len \<noteq> 0" using b by (auto simp: BUF_MEM_reserve_def)
    with False v b r ok show ?thesis by (simp add: BUF_MEM_grow_def)
  next
    case True
    let ?l = "unat (buf_length buf)"
    show ?thesis
    proof (cases "buf_length buf < len")
      case True
      then have "0 < len" by (rule le_less_trans [OF word_zero_le])
      then obtain d where d: "buf_data buf1 = Some d" using v(6) \<open>res\<close> by blast
      have u: "unat (len - buf_length buf) = unat len - ?l" "?l < unat len"
        using True by (simp_all add: unat_sub word_less_nat_alt word_le_nat_alt)
      have m: "unat len \<le> length d" using v(1,5) \<open>res\<close> d by (simp add: buf_ok_def word_le_nat_alt)
      let ?z = "replicate (unat len - ?l) (0 :: byte)"
      have "length (store_at ?l ?z d) = length d" "take (unat len) (store_at ?l ?z d) = take ?l d @ ?z"
        using length_store_at [of ?l ?z d] store_at_take [of ?l d ?z] u(2) m by simp_all
      moreover have "take ?l d = contents buf" using v(2,3) d by (simp add: contents_def)
      moreover have "buf' = buf1\<lparr>buf_data := Some (store_at ?l ?z d), buf_length := len\<rparr>" "ret = len"
        using r b \<open>res\<close> True d u(1) v(3) by (auto simp: BUF_MEM_grow_def Let_def)
      moreover have "length (contents buf) = ?l" by (rule contents_length [OF ok])
      ultimately show ?thesis using v(1,5) d \<open>res\<close> u(2)
        by (simp add: buf_ok_def contents_def)
    next
      case False
      then have "unat len \<le> ?l" by (simp add: word_less_nat_alt)
      moreover have "buf' = buf1\<lparr>buf_length := len\<rparr>" "ret = len"
        using r b \<open>res\<close> False v(3) by (auto simp: BUF_MEM_grow_def Let_def)
      moreover have "contents (buf1\<lparr>buf_length := len\<rparr>) = take (unat len) (contents buf1)"
        using calculation(1) v(3) by (simp add: contents_def min_absorb1 split: option.split)
      moreover have "buf_ok (buf1\<lparr>buf_length := len\<rparr>)" using v(1,5) \<open>res\<close>
        by (simp add: buf_ok_def split: option.splits)
      ultimately show ?thesis using v(2) contents_length [OF ok] by simp
    qed
  qed
qed

lemma append_correct:
  assumes ok: "buf_ok buf" and len: "length xs < 2 ^ 64" and r: "BUF_MEM_append al fresh buf xs = (res, buf')"
  shows "buf_ok buf' \<and> contents buf' = (if res then contents buf @ xs else contents buf) \<and> (\<not> res \<longrightarrow> buf' = buf)"
proof -
  let ?l = "of_nat (length xs) :: size_t"
  have u: "unat ?l = length xs" using len by (simp add: unat_of_nat)
  show ?thesis
  proof (cases "?l = 0 \<or> buf_length buf + ?l < ?l")
    case True
    moreover have "?l = 0 \<Longrightarrow> xs = []" using u by (metis length_0_conv unat_0)
    ultimately show ?thesis using ok r by (auto simp: BUF_MEM_append_def Let_def split: if_splits)
  next
    case False
    obtain res1 buf1 where b: "BUF_MEM_reserve al fresh buf (buf_length buf + ?l) = (res1, buf1)" by fastforce
    note v = buf_reserve_ok [OF ok b]
    show ?thesis
    proof (cases res1)
      case False
      with v b r ok \<open>\<not> (?l = 0 \<or> buf_length buf + ?l < ?l)\<close> show ?thesis by (simp add: BUF_MEM_append_def Let_def)
    next
      case True
      let ?n = "unat (buf_length buf)"
      have s: "unat (buf_length buf + ?l) = ?n + length xs"
        using False u unat_plus_simple [of ?l "buf_length buf"] by (simp add: add.commute not_less)
      have "0 < buf_length buf + ?l" using s False u by (auto simp: word_less_nat_alt)
      then obtain d where d: "buf_data buf1 = Some d" using v(6) True by blast
      have m: "?n + length xs \<le> length d" using v(1,5) True d s by (simp add: buf_ok_def word_le_nat_alt)
      have "take ?n d = contents buf" using v(2,3) d by (simp add: contents_def)
      moreover have "buf' = buf1\<lparr>buf_data := Some (store_at ?n xs d), buf_length := buf_length buf + ?l\<rparr>" "res"
        using r b True False d v(3) by (simp_all add: BUF_MEM_append_def Let_def)
      ultimately show ?thesis using v(1,5) True d s length_store_at [OF m] store_at_take [OF add_leD1 [OF m]]
        by (simp add: buf_ok_def contents_def)
    qed
  qed
qed


section \<open>Sequences of calls\<close>

datatype buf_call =
    Reserve "size_t \<Rightarrow> bool" "nat \<Rightarrow> byte" size_t
  | Grow "size_t \<Rightarrow> bool" "nat \<Rightarrow> byte" size_t
  | Grow_clean "size_t \<Rightarrow> bool" "nat \<Rightarrow> byte" size_t
  | Append "size_t \<Rightarrow> bool" "nat \<Rightarrow> byte" "byte list"

text \<open>The outcome of a call: did it succeed? Growing to length 0 cannot fail.\<close>

fun buf_exec :: "buf_call \<Rightarrow> BUF_MEM \<Rightarrow> bool \<times> BUF_MEM" where
  "buf_exec (Reserve al fresh cap) buf = BUF_MEM_reserve al fresh buf cap"
| "buf_exec (Grow al fresh len) buf = (case BUF_MEM_grow al fresh buf len of (r, b) \<Rightarrow> (r = len, b))"
| "buf_exec (Grow_clean al fresh len) buf = (case BUF_MEM_grow_clean al fresh buf len of (r, b) \<Rightarrow> (r = len, b))"
| "buf_exec (Append al fresh xs) buf = BUF_MEM_append al fresh buf xs"

fun buf_allowed :: "buf_call \<Rightarrow> BUF_MEM \<Rightarrow> bool" where
  "buf_allowed (Append al fresh xs) buf = (length xs < 2 ^ 64)"
| "buf_allowed _ buf = True"

text \<open>What a successful call does to the contents.\<close>

fun buf_spec :: "buf_call \<Rightarrow> byte list \<Rightarrow> byte list" where
  "buf_spec (Reserve al fresh cap) c = c"
| "buf_spec (Grow al fresh len) c = take (unat len) (c @ replicate (unat len) 0)"
| "buf_spec (Grow_clean al fresh len) c = take (unat len) (c @ replicate (unat len) 0)"
| "buf_spec (Append al fresh xs) c = c @ xs"

definition apply_outcome :: "byte list \<Rightarrow> buf_call \<times> bool \<Rightarrow> byte list" where
  "apply_outcome c r = (if snd r then buf_spec (fst r) c else c)"

lemma buf_exec_correct:
  assumes "buf_ok buf" and "buf_allowed call buf" and "buf_exec call buf = (ok, buf')"
  shows "buf_ok buf' \<and> contents buf' = apply_outcome (contents buf) (call, ok) \<and> (\<not> ok \<longrightarrow> buf' = buf)"
proof (cases call)
  case (Reserve al fresh cap)
  with assms(3) buf_reserve_ok [OF assms(1), of al fresh cap ok buf'] show ?thesis by (auto simp: apply_outcome_def)
next
  case (Grow al fresh len)
  with assms(3) grow_correct [OF assms(1), of al fresh len] show ?thesis
    by (auto simp: apply_outcome_def split: prod.splits)
next
  case (Grow_clean al fresh len)
  with assms(3) grow_correct [OF assms(1), of al fresh len] show ?thesis
    by (auto simp: apply_outcome_def BUF_MEM_grow_clean_def split: prod.splits)
next
  case (Append al fresh xs)
  with assms append_correct [OF assms(1), of xs al fresh ok buf'] show ?thesis by (auto simp: apply_outcome_def)
qed

lemma buf_run_correct:
  "buf_ok buf \<Longrightarrow> calls_allowed buf_allowed buf_exec calls buf \<Longrightarrow> run_calls buf_exec calls buf = (oks, buf') \<Longrightarrow>
   buf_ok buf' \<and> contents buf' = foldl apply_outcome (contents buf) (zip calls oks)"
proof (induction calls arbitrary: buf oks)
  case (Cons c calls)
  obtain ok buf1 where e: "buf_exec c buf = (ok, buf1)" by fastforce
  with Cons.prems obtain oks1 where "oks = ok # oks1" "run_calls buf_exec calls buf1 = (oks1, buf')"
    by (auto split: prod.splits)
  with Cons.IH [of buf1 oks1] Cons.prems e buf_exec_correct [OF Cons.prems(1) _ e] show ?case by auto
qed simp

text \<open>
  C40 (refinement). A buffer is a list of bytes: after any calls on a new one, its length and
  its first bytes are what the successful calls make of the empty list, appending bytes and
  growing with zeros or truncating; a failed call changes nothing; and the length stays
  inside the allocated block, however the sizes round and wrap.
\<close>

theorem buf_mem_refines_bytes:
  assumes "BUF_MEM_new al = Some buf0" and "calls_allowed buf_allowed buf_exec calls buf0"
    and "run_calls buf_exec calls buf0 = (oks, buf)"
  shows "contents buf = foldl apply_outcome [] (zip calls oks) \<and>
    unat (buf_length buf) = length (contents buf) \<and> unat (buf_length buf) \<le> unat (buf_max buf) \<and>
    (case buf_data buf of None \<Rightarrow> buf_max buf = 0 | Some d \<Rightarrow> length d = unat (buf_max buf))"
proof -
  have "buf_ok buf0" "contents buf0 = []"
    using assms(1) by (auto simp: BUF_MEM_new_def buf_ok_def contents_def split: if_splits)
  with buf_run_correct [OF this(1) assms(2,3)] contents_length [of buf] show ?thesis
    by (simp add: buf_ok_def word_le_nat_alt)
qed

definition sample_buf_calls :: "buf_call list" where
  "sample_buf_calls =
     [Append (\<lambda>_. True) (\<lambda>_. 9) [1, 2, 3], Append (\<lambda>_. False) (\<lambda>_. 9) (replicate 9 4), Append (\<lambda>_. True) (\<lambda>_. 9) [4],
      Grow (\<lambda>_. True) (\<lambda>_. 9) 7, Grow (\<lambda>_. True) (\<lambda>_. 9) 2, Reserve (\<lambda>_. True) (\<lambda>_. 9) (- 1)]"

theorem buf_mem_refines_bytes_witness:
  "let r = run_calls buf_exec sample_buf_calls (the (BUF_MEM_new (\<lambda>_. True)))
   in fst r = [True, False, True, True, True, False] \<and> contents (snd r) = [1, 2] \<and>
     contents (snd r) = foldl apply_outcome [] (zip sample_buf_calls (fst r)) \<and> buf_max (snd r) = 8"
proof -
  let ?b = "the (BUF_MEM_new (\<lambda>_. True))"
  let ?r = "run_calls buf_exec sample_buf_calls ?b"
  have n: "BUF_MEM_new (\<lambda>_. True) = Some ?b"
    by (simp add: BUF_MEM_new_def OPENSSL_zalloc_def OPENSSL_malloc_def)
  have "calls_allowed buf_allowed buf_exec sample_buf_calls ?b" by (simp add: sample_buf_calls_def)
  from buf_mem_refines_bytes [OF n this prod.collapse [symmetric]]
  have "contents (snd ?r) = foldl apply_outcome [] (zip sample_buf_calls (fst ?r))" by blast
  moreover have "fst ?r = [True, False, True, True, True, False]" "contents (snd ?r) = [1, 2]"
      "buf_max (snd ?r) = 8" by code_simp+
  ultimately show ?thesis unfolding Let_def by blast
qed

end
