(* ===== verification/Spec2Isabelle.thy ===== *)
theory Spec2Isabelle
  imports Pb_Varint32 Pb_Encode_Spec Pb_Encode_Bound Pb_Decode_Safe Cbs_Time Oid_Text Cbb_Steps Unicode Base64_Stream Stack_Steps
    Ber_To_Der Lhash Buf
begin

text \<open>
  \<^bold>\<open>What this development verifies.\<close> The repository holds three small Swift applications
  (a note pad and two versions of a social feed) that talk to Firebase. Nearly all of its code
  is the C and C++ that CocoaPods vendors below \<^verbatim>\<open>Socially-UIKit/Pods\<close>. The development models
  the C code at the bottom of that stack on which everything else rests: the protocol buffer
  codec through which Firestore reads and writes its data (nanopb), and the base layer of
  BoringSSL, which parses and builds every certificate and key that gRPC handles: memory and
  constant-time primitives, byte-string readers and builders with their DER codec, calendar
  time, base64, buffers, hash tables and the pointer stack.

  \<^bold>\<open>Parts and theories.\<close> Paths are relative to \<^verbatim>\<open>Socially-UIKit/Pods\<close>.

  \<^item> \<open>Prelude\<close>: names for the C integer types and facts on words, bytes and lists.

  \<^item> \<open>Pb_Stream\<close>, \<open>Pb_Wire\<close>, \<open>Pb_Varint32\<close>: nanopb (\<^verbatim>\<open>nanopb/pb_encode.c\<close>, \<^verbatim>\<open>pb_decode.c\<close>). A stream is a
    record with its remaining budget, its error message and either a memory buffer or a client
    callback. \<open>Pb_Wire\<close> has the varint, fixed-width, tag and string encoders and decoders, the
    skipping functions and substreams. The round trips hold for all 64-bit values; the locale
    of sinks carries the composition of encoders. \<open>Pb_Varint32\<close> says exactly which varints the
    32-bit decoder accepts.

  \<^item> \<open>Unicode\<close>: \<^verbatim>\<open>crypto/bytestring/unicode.c\<close>, code points on byte strings and builders.

  \<^item> \<open>Pb_Fields\<close>: \<^verbatim>\<open>nanopb/pb.h\<close>, \<^verbatim>\<open>pb_common.c\<close>: descriptors and the iterator that walks a
    message in memory. A message is a region of a byte-addressed memory; a descriptor array is
    the list of its entries, a pointer into it an index.

  \<^item> \<open>Pb_Encode\<close>, \<open>Pb_Encode_Spec\<close>, \<open>Pb_Encode_Bound\<close>: the message layer of \<^verbatim>\<open>pb_encode.c\<close>.
    An environment holds the memory, the descriptors behind pointers and the client's
    callbacks. \<open>Pb_Encode_Spec\<close> says by recursion on the descriptors which bytes a message has,
    or that it is refused, and shows that the encoder delivers exactly these to every sink that
    keeps the stream contract (memory buffers and callbacks alike), computing sizes in a first
    pass as the code does. \<open>Pb_Encode_Bound\<close> shows that the bound on the nesting is harmless.

  \<^item> \<open>Pb_Decode\<close>, \<open>Pb_Decode_Frame\<close>, \<open>Pb_Decode_Layout\<close>, \<open>Pb_Decode_Safe\<close>: the message layer of
    \<^verbatim>\<open>pb_decode.c\<close> over a heap of bytes and allocated blocks. The last three show that decoding
    into a message of static allocation whose fields fit ends and stays within the message, for
    every input; an array of fixed count fits only if it spans four bytes, since the code
    overruns a shorter one.

  \<^item> \<open>Mem\<close>: \<^verbatim>\<open>crypto/mem.c\<close>: allocation wrappers (a function from sizes to success stands
    for the system allocator), constant-time comparison, bounded strings.

  \<^item> \<open>Constant_Time\<close>: the branch-free primitives of \<^verbatim>\<open>crypto/internal.h\<close> on 64-bit words, each
    shown to compute the corresponding branch.

  \<^item> \<open>Posix_Time\<close>: \<^verbatim>\<open>crypto/asn1/posix_time.c\<close>: calendar time and seconds are in bijection.

  \<^item> \<open>Cbs\<close>, \<open>Der\<close>, \<open>Cbs_Time\<close>: \<^verbatim>\<open>crypto/bytestring/cbs.c\<close>. A \<^verbatim>\<open>CBS\<close> is the list of the
    bytes left; a reader returns an optional result and the rest. \<open>Der\<close> specifies the encodings
    (big-endian words, base-128 integers, tags, lengths, elements) and shows that the readers
    accept exactly them. \<open>Cbs_Time\<close> treats the time strings of RFC 5280, with and without time
    zone offsets.

  \<^item> \<open>Cbb\<close>, \<open>Cbb_Flush\<close>, \<open>Cbb_Asn1\<close>, \<open>Cbb_Writers\<close>, \<open>Oid_Text\<close>, \<open>Cbb_Steps\<close>:
    \<^verbatim>\<open>crypto/bytestring/cbb.c\<close>. The state is the buffer of the top-level object and the chain of
    pending children; a \<^verbatim>\<open>CBB *\<close> is a depth in the chain. \<open>Cbb_Flush\<close> shows that flushing
    refines a specification that replaces the pending prefixes from the inside out, and succeeds
    only when every length fits its prefix;
    \<open>Cbb_Writers\<close> and \<open>Oid_Text\<close> show what the writers append and that the readers of \<open>Cbs\<close>
    give it back (the interface \<open>byte_appender\<close> carries the composition); \<open>Cbb_Steps\<close> has the
    builder as a state machine, with the interface \<open>cbb_invariant\<close> interpreted for the memory
    invariant and for the permanence of errors.

  \<^item> \<open>Ber\<close>, \<open>Ber_To_Der\<close>: \<^verbatim>\<open>crypto/bytestring/ber.c\<close>, the conversion of BER to DER. \<open>Ber\<close>
    has the walk \<^verbatim>\<open>cbs_find_ber\<close>, the recursive \<^verbatim>\<open>cbs_convert_ber\<close> over the reader and the builder,
    a tree of DER values with its encoding, and the relations \<open>ber_values\<close> and \<open>ber_string\<close> that
    say which bytes are a BER encoding of which values; it shows that the conversion always
    returns, succeeds exactly on such bytes and appends their DER. \<open>Ber_To_Der\<close> has the two
    entry points and the properties.

  \<^item> \<open>Calls\<close>: runs of calls on a state and the interface \<open>refined_machine\<close>: an operation that
    keeps an invariant and commutes with an abstraction refines the specification over every
    sequence of calls.

  \<^item> \<open>Lhash\<close>: \<^verbatim>\<open>crypto/lhash/lhash.c\<close>, the chained hash table. A chain is the list of its cells,
    a cell carries its address, and an iteration follows addresses, so that a callback that
    frees the cell the walk would read next is seen. The table refines a partial map
    (\<open>hash_table: refined_machine\<close>), its chains stay short, and an iteration visits each element once.

  \<^item> \<open>Buf\<close>: \<^verbatim>\<open>crypto/buf/buf.c\<close>, the growing buffer as a list of bytes.

  \<^item> \<open>Base64\<close>, \<open>Base64_Stream\<close>: \<^verbatim>\<open>crypto/base64/base64.c\<close>, the one-shot and the streaming codec.

  \<^item> \<open>Heap_Sort\<close>, \<open>Stack\<close>, \<open>Stack_Steps\<close>: \<^verbatim>\<open>crypto/stack/stack.c\<close>. \<open>Heap_Sort\<close> has the sort and
    the binary search on arrays under the interface \<open>comparison\<close>, which the comparison of SET OF
    elements also satisfies; \<open>Stack\<close> the stack operations and their effect on the list of
    elements; \<open>Stack_Steps\<close> the state machine and the properties.

  \<^bold>\<open>Conventions.\<close> The target is the little-endian 64-bit platform the pods are built for; nanopb
  is built with 32-bit field descriptors and allocation, as its pod configures it. Integers
  whose width matters are words, and wrap-around is part of the definitions; lengths of lists
  are natural numbers converted where the C code stores them. An output buffer is the list of
  the bytes stored in it. Errors are values: an option, a flag with the state after the failure,
  or a sum. Functions outside the sources, such as the system allocator, stream callbacks and
  comparison functions, are parameters, and what the code relies on is a hypothesis of the
  properties that need it. Assertions, which
  release builds drop, are no branches of the model. Loops are total functions with a termination
  proof where they always end; the loops of the message decoder and of the iteration over a
  hash table, which a client's callback can keep going, are partial functions with \<open>None\<close> for not returning. Messages
  nest as the descriptors say, and descriptors may be cyclic, so \<open>pb_encode\<close> and \<open>pb_decode\<close>
  take a bound \<open>k\<close> on the depth and give \<open>None\<close> below it: \<open>pb_encode_bound\<close> shows that a result
  is the same under every larger bound, and \<open>pb_decode_confined\<close> that a bound above the nesting
  of the message type always gives a result. \<open>None\<close> also stands for what C leaves undefined,
  such as a call through a null pointer.

  \<^bold>\<open>Properties.\<close> The wire codec, the time codec, base64 and the ASN.1 codec have round trips; the
  DER reader and the time parser are shown equivalent to a specification of the encodings;
  so is the conversion of BER; the builder's flush, the streaming encoder, the stack, the
  buffer and the hash table refine abstract specifications; the
  builder and the stack keep their memory invariants over all sequences of calls; lengths and
  capacities are shown exact or bounded where they could overflow. Eight places where the
  code differs from its purpose or its documentation came up: the 32-bit varint decoder accepts
  values that are neither 32-bit values nor sign extensions of them, the message decoder accepts the field number 0 for an empty message type and
  overruns short arrays of fixed count when it resets them, the time parser applies zone offsets with the wrong sign, setting an
  element of a stack leaves its sorted flag stale, and the conversion of BER takes the whole
  input where its documentation speaks of one element (each with a theorem); the trimming
  base64 decoder does not strip minuses; and the ASN.1 writers report an error
  through the base pointer of a child even when that child has been detached.

  \<^bold>\<open>Not modelled.\<close> The generated message descriptors of Firestore (they are values of the
  descriptor type) and the callbacks of its serializer (parameters of the environment); a read
  callback that fails after storing a part of its bytes is taken to store none. All
  cryptography, X.509 and TLS; gRPC, Abseil, LevelDB and the Firestore client, which are C++
  with threads and I/O; and the Swift applications.
\<close>

end
